(* ===== verification/TL_Prelude.thy ===== *)
theory TL_Prelude
  imports Complex_Main "HOL-Library.Word"
begin

text \<open>
  Shared vocabulary of the development: how the C++ scalar types of
  \<^verbatim>\<open>support/testlib.h\<close> are represented, the control-character constants of that
  header, and the outcome type that every operation of the model returns.

  \<^item> \<^verbatim>\<open>std::string\<close> and C strings are HOL \<^typ>\<open>string\<close>s, one \<^typ>\<open>char\<close> per byte.
  \<^item> On the judge's target (g++ on x86-64) \<^verbatim>\<open>char\<close> is signed, so a byte that is
    promoted to \<^verbatim>\<open>int\<close> has the value \<open>schar\<close>, between -128 and 127;
    \<open>to_char\<close> is the narrowing cast \<^verbatim>\<open>char(c)\<close>.
  \<^item> \<^verbatim>\<open>int\<close>, \<^verbatim>\<open>long long\<close> and their unsigned versions are \<^typ>\<open>int\<close>
    restricted to their range, with every check against the range written out.
\<close>

section \<open>Collections of facts\<close>

named_theorems char_simps \<open>facts on bytes and their integer values\<close>
named_theorems outcome_simps \<open>unfolding rules for outcomes\<close>

section \<open>Integers of the target\<close>

definition INT_MAX :: int where "INT_MAX = 2147483647"
definition INT_MIN :: int where "INT_MIN = - 2147483648"
definition LLONG_MAX :: int where "LLONG_MAX = 9223372036854775807"
definition LLONG_MIN :: int where "LLONG_MIN = - 9223372036854775808"
definition ULLONG_MAX :: int where "ULLONG_MAX = 18446744073709551615"

lemmas limit_defs = INT_MAX_def INT_MIN_def LLONG_MAX_def LLONG_MIN_def ULLONG_MAX_def

text \<open>Division and remainder of C++ truncate towards zero.\<close>

definition cdiv :: "int \<Rightarrow> int \<Rightarrow> int" where
  "cdiv a b = sgn a * sgn b * (\<bar>a\<bar> div \<bar>b\<bar>)"

definition cmod :: "int \<Rightarrow> int \<Rightarrow> int" where
  "cmod a b = sgn a * (\<bar>a\<bar> mod \<bar>b\<bar>)"

section \<open>Bytes\<close>

definition schar :: "char \<Rightarrow> int" where
  "schar c = (let n = of_char c in if n < 128 then n else n - 256)"

definition uchar :: "char \<Rightarrow> int" where
  "uchar c = of_char c"

definition to_char :: "int \<Rightarrow> char" where
  "to_char i = char_of (i mod 256)"

definition LF :: int where "LF = 10"
definition CR :: int where "CR = 13"
definition TAB :: int where "TAB = 9"
definition SPACE :: int where "SPACE = 32"
definition EOFC :: int where "EOFC = 255"

lemmas control_defs = LF_def CR_def TAB_def SPACE_def EOFC_def

text \<open>The test \<^verbatim>\<open>'0' <= c && c <= '9'\<close> that the header writes out at each use.\<close>

definition is_digit :: "char \<Rightarrow> bool" where
  "is_digit c \<longleftrightarrow> 48 \<le> schar c \<and> schar c \<le> 57"

section \<open>Outcomes\<close>

text \<open>
  \<^verbatim>\<open>enum TResult\<close> is an integer type: \<^verbatim>\<open>_pc(k)\<close> is \<^verbatim>\<open>TResult(_partially + k)\<close>.
\<close>

type_synonym TResult = int

abbreviation (input) TR_ok :: TResult where "TR_ok \<equiv> 0"
abbreviation (input) TR_wa :: TResult where "TR_wa \<equiv> 1"
abbreviation (input) TR_pe :: TResult where "TR_pe \<equiv> 2"
abbreviation (input) TR_fail :: TResult where "TR_fail \<equiv> 3"
abbreviation (input) TR_dirt :: TResult where "TR_dirt \<equiv> 4"
abbreviation (input) TR_points :: TResult where "TR_points \<equiv> 5"
abbreviation (input) TR_unexpected_eof :: TResult where "TR_unexpected_eof \<equiv> 8"
abbreviation (input) TR_partially :: TResult where "TR_partially \<equiv> 16"

datatype TMode = M_input | M_output | M_answer

text \<open>
  A call of a quit function never returns. In the model it is a value: which stream it was
  called on (what \<^verbatim>\<open>InStream::quit\<close> reads of \<^verbatim>\<open>*this\<close>; \<open>None\<close> is the free function, which
  calls \<^verbatim>\<open>ouf.quit\<close>), the result code and the message. The operation \<open>quit\<close> of the theory
  on verdicts turns it into the exit of the process.
\<close>

record stream_info =
  si_mode :: TMode
  si_name :: string
  si_lastLine :: int
  si_maxMessageLength :: nat

datatype quitreq = QuitReq (q_on: "stream_info option") (q_result: TResult) (q_msg: string)

text \<open>
  An operation on a state \<open>'s\<close> either returns a value and the new state, or quits (the state
  at that moment is kept), or runs into undefined behaviour (a null pointer, an index out of
  range), which is the value \<open>Crash\<close>.
\<close>

datatype ('s, 'a) outcome = Ret 'a 's | Quit quitreq 's | Crash

type_synonym ('s, 'a) prog = "'s \<Rightarrow> ('s, 'a) outcome"

definition andThen :: "('s, 'a) outcome \<Rightarrow> ('a \<Rightarrow> 's \<Rightarrow> ('s, 'b) outcome) \<Rightarrow> ('s, 'b) outcome" where
  "andThen m f = (case m of Ret a s \<Rightarrow> f a s | Quit q s \<Rightarrow> Quit q s | Crash \<Rightarrow> Crash)"

definition testlib_fail :: "string \<Rightarrow> ('s, 'a) prog" where
  "testlib_fail msg s = Quit (QuitReq None TR_fail msg) s"

section \<open>Facts on outcomes\<close>

lemma andThen_simps [simp, outcome_simps]:
  "andThen (Ret a s) f = f a s"
  "andThen (Quit q s) f = Quit q s"
  "andThen Crash f = Crash"
  by (simp_all add: andThen_def)

lemma andThen_Ret_iff:
  "andThen m f = Ret b s' \<longleftrightarrow> (\<exists>a s. m = Ret a s \<and> f a s = Ret b s')"
  by (cases m) simp_all

lemma andThen_assoc: "andThen (andThen m f) g = andThen m (\<lambda>a s. andThen (f a s) g)"
  by (cases m) simp_all

lemma andThen_cong [fundef_cong]:
  "m = m' \<Longrightarrow> (\<And>a s. m' = Ret a s \<Longrightarrow> f a s = g a s) \<Longrightarrow> andThen m f = andThen m' g"
  by (cases m') simp_all

section \<open>Facts on bytes\<close>

lemma of_char_ge_0: "0 \<le> (of_char c :: int)"
  by (metis of_char_mod_256 pos_mod_sign zero_less_numeral)

lemma of_char_less_256: "(of_char c :: int) < 256"
  by (metis of_char_mod_256 pos_mod_bound zero_less_numeral)

lemma schar_range: "- 128 \<le> schar c" "schar c \<le> 127"
  using of_char_ge_0 [of c] of_char_less_256 [of c] by (auto simp: schar_def Let_def)

lemma uchar_range: "0 \<le> uchar c" "uchar c \<le> 255"
  using of_char_ge_0 [of c] of_char_less_256 [of c] by (simp_all add: uchar_def)

lemma schar_not_EOFC [simp]: "schar c \<noteq> EOFC" "EOFC \<noteq> schar c"
  using schar_range [of c] by (auto simp: EOFC_def)

lemma char_of_mod_256: "char_of (i mod 256 :: int) = char_of i"
  by (rule of_char_eqI [where ?'a = int]) simp

lemma to_char_schar [simp]: "to_char (schar c) = c"
proof -
  have "schar c mod 256 = of_char c"
    using of_char_ge_0 [of c] of_char_less_256 [of c]
    by (auto simp: schar_def Let_def minus_mod_self2)
  then show ?thesis by (simp add: to_char_def)
qed

lemma to_char_uchar [simp]: "to_char (uchar c) = c"
  by (simp add: to_char_def uchar_def)

lemma schar_eq_iff [simp]: "schar c = schar d \<longleftrightarrow> c = d"
  by (metis to_char_schar)

lemma uchar_eq_iff [simp]: "uchar c = uchar d \<longleftrightarrow> c = d"
  by (metis to_char_uchar)

lemma schar_uchar: "uchar c < 128 \<Longrightarrow> schar c = uchar c"
  by (simp add: schar_def uchar_def Let_def)

lemma schar_eq_uchar: "schar c = (if uchar c < 128 then uchar c else uchar c - 256)"
  by (simp add: schar_def uchar_def Let_def)

lemma schar_to_char:
  assumes "- 128 \<le> i" "i \<le> 127"
  shows "schar (to_char i) = i"
proof (cases "0 \<le> i")
  case True
  with assms show ?thesis by (simp add: schar_def to_char_def)
next
  case False
  have "i mod 256 = (i + 256) mod 256" by simp
  also have "\<dots> = i + 256" using assms False by (intro mod_pos_pos_trivial) simp_all
  finally show ?thesis using assms False by (simp add: schar_def to_char_def Let_def)
qed

lemma uchar_to_char: "0 \<le> i \<Longrightarrow> i \<le> 255 \<Longrightarrow> uchar (to_char i) = i"
  by (simp add: uchar_def to_char_def)

lemma uchar_eq_EOFC_iff: "uchar c = EOFC \<longleftrightarrow> c = CHR 0xFF"
proof -
  have "uchar (CHR 0xFF) = EOFC" by (simp add: uchar_def EOFC_def)
  then show ?thesis by (metis uchar_eq_iff)
qed

section \<open>Truncating division\<close>

lemma cdiv_10_less: "n \<noteq> 0 \<Longrightarrow> \<bar>cdiv n 10\<bar> < \<bar>n\<bar>"
  by (auto simp: cdiv_def abs_mult sgn_if)

lemma cmod_10_abs: "\<bar>cmod n 10\<bar> = \<bar>n\<bar> mod 10"
  by (auto simp: cmod_def abs_mult sgn_if)

end
