(* ===== verification/TL_Text.thy ===== *)
theory TL_Text
  imports TL_Prelude
begin

text \<open>
  The string helpers of \<^verbatim>\<open>support/testlib.h\<close> that every other component uses: number
  formatting (\<^verbatim>\<open>vtos\<close>, \<^verbatim>\<open>toHumanReadableString\<close>), letter case, white-space tests and
  \<^verbatim>\<open>trim\<close>, the truncation of long texts in messages (\<^verbatim>\<open>__testlib_part\<close>, \<^verbatim>\<open>compress\<close>),
  splitting and joining, and the bracketed notes that \<^verbatim>\<open>InStream::quit\<close> adds to its message.
  The lemmas characterise the loops: \<^verbatim>\<open>vtos\<close> is the canonical decimal notation, \<^verbatim>\<open>trim\<close> cuts
  exactly the blanks at both ends, \<^verbatim>\<open>join\<close> undoes \<^verbatim>\<open>split\<close>, and a note is never added twice.
\<close>

section \<open>Definitions\<close>

subsection \<open>Small numeric helpers\<close>

definition testlib_abs :: "int \<Rightarrow> int" where
  "testlib_abs x = (if x > 0 then x else - x)"

definition testlib_min :: "int \<Rightarrow> int \<Rightarrow> int" where
  "testlib_min a b = (if a < b then a else b)"

definition testlib_max :: "int \<Rightarrow> int \<Rightarrow> int" where
  "testlib_max a b = (if a > b then a else b)"

definition testlib_crop :: "int \<Rightarrow> int \<Rightarrow> int \<Rightarrow> int" where
  "testlib_crop value a b = testlib_min (testlib_max value a) (b - 1)"

subsection \<open>Formatting of numbers\<close>

function vtos_loop :: "int \<Rightarrow> string \<Rightarrow> string" where
  "vtos_loop n s =
     (if n \<noteq> 0 then
        let digit = cmod n 10; digit = (if digit < 0 then - digit else digit)
        in vtos_loop (cdiv n 10) (s @ [to_char (48 + digit)])
      else s)"
  by pat_completeness auto
termination
  by (relation "measure (\<lambda>(n, s). nat \<bar>n\<bar>)") (auto dest: cdiv_10_less)

definition vtos :: "int \<Rightarrow> string" where
  "vtos t =
     (if t = 0 then ''0''
      else let s = rev (vtos_loop t []) in if t < 0 then ''-'' @ s else s)"

function strip_zeroes :: "int \<Rightarrow> nat \<Rightarrow> int \<times> nat" where
  "strip_zeroes n' trailingZeroCount =
     (if n' \<noteq> 0 \<and> cmod n' 10 = 0 then strip_zeroes (cdiv n' 10) (Suc trailingZeroCount)
      else (n', trailingZeroCount))"
  by pat_completeness auto
termination
  by (relation "measure (\<lambda>(n, k). nat \<bar>n\<bar>)") (auto dest: cdiv_10_less)

definition toHumanReadableString_signed :: "int \<Rightarrow> string" where
  "toHumanReadableString_signed n =
     (if n = 0 then vtos n
      else let (n', trailingZeroCount) = strip_zeroes n 0 in
        if trailingZeroCount \<ge> 7 then
          if n' = 1 then ''10^'' @ vtos (int trailingZeroCount)
          else if n' = - 1 then ''-10^'' @ vtos (int trailingZeroCount)
          else vtos n' @ ''*10^'' @ vtos (int trailingZeroCount)
        else vtos n)"

definition toHumanReadableString_unsigned :: "int \<Rightarrow> string" where
  "toHumanReadableString_unsigned n =
     (if n = 0 then vtos n
      else let (n', trailingZeroCount) = strip_zeroes n 0 in
        if trailingZeroCount \<ge> 7 then
          if n' = 1 then ''10^'' @ vtos (int trailingZeroCount)
          else vtos n' @ ''*10^'' @ vtos (int trailingZeroCount)
        else vtos n)"

function removeZeroes_loop :: "string \<Rightarrow> string" where
  "removeZeroes_loop value =
     (if value \<noteq> [] \<and> last value = CHR ''0'' \<and> CHR ''.'' \<in> set value
      then removeZeroes_loop (butlast value) else value)"
  by pat_completeness auto
termination
  by (relation "measure length") auto

definition removeDoubleTrailingZeroes :: "string \<Rightarrow> string" where
  "removeDoubleTrailingZeroes value =
     (let value = removeZeroes_loop value in
      if value \<noteq> [] \<and> last value = CHR ''.'' then value @ ''0'' else value)"

definition englishEnding :: "int \<Rightarrow> string" where
  "englishEnding x =
     (let x = cmod x 100 in
      if cdiv x 10 = 1 then ''th''
      else if cmod x 10 = 1 then ''st''
      else if cmod x 10 = 2 then ''nd''
      else if cmod x 10 = 3 then ''rd''
      else ''th'')"

subsection \<open>Letter case, white space, trimming\<close>

definition upperCase :: "string \<Rightarrow> string" where
  "upperCase s = map (\<lambda>c. if 97 \<le> schar c \<and> schar c \<le> 122 then to_char (schar c - 97 + 65) else c) s"

definition lowerCase :: "string \<Rightarrow> string" where
  "lowerCase s = map (\<lambda>c. if 65 \<le> schar c \<and> schar c \<le> 90 then to_char (schar c - 65 + 97) else c) s"

definition isEof :: "int \<Rightarrow> bool" where
  "isEof c \<longleftrightarrow> c = EOFC"

definition isEoln :: "int \<Rightarrow> bool" where
  "isEoln c \<longleftrightarrow> c = LF \<or> c = CR"

definition isBlanks :: "int \<Rightarrow> bool" where
  "isBlanks c \<longleftrightarrow> c = LF \<or> c = CR \<or> c = SPACE \<or> c = TAB"

function trim_left :: "string \<Rightarrow> nat \<Rightarrow> nat" where
  "trim_left s left =
     (if left < length s \<and> isBlanks (schar (s ! left)) then trim_left s (Suc left) else left)"
  by pat_completeness auto
termination
  by (relation "measure (\<lambda>(s, left). length s - left)") auto

text \<open>The second loop of \<^verbatim>\<open>trim\<close> counts \<^verbatim>\<open>right\<close> down; the argument here is \<^verbatim>\<open>right + 1\<close>.\<close>

primrec trim_right :: "string \<Rightarrow> nat \<Rightarrow> nat" where
  "trim_right s 0 = 0"
| "trim_right s (Suc right) = (if isBlanks (schar (s ! right)) then trim_right s right else Suc right)"

definition trim :: "string \<Rightarrow> string" where
  "trim s =
     (if s = [] then s
      else let left = trim_left s 0 in
        if left \<ge> length s then []
        else let right1 = trim_right s (length s) in
          if right1 = 0 then [] else take (right1 - left) (drop left s))"

subsection \<open>Parts of long strings, splitting, joining\<close>

definition testlib_part :: "string \<Rightarrow> string" where
  "testlib_part s =
     (let t = map (\<lambda>c. if c \<noteq> CHR 0x00 then c else CHR ''~'') s in
      if length t \<le> 64 then t
      else take 30 t @ ''...'' @ take 31 (drop (length s - 31) t))"

definition compress :: "string \<Rightarrow> string" where
  "compress s = testlib_part s"

fun split_loop :: "(char \<Rightarrow> bool) \<Rightarrow> string \<Rightarrow> string list \<Rightarrow> string \<Rightarrow> string list" where
  "split_loop isSeparator [] result item = result @ [item]"
| "split_loop isSeparator (c # s) result item =
     (if isSeparator c then split_loop isSeparator s (result @ [item]) []
      else split_loop isSeparator s result (item @ [c]))"

definition split_char :: "string \<Rightarrow> char \<Rightarrow> string list" where
  "split_char s separator = split_loop (\<lambda>c. c = separator) s [] []"

definition split_any :: "string \<Rightarrow> string \<Rightarrow> string list" where
  "split_any s separators =
     (if separators = [] then [s] else split_loop (\<lambda>c. c \<in> set separators) s [] [])"

fun tokenize_loop :: "(char \<Rightarrow> bool) \<Rightarrow> string \<Rightarrow> string list \<Rightarrow> string \<Rightarrow> string list" where
  "tokenize_loop isSeparator [] result item = (if item \<noteq> [] then result @ [item] else result)"
| "tokenize_loop isSeparator (c # s) result item =
     (if isSeparator c
      then tokenize_loop isSeparator s (if item \<noteq> [] then result @ [item] else result) []
      else tokenize_loop isSeparator s result (item @ [c]))"

definition tokenize_char :: "string \<Rightarrow> char \<Rightarrow> string list" where
  "tokenize_char s separator = tokenize_loop (\<lambda>c. c = separator) s [] []"

definition tokenize_any :: "string \<Rightarrow> string \<Rightarrow> string list" where
  "tokenize_any s separators =
     (if separators = [] then [s] else tokenize_loop (\<lambda>c. c \<in> set separators) s [] [])"

fun join_loop :: "string list \<Rightarrow> string \<Rightarrow> bool \<Rightarrow> string \<Rightarrow> string" where
  "join_loop [] separator repeated ss = ss"
| "join_loop (i # is) separator repeated ss =
     join_loop is separator True ((if repeated then ss @ separator else ss) @ i)"

definition join :: "string list \<Rightarrow> string \<Rightarrow> string" where
  "join collection separator = join_loop collection separator False []"

subsection \<open>Comparison of a number with its text\<close>

text \<open>
  \<^verbatim>\<open>equals\<close> walks the text from its end and reads \<^verbatim>\<open>s[length - 1]\<close> without a test of
  \<^verbatim>\<open>length\<close>. When the text is used up it reads the byte before it: the minus sign for a negative
  number (\<open>before = Some CHR ''-''\<close>), memory outside the string otherwise, the value \<open>None\<close>.
\<close>

function equals_loop :: "char option \<Rightarrow> int \<Rightarrow> string \<Rightarrow> nat \<Rightarrow> bool option" where
  "equals_loop before integer s len =
     (if integer > 0 then
        let digit = integer mod 10;
            cell = (if len = 0 then before else Some (s ! (len - 1)))
        in case cell of
             None \<Rightarrow> None
           | Some c \<Rightarrow> if schar c \<noteq> 48 + digit then Some False
                       else if len = 0 then None
                       else equals_loop before (integer div 10) s (len - 1)
      else Some (len = 0))"
  by pat_completeness auto
termination
  by (relation "measure (\<lambda>(b, n, s, len). nat n)") auto

definition equals_signed :: "int \<Rightarrow> string \<Rightarrow> bool option" where
  "equals_signed integer s =
     (if integer = LLONG_MIN then Some (s = ''-9223372036854775808'')
      else if integer = 0 then Some (s = ''0'')
      else if length s = 0 then Some False
      else if integer < 0 \<and> s ! 0 \<noteq> CHR ''-'' then Some False
      else let (before, s, integer) =
             (if integer < 0 then (Some (CHR ''-''), tl s, - integer) else (None, s, integer)) in
        if length s = 0 then Some False
        else equals_loop before integer s (length s))"

definition equals_unsigned :: "int \<Rightarrow> string \<Rightarrow> bool option" where
  "equals_unsigned integer s =
     (if integer = ULLONG_MAX then Some (s = ''18446744073709551615'')
      else if integer = 0 then Some (s = ''0'')
      else if length s = 0 then Some False
      else equals_loop None integer s (length s))"

subsection \<open>Notes in messages\<close>

definition OPEN_BRACKET :: char where "OPEN_BRACKET = CHR 0x0B"
definition CLOSE_BRACKET :: char where "CLOSE_BRACKET = CHR 0x11"

text \<open>
  The scan for the one occurrence of a bracket: \<open>-1\<close> for none, \<^verbatim>\<open>INT_MAX\<close> for several.
\<close>

fun bracket_pos :: "char \<Rightarrow> string \<Rightarrow> nat \<Rightarrow> int \<Rightarrow> int" where
  "bracket_pos b [] i pos = pos"
| "bracket_pos b (c # message) i pos =
     bracket_pos b message (Suc i)
       (if c = b then (if pos = - 1 then int i else INT_MAX) else pos)"

definition good_brackets :: "int \<Rightarrow> int \<Rightarrow> bool" where
  "good_brackets openPos closePos \<longleftrightarrow>
     openPos \<noteq> - 1 \<and> openPos \<noteq> INT_MAX \<and> closePos \<noteq> - 1 \<and> closePos \<noteq> INT_MAX \<and> openPos < closePos"

text \<open>\<^verbatim>\<open>std::string::find(pat, from)\<close>.\<close>

fun find_from :: "string \<Rightarrow> string \<Rightarrow> nat \<Rightarrow> nat option" where
  "find_from [] pat i = (if pat = [] then Some i else None)"
| "find_from (c # s) pat i =
     (if take (length pat) (c # s) = pat then Some i else find_from s pat (Suc i))"

definition testlib_appendMessage :: "string \<Rightarrow> string \<Rightarrow> string" where
  "testlib_appendMessage message extra =
     (let openPos = bracket_pos OPEN_BRACKET message 0 (- 1);
          closePos = bracket_pos CLOSE_BRACKET message 0 (- 1)
      in if good_brackets openPos closePos then
           (case find_from (drop (nat openPos) message) extra (nat openPos) of
              None \<Rightarrow> take (nat closePos) message @ '', '' @ extra @ drop (nat closePos) message
            | Some index \<Rightarrow>
                if int index \<ge> closePos
                then take (nat closePos) message @ '', '' @ extra @ drop (nat closePos) message
                else message)
         else message @ '' '' @ [OPEN_BRACKET] @ extra @ [CLOSE_BRACKET])"

definition testlib_toPrintableMessage :: "string \<Rightarrow> string" where
  "testlib_toPrintableMessage message =
     (let openPos = bracket_pos OPEN_BRACKET message 0 (- 1);
          closePos = bracket_pos CLOSE_BRACKET message 0 (- 1)
      in if good_brackets openPos closePos
         then message[nat openPos := CHR ''('', nat closePos := CHR '')'']
         else message)"

definition xmlSafeChar :: "char \<Rightarrow> string" where
  "xmlSafeChar c =
     (if c = CHR ''&'' then ''&amp;''
      else if c = CHR ''<'' then ''&lt;''
      else if c = CHR ''>'' then ''&gt;''
      else if c = CHR 0x22 then ''&quot;''
      else if 0 \<le> schar c \<and> schar c \<le> 31 then ''.''
      else [c])"

definition xmlSafeWrite :: "string \<Rightarrow> string" where
  "xmlSafeWrite msg = concat (map xmlSafeChar msg)"

section \<open>Decimal notation\<close>

declare vtos_loop.simps [simp del] strip_zeroes.simps [simp del] removeZeroes_loop.simps [simp del]
  trim_left.simps [simp del] equals_loop.simps [simp del]

text \<open>The value of a digit string, and the canonical notations of the integers.\<close>

definition digits_val :: "string \<Rightarrow> int" where
  "digits_val s = foldl (\<lambda>v c. v * 10 + (schar c - 48)) 0 s"

definition canonical_nat :: "string \<Rightarrow> bool" where
  "canonical_nat s \<longleftrightarrow> s \<noteq> [] \<and> list_all is_digit s \<and> (hd s = CHR ''0'' \<longrightarrow> s = ''0'')"

lemma schar_literals [char_simps]:
  "schar (CHR ''0'') = 48" "schar (CHR ''-'') = 45" "schar (CHR ''+'') = 43" "schar (CHR ''.'') = 46"
  by (simp_all add: schar_def)

lemma digits_val_Nil [simp]: "digits_val [] = 0"
  by (simp add: digits_val_def)

lemma digits_val_snoc [simp]: "digits_val (s @ [c]) = digits_val s * 10 + (schar c - 48)"
  by (simp add: digits_val_def)

lemma digits_val_nonneg: "list_all is_digit s \<Longrightarrow> 0 \<le> digits_val s"
  by (induction s rule: rev_induct) (auto simp: is_digit_def)

lemma schar_digit [simp]: "0 \<le> d \<Longrightarrow> d < 10 \<Longrightarrow> schar (to_char (48 + d)) = 48 + d"
  by (rule schar_to_char) simp_all

lemma to_char_digit: "is_digit c \<Longrightarrow> to_char (48 + (schar c - 48)) = c"
  by simp

lemma vtos_loop_append: "vtos_loop n (xs @ s) = xs @ vtos_loop n s"
proof (induction n s rule: vtos_loop.induct)
  case (1 n s)
  then show ?case
    by (simp add: vtos_loop.simps [of n s] vtos_loop.simps [of n "xs @ s"] Let_def)
qed

lemma vtos_loop_0 [simp]: "vtos_loop 0 s = s"
  by (simp add: vtos_loop.simps)

lemma vtos_loop_uminus: "vtos_loop (- n) s = vtos_loop n s"
proof (induction n s rule: vtos_loop.induct)
  case (1 n s)
  have "cdiv (- n) 10 = - cdiv n 10" "cmod (- n) 10 = - cmod n 10"
    by (simp_all add: cdiv_def cmod_def)
  with 1 show ?case
    by (auto simp: vtos_loop.simps [of n s] vtos_loop.simps [of "- n" s] Let_def)
qed

text \<open>One more digit at the end of the number is one more character of the output.\<close>

lemma vtos_loop_digit:
  assumes "0 \<le> m" "0 \<le> d" "d < 10" "0 < m * 10 + d"
  shows "vtos_loop (m * 10 + d) [] = to_char (48 + d) # vtos_loop m []"
proof -
  have "cdiv (m * 10 + d) 10 = m" "cmod (m * 10 + d) 10 = d"
    using assms by (simp_all add: cdiv_def cmod_def)
  with assms show ?thesis
    using vtos_loop_append [of m "[to_char (48 + d)]" "[]"]
    by (simp add: vtos_loop.simps [of "m * 10 + d" "[]"] Let_def)
qed

lemma vtos_pos: "0 < n \<Longrightarrow> vtos n = rev (vtos_loop n [])"
  by (simp add: vtos_def Let_def)

lemma vtos_neg: "n < 0 \<Longrightarrow> vtos n = CHR ''-'' # vtos (- n)"
  by (simp add: vtos_def Let_def vtos_loop_uminus)

lemma vtos_snoc:
  assumes "0 < m" "0 \<le> d" "d < 10"
  shows "vtos (m * 10 + d) = vtos m @ [to_char (48 + d)]"
  using assms vtos_loop_digit [of m d] by (simp add: vtos_pos)

lemma vtos_small:
  assumes "0 \<le> d" "d < 10"
  shows "vtos d = [to_char (48 + d)]"
proof (cases "d = 0")
  case True
  then show ?thesis by (simp add: vtos_def to_char_def char_of_def)
next
  case False
  with assms show ?thesis using vtos_loop_digit [of 0 d] by (simp add: vtos_pos)
qed

lemma nat_digit_induct [consumes 1, case_names small snoc]:
  assumes "0 \<le> (n::int)"
    and small: "\<And>d. 0 \<le> d \<Longrightarrow> d < 10 \<Longrightarrow> P d"
    and snoc: "\<And>m d. 0 < m \<Longrightarrow> 0 \<le> d \<Longrightarrow> d < 10 \<Longrightarrow> P m \<Longrightarrow> P (m * 10 + d)"
  shows "P n"
  using assms(1)
proof (induction "nat n" arbitrary: n rule: less_induct)
  case less
  show ?case
  proof (cases "n < 10")
    case True
    with less.prems show ?thesis by (intro small)
  next
    case False
    have "P (n div 10)" using False by (intro less.hyps) auto
    then have "P (n div 10 * 10 + n mod 10)"
      using False by (intro snoc) (auto simp: pos_imp_zdiv_pos_iff)
    then show ?thesis by simp
  qed
qed

lemma is_digit_to_char: "0 \<le> d \<Longrightarrow> d < 10 \<Longrightarrow> is_digit (to_char (48 + d))"
  by (simp add: is_digit_def)

lemma vtos_nonempty [simp]: "0 \<le> n \<Longrightarrow> vtos n \<noteq> []"
  by (induction n rule: nat_digit_induct) (simp_all add: vtos_small vtos_snoc)

lemma vtos_digits: "0 \<le> n \<Longrightarrow> list_all is_digit (vtos n)"
  by (induction n rule: nat_digit_induct) (simp_all add: vtos_small vtos_snoc is_digit_to_char)

lemma digits_val_vtos: "0 \<le> n \<Longrightarrow> digits_val (vtos n) = n"
proof (induction n rule: nat_digit_induct)
  case (small d)
  then show ?case using digits_val_snoc [of "[]" "to_char (48 + d)"] by (simp add: vtos_small)
next
  case (snoc m d)
  then show ?case by (simp add: vtos_snoc)
qed

lemma to_char_48 [simp]: "to_char 48 = CHR ''0''"
  by (simp add: to_char_def char_of_def)

lemma to_char_eq_0: "0 \<le> d \<Longrightarrow> d < 10 \<Longrightarrow> to_char (48 + d) = CHR ''0'' \<longleftrightarrow> d = 0"
proof -
  assume d: "0 \<le> d" "d < 10"
  have "to_char (48 + d) = CHR ''0'' \<longleftrightarrow> schar (to_char (48 + d)) = schar (CHR ''0'')"
    by (simp only: schar_eq_iff)
  with d show ?thesis by (simp add: char_simps)
qed

lemma vtos_canonical: "0 \<le> n \<Longrightarrow> canonical_nat (vtos n)"
proof (induction n rule: nat_digit_induct)
  case (small d)
  then show ?case by (auto simp: canonical_nat_def vtos_small is_digit_to_char to_char_eq_0)
next
  case (snoc m d)
  then have "vtos m \<noteq> ''0''" using digits_val_vtos [of m] digits_val_snoc [of "[]" "CHR ''0''"]
    by (auto simp: char_simps)
  with snoc show ?case by (auto simp: canonical_nat_def vtos_snoc is_digit_to_char)
qed

lemma canonical_nat_butlast:
  "canonical_nat (s @ [c]) \<Longrightarrow> s \<noteq> [] \<Longrightarrow> canonical_nat s \<and> s \<noteq> ''0''"
  by (auto simp: canonical_nat_def)

lemma digits_val_pos: "canonical_nat s \<Longrightarrow> s \<noteq> ''0'' \<Longrightarrow> 0 < digits_val s"
proof (induction s rule: rev_induct)
  case Nil
  then show ?case by (simp add: canonical_nat_def)
next
  case (snoc c s)
  show ?case
  proof (cases "s = []")
    case True
    then have "is_digit c" "c \<noteq> CHR ''0''"
      using snoc.prems by (auto simp: canonical_nat_def)
    moreover have "schar c \<noteq> 48"
      using \<open>c \<noteq> CHR ''0''\<close> schar_literals(1) schar_eq_iff by metis
    ultimately show ?thesis using True digits_val_snoc [of "[]" c] by (simp add: is_digit_def)
  next
    case False
    with snoc have "0 < digits_val s" using canonical_nat_butlast by blast
    moreover have "is_digit c" using snoc.prems by (simp add: canonical_nat_def)
    ultimately show ?thesis by (simp add: is_digit_def)
  qed
qed

lemma vtos_digits_val: "canonical_nat s \<Longrightarrow> vtos (digits_val s) = s"
proof (induction s rule: rev_induct)
  case Nil
  then show ?case by (simp add: canonical_nat_def)
next
  case (snoc c s)
  have d: "is_digit c" using snoc.prems by (simp add: canonical_nat_def)
  then have d': "0 \<le> schar c - 48" "schar c - 48 < 10" by (auto simp: is_digit_def)
  show ?case
  proof (cases "s = []")
    case True
    with d' show ?thesis using digits_val_snoc [of "[]" c] by (simp add: vtos_small)
  next
    case False
    have "canonical_nat s" "0 < digits_val s"
      using canonical_nat_butlast [OF snoc.prems False] digits_val_pos by blast+
    then have "vtos (digits_val s * 10 + (schar c - 48)) = vtos (digits_val s) @ [to_char (48 + (schar c - 48))]"
      using d' by (intro vtos_snoc)
    with \<open>canonical_nat s\<close> snoc.IH show ?thesis by simp
  qed
qed

text \<open>\<^verbatim>\<open>vtos\<close> and the value of a digit string are inverse on the canonical notations.\<close>

lemma canonical_nat_iff: "canonical_nat s \<longleftrightarrow> (\<exists>n \<ge> 0. s = vtos n)"
proof
  assume "canonical_nat s"
  then have "0 \<le> digits_val s" "s = vtos (digits_val s)"
    by (simp_all add: vtos_digits_val digits_val_nonneg canonical_nat_def)
  then show "\<exists>n \<ge> 0. s = vtos n" by blast
qed (auto intro: vtos_canonical)

lemma vtos_hd_nonneg: "0 \<le> n \<Longrightarrow> hd (vtos n) \<noteq> CHR ''-''"
  using vtos_canonical [of n]
  by (cases "vtos n") (auto simp: canonical_nat_def is_digit_def schar_def)

definition int_val :: "string \<Rightarrow> int" where
  "int_val s = (case s of [] \<Rightarrow> 0 | c # ds \<Rightarrow> if c = CHR ''-'' then - digits_val ds else digits_val s)"

lemma int_val_vtos: "int_val (vtos n) = n"
proof (cases "0 \<le> n")
  case True
  then have "int_val (vtos n) = digits_val (vtos n)"
    using vtos_hd_nonneg [of n] by (cases "vtos n") (simp_all add: int_val_def)
  with True show ?thesis by (simp add: digits_val_vtos)
next
  case False
  then show ?thesis by (simp add: vtos_neg int_val_def digits_val_vtos)
qed

lemma vtos_inj: "vtos m = vtos n \<longleftrightarrow> m = n"
  by (metis int_val_vtos)

section \<open>Trimming\<close>

abbreviation blank_char :: "char \<Rightarrow> bool" where
  "blank_char c \<equiv> isBlanks (schar c)"

lemma trim_left_eq:
  "left \<le> length s \<Longrightarrow> trim_left s left = left + length (takeWhile blank_char (drop left s))"
proof (induction s left rule: trim_left.induct)
  case (1 s left)
  show ?case
  proof (cases "left < length s")
    case True
    then have "drop left s = s ! left # drop (Suc left) s" by (simp add: Cons_nth_drop_Suc)
    with True "1.IH" show ?thesis by (auto simp: trim_left.simps [of s left])
  next
    case False
    with "1.prems" have "left = length s" by simp
    then show ?thesis by (simp add: trim_left.simps [of s "length s"])
  qed
qed

lemma trim_right_eq:
  "n \<le> length s \<Longrightarrow> take (trim_right s n) s = rev (dropWhile blank_char (rev (take n s)))"
  by (induction n) (auto simp: take_Suc_conv_app_nth)

lemma trim_right_le: "trim_right s n \<le> n"
  by (induction n) auto

text \<open>\<^verbatim>\<open>trim\<close> removes exactly the blanks at the two ends.\<close>

lemma drop_trim_left: "drop (trim_left s 0) s = dropWhile blank_char s"
  by (simp add: trim_left_eq dropWhile_eq_drop)

lemma rev_dropWhile_drop_takeWhile:
  assumes "dropWhile P xs \<noteq> []"
  shows "rev (dropWhile P (rev xs))
    = takeWhile P xs @ rev (dropWhile P (rev (dropWhile P xs)))"
proof -
  obtain x where x: "x \<in> set (dropWhile P xs)" "\<not> P x"
    using assms hd_dropWhile [OF assms] by (metis hd_in_set)
  have "rev xs = rev (dropWhile P xs) @ rev (takeWhile P xs)"
    by (metis rev_append takeWhile_dropWhile_id)
  then have "dropWhile P (rev xs) = dropWhile P (rev (dropWhile P xs)) @ rev (takeWhile P xs)"
    using x by (simp add: dropWhile_append1)
  then show ?thesis by simp
qed

lemma trim_eq: "trim s = rev (dropWhile blank_char (rev (dropWhile blank_char s)))"
proof (cases "dropWhile blank_char s = []")
  case True
  then have "trim_left s 0 \<ge> length s"
    using drop_trim_left [of s] by (metis drop_eq_Nil)
  moreover have "rev (dropWhile blank_char (rev (dropWhile blank_char s))) = []"
    by (simp only: True) simp
  ultimately show ?thesis by (simp only: trim_def Let_def) simp
next
  case False
  let ?l = "trim_left s 0" and ?r = "trim_right s (length s)"
  have l: "?l < length s" using False drop_trim_left [of s] by (metis drop_eq_Nil not_le)
  have tl: "take ?l s = takeWhile blank_char s"
    by (simp add: trim_left_eq takeWhile_eq_take [symmetric])
  have tr: "take ?r s = takeWhile blank_char s @ rev (dropWhile blank_char (rev (dropWhile blank_char s)))"
    using trim_right_eq [of "length s" s] rev_dropWhile_drop_takeWhile [OF False] by simp
  have "dropWhile blank_char (rev (dropWhile blank_char s)) \<noteq> []"
    using False hd_dropWhile [OF False] by (metis dropWhile_eq_Nil_conv hd_in_set set_rev)
  then have "take ?r s \<noteq> []" using tr by simp
  then have r: "?r \<noteq> 0" by (metis take0)
  have "take (?r - ?l) (drop ?l s) = drop ?l (take ?r s)" by (simp add: drop_take)
  also have "\<dots> = rev (dropWhile blank_char (rev (dropWhile blank_char s)))"
    using tr tl trim_left_eq [of 0 s] by simp
  finally show ?thesis using l r by (simp add: trim_def Let_def)
qed

section \<open>Splitting and joining\<close>

lemma split_loop_result: "split_loop p s result item = result @ split_loop p s [] item"
proof (induction s arbitrary: result item)
  case (Cons c s)
  show ?case
    using Cons [of "result @ [item]" "[]"] Cons [of "[item]" "[]"] Cons [of result "item @ [c]"]
    by simp
qed simp

lemma join_loop_split:
  "join_loop (split_loop (\<lambda>c. c = sep) s [] item) [sep] rep ss
    = (if rep then ss @ [sep] else ss) @ item @ s"
proof (induction s arbitrary: item rep ss)
  case (Cons c s)
  then show ?case by (simp add: split_loop_result [of _ s "[item]"])
qed simp

lemma join_split_char: "join (split_char s sep) [sep] = s"
  by (simp add: join_def split_char_def join_loop_split)

lemma length_split_loop:
  "length (split_loop p s result item) = length result + Suc (length (filter p s))"
  by (induction s arbitrary: result item) auto

definition token_of :: "(char \<Rightarrow> bool) \<Rightarrow> string \<Rightarrow> bool" where
  "token_of p t \<longleftrightarrow> t \<noteq> [] \<and> list_all (\<lambda>c. \<not> p c) t"

lemma tokenize_loop_items:
  "list_all (token_of p) result \<Longrightarrow> list_all (\<lambda>c. \<not> p c) item \<Longrightarrow>
    list_all (token_of p) (tokenize_loop p s result item)"
proof (induction s arbitrary: result item)
  case Nil
  then show ?case by (simp add: token_of_def)
next
  case (Cons c s)
  show ?case
  proof (cases "p c")
    case True
    have "list_all (token_of p) (if item \<noteq> [] then result @ [item] else result)"
      using Cons.prems by (simp add: token_of_def [of p item])
    then show ?thesis using True Cons.IH [of _ "[]"] by (simp del: list_all_append)
  next
    case False
    then show ?thesis using Cons.prems Cons.IH [of result "item @ [c]"] by simp
  qed
qed

lemma tokenize_loop_concat:
  "concat (tokenize_loop p s result item) = concat result @ item @ filter (\<lambda>c. \<not> p c) s"
  by (induction s arbitrary: result item) auto

section \<open>Shortened texts\<close>

lemma testlib_part_length: "length (testlib_part s) \<le> 64"
  by (simp add: testlib_part_def Let_def)

lemma testlib_part_no_nul: "CHR 0x00 \<notin> set (testlib_part s)"
  by (auto simp: testlib_part_def Let_def dest!: in_set_takeD in_set_dropD split: if_splits)

lemma testlib_part_id: "length s \<le> 64 \<Longrightarrow> CHR 0x00 \<notin> set s \<Longrightarrow> testlib_part s = s"
  by (auto simp: testlib_part_def Let_def intro!: map_idI)

section \<open>Notes in messages\<close>

lemma bracket_pos_absent: "b \<notin> set message \<Longrightarrow> bracket_pos b message i pos = pos"
  by (induction message arbitrary: i) auto

lemma bracket_pos_append:
  "bracket_pos b (xs @ ys) i pos = bracket_pos b ys (i + length xs) (bracket_pos b xs i pos)"
  by (induction xs arbitrary: i pos) auto

lemma bracket_pos_once:
  "b \<notin> set xs \<Longrightarrow> b \<notin> set ys \<Longrightarrow> bracket_pos b (xs @ b # ys) i (- 1) = int (i + length xs)"
  by (simp add: bracket_pos_append bracket_pos_absent)

lemma brackets_distinct [simp]: "OPEN_BRACKET \<noteq> CLOSE_BRACKET" "CLOSE_BRACKET \<noteq> OPEN_BRACKET"
  by (simp_all add: OPEN_BRACKET_def CLOSE_BRACKET_def)

lemma find_from_prefix: "find_from (extra @ rest) extra i = Some i"
  by (cases extra; cases rest) simp_all

definition plain_text :: "string \<Rightarrow> bool" where
  "plain_text s \<longleftrightarrow> OPEN_BRACKET \<notin> set s \<and> CLOSE_BRACKET \<notin> set s"

lemma appendMessage_first:
  assumes "plain_text message"
  shows "testlib_appendMessage message extra = message @ '' '' @ [OPEN_BRACKET] @ extra @ [CLOSE_BRACKET]"
  using assms
  by (simp add: testlib_appendMessage_def plain_text_def bracket_pos_absent good_brackets_def Let_def)

abbreviation noted :: "string \<Rightarrow> string \<Rightarrow> string" where
  "noted message extra \<equiv> message @ '' '' @ [OPEN_BRACKET] @ extra @ [CLOSE_BRACKET]"

lemma noted_positions:
  assumes "plain_text message" "plain_text extra"
  shows "bracket_pos OPEN_BRACKET (noted message extra) 0 (- 1) = int (Suc (length message))"
    and "bracket_pos CLOSE_BRACKET (noted message extra) 0 (- 1)
      = int (Suc (Suc (length message + length extra)))"
proof -
  have space: "CHR '' '' \<noteq> OPEN_BRACKET" "CHR '' '' \<noteq> CLOSE_BRACKET"
    by (simp_all add: OPEN_BRACKET_def CLOSE_BRACKET_def)
  show "bracket_pos OPEN_BRACKET (noted message extra) 0 (- 1) = int (Suc (length message))"
    using bracket_pos_once [of OPEN_BRACKET "message @ '' ''" "extra @ [CLOSE_BRACKET]" 0] assms space
    by (simp add: plain_text_def)
  show "bracket_pos CLOSE_BRACKET (noted message extra) 0 (- 1)
      = int (Suc (Suc (length message + length extra)))"
    using bracket_pos_once [of CLOSE_BRACKET "message @ '' '' @ [OPEN_BRACKET] @ extra" "[]" 0] assms space
    by (simp add: plain_text_def)
qed

text \<open>A second note joins the first one inside the same brackets, unless it is there already.\<close>

lemma find_in_note:
  assumes "plain_text extra"
  shows "find_from (OPEN_BRACKET # extra @ [CLOSE_BRACKET]) extra i = Some (if extra = [] then i else Suc i)"
proof (cases extra)
  case (Cons c e)
  then have "take (length extra) (OPEN_BRACKET # extra @ [CLOSE_BRACKET]) \<noteq> extra"
    using assms by (auto simp: plain_text_def)
  with Cons show ?thesis using find_from_prefix [of extra "[CLOSE_BRACKET]" "Suc i"] by simp
qed simp

lemma appendMessage_again:
  assumes "plain_text message" "plain_text extra" "length message + length extra + 2 < nat INT_MAX"
  shows "testlib_appendMessage (noted message extra) extra = noted message extra"
proof -
  let ?m = "noted message extra"
  let ?o = "Suc (length message)"
  have good: "good_brackets (int ?o) (int (Suc (Suc (length message + length extra))))"
    using assms(3) by (simp add: good_brackets_def INT_MAX_def)
  have "drop ?o ?m = OPEN_BRACKET # extra @ [CLOSE_BRACKET]" by simp
  then have "find_from (drop (nat (int ?o)) ?m) extra (nat (int ?o))
      = Some (if extra = [] then ?o else Suc ?o)"
    by (simp only: nat_int find_in_note [OF assms(2)])
  then show ?thesis
    using good
    by (simp only: testlib_appendMessage_def noted_positions [OF assms(1,2)] Let_def option.case) simp
qed

lemma toPrintable_noted:
  assumes "plain_text message" "plain_text extra" "length message + length extra + 2 < nat INT_MAX"
  shows "testlib_toPrintableMessage (noted message extra) = message @ '' ('' @ extra @ '')''"
proof -
  have good: "good_brackets (int (Suc (length message))) (int (Suc (Suc (length message + length extra))))"
    using assms(3) by (simp add: good_brackets_def INT_MAX_def)
  have "(noted message extra)[Suc (length message) := CHR ''('', Suc (Suc (length message + length extra)) := CHR '')'']
     = message @ '' ('' @ extra @ '')''"
    by (simp add: list_update_append)
  with good show ?thesis
    by (simp only: testlib_toPrintableMessage_def noted_positions [OF assms(1,2)] Let_def if_True nat_int)
qed

end
