(* ===== verification/TL_Readers.thy ===== *)
theory TL_Readers
  imports TL_Text
begin

text \<open>
  The three implementations of \<^verbatim>\<open>class InputStreamReader\<close> in \<^verbatim>\<open>support/testlib.h\<close>: a reader
  over a string, one over a C \<^verbatim>\<open>FILE\<close> with an undo stack (used for the standard streams) and one
  over a \<^verbatim>\<open>FILE\<close> with its own buffer (used for named files, hence for everything a checker
  reads). A character is delivered as an \<^typ>\<open>int\<close>, the end of the input as \<^verbatim>\<open>EOFC\<close> = 255.

  The locale \<open>char_source\<close> states what the stream operations rely on: a reader presents a
  sequence of codes (\<open>view\<close>), reading takes its head, and one character may be put back.
  \<open>char_source2\<close> adds that two characters may be put back, which \<^verbatim>\<open>InStream::eoln\<close> needs.
  The string reader and the buffered reader satisfy both; the \<^verbatim>\<open>FILE\<close> reader only the first, and
  only for inputs without the byte 0xFF: the lemmas at the end show what it does otherwise.
\<close>

section \<open>C files\<close>

text \<open>
  What the readers use of a C \<^verbatim>\<open>FILE\<close>: the bytes not read yet, the end-of-file indicator (set
  by a read that finds no byte) and whether \<^verbatim>\<open>fread\<close> meets an error after the last byte. The
  \<^verbatim>\<open>FILE\<close> reader tests no error indicator, and a read error of its file is taken here as its end.
\<close>

record cfile =
  f_rest :: string
  f_eof :: bool
  f_err :: bool

definition open_file :: "string \<Rightarrow> cfile" where
  "open_file content = \<lparr>f_rest = content, f_eof = False, f_err = False\<rparr>"

definition EOF :: int where "EOF = - 1"

definition c_getc :: "cfile \<Rightarrow> int \<times> cfile" where
  "c_getc f = (case f_rest f of
       [] \<Rightarrow> (EOF, f\<lparr>f_eof := True\<rparr>)
     | c # cs \<Rightarrow> (uchar c, f\<lparr>f_rest := cs\<rparr>))"

definition c_fread :: "nat \<Rightarrow> cfile \<Rightarrow> string \<times> cfile" where
  "c_fread n f = (take n (f_rest f),
     f\<lparr>f_rest := drop n (f_rest f), f_eof := f_eof f \<or> (length (f_rest f) < n \<and> \<not> f_err f)\<rparr>)"

section \<open>StringInputStreamReader\<close>

record string_reader =
  sr_s :: string
  sr_pos :: nat

definition sr_new :: "string \<Rightarrow> string_reader" where
  "sr_new content = \<lparr>sr_s = content, sr_pos = 0\<rparr>"

definition sr_setTestCase :: "int \<Rightarrow> (string_reader, unit) prog" where
  "sr_setTestCase tc = testlib_fail ''setTestCase not implemented in StringInputStreamReader''"

definition sr_getReadChars :: "(string_reader, int list) prog" where
  "sr_getReadChars = testlib_fail ''getReadChars not implemented in StringInputStreamReader''"

definition sr_curChar :: "(string_reader, int) prog" where
  "sr_curChar r = Ret (if sr_pos r \<ge> length (sr_s r) then EOFC else schar (sr_s r ! sr_pos r)) r"

definition sr_nextChar :: "(string_reader, int) prog" where
  "sr_nextChar r =
     (if sr_pos r \<ge> length (sr_s r) then Ret EOFC (r\<lparr>sr_pos := sr_pos r + 1\<rparr>)
      else Ret (schar (sr_s r ! sr_pos r)) (r\<lparr>sr_pos := sr_pos r + 1\<rparr>))"

definition sr_skipChar :: "(string_reader, unit) prog" where
  "sr_skipChar r = Ret () (r\<lparr>sr_pos := sr_pos r + 1\<rparr>)"

definition sr_unreadChar :: "int \<Rightarrow> (string_reader, unit) prog" where
  "sr_unreadChar c r =
     (if sr_pos r = 0 then testlib_fail ''StringInputStreamReader::unreadChar(int): pos == 0.'' r
      else let pos = sr_pos r - 1 in
        Ret () (r\<lparr>sr_pos := pos,
          sr_s := (if pos < length (sr_s r) then (sr_s r)[pos := to_char c] else sr_s r)\<rparr>))"

definition sr_getName :: "string_reader \<Rightarrow> string" where
  "sr_getName r = testlib_part (sr_s r)"

definition sr_getLine :: "string_reader \<Rightarrow> int" where
  "sr_getLine r = - 1"

definition sr_eof :: "(string_reader, bool) prog" where
  "sr_eof r = Ret (sr_pos r \<ge> length (sr_s r)) r"

section \<open>FileInputStreamReader\<close>

text \<open>The vectors \<^verbatim>\<open>undoChars\<close>, \<^verbatim>\<open>readChars\<close>, \<^verbatim>\<open>undoReadChars\<close> are stacks: lists, their back first.\<close>

record file_reader =
  fr_file :: "cfile option"
  fr_name :: string
  fr_line :: int
  fr_undoChars :: "int list"
  fr_readChars :: "int list"
  fr_undoReadChars :: "int list"

definition fr_new :: "cfile \<Rightarrow> string \<Rightarrow> file_reader" where
  "fr_new file name = \<lparr>fr_file = Some file, fr_name = name, fr_line = 1,
     fr_undoChars = [], fr_readChars = [], fr_undoReadChars = []\<rparr>"

definition postprocessGetc :: "int \<Rightarrow> int" where
  "postprocessGetc getcResult = (if getcResult \<noteq> EOF then getcResult else EOFC)"

definition fr_getc :: "(file_reader, int) prog" where
  "fr_getc r =
     (case fr_undoChars r of
        [] \<Rightarrow> (case fr_file r of
            None \<Rightarrow> Crash
          | Some f \<Rightarrow> (let (c, f') = c_getc f in
              Ret c (r\<lparr>fr_file := Some f', fr_line := fr_line r + (if c = LF then 1 else 0),
                fr_readChars := c # fr_readChars r\<rparr>)))
      | c # undo \<Rightarrow> (case fr_undoReadChars r of
            [] \<Rightarrow> Crash
          | rc # undoRead \<Rightarrow>
              Ret c (r\<lparr>fr_undoChars := undo, fr_undoReadChars := undoRead,
                fr_line := fr_line r + (if c = LF then 1 else 0),
                fr_readChars := rc # fr_readChars r\<rparr>)))"

definition fr_ungetc :: "int \<Rightarrow> (file_reader, unit) prog" where
  "fr_ungetc c r =
     (let r = (case fr_readChars r of
                 [] \<Rightarrow> r
               | rc # rcs \<Rightarrow> r\<lparr>fr_undoReadChars := rc # fr_undoReadChars r, fr_readChars := rcs\<rparr>)
      in Ret () (r\<lparr>fr_line := fr_line r - (if c = LF then 1 else 0),
           fr_undoChars := c # fr_undoChars r\<rparr>))"

definition TESTLIB_MAX_TEST_CASE :: int where
  "TESTLIB_MAX_TEST_CASE = 1073741823"

definition fr_setTestCase :: "int \<Rightarrow> (file_reader, unit) prog" where
  "fr_setTestCase testCase r =
     (if testCase < 0 \<or> testCase > TESTLIB_MAX_TEST_CASE
      then testlib_fail (''testCase expected fit in [1,'' @ vtos TESTLIB_MAX_TEST_CASE @ ''], but '' @
             vtos testCase @ '' doesn't'') r
      else Ret () (r\<lparr>fr_readChars := (testCase + 256) # fr_readChars r\<rparr>))"

definition fr_getReadChars :: "(file_reader, int list) prog" where
  "fr_getReadChars r = Ret (rev (fr_readChars r)) r"

text \<open>\<^verbatim>\<open>feof(file)\<close>; a closed reader has a null \<^verbatim>\<open>file\<close>.\<close>

definition fr_feof :: "file_reader \<Rightarrow> bool option" where
  "fr_feof r = map_option f_eof (fr_file r)"

definition fr_curChar :: "(file_reader, int) prog" where
  "fr_curChar r =
     (case fr_feof r of
        None \<Rightarrow> Crash
      | Some True \<Rightarrow> Ret EOFC r
      | Some False \<Rightarrow>
          andThen (fr_getc r) (\<lambda>c r. andThen (fr_ungetc c r) (\<lambda>_ r. Ret (postprocessGetc c) r)))"

definition fr_nextChar :: "(file_reader, int) prog" where
  "fr_nextChar r =
     (case fr_feof r of
        None \<Rightarrow> Crash
      | Some True \<Rightarrow> Ret EOFC r
      | Some False \<Rightarrow> andThen (fr_getc r) (\<lambda>c r. Ret (postprocessGetc c) r))"

definition fr_skipChar :: "(file_reader, unit) prog" where
  "fr_skipChar r = andThen (fr_getc r) (\<lambda>_ r. Ret () r)"

definition fr_unreadChar :: "int \<Rightarrow> (file_reader, unit) prog" where
  "fr_unreadChar c = fr_ungetc c"

definition fr_eof :: "(file_reader, bool) prog" where
  "fr_eof r =
     (if fr_feof r = None \<or> fr_feof r = Some True then Ret True r
      else andThen (fr_nextChar r) (\<lambda>c r.
        if c = EOFC \<or> (c = EOF \<and> fr_feof r = Some True) then Ret True r
        else andThen (fr_unreadChar c r) (\<lambda>_ r. Ret False r)))"

definition fr_close :: "file_reader \<Rightarrow> file_reader" where
  "fr_close r = r\<lparr>fr_file := None\<rparr>"

section \<open>BufferedFileInputStreamReader\<close>

definition BUFFER_SIZE :: nat where "BUFFER_SIZE = 2000000"

definition MAX_UNREAD_COUNT :: nat where "MAX_UNREAD_COUNT = BUFFER_SIZE div 2"

record buffered_reader =
  br_file :: "cfile option"
  br_name :: string
  br_line :: int
  br_buffer :: "nat \<Rightarrow> char"
  br_isEof :: "nat \<Rightarrow> bool"
  br_bufferPos :: int
  br_bufferSize :: nat

text \<open>The arrays come from \<^verbatim>\<open>new[]\<close> with indeterminate contents, here two arguments.\<close>

definition br_new :: "(nat \<Rightarrow> char) \<Rightarrow> (nat \<Rightarrow> bool) \<Rightarrow> cfile \<Rightarrow> string \<Rightarrow> buffered_reader" where
  "br_new mem memEof file name = \<lparr>br_file = Some file, br_name = name, br_line = 1,
     br_buffer = mem, br_isEof = memEof,
     br_bufferPos = int MAX_UNREAD_COUNT, br_bufferSize = MAX_UNREAD_COUNT\<rparr>"

definition br_setTestCase :: "int \<Rightarrow> (buffered_reader, unit) prog" where
  "br_setTestCase tc = testlib_fail ''setTestCase not implemented in BufferedFileInputStreamReader''"

definition br_getReadChars :: "(buffered_reader, int list) prog" where
  "br_getReadChars = testlib_fail ''getReadChars not implemented in BufferedFileInputStreamReader''"

definition br_refill :: "(buffered_reader, bool) prog" where
  "br_refill r =
     (case br_file r of
        None \<Rightarrow> testlib_fail (''BufferedFileInputStreamReader: file == NULL ('' @ br_name r @ '')'') r
      | Some f \<Rightarrow>
          if br_bufferPos r \<ge> int (br_bufferSize r) then
            let (chunk, f') = c_fread (BUFFER_SIZE - MAX_UNREAD_COUNT) f;
                readSize = length chunk
            in if readSize < BUFFER_SIZE - MAX_UNREAD_COUNT \<and> f_err f
               then testlib_fail (''BufferedFileInputStreamReader: unable to read ('' @ br_name r @ '')'') r
               else Ret (readSize > 0) (r\<lparr>br_file := Some f',
                 br_bufferSize := MAX_UNREAD_COUNT + readSize,
                 br_bufferPos := int MAX_UNREAD_COUNT,
                 br_buffer := (\<lambda>i. if MAX_UNREAD_COUNT \<le> i \<and> i < MAX_UNREAD_COUNT + readSize
                                   then chunk ! (i - MAX_UNREAD_COUNT) else br_buffer r i),
                 br_isEof := (\<lambda>i. if MAX_UNREAD_COUNT \<le> i \<and> i < MAX_UNREAD_COUNT + readSize
                                  then False else br_isEof r i)\<rparr>)
          else Ret True r)"

definition br_increment :: "(buffered_reader, int) prog" where
  "br_increment r =
     (if 0 \<le> br_bufferPos r \<and> br_bufferPos r < int BUFFER_SIZE then
        let c = br_buffer r (nat (br_bufferPos r)) in
        Ret (schar c) (r\<lparr>br_bufferPos := br_bufferPos r + 1,
          br_line := br_line r + (if schar c = LF then 1 else 0)\<rparr>)
      else Crash)"

definition br_curChar :: "(buffered_reader, int) prog" where
  "br_curChar r = andThen (br_refill r) (\<lambda>ok r.
     if \<not> ok then Ret EOFC r
     else Ret (if br_isEof r (nat (br_bufferPos r)) then EOFC
               else schar (br_buffer r (nat (br_bufferPos r)))) r)"

definition br_nextChar :: "(buffered_reader, int) prog" where
  "br_nextChar r = andThen (br_refill r) (\<lambda>ok r.
     if \<not> ok then Ret EOFC r
     else if br_isEof r (nat (br_bufferPos r)) then Ret EOFC r
     else br_increment r)"

definition br_skipChar :: "(buffered_reader, unit) prog" where
  "br_skipChar r = andThen (br_increment r) (\<lambda>_ r. Ret () r)"

definition br_unreadChar :: "int \<Rightarrow> (buffered_reader, unit) prog" where
  "br_unreadChar c r =
     (let r = r\<lparr>br_bufferPos := br_bufferPos r - 1\<rparr> in
      if br_bufferPos r < 0
      then testlib_fail ''BufferedFileInputStreamReader::unreadChar(int): bufferPos < 0'' r
      else Ret () (r\<lparr>br_isEof := (br_isEof r)(nat (br_bufferPos r) := (c = EOFC)),
        br_buffer := (br_buffer r)(nat (br_bufferPos r) := to_char c),
        br_line := br_line r - (if c = LF then 1 else 0)\<rparr>))"

definition br_eof :: "(buffered_reader, bool) prog" where
  "br_eof r = andThen (br_refill r) (\<lambda>ok r.
     if \<not> ok then Ret True r else andThen (br_curChar r) (\<lambda>c r. Ret (EOFC = c) r))"

definition br_close :: "buffered_reader \<Rightarrow> buffered_reader" where
  "br_close r = r\<lparr>br_file := None\<rparr>"

section \<open>The virtual calls of InputStreamReader\<close>

datatype reader = StringReader string_reader | FileReader file_reader | BufferedReader buffered_reader

definition liftR :: "('r \<Rightarrow> reader) \<Rightarrow> ('r, 'a) outcome \<Rightarrow> (reader, 'a) outcome" where
  "liftR wrap m = (case m of Ret a r \<Rightarrow> Ret a (wrap r) | Quit q r \<Rightarrow> Quit q (wrap r) | Crash \<Rightarrow> Crash)"

fun rd_curChar :: "(reader, int) prog" where
  "rd_curChar (StringReader r) = liftR StringReader (sr_curChar r)"
| "rd_curChar (FileReader r) = liftR FileReader (fr_curChar r)"
| "rd_curChar (BufferedReader r) = liftR BufferedReader (br_curChar r)"

fun rd_nextChar :: "(reader, int) prog" where
  "rd_nextChar (StringReader r) = liftR StringReader (sr_nextChar r)"
| "rd_nextChar (FileReader r) = liftR FileReader (fr_nextChar r)"
| "rd_nextChar (BufferedReader r) = liftR BufferedReader (br_nextChar r)"

fun rd_skipChar :: "(reader, unit) prog" where
  "rd_skipChar (StringReader r) = liftR StringReader (sr_skipChar r)"
| "rd_skipChar (FileReader r) = liftR FileReader (fr_skipChar r)"
| "rd_skipChar (BufferedReader r) = liftR BufferedReader (br_skipChar r)"

fun rd_unreadChar :: "int \<Rightarrow> (reader, unit) prog" where
  "rd_unreadChar c (StringReader r) = liftR StringReader (sr_unreadChar c r)"
| "rd_unreadChar c (FileReader r) = liftR FileReader (fr_unreadChar c r)"
| "rd_unreadChar c (BufferedReader r) = liftR BufferedReader (br_unreadChar c r)"

fun rd_eof :: "(reader, bool) prog" where
  "rd_eof (StringReader r) = liftR StringReader (sr_eof r)"
| "rd_eof (FileReader r) = liftR FileReader (fr_eof r)"
| "rd_eof (BufferedReader r) = liftR BufferedReader (br_eof r)"

fun rd_setTestCase :: "int \<Rightarrow> (reader, unit) prog" where
  "rd_setTestCase tc (StringReader r) = liftR StringReader (sr_setTestCase tc r)"
| "rd_setTestCase tc (FileReader r) = liftR FileReader (fr_setTestCase tc r)"
| "rd_setTestCase tc (BufferedReader r) = liftR BufferedReader (br_setTestCase tc r)"

fun rd_getReadChars :: "(reader, int list) prog" where
  "rd_getReadChars (StringReader r) = liftR StringReader (sr_getReadChars r)"
| "rd_getReadChars (FileReader r) = liftR FileReader (fr_getReadChars r)"
| "rd_getReadChars (BufferedReader r) = liftR BufferedReader (br_getReadChars r)"

fun rd_getName :: "reader \<Rightarrow> string" where
  "rd_getName (StringReader r) = sr_getName r"
| "rd_getName (FileReader r) = fr_name r"
| "rd_getName (BufferedReader r) = br_name r"

fun rd_getLine :: "reader \<Rightarrow> int" where
  "rd_getLine (StringReader r) = sr_getLine r"
| "rd_getLine (FileReader r) = fr_line r"
| "rd_getLine (BufferedReader r) = br_line r"

fun rd_close :: "reader \<Rightarrow> reader" where
  "rd_close (StringReader r) = StringReader r"
| "rd_close (FileReader r) = FileReader (fr_close r)"
| "rd_close (BufferedReader r) = BufferedReader (br_close r)"

section \<open>The contract of a reader\<close>

text \<open>
  \<open>view r\<close> is what the reader will still deliver, \<open>room r\<close> how many characters can be put back
  whatever happens, \<open>good r\<close> the reader's own invariant. A character that was just read can be put
  back if there is room for it; putting back the end-of-input mark may use up room.
\<close>

locale char_source =
  fixes curC :: "('r, int) prog" and nextC :: "('r, int) prog" and skipC :: "('r, unit) prog"
    and unreadC :: "int \<Rightarrow> ('r, unit) prog" and eofC :: "('r, bool) prog"
    and view :: "'r \<Rightarrow> int list" and room :: "'r \<Rightarrow> nat" and good :: "'r \<Rightarrow> bool"
  assumes view_codes: "good r \<Longrightarrow> EOFC \<notin> set (view r)"
    and cur_end: "good r \<Longrightarrow> view r = [] \<Longrightarrow>
      \<exists>r'. curC r = Ret EOFC r' \<and> good r' \<and> view r' = [] \<and> room r \<le> room r'"
    and cur_char: "good r \<Longrightarrow> view r = c # cs \<Longrightarrow>
      \<exists>r' r''. curC r = Ret c r' \<and> good r' \<and> view r' = c # cs \<and> room r \<le> room r' \<and>
        skipC r' = Ret () r'' \<and> good r'' \<and> view r'' = cs \<and> room r \<le> room r''"
    and next_end: "good r \<Longrightarrow> view r = [] \<Longrightarrow>
      \<exists>r'. nextC r = Ret EOFC r' \<and> good r' \<and> view r' = [] \<and> room r \<le> room r' \<and>
        (0 < room r \<longrightarrow> (\<exists>r''. unreadC EOFC r' = Ret () r'' \<and> good r'' \<and> view r'' = [] \<and>
           room r \<le> Suc (room r'')))"
    and next_char: "good r \<Longrightarrow> view r = c # cs \<Longrightarrow>
      \<exists>r'. nextC r = Ret c r' \<and> good r' \<and> view r' = cs \<and> room r \<le> room r' \<and>
        (0 < room r \<longrightarrow> (\<exists>r''. unreadC c r' = Ret () r'' \<and> good r'' \<and> view r'' = c # cs \<and>
           room r \<le> room r''))"
    and eof_view: "good r \<Longrightarrow>
      \<exists>r'. eofC r = Ret (view r = []) r' \<and> good r' \<and> view r' = view r \<and> room r \<le> room r'"
begin

lemma cur_view:
  assumes "good r"
  shows "\<exists>r'. curC r = Ret (case view r of [] \<Rightarrow> EOFC | c # _ \<Rightarrow> c) r' \<and> good r' \<and> view r' = view r \<and>
    room r \<le> room r'"
  using cur_end [OF assms] cur_char [OF assms] by (cases "view r") force+

lemma next_view:
  assumes "good r"
  shows "\<exists>r'. nextC r = Ret (case view r of [] \<Rightarrow> EOFC | c # _ \<Rightarrow> c) r' \<and> good r' \<and> view r' = tl (view r) \<and>
    room r \<le> room r'"
  using next_end [OF assms] next_char [OF assms] by (cases "view r") force+

text \<open>Looking at the current character and then reading it agree.\<close>

lemma cur_then_next:
  assumes "good r" "curC r = Ret c r'"
  shows "\<exists>r''. nextC r' = Ret c r''"
proof -
  have "good r'" "view r' = view r" "c = (case view r of [] \<Rightarrow> EOFC | c # _ \<Rightarrow> c)"
    using cur_view [OF assms(1)] assms(2) by auto
  then show ?thesis using next_view [of r'] by auto
qed

text \<open>A character that is read and put back is read again.\<close>

lemma next_unread_next:
  assumes "good r" "0 < room r" "nextC r = Ret c r'"
  shows "\<exists>r'' r3. unreadC c r' = Ret () r'' \<and> view r'' = view r \<and> nextC r'' = Ret c r3 \<and> view r3 = tl (view r)"
proof -
  obtain r'' where u: "unreadC c r' = Ret () r''" "good r''" "view r'' = view r"
    using next_end [OF assms(1)] next_char [OF assms(1)] assms by (cases "view r") force+
  have "c = (case view r of [] \<Rightarrow> EOFC | c # _ \<Rightarrow> c)"
    using next_view [OF assms(1)] assms(3) by auto
  with next_view [OF u(2)] u show ?thesis by auto
qed

text \<open>The end-of-input test is the comparison of the current character with \<^verbatim>\<open>EOFC\<close>.\<close>

lemma eof_iff_cur:
  assumes "good r" "curC r = Ret c r'" "eofC r = Ret b r''"
  shows "b \<longleftrightarrow> c = EOFC"
proof -
  have "b \<longleftrightarrow> view r = []" using eof_view [OF assms(1)] assms(3) by auto
  moreover have "c = EOFC \<longleftrightarrow> view r = []"
    using cur_view [OF assms(1)] assms(2) view_codes [OF assms(1)] by (cases "view r") auto
  ultimately show ?thesis by simp
qed

end

text \<open>Two characters of lookback.\<close>

locale char_source2 = char_source +
  assumes next_next_unread: "good r \<Longrightarrow> view r = c # cs \<Longrightarrow> 0 < room r \<Longrightarrow>
      nextC r = Ret c r1 \<Longrightarrow> nextC r1 = Ret d r2 \<Longrightarrow>
      \<exists>r3 r4. unreadC d r2 = Ret () r3 \<and> unreadC c r3 = Ret () r4 \<and> good r4 \<and> view r4 = c # cs \<and>
        room r \<le> Suc (Suc (room r4))"

section \<open>The string reader\<close>

definition sr_view :: "string_reader \<Rightarrow> int list" where
  "sr_view r = map schar (drop (sr_pos r) (sr_s r))"

lemma sr_view_Nil: "sr_view r = [] \<longleftrightarrow> length (sr_s r) \<le> sr_pos r"
  by (simp add: sr_view_def)

lemma sr_view_Cons:
  "sr_view r = c # cs \<longleftrightarrow> sr_pos r < length (sr_s r) \<and> c = schar (sr_s r ! sr_pos r) \<and>
     cs = map schar (drop (Suc (sr_pos r)) (sr_s r))"
proof (cases "sr_pos r < length (sr_s r)")
  case True
  then have "drop (sr_pos r) (sr_s r) = sr_s r ! sr_pos r # drop (Suc (sr_pos r)) (sr_s r)"
    by (simp add: Cons_nth_drop_Suc)
  with True show ?thesis by (auto simp: sr_view_def)
qed (simp add: sr_view_def)

lemmas sr_defs = sr_curChar_def sr_nextChar_def sr_skipChar_def sr_unreadChar_def sr_eof_def

interpretation sr: char_source2 sr_curChar sr_nextChar sr_skipChar sr_unreadChar sr_eof
  sr_view "\<lambda>_. 1" "\<lambda>_. True"
proof unfold_locales
  fix r :: string_reader and c :: int and cs :: "int list"
  show "EOFC \<notin> set (sr_view r)" by (auto simp: sr_view_def)
  show "\<exists>r'. sr_eof r = Ret (sr_view r = []) r' \<and> True \<and> sr_view r' = sr_view r \<and> (1::nat) \<le> 1"
    by (simp add: sr_eof_def sr_view_Nil)
  show "\<exists>r'. sr_curChar r = Ret EOFC r' \<and> True \<and> sr_view r' = [] \<and> (1::nat) \<le> 1" if "sr_view r = []"
    using that by (simp add: sr_curChar_def sr_view_Nil)
  show "\<exists>r' r''. sr_curChar r = Ret c r' \<and> True \<and> sr_view r' = c # cs \<and> (1::nat) \<le> 1 \<and>
        sr_skipChar r' = Ret () r'' \<and> True \<and> sr_view r'' = cs \<and> (1::nat) \<le> 1" if "sr_view r = c # cs"
    using that by (auto simp: sr_curChar_def sr_skipChar_def sr_view_Cons) (simp add: sr_view_def)
  show "\<exists>r'. sr_nextChar r = Ret EOFC r' \<and> True \<and> sr_view r' = [] \<and> (1::nat) \<le> 1 \<and>
        ((0::nat) < 1 \<longrightarrow> (\<exists>r''. sr_unreadChar EOFC r' = Ret () r'' \<and> True \<and> sr_view r'' = [] \<and>
          (1::nat) \<le> Suc 1))" if "sr_view r = []"
    using that by (simp add: sr_nextChar_def sr_unreadChar_def sr_view_Nil Let_def)
  show "\<exists>r'. sr_nextChar r = Ret c r' \<and> True \<and> sr_view r' = cs \<and> (1::nat) \<le> 1 \<and>
        ((0::nat) < 1 \<longrightarrow> (\<exists>r''. sr_unreadChar c r' = Ret () r'' \<and> True \<and> sr_view r'' = c # cs \<and>
          (1::nat) \<le> 1))" if "sr_view r = c # cs"
    using that by (auto simp: sr_nextChar_def sr_unreadChar_def sr_view_Cons Let_def) (simp add: sr_view_def)
next
  fix r r1 r2 :: string_reader and c d :: int and cs :: "int list"
  assume "sr_view r = c # cs" "sr_nextChar r = Ret c r1" "sr_nextChar r1 = Ret d r2"
  then show "\<exists>r3 r4. sr_unreadChar d r2 = Ret () r3 \<and> sr_unreadChar c r3 = Ret () r4 \<and> True \<and>
      sr_view r4 = c # cs \<and> (1::nat) \<le> Suc (Suc 1)"
    by (auto simp: sr_nextChar_def sr_unreadChar_def sr_view_Cons Let_def split: if_splits)
qed

section \<open>The FILE reader\<close>

definition fr_view :: "file_reader \<Rightarrow> int list" where
  "fr_view r = (case fr_file r of
     None \<Rightarrow> []
   | Some f \<Rightarrow> if f_eof f then [] else fr_undoChars r @ map uchar (f_rest f))"

text \<open>
  While bytes are left, neither the undo stack nor the file holds the code 255, and every
  character on the undo stack has its partner on \<^verbatim>\<open>undoReadChars\<close>.
\<close>

definition fr_good :: "file_reader \<Rightarrow> bool" where
  "fr_good r \<longleftrightarrow> (\<exists>f. fr_file r = Some f \<and> (f_eof f \<or>
     (EOFC \<notin> set (fr_undoChars r) \<and> EOF \<notin> set (fr_undoChars r) \<and>
      CHR 0xFF \<notin> set (f_rest f) \<and> length (fr_undoChars r) \<le> length (fr_undoReadChars r))))"

lemma uchar_neq_EOF [simp]: "uchar c \<noteq> EOF" "EOF \<noteq> uchar c"
  using uchar_range [of c] by (auto simp: EOF_def)

lemma EOF_neq_EOFC [simp]: "EOF \<noteq> EOFC" "EOFC \<noteq> EOF"
  by (simp_all add: EOF_def EOFC_def)

lemma fr_view_cases:
  assumes "fr_good r"
  obtains (ended) f where "fr_file r = Some f" "f_eof f" "fr_view r = []"
  | (exhausted) f where "fr_file r = Some f" "\<not> f_eof f" "fr_undoChars r = []"
      "f_rest f = []" "fr_view r = []"
  | (bytes) f c cs where "fr_file r = Some f" "\<not> f_eof f" "fr_undoChars r = []"
      "f_rest f = c # cs" "c \<noteq> CHR 0xFF" "CHR 0xFF \<notin> set cs" "fr_view r = uchar c # map uchar cs"
  | (undone) f c undo rc undoRead where "fr_file r = Some f" "\<not> f_eof f"
      "fr_undoChars r = c # undo" "fr_undoReadChars r = rc # undoRead" "c \<noteq> EOFC" "c \<noteq> EOF"
      "EOFC \<notin> set undo" "EOF \<notin> set undo" "CHR 0xFF \<notin> set (f_rest f)"
      "length undo \<le> length undoRead" "fr_view r = c # undo @ map uchar (f_rest f)"
proof -
  obtain f where f: "fr_file r = Some f" using assms by (auto simp: fr_good_def)
  show thesis
  proof (cases "f_eof f")
    case True
    then show thesis using f by (intro ended) (simp_all add: fr_view_def)
  next
    case False
    note g = assms [unfolded fr_good_def] f False
    show thesis
    proof (cases "fr_undoChars r")
      case Nil
      then show thesis using g
        by (cases "f_rest f") (auto simp: fr_view_def intro: exhausted bytes)
    next
      case (Cons c undo)
      then obtain rc undoRead where "fr_undoReadChars r = rc # undoRead"
        using g by (cases "fr_undoReadChars r") auto
      with Cons g show thesis by (intro undone) (auto simp: fr_view_def)
    qed
  qed
qed

lemmas fr_defs = fr_curChar_def fr_nextChar_def fr_skipChar_def fr_unreadChar_def fr_eof_def
  fr_feof_def fr_getc_def fr_ungetc_def c_getc_def postprocessGetc_def

lemma uchar_neq_EOFC: "c \<noteq> CHR 0xFF \<Longrightarrow> uchar c \<noteq> EOFC" "c \<noteq> CHR 0xFF \<Longrightarrow> EOFC \<noteq> uchar c"
  using uchar_eq_EOFC_iff [of c] by auto

lemma EOFC_notin_uchar: "CHR 0xFF \<notin> set cs \<Longrightarrow> EOFC \<notin> uchar ` set cs"
  by (metis image_iff uchar_eq_EOFC_iff)

interpretation fr: char_source fr_curChar fr_nextChar fr_skipChar fr_unreadChar fr_eof
  fr_view "\<lambda>_. 1" fr_good
proof unfold_locales
  fix r :: file_reader and c :: int and cs :: "int list"
  assume g: "fr_good r"
  show "EOFC \<notin> set (fr_view r)"
    using g by (cases rule: fr_view_cases) (auto simp: uchar_neq_EOFC EOFC_notin_uchar)
  show "\<exists>r'. fr_eof r = Ret (fr_view r = []) r' \<and> fr_good r' \<and> fr_view r' = fr_view r \<and> (1::nat) \<le> 1"
    using g by (cases rule: fr_view_cases)
      (auto simp: fr_defs fr_good_def fr_view_def uchar_neq_EOFC uchar_eq_EOFC_iff)
  show "\<exists>r'. fr_curChar r = Ret EOFC r' \<and> fr_good r' \<and> fr_view r' = [] \<and> (1::nat) \<le> 1" if "fr_view r = []"
    using g that by (cases rule: fr_view_cases) (auto simp: fr_defs fr_good_def fr_view_def)
  show "\<exists>r' r''. fr_curChar r = Ret c r' \<and> fr_good r' \<and> fr_view r' = c # cs \<and> (1::nat) \<le> 1 \<and>
        fr_skipChar r' = Ret () r'' \<and> fr_good r'' \<and> fr_view r'' = cs \<and> (1::nat) \<le> 1" if "fr_view r = c # cs"
    using g that by (cases rule: fr_view_cases)
      (auto simp: fr_defs fr_good_def fr_view_def uchar_neq_EOFC uchar_eq_EOFC_iff)
  show "\<exists>r'. fr_nextChar r = Ret EOFC r' \<and> fr_good r' \<and> fr_view r' = [] \<and> (1::nat) \<le> 1 \<and>
        ((0::nat) < 1 \<longrightarrow> (\<exists>r''. fr_unreadChar EOFC r' = Ret () r'' \<and> fr_good r'' \<and> fr_view r'' = [] \<and>
          (1::nat) \<le> Suc 1))" if "fr_view r = []"
    using g that by (cases rule: fr_view_cases)
      (auto simp: fr_defs fr_good_def fr_view_def split: list.splits)
  show "\<exists>r'. fr_nextChar r = Ret c r' \<and> fr_good r' \<and> fr_view r' = cs \<and> (1::nat) \<le> 1 \<and>
        ((0::nat) < 1 \<longrightarrow> (\<exists>r''. fr_unreadChar c r' = Ret () r'' \<and> fr_good r'' \<and> fr_view r'' = c # cs \<and>
          (1::nat) \<le> 1))" if "fr_view r = c # cs"
    using g that by (cases rule: fr_view_cases)
      (auto simp: fr_defs fr_good_def fr_view_def uchar_neq_EOFC uchar_eq_EOFC_iff)
qed

section \<open>The buffered reader\<close>

text \<open>The cells between the position and the end of the buffer; \<open>None\<close> is an end-of-input mark.\<close>

definition br_cell :: "buffered_reader \<Rightarrow> nat \<Rightarrow> int option" where
  "br_cell r i = (if br_isEof r i then None else Some (schar (br_buffer r i)))"

fun until_mark :: "int option list \<Rightarrow> int list \<Rightarrow> int list" where
  "until_mark [] rest = rest"
| "until_mark (None # cells) rest = []"
| "until_mark (Some c # cells) rest = c # until_mark cells rest"

definition br_view :: "buffered_reader \<Rightarrow> int list" where
  "br_view r = until_mark (map (br_cell r) [nat (br_bufferPos r)..<br_bufferSize r])
     (case br_file r of None \<Rightarrow> [] | Some f \<Rightarrow> map schar (f_rest f))"

definition br_room :: "buffered_reader \<Rightarrow> nat" where
  "br_room r = min (nat (br_bufferPos r)) MAX_UNREAD_COUNT"

definition br_good :: "buffered_reader \<Rightarrow> bool" where
  "br_good r \<longleftrightarrow> (\<exists>f. br_file r = Some f \<and> \<not> f_err f) \<and> 0 \<le> br_bufferPos r \<and>
     br_bufferPos r \<le> int (br_bufferSize r) \<and>
     MAX_UNREAD_COUNT \<le> br_bufferSize r \<and> br_bufferSize r \<le> BUFFER_SIZE"

lemma buffer_sizes: "MAX_UNREAD_COUNT < BUFFER_SIZE" "0 < MAX_UNREAD_COUNT"
  "BUFFER_SIZE - MAX_UNREAD_COUNT = MAX_UNREAD_COUNT" "BUFFER_SIZE = MAX_UNREAD_COUNT + MAX_UNREAD_COUNT"
  by (simp_all add: BUFFER_SIZE_def MAX_UNREAD_COUNT_def)

lemma until_mark_some: "until_mark (map Some xs) rest = xs @ rest"
  by (induction xs) auto

lemma until_mark_codes: "EOFC \<notin> set rest \<Longrightarrow> EOFC \<notin> set (until_mark (map (br_cell r) is) rest)"
  by (induction "is") (auto simp: br_cell_def)

lemma br_view_codes: "EOFC \<notin> set (br_view r)"
  unfolding br_view_def by (rule until_mark_codes) (auto split: option.split)

lemma br_view_cong:
  assumes "br_file r' = br_file r" "br_bufferPos r' = br_bufferPos r" "br_bufferSize r' = br_bufferSize r"
    and "\<And>i. nat (br_bufferPos r) \<le> i \<Longrightarrow> br_isEof r' i = br_isEof r i"
    and "\<And>i. nat (br_bufferPos r) \<le> i \<Longrightarrow> br_buffer r' i = br_buffer r i"
  shows "br_view r' = br_view r"
proof -
  have "map (br_cell r') [nat (br_bufferPos r)..<br_bufferSize r]
      = map (br_cell r) [nat (br_bufferPos r)..<br_bufferSize r]"
    using assms(4,5) by (intro map_cong) (simp_all add: br_cell_def)
  with assms(1-3) show ?thesis by (simp add: br_view_def del: map_eq_conv)
qed

lemma br_view_step:
  assumes "0 \<le> br_bufferPos r" "br_bufferPos r < int (br_bufferSize r)"
  shows "br_view r = (if br_isEof r (nat (br_bufferPos r)) then []
    else schar (br_buffer r (nat (br_bufferPos r))) # br_view (r\<lparr>br_bufferPos := br_bufferPos r + 1\<rparr>))"
proof -
  have le: "nat (br_bufferPos r) < br_bufferSize r" "nat (br_bufferPos r + 1) = Suc (nat (br_bufferPos r))"
    using assms by auto
  have same: "br_cell (r\<lparr>br_bufferPos := br_bufferPos r + 1\<rparr>) = br_cell r"
    by (simp add: br_cell_def fun_eq_iff)
  have cells: "[nat (br_bufferPos r)..<br_bufferSize r]
      = nat (br_bufferPos r) # [Suc (nat (br_bufferPos r))..<br_bufferSize r]"
    using le(1) by (rule upt_conv_Cons)
  show ?thesis
    by (simp add: br_view_def le(2) same cells) (simp add: br_cell_def)
qed

lemma br_view_at:
  assumes "br_good r" "br_bufferPos r < int (br_bufferSize r)"
  shows "br_view r = (if br_isEof r (nat (br_bufferPos r)) then []
    else schar (br_buffer r (nat (br_bufferPos r))) # br_view (r\<lparr>br_bufferPos := br_bufferPos r + 1\<rparr>))"
  using assms by (intro br_view_step) (simp_all add: br_good_def)

text \<open>
  \<^verbatim>\<open>refill\<close> never changes what the reader presents; it answers \<^verbatim>\<open>false\<close> exactly when the buffer
  and the file are used up.
\<close>

lemma br_refill_view:
  assumes "br_refill r = Ret ok r'"
  shows "br_view r' = br_view r" "ok \<Longrightarrow> br_bufferPos r' < int (br_bufferSize r')"
    "\<not> ok \<Longrightarrow> br_view r = []"
proof -
  obtain f where f: "br_file r = Some f"
    using assms by (cases "br_file r") (auto simp: br_refill_def testlib_fail_def)
  have "br_view r' = br_view r \<and> (if ok then br_bufferPos r' < int (br_bufferSize r') else br_view r = [])"
  proof (cases "br_bufferPos r \<ge> int (br_bufferSize r)")
    case False
    then show ?thesis using assms f by (auto simp: br_refill_def)
  next
    case True
    let ?M = MAX_UNREAD_COUNT
    let ?chunk = "take ?M (f_rest f)"
    have r': "br_file r' = Some (snd (c_fread ?M f))" "br_bufferSize r' = ?M + length ?chunk"
      "br_bufferPos r' = int ?M" "ok = (length ?chunk > 0)"
      "br_buffer r' = (\<lambda>i. if ?M \<le> i \<and> i < ?M + length ?chunk then ?chunk ! (i - ?M) else br_buffer r i)"
      "br_isEof r' = (\<lambda>i. if ?M \<le> i \<and> i < ?M + length ?chunk then False else br_isEof r i)"
      using assms f True
      by (auto simp: br_refill_def c_fread_def buffer_sizes Let_def testlib_fail_def split: if_splits)
    have old: "br_view r = map schar (f_rest f)"
      using True f by (simp add: br_view_def)
    have "map (br_cell r') [?M..<?M + length ?chunk] = map Some (map schar ?chunk)"
      by (rule nth_equalityI) (simp_all add: br_cell_def r')
    then have "br_view r' = map schar (f_rest f)"
      using until_mark_some [of "map schar ?chunk" "map schar (drop ?M (f_rest f))"]
      by (simp add: br_view_def c_fread_def r' flip: map_append)
    with old r' buffer_sizes(2) show ?thesis by auto
  qed
  then show "br_view r' = br_view r" "ok \<Longrightarrow> br_bufferPos r' < int (br_bufferSize r')"
    "\<not> ok \<Longrightarrow> br_view r = []" by auto
qed

lemma br_refill_end: "br_refill r = Ret False r' \<Longrightarrow> br_bufferPos r' = int (br_bufferSize r')"
  by (auto simp: br_refill_def c_fread_def Let_def testlib_fail_def split: option.splits if_splits)

lemma br_refill_spec:
  assumes "br_good r"
  shows "\<exists>ok r'. br_refill r = Ret ok r' \<and> br_good r' \<and> br_view r' = br_view r \<and> br_room r \<le> br_room r' \<and>
    (if ok then br_bufferPos r' < int (br_bufferSize r') else br_view r = [] \<and> 0 < br_bufferPos r')"
proof -
  obtain f where f: "br_file r = Some f" "\<not> f_err f" using assms by (auto simp: br_good_def)
  have "\<exists>ok r'. br_refill r = Ret ok r'"
    using f by (auto simp: br_refill_def c_fread_def Let_def)
  then obtain ok r' where run: "br_refill r = Ret ok r'" by blast
  have "br_good r' \<and> br_room r \<le> br_room r' \<and> (\<not> ok \<longrightarrow> 0 < br_bufferPos r')"
    using run f assms buffer_sizes(2)
    by (auto simp: br_refill_def br_good_def br_room_def c_fread_def buffer_sizes(3,4) Let_def testlib_fail_def
        split: if_splits)
  with run br_refill_view [OF run] show ?thesis by auto
qed

lemma br_unread_spec:
  assumes "br_good r" "0 < br_bufferPos r"
  shows "\<exists>r'. br_unreadChar c r = Ret () r' \<and> br_good r' \<and> br_bufferPos r' = br_bufferPos r - 1 \<and>
    br_view r' = (if c = EOFC then [] else schar (to_char c) # br_view r)"
proof -
  let ?p = "br_bufferPos r - 1"
  let ?r' = "r\<lparr>br_bufferPos := ?p, br_isEof := (br_isEof r)(nat ?p := (c = EOFC)),
      br_buffer := (br_buffer r)(nat ?p := to_char c),
      br_line := br_line r - (if c = LF then 1 else 0)\<rparr>"
  have run: "br_unreadChar c r = Ret () ?r'"
    using assms(2) by (simp add: br_unreadChar_def Let_def)
  have good: "br_good ?r'" using assms by (auto simp: br_good_def)
  have lt: "br_bufferPos ?r' < int (br_bufferSize ?r')" using assms by (auto simp: br_good_def)
  have "br_view (?r'\<lparr>br_bufferPos := ?p + 1\<rparr>) = br_view r"
    using assms(2) by (intro br_view_cong) auto
  with br_view_at [OF good lt] have "br_view ?r' = (if c = EOFC then [] else schar (to_char c) # br_view r)"
    by (cases "c = EOFC") simp_all
  with run good show ?thesis by simp
qed

lemma br_increment_spec:
  assumes "br_good r" "br_bufferPos r < int (br_bufferSize r)" "br_view r = c # cs"
  shows "\<exists>r'. br_increment r = Ret c r' \<and> br_good r' \<and> br_bufferPos r' = br_bufferPos r + 1 \<and> br_view r' = cs"
proof -
  have v: "br_view r = schar (br_buffer r (nat (br_bufferPos r))) # br_view (r\<lparr>br_bufferPos := br_bufferPos r + 1\<rparr>)"
    using br_view_at [OF assms(1,2)] assms(3) by (auto split: if_splits)
  have "br_view (r\<lparr>br_bufferPos := br_bufferPos r + 1, br_line := l\<rparr>)
      = br_view (r\<lparr>br_bufferPos := br_bufferPos r + 1\<rparr>)" for l
    by (rule br_view_cong) simp_all
  with v assms show ?thesis
    by (auto simp: br_increment_def br_good_def Let_def)
qed

text \<open>What a read at the refilled position does, for both \<^verbatim>\<open>curChar\<close> and \<^verbatim>\<open>nextChar\<close>.\<close>

lemma br_at_end:
  assumes "br_good r" "br_view r = []"
  shows "\<exists>r'. br_curChar r = Ret EOFC r' \<and> br_nextChar r = Ret EOFC r' \<and> br_good r' \<and> br_view r' = [] \<and>
    br_room r \<le> br_room r' \<and> (0 < br_room r \<longrightarrow> 0 < br_bufferPos r')"
proof -
  obtain ok r' where r': "br_refill r = Ret ok r'" "br_good r'" "br_view r' = []" "br_room r \<le> br_room r'"
      "if ok then br_bufferPos r' < int (br_bufferSize r') else 0 < br_bufferPos r'"
    using br_refill_spec [OF assms(1)] assms(2) by (metis (full_types))
  have "ok \<Longrightarrow> br_isEof r' (nat (br_bufferPos r'))"
    using br_view_at [OF r'(2)] r'(3,5) by (auto split: if_splits)
  moreover have "0 < br_room r \<longrightarrow> 0 < br_bufferPos r'"
    using r'(4) by (auto simp: br_room_def)
  ultimately show ?thesis using r' by (auto simp: br_curChar_def br_nextChar_def)
qed

lemma br_at_char:
  assumes "br_good r" "br_view r = c # cs"
  shows "\<exists>r' r''. br_curChar r = Ret c r' \<and> br_good r' \<and> br_view r' = c # cs \<and> br_room r \<le> br_room r' \<and>
    br_nextChar r = br_increment r' \<and> br_increment r' = Ret c r'' \<and> br_good r'' \<and> br_view r'' = cs \<and>
    br_bufferPos r'' = br_bufferPos r' + 1 \<and> c = schar (to_char c)"
proof -
  obtain ok r' where r': "br_refill r = Ret ok r'" "br_good r'" "br_view r' = c # cs" "br_room r \<le> br_room r'"
      "if ok then br_bufferPos r' < int (br_bufferSize r') else br_view r = []"
    using br_refill_spec [OF assms(1)] assms(2) by (metis (full_types))
  then have ok: "ok = True" "br_bufferPos r' < int (br_bufferSize r')"
    using assms(2) by (simp_all split: if_splits)
  have at: "\<not> br_isEof r' (nat (br_bufferPos r'))" "c = schar (br_buffer r' (nat (br_bufferPos r')))"
    using br_view_at [OF r'(2) ok(2)] r'(3) by (auto split: if_splits)
  obtain r'' where "br_increment r' = Ret c r''" "br_good r''" "br_bufferPos r'' = br_bufferPos r' + 1"
      "br_view r'' = cs"
    using br_increment_spec [OF r'(2) ok(2) r'(3)] by blast
  then show ?thesis using r' ok at by (auto simp: br_curChar_def br_nextChar_def)
qed

lemma br_room_mono: "br_bufferPos r \<le> br_bufferPos r' \<Longrightarrow> br_room r \<le> br_room r'"
  by (auto simp: br_room_def)

lemma br_room_pred: "br_bufferPos r' = br_bufferPos r - 1 \<Longrightarrow> br_room r \<le> Suc (br_room r')"
  by (auto simp: br_room_def)

lemma br_next_end:
  assumes "br_good r" "br_view r = []"
  shows "\<exists>r'. br_nextChar r = Ret EOFC r' \<and> br_good r' \<and> br_view r' = [] \<and> br_room r \<le> br_room r' \<and>
    (0 < br_room r \<longrightarrow> (\<exists>r''. br_unreadChar EOFC r' = Ret () r'' \<and> br_good r'' \<and> br_view r'' = [] \<and>
       br_room r \<le> Suc (br_room r'')))"
  using br_at_end [OF assms] br_unread_spec [of _ EOFC] br_room_pred by (metis order_trans)

lemma br_next_char:
  assumes "br_good r" "br_view r = c # cs"
  shows "\<exists>r'. br_nextChar r = Ret c r' \<and> br_good r' \<and> br_view r' = cs \<and> br_room r \<le> br_room r' \<and>
    min (Suc (br_room r)) MAX_UNREAD_COUNT \<le> br_room r' \<and>
    (\<exists>r''. br_unreadChar c r' = Ret () r'' \<and> br_good r'' \<and> br_view r'' = c # cs \<and> br_room r \<le> br_room r'')"
proof -
  from br_at_char [OF assms] obtain r1 r' where *: "br_nextChar r = br_increment r1" "br_good r1"
    "br_room r \<le> br_room r1" "br_increment r1 = Ret c r'" "br_good r'" "br_view r' = cs"
    "br_bufferPos r' = br_bufferPos r1 + 1" "c = schar (to_char c)" by blast
  have "0 < br_bufferPos r'" using *(2,7) by (auto simp: br_good_def)
  from br_unread_spec [OF *(5) this, of c] obtain r'' where **: "br_unreadChar c r' = Ret () r''"
    "br_good r''" "br_bufferPos r'' = br_bufferPos r' - 1" "br_view r'' = c # cs"
    using *(6,8) schar_not_EOFC by metis
  have "br_room r \<le> br_room r'" "br_room r \<le> br_room r''"
    using *(3,7) **(3) br_room_mono [of r1 r'] br_room_mono [of r1 r''] by simp_all
  moreover have "min (Suc (br_room r)) MAX_UNREAD_COUNT \<le> br_room r'"
    using *(2,3,7) by (auto simp: br_room_def br_good_def)
  ultimately show ?thesis using * ** by auto
qed

lemma br_next_unread:
  assumes "br_good r" "0 < br_room r" "br_nextChar r = Ret d r'"
  shows "\<exists>r''. br_unreadChar d r' = Ret () r'' \<and> br_good r'' \<and> br_view r'' = br_view r \<and>
    br_room r \<le> Suc (br_room r'')"
proof (cases "br_view r")
  case Nil
  with br_next_end [OF assms(1)] assms show ?thesis by auto
next
  case (Cons c cs)
  with br_next_char [OF assms(1)] assms show ?thesis by fastforce
qed

lemma br_two_back:
  assumes "br_good r" "br_view r = c # cs" "0 < br_room r" "br_nextChar r = Ret c r1" "br_nextChar r1 = Ret d r2"
  shows "\<exists>r3 r4. br_unreadChar d r2 = Ret () r3 \<and> br_unreadChar c r3 = Ret () r4 \<and> br_good r4 \<and>
    br_view r4 = c # cs \<and> br_room r \<le> Suc (Suc (br_room r4))"
proof -
  have 1: "br_good r1" "br_view r1 = cs" "br_room r \<le> br_room r1" "2 \<le> br_room r1"
    using br_next_char [OF assms(1,2)] assms(3,4) by (auto simp: MAX_UNREAD_COUNT_def BUFFER_SIZE_def)
  then obtain r3 where r3: "br_unreadChar d r2 = Ret () r3" "br_good r3" "br_view r3 = cs"
    "br_room r1 \<le> Suc (br_room r3)"
    using br_next_unread [OF 1(1) _ assms(5)] by auto
  have "0 < br_bufferPos r3" using r3(4) 1(4) by (auto simp: br_room_def)
  from br_unread_spec [OF r3(2) this, of c] obtain r4 where r4: "br_unreadChar c r3 = Ret () r4" "br_good r4"
    "br_bufferPos r4 = br_bufferPos r3 - 1" "br_view r4 = (if c = EOFC then [] else schar (to_char c) # cs)"
    using r3(3) by auto
  have "c = schar (to_char c)" using br_at_char [OF assms(1,2)] by auto
  then have "c \<noteq> EOFC" by (metis schar_not_EOFC(1))
  with r4(4) \<open>c = schar (to_char c)\<close> have "br_view r4 = c # cs" by simp
  moreover have "br_room r \<le> Suc (Suc (br_room r4))"
    using 1(3) r3(4) br_room_pred [OF r4(3)] by simp
  ultimately show ?thesis using r3 r4 by blast
qed

interpretation br: char_source2 br_curChar br_nextChar br_skipChar br_unreadChar br_eof
  br_view br_room br_good
proof unfold_locales
  fix r :: buffered_reader and c :: int and cs :: "int list"
  assume g: "br_good r"
  show "EOFC \<notin> set (br_view r)" by (rule br_view_codes)
  show "\<exists>r'. br_curChar r = Ret EOFC r' \<and> br_good r' \<and> br_view r' = [] \<and> br_room r \<le> br_room r'"
    if "br_view r = []"
    using br_at_end [OF g that] by blast
  show "\<exists>r' r''. br_curChar r = Ret c r' \<and> br_good r' \<and> br_view r' = c # cs \<and> br_room r \<le> br_room r' \<and>
        br_skipChar r' = Ret () r'' \<and> br_good r'' \<and> br_view r'' = cs \<and> br_room r \<le> br_room r''"
    if v: "br_view r = c # cs"
  proof -
    from br_at_char [OF g v] obtain r' r'' where *: "br_curChar r = Ret c r'" "br_good r'" "br_view r' = c # cs"
      "br_room r \<le> br_room r'" "br_increment r' = Ret c r''" "br_good r''" "br_view r'' = cs"
      "br_bufferPos r'' = br_bufferPos r' + 1" by blast
    moreover have "br_room r \<le> br_room r''" using *(4,8) br_room_mono [of r' r''] by simp
    ultimately show ?thesis by (auto simp: br_skipChar_def)
  qed
  show "\<exists>r'. br_nextChar r = Ret EOFC r' \<and> br_good r' \<and> br_view r' = [] \<and> br_room r \<le> br_room r' \<and>
        (0 < br_room r \<longrightarrow> (\<exists>r''. br_unreadChar EOFC r' = Ret () r'' \<and> br_good r'' \<and> br_view r'' = [] \<and>
          br_room r \<le> Suc (br_room r'')))" if "br_view r = []"
    by (rule br_next_end [OF g that])
  show "\<exists>r'. br_nextChar r = Ret c r' \<and> br_good r' \<and> br_view r' = cs \<and> br_room r \<le> br_room r' \<and>
        (0 < br_room r \<longrightarrow> (\<exists>r''. br_unreadChar c r' = Ret () r'' \<and> br_good r'' \<and> br_view r'' = c # cs \<and>
          br_room r \<le> br_room r''))" if v: "br_view r = c # cs"
    using br_next_char [OF g v] by blast
  show "\<exists>r'. br_eof r = Ret (br_view r = []) r' \<and> br_good r' \<and> br_view r' = br_view r \<and> br_room r \<le> br_room r'"
  proof -
    from br_refill_spec [OF g] obtain ok r' where r': "br_refill r = Ret ok r'" "br_good r'" "br_view r' = br_view r"
      "br_room r \<le> br_room r'" "if ok then True else br_view r = []" by (metis (full_types))
    show ?thesis
    proof (cases "br_view r")
      case Nil
      with br_at_end [OF r'(2)] r' show ?thesis by (fastforce simp: br_eof_def)
    next
      case (Cons c cs)
      with br_at_char [OF r'(2)] r' br_view_codes [of r] show ?thesis
        by (fastforce simp: br_eof_def split: if_splits)
    qed
  qed
qed (rule br_two_back)

section \<open>All readers\<close>

fun rd_view :: "reader \<Rightarrow> int list" where
  "rd_view (StringReader r) = sr_view r"
| "rd_view (FileReader r) = fr_view r"
| "rd_view (BufferedReader r) = br_view r"

fun rd_room :: "reader \<Rightarrow> nat" where
  "rd_room (BufferedReader r) = br_room r"
| "rd_room _ = 1"

fun rd_good :: "reader \<Rightarrow> bool" where
  "rd_good (StringReader r) = True"
| "rd_good (FileReader r) = fr_good r"
| "rd_good (BufferedReader r) = br_good r"

text \<open>The readers with two characters of lookback.\<close>

fun rd_good2 :: "reader \<Rightarrow> bool" where
  "rd_good2 (FileReader r) = False"
| "rd_good2 r = rd_good r"

lemma liftR_simps [simp, outcome_simps]:
  "liftR w (Ret a r) = Ret a (w r)" "liftR w (Quit q r) = Quit q (w r)" "liftR w Crash = Crash"
  by (simp_all add: liftR_def)

lemma liftR_Ret_iff: "liftR w m = Ret a r' \<longleftrightarrow> (\<exists>r. m = Ret a r \<and> r' = w r)"
  by (cases m) auto

interpretation rd: char_source rd_curChar rd_nextChar rd_skipChar rd_unreadChar rd_eof
  rd_view rd_room rd_good
proof unfold_locales
  fix r :: reader and c :: int and cs :: "int list"
  assume g: "rd_good r"
  show "EOFC \<notin> set (rd_view r)"
    using g sr.view_codes fr.view_codes br.view_codes by (cases r) simp_all
  show "\<exists>r'. rd_curChar r = Ret EOFC r' \<and> rd_good r' \<and> rd_view r' = [] \<and> rd_room r \<le> rd_room r'"
    if "rd_view r = []"
  proof (cases r)
    case (StringReader x)
    then show ?thesis using sr.cur_end [of x] g that by fastforce
  next
    case (FileReader x)
    then show ?thesis using fr.cur_end [of x] g that by fastforce
  next
    case (BufferedReader x)
    then show ?thesis using br.cur_end [of x] g that by fastforce
  qed
  show "\<exists>r' r''. rd_curChar r = Ret c r' \<and> rd_good r' \<and> rd_view r' = c # cs \<and> rd_room r \<le> rd_room r' \<and>
        rd_skipChar r' = Ret () r'' \<and> rd_good r'' \<and> rd_view r'' = cs \<and> rd_room r \<le> rd_room r''"
    if "rd_view r = c # cs"
  proof (cases r)
    case (StringReader x)
    then show ?thesis using sr.cur_char [of x c cs] g that by fastforce
  next
    case (FileReader x)
    then show ?thesis using fr.cur_char [of x c cs] g that by fastforce
  next
    case (BufferedReader x)
    then show ?thesis using br.cur_char [of x c cs] g that by fastforce
  qed
  show "\<exists>r'. rd_nextChar r = Ret EOFC r' \<and> rd_good r' \<and> rd_view r' = [] \<and> rd_room r \<le> rd_room r' \<and>
        (0 < rd_room r \<longrightarrow> (\<exists>r''. rd_unreadChar EOFC r' = Ret () r'' \<and> rd_good r'' \<and> rd_view r'' = [] \<and>
          rd_room r \<le> Suc (rd_room r'')))" if "rd_view r = []"
  proof (cases r)
    case (StringReader x)
    then show ?thesis using sr.next_end [of x] g that by fastforce
  next
    case (FileReader x)
    then show ?thesis using fr.next_end [of x] g that by fastforce
  next
    case (BufferedReader x)
    then show ?thesis using br.next_end [of x] g that by fastforce
  qed
  show "\<exists>r'. rd_nextChar r = Ret c r' \<and> rd_good r' \<and> rd_view r' = cs \<and> rd_room r \<le> rd_room r' \<and>
        (0 < rd_room r \<longrightarrow> (\<exists>r''. rd_unreadChar c r' = Ret () r'' \<and> rd_good r'' \<and> rd_view r'' = c # cs \<and>
          rd_room r \<le> rd_room r''))" if "rd_view r = c # cs"
  proof (cases r)
    case (StringReader x)
    then show ?thesis using sr.next_char [of x c cs] g that by fastforce
  next
    case (FileReader x)
    then show ?thesis using fr.next_char [of x c cs] g that by fastforce
  next
    case (BufferedReader x)
    then show ?thesis using br.next_char [of x c cs] g that by fastforce
  qed
  show "\<exists>r'. rd_eof r = Ret (rd_view r = []) r' \<and> rd_good r' \<and> rd_view r' = rd_view r \<and> rd_room r \<le> rd_room r'"
  proof (cases r)
    case (StringReader x)
    then show ?thesis using sr.eof_view [of x] g by fastforce
  next
    case (FileReader x)
    then show ?thesis using fr.eof_view [of x] g by fastforce
  next
    case (BufferedReader x)
    then show ?thesis using br.eof_view [of x] g by fastforce
  qed
qed

text \<open>
  The readers other than the \<^verbatim>\<open>FILE\<close> reader stay what they are, so they keep the larger
  contract: an operation never changes the constructor.
\<close>

lemma rd_good2_good: "rd_good2 r \<Longrightarrow> rd_good r"
  by (cases r) simp_all

interpretation rd2: char_source2 rd_curChar rd_nextChar rd_skipChar rd_unreadChar rd_eof
  rd_view rd_room rd_good2
proof unfold_locales
  fix r :: reader and c :: int and cs :: "int list"
  assume g: "rd_good2 r"
  show "EOFC \<notin> set (rd_view r)"
    using rd.view_codes rd_good2_good [OF g] .
  show "\<exists>r'. rd_curChar r = Ret EOFC r' \<and> rd_good2 r' \<and> rd_view r' = [] \<and> rd_room r \<le> rd_room r'"
    if "rd_view r = []"
  proof (cases r)
    case (StringReader x)
    then show ?thesis using sr.cur_end [of x] that by fastforce
  next
    case (BufferedReader x)
    then show ?thesis using br.cur_end [of x] g that by fastforce
  qed (use g in simp)
  show "\<exists>r' r''. rd_curChar r = Ret c r' \<and> rd_good2 r' \<and> rd_view r' = c # cs \<and> rd_room r \<le> rd_room r' \<and>
        rd_skipChar r' = Ret () r'' \<and> rd_good2 r'' \<and> rd_view r'' = cs \<and> rd_room r \<le> rd_room r''"
    if "rd_view r = c # cs"
  proof (cases r)
    case (StringReader x)
    then show ?thesis using sr.cur_char [of x c cs] that by fastforce
  next
    case (BufferedReader x)
    then show ?thesis using br.cur_char [of x c cs] g that by fastforce
  qed (use g in simp)
  show "\<exists>r'. rd_nextChar r = Ret EOFC r' \<and> rd_good2 r' \<and> rd_view r' = [] \<and> rd_room r \<le> rd_room r' \<and>
        (0 < rd_room r \<longrightarrow> (\<exists>r''. rd_unreadChar EOFC r' = Ret () r'' \<and> rd_good2 r'' \<and> rd_view r'' = [] \<and>
          rd_room r \<le> Suc (rd_room r'')))" if "rd_view r = []"
  proof (cases r)
    case (StringReader x)
    then show ?thesis using sr.next_end [of x] that by fastforce
  next
    case (BufferedReader x)
    then show ?thesis using br.next_end [of x] g that by fastforce
  qed (use g in simp)
  show "\<exists>r'. rd_nextChar r = Ret c r' \<and> rd_good2 r' \<and> rd_view r' = cs \<and> rd_room r \<le> rd_room r' \<and>
        (0 < rd_room r \<longrightarrow> (\<exists>r''. rd_unreadChar c r' = Ret () r'' \<and> rd_good2 r'' \<and> rd_view r'' = c # cs \<and>
          rd_room r \<le> rd_room r''))" if "rd_view r = c # cs"
  proof (cases r)
    case (StringReader x)
    then show ?thesis using sr.next_char [of x c cs] that by fastforce
  next
    case (BufferedReader x)
    then show ?thesis using br.next_char [of x c cs] g that by fastforce
  qed (use g in simp)
  show "\<exists>r'. rd_eof r = Ret (rd_view r = []) r' \<and> rd_good2 r' \<and> rd_view r' = rd_view r \<and> rd_room r \<le> rd_room r'"
  proof (cases r)
    case (StringReader x)
    then show ?thesis using sr.eof_view [of x] by fastforce
  next
    case (BufferedReader x)
    then show ?thesis using br.eof_view [of x] g by fastforce
  qed (use g in simp)
next
  fix r r1 r2 :: reader and c d :: int and cs :: "int list"
  assume *: "rd_good2 r" "rd_view r = c # cs" "0 < rd_room r" "rd_nextChar r = Ret c r1" "rd_nextChar r1 = Ret d r2"
  show "\<exists>r3 r4. rd_unreadChar d r2 = Ret () r3 \<and> rd_unreadChar c r3 = Ret () r4 \<and> rd_good2 r4 \<and>
      rd_view r4 = c # cs \<and> rd_room r \<le> Suc (Suc (rd_room r4))"
  proof (cases r)
    case (StringReader x)
    with * obtain x1 x2 where "sr_nextChar x = Ret c x1" "sr_nextChar x1 = Ret d x2" "r2 = StringReader x2"
      by (auto simp: liftR_Ret_iff)
    then show ?thesis using StringReader * sr.next_next_unread [of x c cs x1 d x2] by fastforce
  next
    case (BufferedReader x)
    with * obtain x1 x2 where "br_nextChar x = Ret c x1" "br_nextChar x1 = Ret d x2" "r2 = BufferedReader x2"
      by (auto simp: liftR_Ret_iff)
    then show ?thesis using BufferedReader * br.next_next_unread [of x c cs x1 d x2] by fastforce
  qed (use * in simp)
qed

section \<open>Looking at the character after the one just read\<close>

text \<open>
  The loop of \<^verbatim>\<open>InStream::readStringTo\<close> reads a CR, looks at the character after it and puts the
  CR back. While that character exists, all three readers allow it.
\<close>

locale char_peek = char_source +
  assumes next_cur_unread: "good r \<Longrightarrow> view r = c # d # cs \<Longrightarrow> 0 < room r \<Longrightarrow>
      nextC r = Ret c r1 \<Longrightarrow> curC r1 = Ret d r2 \<Longrightarrow>
      \<exists>r3. unreadC c r2 = Ret () r3 \<and> good r3 \<and> view r3 = c # d # cs \<and> room r \<le> Suc (room r3) \<and> 0 < room r3"

lemma sr_next_cur_unread:
  assumes "sr_view r = c # d # cs" "sr_nextChar r = Ret c r1" "sr_curChar r1 = Ret d r2"
  shows "\<exists>r3. sr_unreadChar c r2 = Ret () r3 \<and> sr_view r3 = c # d # cs"
proof -
  have "r2 = r1" using assms(3) by (simp add: sr_curChar_def)
  then show ?thesis using sr.next_char [of r c "d # cs"] assms(1,2) by auto
qed

lemma fr_cur_then_unread:
  assumes "fr_good r" "fr_view r = d # cs" "fr_curChar r = Ret d r2" "c \<noteq> EOFC" "c \<noteq> EOF" "fr_readChars r \<noteq> []"
  shows "\<exists>r3. fr_unreadChar c r2 = Ret () r3 \<and> fr_good r3 \<and> fr_view r3 = c # d # cs"
proof -
  obtain rc rcs where rc: "fr_readChars r = rc # rcs" using assms(6) by (cases "fr_readChars r") auto
  show ?thesis
    using assms(1)
  proof (cases rule: fr_view_cases)
    case (ended f)
    then show ?thesis using assms(2) by simp
  next
    case (exhausted f)
    then show ?thesis using assms(2) by simp
  next
    case (bytes f b bs)
    then show ?thesis using assms rc
      by (auto simp: fr_defs fr_good_def fr_view_def uchar_neq_EOFC)
  next
    case (undone f b undo rc' undoRead)
    then show ?thesis using assms rc
      by (auto simp: fr_defs fr_good_def fr_view_def)
  qed
qed

lemma fr_next_cur_unread:
  assumes "fr_good r" "fr_view r = c # d # cs" "fr_nextChar r = Ret c r1" "fr_curChar r1 = Ret d r2"
  shows "\<exists>r3. fr_unreadChar c r2 = Ret () r3 \<and> fr_good r3 \<and> fr_view r3 = c # d # cs"
proof -
  have "fr_good r1" "fr_view r1 = d # cs" using fr.next_char [OF assms(1,2)] assms(3) by auto
  moreover have "c \<noteq> EOFC" using fr.view_codes [OF assms(1)] assms(2) by auto
  moreover have "c \<noteq> EOF"
    using assms(1,2) by (cases rule: fr_view_cases) auto
  moreover have "fr_readChars r1 \<noteq> []"
    using assms(1-3) by (cases rule: fr_view_cases) (auto simp: fr_defs)
  ultimately show ?thesis using fr_cur_then_unread [OF _ _ assms(4)] by blast
qed

lemma br_next_cur_unread:
  assumes "br_good r" "br_view r = c # d # cs" "0 < br_room r" "br_nextChar r = Ret c r1" "br_curChar r1 = Ret d r2"
  shows "\<exists>r3. br_unreadChar c r2 = Ret () r3 \<and> br_good r3 \<and> br_view r3 = c # d # cs \<and> br_room r \<le> Suc (br_room r3) \<and> 0 < br_room r3"
proof -
  have 1: "br_good r1" "br_view r1 = d # cs" "min (Suc (br_room r)) MAX_UNREAD_COUNT \<le> br_room r1"
    using br_next_char [OF assms(1,2)] assms(4) by auto
  have 2: "br_good r2" "br_view r2 = d # cs" "br_room r1 \<le> br_room r2"
    using br.cur_char [OF 1(1,2)] assms(5) by auto
  have c: "c = schar (to_char c)" using br_at_char [OF assms(1,2)] by blast
  have "0 < br_bufferPos r2"
    using 1(3) 2(3) assms(3) by (auto simp: br_room_def)
  from br_unread_spec [OF 2(1) this, of c] obtain r3 where r3: "br_unreadChar c r2 = Ret () r3" "br_good r3"
    "br_bufferPos r3 = br_bufferPos r2 - 1" "br_view r3 = (if c = EOFC then [] else schar (to_char c) # br_view r2)"
    by blast
  have "c \<noteq> EOFC" using br_view_codes [of r] assms(2) by auto
  then have "br_view r3 = c # d # cs" using r3(4) 2(2) c by simp
  moreover have "br_room r \<le> Suc (br_room r3)"
  proof -
    have "br_room r \<le> min (Suc (br_room r)) MAX_UNREAD_COUNT" by (simp add: br_room_def)
    then show ?thesis using br_room_pred [OF r3(3)] 1(3) 2(3) by linarith
  qed
  moreover have "0 < br_room r3"
  proof -
    have "min (Suc (br_room r)) MAX_UNREAD_COUNT \<le> nat (br_bufferPos r2)"
    proof -
      have "br_room r2 \<le> nat (br_bufferPos r2)" by (simp add: br_room_def)
      with 1(3) 2(3) show ?thesis by linarith
    qed
    with assms(3) have "2 \<le> br_bufferPos r2"
      by (auto simp: MAX_UNREAD_COUNT_def BUFFER_SIZE_def)
    then show ?thesis using r3(3) by (auto simp: br_room_def MAX_UNREAD_COUNT_def BUFFER_SIZE_def)
  qed
  ultimately show ?thesis using r3 by blast
qed

interpretation rdp: char_peek rd_curChar rd_nextChar rd_skipChar rd_unreadChar rd_eof
  rd_view rd_room rd_good
proof unfold_locales
  fix r r1 r2 :: reader and c d :: int and cs :: "int list"
  assume *: "rd_good r" "rd_view r = c # d # cs" "0 < rd_room r" "rd_nextChar r = Ret c r1" "rd_curChar r1 = Ret d r2"
  show "\<exists>r3. rd_unreadChar c r2 = Ret () r3 \<and> rd_good r3 \<and> rd_view r3 = c # d # cs \<and> rd_room r \<le> Suc (rd_room r3) \<and> 0 < rd_room r3"
  proof (cases r)
    case (StringReader x)
    with * obtain x1 x2 where "sr_nextChar x = Ret c x1" "sr_curChar x1 = Ret d x2" "r2 = StringReader x2"
      by (auto simp: liftR_Ret_iff)
    then show ?thesis using StringReader * sr_next_cur_unread [of x c d cs x1 x2] by fastforce
  next
    case (FileReader x)
    with * obtain x1 x2 where "fr_nextChar x = Ret c x1" "fr_curChar x1 = Ret d x2" "r2 = FileReader x2"
      by (auto simp: liftR_Ret_iff)
    then show ?thesis using FileReader * fr_next_cur_unread [of x c d cs x1 x2] by fastforce
  next
    case (BufferedReader x)
    with * obtain x1 x2 where "br_nextChar x = Ret c x1" "br_curChar x1 = Ret d x2" "r2 = BufferedReader x2"
      by (auto simp: liftR_Ret_iff)
    then show ?thesis using BufferedReader * br_next_cur_unread [of x c d cs x1 x2] by fastforce
  qed
qed

section \<open>Every read makes progress\<close>

text \<open>
  The loops over a reader stop because each character that is delivered shortens the view. These
  facts hold in every state, also outside the contract.
\<close>

definition fr_size :: "file_reader \<Rightarrow> nat" where
  "fr_size r = (case fr_file r of
     None \<Rightarrow> 0
   | Some f \<Rightarrow> if f_eof f then 0 else Suc (length (fr_undoChars r) + length (f_rest f)))"

fun rd_size :: "reader \<Rightarrow> nat" where
  "rd_size (StringReader r) = length (sr_view r)"
| "rd_size (FileReader r) = fr_size r"
| "rd_size (BufferedReader r) = length (br_view r)"

lemma sr_next_size: "sr_nextChar r = Ret c r' \<Longrightarrow> c \<noteq> EOFC \<Longrightarrow> length (sr_view r') < length (sr_view r)"
  by (auto simp: sr_nextChar_def sr_view_def split: if_splits)

lemma fr_getc_size:
  assumes "fr_getc r = Ret c r'" "fr_feof r = Some False"
  shows "fr_size r' < fr_size r" "c \<noteq> EOF \<Longrightarrow> fr_feof r' = Some False \<and> Suc (fr_size r') = fr_size r"
  using assms
  by (auto simp: fr_getc_def fr_size_def fr_feof_def c_getc_def split: list.splits option.splits if_splits)

lemma fr_ungetc_size:
  assumes "fr_ungetc c r = Ret () r'"
  shows "fr_undoChars r' = c # fr_undoChars r" "fr_feof r' = fr_feof r"
    "fr_feof r = Some False \<Longrightarrow> fr_size r' = Suc (fr_size r)"
    "fr_feof r \<noteq> Some False \<Longrightarrow> fr_size r' = 0"
  using assms
  by (auto simp: fr_ungetc_def fr_size_def Let_def fr_feof_def split: list.splits option.splits)

lemma fr_size_ended: "fr_feof r \<noteq> Some False \<Longrightarrow> fr_size r = 0"
  by (auto simp: fr_feof_def fr_size_def split: option.splits)

lemma fr_next_cases:
  assumes "fr_nextChar r = Ret c r'"
  shows "c \<noteq> EOFC \<Longrightarrow> fr_size r' < fr_size r" "fr_size r' \<le> fr_size r"
proof -
  show "fr_size r' \<le> fr_size r" "c \<noteq> EOFC \<Longrightarrow> fr_size r' < fr_size r"
    using assms fr_getc_size(1) [of r]
    by (auto simp: fr_nextChar_def andThen_Ret_iff split: option.splits bool.splits dest: less_imp_le)
qed

text \<open>\<^verbatim>\<open>curChar\<close> reads a character and puts it back.\<close>

lemma fr_cur_cases:
  assumes "fr_curChar r = Ret c r'"
  obtains (ended) "r' = r" "fr_size r' = 0" "c = EOFC"
  | (peek) d r1 where "fr_feof r = Some False" "fr_getc r = Ret d r1" "fr_ungetc d r1 = Ret () r'"
      "c = postprocessGetc d"
  using assms fr_size_ended [of r]
  by (auto simp: fr_curChar_def andThen_Ret_iff split: option.splits bool.splits)

lemma fr_cur_size: "fr_curChar r = Ret c r' \<Longrightarrow> fr_size r' \<le> fr_size r"
proof (erule fr_cur_cases)
  fix d r1
  assume *: "fr_feof r = Some False" "fr_getc r = Ret d r1" "fr_ungetc d r1 = Ret () r'"
  show "fr_size r' \<le> fr_size r"
    using fr_getc_size(1) [OF *(2,1)] fr_ungetc_size(3,4) [OF *(3)] by (cases "fr_feof r1 = Some False") auto
qed simp

lemma fr_cur_next:
  assumes "fr_curChar r = Ret c r'" "c \<noteq> EOFC"
  shows "fr_skipChar r' = Ret () r'' \<Longrightarrow> fr_size r'' < fr_size r"
    and "fr_nextChar r' = Ret e r'' \<Longrightarrow> fr_size r'' < fr_size r"
proof -
  from assms obtain d r1 where *: "fr_feof r = Some False" "fr_getc r = Ret d r1" "fr_ungetc d r1 = Ret () r'"
      "d \<noteq> EOF"
    by (auto elim!: fr_cur_cases simp: postprocessGetc_def split: if_splits)
  have f': "fr_feof r' = Some False" and le: "fr_size r' \<le> fr_size r"
    using fr_getc_size(2) [OF *(2,1,4)] fr_ungetc_size(2) [OF *(3)] fr_cur_size [OF assms(1)] by simp_all
  show "fr_skipChar r' = Ret () r'' \<Longrightarrow> fr_size r'' < fr_size r"
    using fr_getc_size(1) [OF _ f'] le by (force simp: fr_skipChar_def andThen_Ret_iff)
  show "fr_nextChar r' = Ret e r'' \<Longrightarrow> fr_size r'' < fr_size r"
    using fr_getc_size(1) [OF _ f'] f' le by (force simp: fr_nextChar_def andThen_Ret_iff)
qed

lemma br_increment_any:
  assumes "br_increment r = Ret c r'" "br_bufferPos r < int (br_bufferSize r)"
    "\<not> br_isEof r (nat (br_bufferPos r))"
  shows "br_view r = c # br_view r'"
proof -
  have r': "0 \<le> br_bufferPos r" "c = schar (br_buffer r (nat (br_bufferPos r)))"
    using assms(1) by (auto simp: br_increment_def Let_def split: if_splits)
  have "br_view r' = br_view (r\<lparr>br_bufferPos := br_bufferPos r + 1\<rparr>)"
    using assms(1) by (intro br_view_cong) (auto simp: br_increment_def Let_def split: if_splits)
  with br_view_step [OF r'(1) assms(2)] assms(3) r'(2) show ?thesis by simp
qed

lemma br_next_cases:
  assumes "br_nextChar r = Ret c r'" "c \<noteq> EOFC"
  shows "br_view r = c # br_view r'" "0 < br_bufferPos r'" "br_bufferPos r' \<le> int (br_bufferSize r')"
    "c = schar (to_char c)"
proof -
  from assms obtain r1 where r1: "br_refill r = Ret True r1" "\<not> br_isEof r1 (nat (br_bufferPos r1))"
    "br_increment r1 = Ret c r'"
    by (auto simp: br_nextChar_def andThen_Ret_iff split: if_splits)
  show "br_view r = c # br_view r'"
    using br_increment_any [OF r1(3) _ r1(2)] br_refill_view [OF r1(1)] by simp
  show "0 < br_bufferPos r'" "br_bufferPos r' \<le> int (br_bufferSize r')"
    using r1(3) br_refill_view(2) [OF r1(1)] by (auto simp: br_increment_def Let_def split: if_splits)
  have "c = schar (br_buffer r1 (nat (br_bufferPos r1)))"
    using r1(3) by (auto simp: br_increment_def Let_def split: if_splits)
  then show "c = schar (to_char c)" by (simp only: to_char_schar)
qed

lemma br_cur_skip:
  assumes "br_curChar r = Ret c r'" "c \<noteq> EOFC"
  shows "br_view r' = br_view r" "br_skipChar r' = Ret () r'' \<Longrightarrow> br_view r = c # br_view r''"
proof -
  from assms have r': "br_refill r = Ret True r'" "\<not> br_isEof r' (nat (br_bufferPos r'))"
    "c = schar (br_buffer r' (nat (br_bufferPos r')))"
    by (auto simp: br_curChar_def andThen_Ret_iff split: if_splits)
  then show v: "br_view r' = br_view r" using br_refill_view(1) by blast
  assume "br_skipChar r' = Ret () r''"
  then obtain e where e: "br_increment r' = Ret e r''" by (auto simp: br_skipChar_def andThen_Ret_iff)
  then have "e = c" using r'(3) by (auto simp: br_increment_def Let_def split: if_splits)
  with br_increment_any [OF e _ r'(2)] br_refill_view(2) [OF r'(1)] v show "br_view r = c # br_view r''" by simp
qed

lemma br_unread_any:
  assumes "br_unreadChar c r = Ret () r'" "br_bufferPos r \<le> int (br_bufferSize r)"
  shows "br_view r' = (if c = EOFC then [] else schar (to_char c) # br_view r)"
proof -
  let ?p = "br_bufferPos r - 1"
  have p: "0 \<le> ?p" and r': "r' = r\<lparr>br_bufferPos := ?p, br_isEof := (br_isEof r)(nat ?p := (c = EOFC)),
      br_buffer := (br_buffer r)(nat ?p := to_char c), br_line := br_line r - (if c = LF then 1 else 0)\<rparr>"
    using assms(1) by (auto simp: br_unreadChar_def Let_def testlib_fail_def split: if_splits)
  have "br_view (r'\<lparr>br_bufferPos := br_bufferPos r' + 1\<rparr>) = br_view r"
    using p unfolding r' by (intro br_view_cong) auto
  with br_view_step [of r'] p assms(2) show ?thesis unfolding r' by (cases "c = EOFC") simp_all
qed

lemma br_next_le:
  assumes "br_nextChar r = Ret c r'"
  shows "length (br_view r') \<le> length (br_view r)"
proof (cases "c = EOFC")
  case True
  with assms obtain ok where "br_refill r = Ret ok r'"
    by (auto simp: br_nextChar_def br_increment_def andThen_Ret_iff Let_def split: if_splits)
  then show ?thesis using br_refill_view(1) by simp
next
  case False
  with br_next_cases(1) [OF assms] show ?thesis by simp
qed

lemma br_cur_next:
  assumes "br_curChar r = Ret c r'" "c \<noteq> EOFC" "br_nextChar r' = Ret e r''"
  shows "length (br_view r'') < length (br_view r)"
proof -
  from assms have r': "br_refill r = Ret True r'" "\<not> br_isEof r' (nat (br_bufferPos r'))"
    by (auto simp: br_curChar_def andThen_Ret_iff split: if_splits)
  have "br_refill r' = Ret True r'"
    using r'(1) br_refill_view(2) [OF r'(1)]
    by (auto simp: br_refill_def c_fread_def Let_def testlib_fail_def split: option.splits if_splits)
  with assms(3) r'(2) have "br_increment r' = Ret e r''" by (simp add: br_nextChar_def)
  with br_increment_any [OF this _ r'(2)] br_refill_view [OF r'(1)] show ?thesis by simp
qed

lemma sr_cur_next:
  assumes "sr_curChar r = Ret c r'" "c \<noteq> EOFC"
  shows "sr_nextChar r' = Ret e r'' \<Longrightarrow> length (sr_view r'') < length (sr_view r)"
    and "sr_skipChar r' = Ret () r'' \<Longrightarrow> length (sr_view r'') < length (sr_view r)"
  using assms by (auto simp: sr_curChar_def sr_nextChar_def sr_skipChar_def sr_view_def split: if_splits)

lemma rd_next_size:
  assumes "rd_nextChar r = Ret c r'"
  shows "rd_size r' \<le> rd_size r" "c \<noteq> EOFC \<Longrightarrow> rd_size r' < rd_size r"
proof -
  have "rd_size r' \<le> rd_size r \<and> (c \<noteq> EOFC \<longrightarrow> rd_size r' < rd_size r)"
  proof (cases r)
    case (StringReader x)
    then show ?thesis using assms
      by (auto simp: sr_nextChar_def sr_view_def split: if_splits)
  next
    case (FileReader x)
    then show ?thesis using assms fr_next_cases [of x c] by (auto simp: liftR_Ret_iff)
  next
    case (BufferedReader x)
    then show ?thesis using assms br_next_cases(1) [of x c] br_next_le [of x c] by (fastforce simp: liftR_Ret_iff)
  qed
  then show "rd_size r' \<le> rd_size r" "c \<noteq> EOFC \<Longrightarrow> rd_size r' < rd_size r" by auto
qed

lemma rd_cur_size:
  assumes "rd_curChar r = Ret c r'"
  shows "rd_size r' \<le> rd_size r"
    and "c \<noteq> EOFC \<Longrightarrow> rd_skipChar r' = Ret () r'' \<Longrightarrow> rd_size r'' < rd_size r"
    and "c \<noteq> EOFC \<Longrightarrow> rd_nextChar r' = Ret e r'' \<Longrightarrow> rd_size r'' < rd_size r"
proof -
  have "rd_size r' \<le> rd_size r \<and> (c \<noteq> EOFC \<longrightarrow>
      (rd_skipChar r' = Ret () r'' \<longrightarrow> rd_size r'' < rd_size r) \<and>
      (rd_nextChar r' = Ret e r'' \<longrightarrow> rd_size r'' < rd_size r))"
  proof (cases r)
    case (StringReader x)
    then obtain x' where x': "sr_curChar x = Ret c x'" "r' = StringReader x'" using assms by (auto simp: liftR_Ret_iff)
    then have "x' = x" by (simp add: sr_curChar_def)
    with StringReader x' sr_cur_next [OF x'(1)] show ?thesis by (auto simp: liftR_Ret_iff)
  next
    case (FileReader x)
    then obtain x' where x': "fr_curChar x = Ret c x'" "r' = FileReader x'" using assms by (auto simp: liftR_Ret_iff)
    with FileReader fr_cur_size [OF x'(1)] fr_cur_next [OF x'(1)] show ?thesis by (auto simp: liftR_Ret_iff)
  next
    case (BufferedReader x)
    then obtain x' where x': "br_curChar x = Ret c x'" "r' = BufferedReader x'" using assms by (auto simp: liftR_Ret_iff)
    then have "br_view x' = br_view x"
      using br_refill_view(1) by (auto simp: br_curChar_def andThen_Ret_iff split: if_splits)
    with BufferedReader x' br_cur_skip(2) [OF x'(1)] br_cur_next [OF x'(1)] show ?thesis
      by (fastforce simp: liftR_Ret_iff)
  qed
  then show "rd_size r' \<le> rd_size r"
    "c \<noteq> EOFC \<Longrightarrow> rd_skipChar r' = Ret () r'' \<Longrightarrow> rd_size r'' < rd_size r"
    "c \<noteq> EOFC \<Longrightarrow> rd_nextChar r' = Ret e r'' \<Longrightarrow> rd_size r'' < rd_size r" by auto
qed

text \<open>Putting the character just read back never makes the view longer than it was.\<close>

lemma sr_next_unread_size:
  "sr_nextChar r = Ret c r' \<Longrightarrow> sr_unreadChar c r' = Ret () r'' \<Longrightarrow> length (sr_view r'') = length (sr_view r)"
  by (auto simp: sr_nextChar_def sr_unreadChar_def sr_view_def Let_def split: if_splits)

lemma fr_next_unread_size:
  assumes "fr_nextChar r = Ret c r'" "fr_unreadChar c r' = Ret () r''"
  shows "fr_size r'' \<le> fr_size r"
proof (cases "fr_feof r' = Some False")
  case True
  then have "fr_feof r = Some False"
    using assms(1) by (auto simp: fr_nextChar_def split: option.splits bool.splits)
  then obtain d where "fr_getc r = Ret d r'"
    using assms(1) by (auto simp: fr_nextChar_def andThen_Ret_iff)
  then have "fr_size r' < fr_size r" using fr_getc_size(1) \<open>fr_feof r = Some False\<close> by blast
  then show ?thesis using fr_ungetc_size(3) [of c r' r''] assms(2) True by (simp add: fr_unreadChar_def)
next
  case False
  then show ?thesis using fr_ungetc_size(4) [of c r' r''] assms(2) by (simp add: fr_unreadChar_def)
qed

lemma br_next_unread_size:
  assumes "br_nextChar r = Ret c r'" "br_unreadChar c r' = Ret () r''"
  shows "length (br_view r'') \<le> length (br_view r)"
proof (cases "c = EOFC")
  case False
  note n = br_next_cases [OF assms(1) False]
  have "br_view r'' = c # br_view r'"
    using br_unread_any [OF assms(2) n(3)] n(4) False by simp
  with n show ?thesis by simp
next
  case True
  from assms(1) True obtain ok r1 where "br_refill r = Ret ok r1" "r' = r1" "\<not> ok \<or> br_isEof r1 (nat (br_bufferPos r1))"
    by (auto simp: br_nextChar_def br_increment_def andThen_Ret_iff Let_def split: if_splits)
  then have "br_bufferPos r' \<le> int (br_bufferSize r')"
    using br_refill_view(2) br_refill_end by (cases ok) force+
  then show ?thesis using br_unread_any [OF assms(2)] True by simp
qed

lemma rd_next_unread_size:
  "rd_nextChar r = Ret c r' \<Longrightarrow> rd_unreadChar c r' = Ret () r'' \<Longrightarrow> rd_size r'' \<le> rd_size r"
  using sr_next_unread_size fr_next_unread_size br_next_unread_size
  by (cases r) (fastforce simp: liftR_Ret_iff)+

section \<open>Limits of the FILE reader\<close>

text \<open>
  The \<^verbatim>\<open>FILE\<close> reader takes the byte 0xFF for the end of the input, since \<^verbatim>\<open>getc\<close> delivers it
  as 255, which is \<^verbatim>\<open>EOFC\<close>: \<^verbatim>\<open>eof()\<close> answers true with bytes left to read. The other readers
  deliver it as -1.
\<close>

lemma fr_eof_at_0xFF:
  "\<exists>r'. fr_eof (fr_new (open_file (CHR 0xFF # rest)) name) = Ret True r' \<and>
     fr_view r' = map uchar rest"
  by (simp add: fr_defs fr_new_def open_file_def fr_view_def uchar_eq_EOFC_iff LF_def uchar_def EOF_def EOFC_def)

lemma br_eof_at_0xFF:
  "\<exists>r'. br_eof (br_new mem memEof (open_file (CHR 0xFF # rest)) name) = Ret False r'"
proof -
  let ?r = "br_new mem memEof (open_file (CHR 0xFF # rest)) name"
  have "br_good ?r" by (simp add: br_good_def br_new_def open_file_def buffer_sizes)
  moreover have "br_view ?r \<noteq> []" by (simp add: br_view_def br_new_def open_file_def)
  ultimately show ?thesis using br.eof_view [of ?r] by auto
qed

text \<open>
  Once a read has met the end of the file, characters put back are no longer delivered: the
  end-of-file indicator is tested before the undo stack.
\<close>

lemma fr_unread_after_end:
  assumes "fr_nextChar r = Ret EOFC r1" "fr_feof r1 = Some True"
    "fr_unreadChar EOFC r1 = Ret () r2" "fr_unreadChar c r2 = Ret () r3"
  shows "fr_curChar r3 = Ret EOFC r3"
proof -
  have "fr_feof r3 = Some True"
    using assms fr_ungetc_size(2) by (metis fr_unreadChar_def)
  then show ?thesis by (simp add: fr_curChar_def)
qed

end
