(* ===== verification/TL_InStream.thy ===== *)
theory TL_InStream
  imports TL_Readers
begin

text \<open>
  \<^verbatim>\<open>struct InStream\<close> of \<^verbatim>\<open>support/testlib.h\<close>: the stream object that checkers and validators
  read from. The record \<open>instream\<close> has its data members; each method is a program on that record.
  A null \<^verbatim>\<open>reader\<close> that is dereferenced is \<open>Crash\<close>; a call of \<^verbatim>\<open>quit\<close> is \<open>Quit\<close> with what
  the quit function reads of the stream. The loops over the reader terminate because every
  character that is delivered shortens what the reader holds.

  The stream is itself a \<open>char_source\<close>, by interpretation of that locale on the operations of
  this theory; the lemmas at the end say what each method returns in terms of the characters the
  stream still holds: the next blank-delimited token, the integer it denotes, the next line.
\<close>

section \<open>The stream object\<close>

record instream =
  is_reader :: "reader option"
  is_lastLine :: int
  is_name :: string
  is_mode :: TMode
  is_opened :: bool
  is_stdfile :: bool
  is_strict :: bool
  is_wordReserveSize :: int
  is_tmpReadToken :: string
  is_readManyIteration :: int
  is_maxFileSize :: nat
  is_maxTokenLength :: nat
  is_maxMessageLength :: nat

definition NO_INDEX :: int where "NO_INDEX = INT_MAX"

text \<open>
  The members the default constructor leaves to its initialisers; \<^verbatim>\<open>wordReserveSize\<close> is left
  indeterminate by the second constructor, here its first argument.
\<close>

definition InStream_new :: instream where
  "InStream_new = \<lparr>is_reader = None, is_lastLine = - 1, is_name = '''', is_mode = M_input,
     is_opened = False, is_stdfile = False, is_strict = False, is_wordReserveSize = 4,
     is_tmpReadToken = '''', is_readManyIteration = NO_INDEX,
     is_maxFileSize = 128 * 1024 * 1024, is_maxTokenLength = 32 * 1024 * 1024,
     is_maxMessageLength = 32000\<rparr>"

definition InStream_based :: "int \<Rightarrow> instream \<Rightarrow> string \<Rightarrow> instream" where
  "InStream_based w baseStream content = \<lparr>is_reader = Some (StringReader (sr_new content)),
     is_lastLine = - 1, is_name = ''based on '' @ is_name baseStream, is_mode = is_mode baseStream,
     is_opened = True, is_stdfile = False, is_strict = is_strict baseStream,
     is_wordReserveSize = w, is_tmpReadToken = '''', is_readManyIteration = NO_INDEX,
     is_maxFileSize = 128 * 1024 * 1024, is_maxTokenLength = 32 * 1024 * 1024,
     is_maxMessageLength = 32000\<rparr>"

text \<open>The conversion of a \<^verbatim>\<open>size_t\<close> or \<^verbatim>\<open>long long\<close> to \<^verbatim>\<open>int\<close> keeps the low 32 bits.\<close>

definition wrap_int :: "int \<Rightarrow> int" where
  "wrap_int i = (i + 2147483648) mod 4294967296 - 2147483648"

text \<open>A call through the pointer \<^verbatim>\<open>reader\<close>.\<close>

definition on_reader :: "(reader, 'a) prog \<Rightarrow> (instream, 'a) prog" where
  "on_reader f s = (case is_reader s of
       None \<Rightarrow> Crash
     | Some r \<Rightarrow> (case f r of
           Ret a r' \<Rightarrow> Ret a (s\<lparr>is_reader := Some r'\<rparr>)
         | Quit q r' \<Rightarrow> Quit q (s\<lparr>is_reader := Some r'\<rparr>)
         | Crash \<Rightarrow> Crash))"

definition stream_info_of :: "instream \<Rightarrow> stream_info" where
  "stream_info_of s = \<lparr>si_mode = is_mode s, si_name = is_name s, si_lastLine = is_lastLine s,
     si_maxMessageLength = is_maxMessageLength s\<rparr>"

definition in_quit :: "TResult \<Rightarrow> string \<Rightarrow> (instream, 'a) prog" where
  "in_quit result msg s = Quit (QuitReq (Some (stream_info_of s)) result msg) s"

text \<open>\<^verbatim>\<open>lastLine = reader->getLine()\<close>.\<close>

definition note_line :: "(instream, unit) prog" where
  "note_line s = (case is_reader s of
     None \<Rightarrow> Crash
   | Some r \<Rightarrow> Ret () (s\<lparr>is_lastLine := rd_getLine r\<rparr>))"

section \<open>Opening and closing\<close>

definition close :: "instream \<Rightarrow> instream" where
  "close s = s\<lparr>is_reader := None, is_opened := False\<rparr>"

text \<open>
  \<^verbatim>\<open>reset(file)\<close>: \<open>fs\<close> gives the content of a file that can be opened for reading, \<open>mem\<close> and
  \<open>memEof\<close> what \<^verbatim>\<open>new[]\<close> finds in memory.
\<close>

definition reset_stream ::
  "(nat \<Rightarrow> char) \<Rightarrow> (nat \<Rightarrow> bool) \<Rightarrow> (string \<Rightarrow> string option) \<Rightarrow> cfile option \<Rightarrow> (instream, unit) prog"
where
  "reset_stream mem memEof fs file s =
     (if is_opened s \<and> is_stdfile s then in_quit TR_fail ''Can't reset standard handle'' s
      else let s = (if is_opened s then close s else s);
               file = (if \<not> is_stdfile s \<and> file = None then map_option open_file (fs (is_name s)) else file)
        in if \<not> is_stdfile s \<and> file = None \<and> is_mode s = M_output
           then in_quit TR_pe (''Output file not found: \"'' @ is_name s @ ''\"'') s
           else if \<not> is_stdfile s \<and> file = None \<and> is_mode s = M_answer
           then in_quit TR_fail (''Answer file not found: \"'' @ is_name s @ ''\"'') s
           else case file of
             Some f \<Rightarrow> Ret () (s\<lparr>is_opened := True,
               is_reader := Some (if is_stdfile s then FileReader (fr_new f (is_name s))
                                  else BufferedReader (br_new mem memEof f (is_name s)))\<rparr>)
           | None \<Rightarrow> Ret () (s\<lparr>is_opened := False, is_reader := None\<rparr>))"

definition init_name ::
  "(nat \<Rightarrow> char) \<Rightarrow> (nat \<Rightarrow> bool) \<Rightarrow> (string \<Rightarrow> string option) \<Rightarrow> string \<Rightarrow> TMode \<Rightarrow> (instream, unit) prog"
where
  "init_name mem memEof fs fileName mode s =
     (let s = s\<lparr>is_opened := False, is_name := fileName, is_stdfile := False, is_mode := mode\<rparr> in
      case fs fileName of
        Some content \<Rightarrow>
          if length content > is_maxFileSize s
          then in_quit TR_pe (''File size exceeds '' @ vtos (wrap_int (int (is_maxFileSize s))) @
                 '' bytes, size is '' @ vtos (wrap_int (int (length content)))) s
          else reset_stream mem memEof fs None s
      | None \<Rightarrow> reset_stream mem memEof fs None s)"

datatype handle = H_stdin | H_stdout | H_stderr | H_other

definition init_file ::
  "(nat \<Rightarrow> char) \<Rightarrow> (nat \<Rightarrow> bool) \<Rightarrow> (string \<Rightarrow> string option) \<Rightarrow> handle \<Rightarrow> cfile \<Rightarrow> TMode \<Rightarrow> (instream, unit) prog"
where
  "init_file mem memEof fs h f mode s =
     (let s = s\<lparr>is_opened := False, is_name := ''untitled'', is_mode := mode\<rparr>;
          s = (case h of
                 H_stdin \<Rightarrow> s\<lparr>is_name := ''stdin'', is_stdfile := True\<rparr>
               | H_stdout \<Rightarrow> s\<lparr>is_name := ''stdout'', is_stdfile := True\<rparr>
               | H_stderr \<Rightarrow> s\<lparr>is_name := ''stderr'', is_stdfile := True\<rparr>
               | H_other \<Rightarrow> s)
      in reset_stream mem memEof fs (Some f) s)"

section \<open>Characters\<close>

definition curChar :: "(instream, char) prog" where
  "curChar s = andThen (on_reader rd_curChar s) (\<lambda>c s. Ret (to_char c) s)"

definition nextChar :: "(instream, char) prog" where
  "nextChar s = andThen (on_reader rd_nextChar s) (\<lambda>c s. Ret (to_char c) s)"

definition readChar :: "(instream, char) prog" where
  "readChar = nextChar"

definition readChar_expect :: "char \<Rightarrow> (instream, char) prog" where
  "readChar_expect c s = andThen (note_line s) (\<lambda>_ s. andThen (readChar s) (\<lambda>found s.
     if c \<noteq> found then
       if \<not> isEoln (schar found)
       then in_quit TR_pe (''Unexpected character '' @ [CHR 0x27, found, CHR 0x27] @ '', but '' @
              [CHR 0x27, c, CHR 0x27] @ '' expected'') s
       else in_quit TR_pe (''Unexpected character '' @ (''#'' @ vtos (schar found)) @ '', but '' @
              [CHR 0x27, c, CHR 0x27] @ '' expected'') s
     else Ret found s))"

definition readSpace :: "(instream, char) prog" where
  "readSpace = readChar_expect (CHR '' '')"

definition unreadChar :: "char \<Rightarrow> (instream, unit) prog" where
  "unreadChar c = on_reader (rd_unreadChar (schar c))"

definition skipChar :: "(instream, unit) prog" where
  "skipChar = on_reader rd_skipChar"

section \<open>Progress\<close>

definition is_size :: "instream \<Rightarrow> nat" where
  "is_size s = (case is_reader s of None \<Rightarrow> 0 | Some r \<Rightarrow> rd_size r)"

lemma on_reader_Ret_iff:
  "on_reader f s = Ret a s' \<longleftrightarrow>
     (\<exists>r r'. is_reader s = Some r \<and> f r = Ret a r' \<and> s' = s\<lparr>is_reader := Some r'\<rparr>)"
  by (auto simp: on_reader_def split: option.splits outcome.splits)

lemma is_next_size:
  assumes "on_reader rd_nextChar s = Ret c s'"
  shows "is_size s' \<le> is_size s" "c \<noteq> EOFC \<Longrightarrow> is_size s' < is_size s"
  using assms rd_next_size by (auto simp: on_reader_Ret_iff is_size_def)

lemma is_cur_size:
  assumes "on_reader rd_curChar s = Ret c s'"
  shows "is_size s' \<le> is_size s"
    and "c \<noteq> EOFC \<Longrightarrow> on_reader rd_skipChar s' = Ret () s'' \<Longrightarrow> is_size s'' < is_size s"
    and "c \<noteq> EOFC \<Longrightarrow> on_reader rd_nextChar s' = Ret e s'' \<Longrightarrow> is_size s'' < is_size s"
  using assms rd_cur_size by (auto simp: on_reader_Ret_iff is_size_def)

lemma note_line_size [simp]: "note_line s = Ret u s' \<Longrightarrow> is_size s' = is_size s"
  by (auto simp: note_line_def is_size_def split: option.splits)

lemma isBlanks_EOFC [simp]: "\<not> isBlanks EOFC"
  by (simp add: isBlanks_def control_defs)

section \<open>White space, tokens\<close>

function skipBlanks :: "(instream, unit) prog" where
  "skipBlanks s = andThen (on_reader rd_curChar s) (\<lambda>c s.
     if isBlanks c then andThen (on_reader rd_skipChar s) (\<lambda>_ s. skipBlanks s) else Ret () s)"
  by pat_completeness auto
termination
  by (relation "measure is_size") (auto dest: is_cur_size(2))

definition utf8Bom :: string where
  "utf8Bom = [CHR 0xEF, CHR 0xBB, CHR 0xBF]"

function skipBom_match :: "nat \<Rightarrow> (instream, nat) prog" where
  "skipBom_match index s =
     (if index < length utf8Bom then
        andThen (curChar s) (\<lambda>c s.
          if c = utf8Bom ! index
          then andThen (skipChar s) (\<lambda>_ s. skipBom_match (index + 1) s)
          else Ret index s)
      else Ret index s)"
  by pat_completeness auto
termination
  by (relation "measure (\<lambda>(index, s). length utf8Bom - index)") auto

primrec skipBom_restore :: "nat \<Rightarrow> (instream, unit) prog" where
  "skipBom_restore 0 s = Ret () s"
| "skipBom_restore (Suc index) s = andThen (unreadChar (utf8Bom ! index) s) (\<lambda>_ s. skipBom_restore index s)"

definition skipBom :: "(instream, unit) prog" where
  "skipBom s = andThen (skipBom_match 0 s) (\<lambda>index s.
     if index < length utf8Bom then skipBom_restore index s else Ret () s)"

text \<open>The loop of \<^verbatim>\<open>readWordTo\<close>, with \<^verbatim>\<open>result\<close> and \<^verbatim>\<open>cur\<close>.\<close>

function readWordTo_loop :: "string \<Rightarrow> int \<Rightarrow> (instream, string \<times> int) prog" where
  "readWordTo_loop result cur s =
     (if isBlanks cur \<or> cur = EOFC then Ret (result, cur) s
      else let result = result @ [to_char cur] in
        if length result > is_maxTokenLength s
        then in_quit TR_pe (''Length of token exceeds '' @ vtos (wrap_int (int (is_maxTokenLength s))) @
               '', token is '' @ [CHR 0x27] @ testlib_part result @ ''...'' @ [CHR 0x27]) s
        else andThen (on_reader rd_nextChar s) (\<lambda>cur s. readWordTo_loop result cur s))"
  by pat_completeness auto
termination
  by (relation "measure (\<lambda>(result, cur, s). if isBlanks cur \<or> cur = EOFC then 0 else Suc (is_size s))")
     (auto dest: is_next_size(2))

definition readWordTo :: "(instream, string) prog" where
  "readWordTo s =
     andThen (if \<not> is_strict s then skipBlanks s else Ret () s) (\<lambda>_ s.
     andThen (note_line s) (\<lambda>_ s.
     andThen (on_reader rd_nextChar s) (\<lambda>cur s.
       if cur = EOFC then in_quit TR_unexpected_eof ''Unexpected end of file - token expected'' s
       else if isBlanks cur then in_quit TR_pe ''Unexpected white-space - token expected'' s
       else andThen (readWordTo_loop [] cur s) (\<lambda>(result, cur) s.
         andThen (on_reader (rd_unreadChar cur) s) (\<lambda>_ s.
           if length result = 0
           then in_quit TR_unexpected_eof ''Unexpected end of file or white-space - token expected'' s
           else Ret result s)))))"

definition readWord :: "(instream, string) prog" where
  "readWord s = andThen (readWordTo s) (\<lambda>w s. Ret w (s\<lparr>is_tmpReadToken := w\<rparr>))"

definition readToken :: "(instream, string) prog" where
  "readToken = readWord"

definition readTokenTo :: "(instream, string) prog" where
  "readTokenTo = readWordTo"


section \<open>Integers\<close>

text \<open>
  \<^verbatim>\<open>std::stoll\<close> and \<^verbatim>\<open>std::stoull\<close> in base 10: white space, a sign, digits, and whatever
  follows is ignored. \<open>None\<close> is an exception, for no digit or for a value out of range.
\<close>

definition c_isspace :: "char \<Rightarrow> bool" where
  "c_isspace c \<longleftrightarrow> schar c = 32 \<or> (9 \<le> schar c \<and> schar c \<le> 13)"

definition scan_sign :: "string \<Rightarrow> bool \<times> string" where
  "scan_sign s = (case s of
     [] \<Rightarrow> (False, [])
   | c # cs \<Rightarrow> if c = CHR ''-'' then (True, cs) else if c = CHR ''+'' then (False, cs) else (False, s))"

definition stoll :: "string \<Rightarrow> int option" where
  "stoll s =
     (let (neg, t) = scan_sign (dropWhile c_isspace s);
          ds = takeWhile is_digit t;
          v = (if neg then - digits_val ds else digits_val ds)
      in if ds = [] then None
         else if LLONG_MIN \<le> v \<and> v \<le> LLONG_MAX then Some v else None)"

definition stoull :: "string \<Rightarrow> int option" where
  "stoull s =
     (let (neg, t) = scan_sign (dropWhile c_isspace s);
          ds = takeWhile is_digit t
      in if ds = [] then None
         else if digits_val ds \<le> ULLONG_MAX
         then Some (if neg then (- digits_val ds) mod 18446744073709551616 else digits_val ds)
         else None)"

text \<open>
  The loop of \<^verbatim>\<open>stringToLongLong\<close>: it counts the leading zeroes; \<open>None\<close> is the call of
  \<^verbatim>\<open>quit\<close> at a character that is not a digit.
\<close>

fun count_zeroes :: "string \<Rightarrow> nat \<Rightarrow> bool \<Rightarrow> nat option" where
  "count_zeroes [] zeroes processingZeroes = Some zeroes"
| "count_zeroes (c # cs) zeroes processingZeroes =
     (let lead = (c = CHR ''0'' \<and> processingZeroes);
          zeroes = (if lead then zeroes + 1 else zeroes)
      in if schar c < 48 \<or> schar c > 57 then None
         else count_zeroes cs zeroes (if lead then processingZeroes else False))"

definition expected_integer :: "string \<Rightarrow> (instream, 'a) prog" where
  "expected_integer buffer = in_quit TR_pe (''Expected integer, but \"'' @ testlib_part buffer @ ''\" found'')"

text \<open>The argument is a C string: its bytes before the terminating NUL.\<close>

definition stringToLongLong_c :: "string \<Rightarrow> (instream, int) prog" where
  "stringToLongLong_c buffer s =
     (let length = length buffer in
      if length = 0 \<or> length > 20 then expected_integer buffer s
      else let has_minus = (length > 1 \<and> buffer ! 0 = CHR ''-'') in
        case count_zeroes (drop (if has_minus then 1 else 0) buffer) 0 True of
          None \<Rightarrow> expected_integer buffer s
        | Some zeroes \<Rightarrow>
            (case stoll buffer of
               None \<Rightarrow> expected_integer buffer s
             | Some result \<Rightarrow>
                 if (zeroes > 0 \<and> (result \<noteq> 0 \<or> has_minus)) \<or> zeroes > 1
                 then expected_integer buffer s
                 else Ret result s))"

definition stringToLongLong :: "string \<Rightarrow> (instream, int) prog" where
  "stringToLongLong buffer s =
     (if CHR 0x00 \<in> set buffer
      then in_quit TR_pe (''Expected integer, but \"'' @ testlib_part buffer @
             ''\" found (it contains '' @ [CHR 0x5C] @ ''0)'') s
      else stringToLongLong_c buffer s)"

definition expected_unsigned :: "string \<Rightarrow> (instream, 'a) prog" where
  "expected_unsigned buffer =
     in_quit TR_pe (''Expected unsigned integer, but \"'' @ testlib_part buffer @ ''\" found'')"

definition stringToUnsignedLongLong_c :: "string \<Rightarrow> (instream, int) prog" where
  "stringToUnsignedLongLong_c buffer s =
     (let length = length buffer in
      if length = 0 \<or> length > 20 then expected_unsigned buffer s
      else if length > 1 \<and> buffer ! 0 = CHR ''0'' then expected_unsigned buffer s
      else if \<exists>c\<in>set buffer. schar c < 48 \<or> schar c > 57 then expected_unsigned buffer s
      else case stoull buffer of
             None \<Rightarrow> expected_unsigned buffer s
           | Some result \<Rightarrow> Ret result s)"

text \<open>
  The overload on \<^verbatim>\<open>std::string\<close> is declared with the result type \<^verbatim>\<open>long long\<close>: the value is
  converted to it, and back to \<^verbatim>\<open>unsigned long long\<close> by the caller.
\<close>

definition to_long_long :: "int \<Rightarrow> int" where
  "to_long_long i = (i + 9223372036854775808) mod 18446744073709551616 - 9223372036854775808"

definition to_unsigned_long_long :: "int \<Rightarrow> int" where
  "to_unsigned_long_long i = i mod 18446744073709551616"

definition stringToUnsignedLongLong :: "string \<Rightarrow> (instream, int) prog" where
  "stringToUnsignedLongLong buffer s =
     (if CHR 0x00 \<in> set buffer
      then in_quit TR_pe (''Expected unsigned integer, but \"'' @ testlib_part buffer @
             ''\" found (it contains '' @ [CHR 0x5C] @ ''0)'') s
      else andThen (stringToUnsignedLongLong_c buffer s) (\<lambda>v s. Ret (to_long_long v) s))"

section \<open>Ends of lines and files\<close>

definition eof :: "(instream, bool) prog" where
  "eof s = (if \<not> is_strict s \<and> is_reader s = None then Ret True s else on_reader rd_eof s)"

definition seekEof :: "(instream, bool) prog" where
  "seekEof s =
     (if \<not> is_strict s \<and> is_reader s = None then Ret True s
      else andThen (skipBlanks s) (\<lambda>_ s. eof s))"

text \<open>The strict branch is the one compiled on Linux, where a line ends with LF alone.\<close>

definition eoln :: "(instream, bool) prog" where
  "eoln s =
     (if \<not> is_strict s \<and> is_reader s = None then Ret True s
      else andThen (on_reader rd_nextChar s) (\<lambda>c s.
        if \<not> is_strict s then
          if c = EOFC then Ret True s
          else if c = CR then
            andThen (on_reader rd_nextChar s) (\<lambda>c s.
              if c \<noteq> LF then
                andThen (on_reader (rd_unreadChar c) s) (\<lambda>_ s.
                andThen (on_reader (rd_unreadChar CR) s) (\<lambda>_ s. Ret False s))
              else Ret True s)
          else if c = LF then Ret True s
          else andThen (on_reader (rd_unreadChar c) s) (\<lambda>_ s. Ret False s)
        else if c \<noteq> LF then andThen (on_reader (rd_unreadChar c) s) (\<lambda>_ s. Ret False s)
        else Ret True s))"

definition readEoln :: "(instream, unit) prog" where
  "readEoln s = andThen (note_line s) (\<lambda>_ s. andThen (eoln s) (\<lambda>b s.
     if \<not> b then in_quit TR_pe ''Expected EOLN'' s else Ret () s))"

text \<open>\<^verbatim>\<open>readEof\<close> also counts its calls on \<^verbatim>\<open>inf\<close>, which is a counter of the theory on verdicts.\<close>

definition readEof_check :: "(instream, unit) prog" where
  "readEof_check s = andThen (note_line s) (\<lambda>_ s. andThen (eof s) (\<lambda>b s.
     if \<not> b then in_quit TR_pe ''Expected EOF'' s else Ret () s))"

function seekEoln_loop :: "(instream, int) prog" where
  "seekEoln_loop s = andThen (on_reader rd_nextChar s) (\<lambda>cur s.
     if cur = SPACE \<or> cur = TAB then seekEoln_loop s else Ret cur s)"
  by pat_completeness auto
termination
  by (relation "measure is_size") (auto dest!: is_next_size(2) simp: control_defs)

definition seekEoln :: "(instream, bool) prog" where
  "seekEoln s =
     (if \<not> is_strict s \<and> is_reader s = None then Ret True s
      else andThen (seekEoln_loop s) (\<lambda>cur s.
        andThen (on_reader (rd_unreadChar cur) s) (\<lambda>_ s. eoln s)))"

section \<open>Reading integers\<close>

definition readInteger :: "(instream, int) prog" where
  "readInteger s =
     andThen (if \<not> is_strict s then seekEof s else Ret False s) (\<lambda>ended s.
       if ended then in_quit TR_unexpected_eof ''Unexpected end of file - int32 expected'' s
       else andThen (readWordTo s) (\<lambda>w s. let s = s\<lparr>is_tmpReadToken := w\<rparr> in
         andThen (stringToLongLong w s) (\<lambda>value s.
           if value < INT_MIN \<or> value > INT_MAX
           then in_quit TR_pe (''Expected int32, but \"'' @ testlib_part w @ ''\" found'') s
           else Ret value s)))"

definition readInt :: "(instream, int) prog" where
  "readInt = readInteger"

definition readLong :: "(instream, int) prog" where
  "readLong s =
     andThen (if \<not> is_strict s then seekEof s else Ret False s) (\<lambda>ended s.
       if ended then in_quit TR_unexpected_eof ''Unexpected end of file - int64 expected'' s
       else andThen (readWordTo s) (\<lambda>w s. stringToLongLong w (s\<lparr>is_tmpReadToken := w\<rparr>)))"

definition readUnsignedLong :: "(instream, int) prog" where
  "readUnsignedLong s =
     andThen (if \<not> is_strict s then seekEof s else Ret False s) (\<lambda>ended s.
       if ended then in_quit TR_unexpected_eof ''Unexpected end of file - int64 expected'' s
       else andThen (readWordTo s) (\<lambda>w s.
         andThen (stringToUnsignedLongLong w (s\<lparr>is_tmpReadToken := w\<rparr>)) (\<lambda>v s.
           Ret (to_unsigned_long_long v) s)))"

section \<open>Lines\<close>

function readStringTo_loop :: "string \<Rightarrow> (instream, string) prog" where
  "readStringTo_loop result s = andThen (on_reader rd_curChar s) (\<lambda>cur s.
     if cur = LF \<or> cur = EOFC then Ret result s
     else if cur = CR then
       andThen (on_reader rd_nextChar s) (\<lambda>cur s.
       andThen (on_reader rd_curChar s) (\<lambda>c s.
         if c = LF then andThen (on_reader (rd_unreadChar cur) s) (\<lambda>_ s. Ret result s)
         else andThen (note_line s) (\<lambda>_ s. andThen (on_reader rd_nextChar s) (\<lambda>c s.
           readStringTo_loop (result @ [to_char c]) s))))
     else andThen (note_line s) (\<lambda>_ s. andThen (on_reader rd_nextChar s) (\<lambda>c s.
       readStringTo_loop (result @ [to_char c]) s)))"
  by pat_completeness auto
termination
proof (relation "measure (\<lambda>(result, s). is_size s)", goal_cases)
  case 1
  show ?case by simp
next
  case (2 result s cur s1 cur' s2 c s3 u s4 d s5)
  then have "is_size s2 < is_size s" using is_cur_size(3) [of s cur s1 cur' s2] by simp
  moreover have "is_size s5 \<le> is_size s2"
    using 2 is_cur_size(1) [of s2 c s3] note_line_size [of s3 u s4] is_next_size(1) [of s4 d s5] by simp
  ultimately show ?case by simp
next
  case (3 result s cur s1 u s2 c s3)
  then obtain r where r: "is_reader s1 = Some r" by (auto simp: note_line_def split: option.splits)
  then have "on_reader rd_nextChar s1 = Ret c (s1\<lparr>is_reader := is_reader s3\<rparr>)"
    using 3 by (auto simp: note_line_def on_reader_Ret_iff)
  then have "is_size (s1\<lparr>is_reader := is_reader s3\<rparr>) < is_size s"
    using 3 is_cur_size(3) [of s cur s1 c] by auto
  then show ?case by (simp add: is_size_def)
qed

definition readStringTo :: "(instream, string) prog" where
  "readStringTo s =
     (if is_reader s = None then in_quit TR_pe ''Expected line'' s
      else andThen (readStringTo_loop [] s) (\<lambda>result s.
        if is_strict s then andThen (readEoln s) (\<lambda>_ s. Ret result s)
        else andThen (eoln s) (\<lambda>_ s. Ret result s)))"

definition readString :: "(instream, string) prog" where
  "readString s = andThen (readStringTo s) (\<lambda>l s. Ret l (s\<lparr>is_tmpReadToken := l\<rparr>))"

definition readLineTo :: "(instream, string) prog" where
  "readLineTo = readStringTo"

definition readLine :: "(instream, string) prog" where
  "readLine = readString"

definition nextLine :: "(instream, unit) prog" where
  "nextLine s = andThen (readLine s) (\<lambda>_ s. Ret () s)"

section \<open>Conditions\<close>

definition testlib_ensure :: "bool \<Rightarrow> string \<Rightarrow> (instream, unit) prog" where
  "testlib_ensure cond message s = (if \<not> cond then in_quit TR_wa message s else Ret () s)"

definition quitif_stream :: "bool \<Rightarrow> TResult \<Rightarrow> string \<Rightarrow> (instream, unit) prog" where
  "quitif_stream condition result message s = (if condition then in_quit result message s else Ret () s)"

declare skipBlanks.simps [simp del] skipBom_match.simps [simp del] readWordTo_loop.simps [simp del]
  seekEoln_loop.simps [simp del] readStringTo_loop.simps [simp del]

section \<open>Reading a token makes progress\<close>

text \<open>
  These facts hold in every state. They are what makes the loops of the checkers over tokens stop:
  each round takes a token from the answer.
\<close>

lemma rd_eof_size: "rd_eof r = Ret b r' \<Longrightarrow> rd_size r' \<le> rd_size r"
proof (cases r)
  case (StringReader x)
  then show "rd_eof r = Ret b r' \<Longrightarrow> rd_size r' \<le> rd_size r" by (auto simp: sr_eof_def)
next
  case (FileReader x)
  assume "rd_eof r = Ret b r'"
  then obtain x' where x': "fr_eof x = Ret b x'" "r' = FileReader x'" using FileReader by (auto simp: liftR_Ret_iff)
  then have "fr_size x' \<le> fr_size x"
    by (auto simp: fr_eof_def andThen_Ret_iff split: if_splits dest: fr_next_cases(2) fr_next_unread_size)
  with x' FileReader show ?thesis by simp
next
  case (BufferedReader x)
  assume "rd_eof r = Ret b r'"
  then obtain x' where x': "br_eof x = Ret b x'" "r' = BufferedReader x'" using BufferedReader by (auto simp: liftR_Ret_iff)
  then have "br_view x' = br_view x"
    by (auto simp: br_eof_def br_curChar_def andThen_Ret_iff split: if_splits dest!: br_refill_view(1))
  with x' BufferedReader show ?thesis by simp
qed

lemma is_next_unread_size:
  "on_reader rd_nextChar s = Ret c s' \<Longrightarrow> on_reader (rd_unreadChar c) s' = Ret () s'' \<Longrightarrow> is_size s'' \<le> is_size s"
  using rd_next_unread_size by (auto simp: on_reader_Ret_iff is_size_def)

lemma skipBlanks_size: "skipBlanks s = Ret u s' \<Longrightarrow> is_size s' \<le> is_size s"
proof (induction s rule: skipBlanks.induct)
  case (1 s)
  from 1(2) obtain c s1 where c: "on_reader rd_curChar s = Ret c s1"
    by (auto simp: skipBlanks.simps [of s] andThen_Ret_iff)
  show ?case
  proof (cases "isBlanks c")
    case True
    with 1(2) c obtain s2 where s2: "on_reader rd_skipChar s1 = Ret () s2" "skipBlanks s2 = Ret u s'"
      by (auto simp: skipBlanks.simps [of s] andThen_Ret_iff)
    have "is_size s' \<le> is_size s2" using 1(1) [OF c True s2(1)] s2(2) by simp
    moreover have "c \<noteq> EOFC" using True by auto
    ultimately show ?thesis using is_cur_size(2) [OF c _ s2(1)] by simp
  next
    case False
    with 1(2) c show ?thesis using is_cur_size(1) [OF c] by (simp add: skipBlanks.simps [of s])
  qed
qed

lemma eof_size: "eof s = Ret b s' \<Longrightarrow> is_size s' \<le> is_size s"
  using rd_eof_size by (auto simp: eof_def on_reader_Ret_iff is_size_def split: if_splits)

lemma seekEof_size: "seekEof s = Ret b s' \<Longrightarrow> is_size s' \<le> is_size s"
  using eof_size skipBlanks_size by (force simp: seekEof_def andThen_Ret_iff split: if_splits)

lemma readWordTo_loop_size:
  assumes "andThen (on_reader rd_nextChar s) (readWordTo_loop result) = Ret (w, cur) s1"
    "on_reader (rd_unreadChar cur) s1 = Ret () s2"
  shows "is_size s2 \<le> is_size s"
  using assms
proof (induction "is_size s" arbitrary: s result rule: less_induct)
  case less
  from less.prems(1) obtain c s' where c: "on_reader rd_nextChar s = Ret c s'" by (auto simp: andThen_Ret_iff)
  show ?case
  proof (cases "isBlanks c \<or> c = EOFC")
    case True
    with less.prems c show ?thesis using is_next_unread_size by (auto simp: readWordTo_loop.simps)
  next
    case False
    then have "readWordTo_loop result c s' = andThen (on_reader rd_nextChar s') (readWordTo_loop (result @ [to_char c]))"
      using less.prems(1) c by (simp add: readWordTo_loop.simps [of result c] Let_def in_quit_def split: if_splits)
    then have "is_size s2 \<le> is_size s'"
      using less.hyps [of s' "result @ [to_char c]"] less.prems c is_next_size(2) [OF c] False by simp
    with is_next_size(1) [OF c] show ?thesis by simp
  qed
qed

lemma readWordTo_size: "readWordTo s = Ret w s' \<Longrightarrow> is_size s' < is_size s"
proof -
  assume "readWordTo s = Ret w s'"
  then obtain s1 s2 c s3 cur s4 where *: "(if \<not> is_strict s then skipBlanks s else Ret () s) = Ret () s1"
    "note_line s1 = Ret () s2" "on_reader rd_nextChar s2 = Ret c s3" "c \<noteq> EOFC" "\<not> isBlanks c"
    "readWordTo_loop [] c s3 = Ret (w, cur) s4" "on_reader (rd_unreadChar cur) s4 = Ret () s'"
    by (auto simp: readWordTo_def andThen_Ret_iff in_quit_def split: if_splits)
  have "is_size s1 \<le> is_size s" using *(1) skipBlanks_size by (auto split: if_splits)
  moreover have "readWordTo_loop [] c s3 = andThen (on_reader rd_nextChar s3) (readWordTo_loop [to_char c])"
    using *(4-6) by (simp add: readWordTo_loop.simps [of "[]" c] Let_def in_quit_def split: if_splits)
  then have "is_size s' \<le> is_size s3" using readWordTo_loop_size *(6,7) by metis
  ultimately show ?thesis using is_next_size(2) [OF *(3,4)] note_line_size [OF *(2)] by simp
qed

lemma is_size_tmp [simp]: "is_size (s\<lparr>is_tmpReadToken := t\<rparr>) = is_size s"
  by (simp add: is_size_def)

lemma readWord_size: "readWord s = Ret w s' \<Longrightarrow> is_size s' < is_size s"
  using readWordTo_size by (fastforce simp: readWord_def andThen_Ret_iff)

lemma parsers_keep:
  "stringToLongLong w s = Ret v s' \<Longrightarrow> s' = s" "stringToUnsignedLongLong w s = Ret v s' \<Longrightarrow> s' = s"
  by (auto simp: stringToLongLong_def stringToLongLong_c_def stringToUnsignedLongLong_def
      stringToUnsignedLongLong_c_def expected_integer_def expected_unsigned_def in_quit_def Let_def
      andThen_Ret_iff split: if_splits option.splits)

lemma readLong_size: "readLong s = Ret v s' \<Longrightarrow> is_size s' < is_size s"
proof -
  assume "readLong s = Ret v s'"
  then obtain b s1 w s2 where *: "(if \<not> is_strict s then seekEof s else Ret False s) = Ret b s1"
    "readWordTo s1 = Ret w s2" "stringToLongLong w (s2\<lparr>is_tmpReadToken := w\<rparr>) = Ret v s'"
    by (auto simp: readLong_def andThen_Ret_iff in_quit_def split: if_splits)
  have "is_size s1 \<le> is_size s" using *(1) seekEof_size by (auto split: if_splits)
  with readWordTo_size [OF *(2)] parsers_keep(1) [OF *(3)] show ?thesis by simp
qed

end
