(* ===== verification/TL_Quit.thy ===== *)
theory TL_Quit
  imports TL_InStream
begin

text \<open>
  The global state of a testlib program and how it ends: the three streams, the mode, the report
  file, the test-case note, the finalize guard; \<^verbatim>\<open>InStream::quit\<close> with every branch, its calls of
  itself included; the exit codes; the free functions \<^verbatim>\<open>quit\<close>, \<^verbatim>\<open>quitf\<close>, \<^verbatim>\<open>quitp\<close>, \<^verbatim>\<open>quitpi\<close>,
  \<^verbatim>\<open>setTestCase\<close>. A message that the source formats with \<^verbatim>\<open>%\<close> directives is given formatted.
\<close>

section \<open>The global state\<close>

datatype TTestlibMode = TM_unknown | TM_checker | TM_validator | TM_generator | TM_interactor | TM_scorer

text \<open>
  \<open>tl_points\<close> is \<^verbatim>\<open>__testlib_points\<close> printed with \<^verbatim>\<open>%.10f\<close>, \<open>None\<close> for infinity;
  \<open>tl_firstRun\<close> and \<open>tl_zeroBased\<close> are the static variables of \<^verbatim>\<open>setTestCase\<close>; \<open>tl_stderr\<close> is what
  has been printed, \<open>tl_checker\<close> the object \<^verbatim>\<open>checker\<close>, \<open>tl_report\<close> what the report file holds after it has been closed.
\<close>

record Checker =
  chk_initialized :: bool
  chk_testset :: string
  chk_group :: string

definition Checker_new :: Checker where
  "Checker_new = \<lparr>chk_initialized = False, chk_testset = ''tests'', chk_group = ''''\<rparr>"

record testlib =
  tl_inf :: instream
  tl_ouf :: instream
  tl_ans :: instream
  tl_mode :: TTestlibMode
  tl_appesMode :: bool
  tl_appesModeEncoding :: string
  tl_resultName :: string
  tl_checkerName :: string
  tl_points :: "string option"
  tl_hasTestCase :: bool
  tl_testCase :: int
  tl_firstRun :: bool
  tl_zeroBased :: bool
  tl_alive :: bool
  tl_registered :: bool
  tl_quitCount :: nat
  tl_readEofCount :: nat
  tl_toutOpen :: bool
  tl_testset :: string
  tl_group :: string
  tl_checker :: Checker
  tl_stderr :: string
  tl_report :: "string option"

definition testlib_init :: testlib where
  "testlib_init = \<lparr>tl_inf = InStream_new, tl_ouf = InStream_new, tl_ans = InStream_new,
     tl_mode = TM_unknown, tl_appesMode = False, tl_appesModeEncoding = ''windows-1251'',
     tl_resultName = '''', tl_checkerName = ''untitled checker'', tl_points = None,
     tl_hasTestCase = False, tl_testCase = - 1, tl_firstRun = True, tl_zeroBased = False,
     tl_alive = True, tl_registered = False, tl_quitCount = 0, tl_readEofCount = 0,
     tl_toutOpen = False, tl_testset = '''', tl_group = '''', tl_checker = Checker_new, tl_stderr = '''', tl_report = None\<rparr>"

text \<open>
  What the environment decides: the files that can be read, the uninitialised memory of the
  buffered readers, and whether the report file can be opened and closed.
\<close>

record env =
  env_fs :: "string \<Rightarrow> string option"
  env_mem :: "nat \<Rightarrow> char"
  env_memEof :: "nat \<Rightarrow> bool"
  env_canOpen :: "string \<Rightarrow> bool"
  env_canClose :: "string \<Rightarrow> bool"

section \<open>Programs on the global state\<close>

definition on_inf :: "(instream, 'a) prog \<Rightarrow> (testlib, 'a) prog" where
  "on_inf f g = (case f (tl_inf g) of
     Ret a s \<Rightarrow> Ret a (g\<lparr>tl_inf := s\<rparr>) | Quit q s \<Rightarrow> Quit q (g\<lparr>tl_inf := s\<rparr>) | Crash \<Rightarrow> Crash)"

definition on_ouf :: "(instream, 'a) prog \<Rightarrow> (testlib, 'a) prog" where
  "on_ouf f g = (case f (tl_ouf g) of
     Ret a s \<Rightarrow> Ret a (g\<lparr>tl_ouf := s\<rparr>) | Quit q s \<Rightarrow> Quit q (g\<lparr>tl_ouf := s\<rparr>) | Crash \<Rightarrow> Crash)"

definition on_ans :: "(instream, 'a) prog \<Rightarrow> (testlib, 'a) prog" where
  "on_ans f g = (case f (tl_ans g) of
     Ret a s \<Rightarrow> Ret a (g\<lparr>tl_ans := s\<rparr>) | Quit q s \<Rightarrow> Quit q (g\<lparr>tl_ans := s\<rparr>) | Crash \<Rightarrow> Crash)"

text \<open>The free functions \<^verbatim>\<open>quit(result, msg)\<close> and \<^verbatim>\<open>quitf\<close>: they call \<^verbatim>\<open>ouf.quit\<close>.\<close>

definition quit_free :: "TResult \<Rightarrow> string \<Rightarrow> (testlib, 'a) prog" where
  "quit_free result msg g = Quit (QuitReq None result msg) g"

definition quitif_free :: "bool \<Rightarrow> TResult \<Rightarrow> string \<Rightarrow> (testlib, unit) prog" where
  "quitif_free condition result msg g = (if condition then quit_free result msg g else Ret () g)"

definition ensure_free :: "bool \<Rightarrow> string \<Rightarrow> (testlib, unit) prog" where
  "ensure_free cond msg g = (if \<not> cond then quit_free TR_fail msg g else Ret () g)"

text \<open>
  \<^verbatim>\<open>__testlib_quitp(int, message)\<close>: \<^verbatim>\<open>__testlib_preparePoints\<close> bounds the points, which for an
  integer are those from 0 to 1000000.
\<close>

definition quitp_int :: "int \<Rightarrow> string \<Rightarrow> (testlib, 'a) prog" where
  "quitp_int points message g =
     (if points < 0 then quit_free TR_fail ''Parameter 'points' can't be negative'' g
      else if points > 1000000 then quit_free TR_fail ''Parameter 'points' can't be greater than 1E6'' g
      else let g = g\<lparr>tl_points := Some (vtos points @ ''.0000000000'')\<rparr>;
               stringPoints = vtos points
        in quit_free TR_points (if message = [] then stringPoints else stringPoints @ '' '' @ message) g)"

definition quitpi :: "string \<Rightarrow> string \<Rightarrow> (testlib, 'a) prog" where
  "quitpi points_info message g =
     (if CHR '' '' \<in> set points_info
      then quit_free TR_fail ''Parameter 'points_info' can't contain spaces'' g
      else if message = [] then quit_free TR_points (''points_info='' @ points_info) g
      else quit_free TR_points (''points_info='' @ points_info @ '' '' @ message) g)"

section \<open>Test cases\<close>

definition unsetTestCase :: "testlib \<Rightarrow> testlib" where
  "unsetTestCase g = g\<lparr>tl_hasTestCase := False, tl_testCase := - 1\<rparr>"

text \<open>\<^verbatim>\<open>inf.setTestCase\<close>, called on \<^verbatim>\<open>inf\<close> itself.\<close>

definition inf_setTestCase :: "int \<Rightarrow> (testlib, unit) prog" where
  "inf_setTestCase testCase g =
     (if tl_mode g \<noteq> TM_validator \<or> is_mode (tl_inf g) \<noteq> M_input \<or> \<not> is_stdfile (tl_inf g)
      then quit_free TR_fail (''InStream::setTestCase can be used only for inf in validator-mode.'' @
             '' Actually, prefer setTestCase function instead of InStream member'') g
      else on_inf (on_reader (rd_setTestCase testCase)) g)"

definition inf_getReadChars :: "(testlib, int list) prog" where
  "inf_getReadChars g =
     (if tl_mode g \<noteq> TM_validator \<or> is_mode (tl_inf g) \<noteq> M_input \<or> \<not> is_stdfile (tl_inf g)
      then quit_free TR_fail ''InStream::getReadChars can be used only for inf in validator-mode.'' g
      else if is_reader (tl_inf g) = None then Ret [] g
      else on_inf (on_reader rd_getReadChars) g)"

text \<open>The increment of the \<^verbatim>\<open>int\<close> at its maximum is undefined.\<close>

definition setTestCase :: "int \<Rightarrow> (testlib, unit) prog" where
  "setTestCase testCase g =
     (let g = (if tl_firstRun g \<and> testCase = 0 then g\<lparr>tl_zeroBased := True\<rparr> else g) in
      if tl_zeroBased g \<and> testCase = INT_MAX then Crash
      else let testCase = (if tl_zeroBased g then testCase + 1 else testCase);
               g = g\<lparr>tl_hasTestCase := True, tl_testCase := testCase\<rparr>
        in andThen (if tl_mode g = TM_validator then inf_setTestCase testCase g else Ret () g)
             (\<lambda>_ g. Ret () (g\<lparr>tl_firstRun := False\<rparr>)))"

text \<open>\<^verbatim>\<open>inf.readEof()\<close> also counts its successful calls.\<close>

definition inf_readEof :: "(testlib, unit) prog" where
  "inf_readEof g = andThen (on_inf readEof_check g) (\<lambda>_ g.
     Ret () (if tl_alive g then g\<lparr>tl_readEofCount := tl_readEofCount g + 1\<rparr> else g))"

section \<open>Results and exit codes\<close>

definition OK_EXIT_CODE :: int where "OK_EXIT_CODE = 0"
definition WA_EXIT_CODE :: int where "WA_EXIT_CODE = 1"
definition PE_EXIT_CODE :: int where "PE_EXIT_CODE = 2"
definition FAIL_EXIT_CODE :: int where "FAIL_EXIT_CODE = 3"
definition DIRT_EXIT_CODE :: int where "DIRT_EXIT_CODE = 4"
definition POINTS_EXIT_CODE :: int where "POINTS_EXIT_CODE = 7"
definition PC_BASE_EXIT_CODE :: int where "PC_BASE_EXIT_CODE = 0"

lemmas exit_code_defs = OK_EXIT_CODE_def WA_EXIT_CODE_def PE_EXIT_CODE_def FAIL_EXIT_CODE_def
  DIRT_EXIT_CODE_def POINTS_EXIT_CODE_def PC_BASE_EXIT_CODE_def

definition resultExitCode :: "TResult \<Rightarrow> int" where
  "resultExitCode r =
     (if r = TR_ok then OK_EXIT_CODE
      else if r = TR_wa then WA_EXIT_CODE
      else if r = TR_pe then PE_EXIT_CODE
      else if r = TR_fail then FAIL_EXIT_CODE
      else if r = TR_dirt then DIRT_EXIT_CODE
      else if r = TR_points then POINTS_EXIT_CODE
      else if r = TR_unexpected_eof then PE_EXIT_CODE
      else if r \<ge> TR_partially then PC_BASE_EXIT_CODE + (r - TR_partially)
      else FAIL_EXIT_CODE)"

definition outcomes :: "string list" where
  "outcomes = [''accepted'', ''wrong-answer'', ''presentation-error'', ''fail'', ''fail'', ''points'',
     ''reserved'', ''reserved'', ''unexpected-eof'', ''reserved'', ''reserved'', ''reserved'',
     ''reserved'', ''reserved'', ''reserved'', ''reserved'', ''partially-correct'']"

definition testlib_shouldCheckDirt :: "TResult \<Rightarrow> bool" where
  "testlib_shouldCheckDirt result \<longleftrightarrow> result = TR_ok \<or> result = TR_points \<or> result \<ge> TR_partially"

text \<open>A C string ends at its first NUL.\<close>

definition c_str :: "string \<Rightarrow> string" where
  "c_str s = takeWhile (\<lambda>c. c \<noteq> CHR 0x00) s"

section \<open>InStream::quit\<close>

text \<open>The message: trimmed, with the note on the test case, cut to the length of the stream.\<close>

definition note_testCase :: "TResult \<Rightarrow> string \<Rightarrow> testlib \<Rightarrow> string" where
  "note_testCase result message g =
     (if tl_hasTestCase g then
        if result \<noteq> TR_ok \<and> result \<noteq> TR_points
        then testlib_appendMessage message (''test case '' @ vtos (tl_testCase g))
        else if tl_testCase g = 1
        then testlib_appendMessage message (vtos (tl_testCase g) @ '' test case'')
        else testlib_appendMessage message (vtos (tl_testCase g) @ '' test cases'')
      else message)"

text \<open>When \<^verbatim>\<open>maxMessageLength\<close> is less than the warning, the unsigned difference wraps to a large number.\<close>

definition truncate_message :: "nat \<Rightarrow> string \<Rightarrow> string" where
  "truncate_message maxMessageLength message =
     (if length message > maxMessageLength then
        let warn = ''message length exceeds '' @ vtos (int maxMessageLength) @ '', the message is truncated: ''
        in warn @ (if length warn \<le> maxMessageLength then take (maxMessageLength - length warn) message else message)
      else message)"

definition quit_message :: "stream_info \<Rightarrow> TResult \<Rightarrow> string \<Rightarrow> testlib \<Rightarrow> string" where
  "quit_message info result msg g =
     truncate_message (si_maxMessageLength info) (note_testCase result (trim (c_str msg)) g)"

definition quitscr :: "string \<Rightarrow> testlib \<Rightarrow> testlib" where
  "quitscr msg g = (if tl_resultName g = [] then g\<lparr>tl_stderr := tl_stderr g @ c_str msg\<rparr> else g)"

text \<open>The \<^verbatim>\<open>switch\<close>: the words printed before the message; \<open>None\<close> is the unknown code.\<close>

definition error_name :: "TResult \<Rightarrow> string option" where
  "error_name result =
     (if result = TR_ok then Some ''ok ''
      else if result = TR_wa then Some ''wrong answer ''
      else if result = TR_pe then Some ''wrong output format ''
      else if result = TR_fail then Some ''FAIL ''
      else if result = TR_dirt then Some ''wrong output format ''
      else if result = TR_points then Some ''points ''
      else if result = TR_unexpected_eof then Some ''unexpected eof ''
      else if result \<ge> TR_partially then Some (''partially correct ('' @ vtos (result - TR_partially) @ '') '')
      else None)"

text \<open>What is written to the report file; \<open>None\<close> is the failure for points that were never set.\<close>

definition report_text :: "TResult \<Rightarrow> string \<Rightarrow> testlib \<Rightarrow> string option" where
  "report_text result message g =
     (let body = c_str (testlib_toPrintableMessage message) in
      if tl_appesMode g then
        let xml = ''<?xml version=\"1.0\" encoding=\"'' @ c_str (tl_appesModeEncoding g) @ ''\"?>'';
            close_tag = xmlSafeWrite body @ ''</result>'' @ [CHR 0x0A]
        in if result \<ge> TR_partially
           then Some (xml @ ''<result outcome = \"'' @ outcomes ! 16 @ ''\" pctype = \"'' @
                  vtos (result - TR_partially) @ ''\">'' @ close_tag)
           else if result \<noteq> TR_points
           then Some (xml @ ''<result outcome = \"'' @ outcomes ! nat result @ ''\">'' @ close_tag)
           else (case tl_points g of
                   None \<Rightarrow> None
                 | Some points \<Rightarrow> Some (xml @ ''<result outcome = \"'' @ outcomes ! nat result @
                     ''\" points = \"'' @ removeDoubleTrailingZeroes points @ ''\">'' @ close_tag))
      else Some body)"

datatype ending = Exited (exit_code: int) (final_state: testlib) | Aborted

text \<open>From the end of the \<^verbatim>\<open>switch\<close>: the last words, the streams, \<^verbatim>\<open>halt\<close>.\<close>

definition finish :: "TResult \<Rightarrow> string \<Rightarrow> testlib \<Rightarrow> ending" where
  "finish result message g =
     (let g = quitscr (testlib_toPrintableMessage message) g;
          g = g\<lparr>tl_stderr := tl_stderr g @ [CHR 0x0A]\<rparr>;
          g = g\<lparr>tl_inf := close (tl_inf g), tl_ouf := close (tl_ouf g), tl_ans := close (tl_ans g),
                tl_toutOpen := False\<rparr>;
          g = (if tl_resultName g \<noteq> [] then g\<lparr>tl_stderr := tl_stderr g @ ''See file to check exit message'' @ [CHR 0x0A]\<rparr>
               else g)
      in Exited (resultExitCode result) g)"

text \<open>The stream a quit request was made on.\<close>

definition quit_info :: "quitreq \<Rightarrow> testlib \<Rightarrow> stream_info" where
  "quit_info q g = (case q_on q of Some info \<Rightarrow> info | None \<Rightarrow> stream_info_of (tl_ouf g))"

text \<open>A reader only quits by \<^verbatim>\<open>__testlib_fail\<close>, and so does \<^verbatim>\<open>seekEof\<close>.\<close>

lemma rd_quits_fail:
  "rd_curChar r = Quit q r' \<Longrightarrow> q_result q = TR_fail"
  "rd_skipChar r = Quit q r' \<Longrightarrow> q_result q = TR_fail"
  "rd_eof r = Quit q r' \<Longrightarrow> q_result q = TR_fail"
proof -
  have br: "br_refill x = Quit q x' \<Longrightarrow> q_result q = TR_fail" for x x'
    by (auto simp: br_refill_def testlib_fail_def Let_def split: option.splits if_splits prod.splits)
  have bc: "br_curChar x = Quit q x' \<Longrightarrow> q_result q = TR_fail" for x x'
    using br by (auto simp: br_curChar_def andThen_def split: outcome.splits if_splits)
  have fg: "fr_getc x \<noteq> Quit q x'" for x x'
    by (auto simp: fr_getc_def split: list.splits option.splits prod.splits)
  have fu: "fr_ungetc c x \<noteq> Quit q x'" for c x x'
    by (auto simp: fr_ungetc_def Let_def)
  have fn: "fr_nextChar x \<noteq> Quit q x'" for x x'
    using fg by (auto simp: fr_nextChar_def andThen_def split: option.splits bool.splits outcome.splits)
  show "rd_curChar r = Quit q r' \<Longrightarrow> q_result q = TR_fail"
    using bc fg fu by (cases r) (auto simp: liftR_def sr_curChar_def fr_curChar_def andThen_def
      split: outcome.splits option.splits bool.splits)
  show "rd_skipChar r = Quit q r' \<Longrightarrow> q_result q = TR_fail"
    using fg by (cases r) (auto simp: liftR_def sr_skipChar_def fr_skipChar_def br_skipChar_def br_increment_def
      andThen_def Let_def split: outcome.splits if_splits)
  show "rd_eof r = Quit q r' \<Longrightarrow> q_result q = TR_fail"
    using br bc fn fu by (cases r) (auto simp: liftR_def sr_eof_def fr_eof_def br_eof_def fr_unreadChar_def
      andThen_def split: outcome.splits if_splits)
qed

lemma on_reader_quits_fail:
  assumes "\<And>r q r'. f r = Quit q r' \<Longrightarrow> q_result q = TR_fail"
  shows "on_reader f s = Quit q s' \<Longrightarrow> q_result q = TR_fail"
  using assms by (auto simp: on_reader_def split: option.splits outcome.splits)

lemma skipBlanks_quits_fail: "skipBlanks s = Quit q s' \<Longrightarrow> q_result q = TR_fail"
proof (induction s rule: skipBlanks.induct)
  case (1 s)
  show ?case
  proof (cases "on_reader rd_curChar s")
    case (Ret c s1)
    show ?thesis
    proof (cases "isBlanks c")
      case True
      then show ?thesis using 1 Ret on_reader_quits_fail [OF rd_quits_fail(2)]
        by (cases "on_reader rd_skipChar s1") (auto simp: skipBlanks.simps [of s])
    next
      case False
      then show ?thesis using 1(2) Ret by (simp add: skipBlanks.simps [of s])
    qed
  next
    case (Quit q' s1)
    then show ?thesis using 1(2) on_reader_quits_fail [OF rd_quits_fail(1)]
      by (auto simp: skipBlanks.simps [of s])
  next
    case Crash
    then show ?thesis using 1(2) by (simp add: skipBlanks.simps [of s])
  qed
qed

lemma seekEof_quits_fail: "seekEof s = Quit q s' \<Longrightarrow> q_result q = TR_fail"
  using on_reader_quits_fail [OF rd_quits_fail(3)] skipBlanks_quits_fail
  by (auto simp: seekEof_def eof_def andThen_def split: if_splits outcome.splits)

lemma on_ouf_seekEof_quits_fail: "on_ouf seekEof g = Quit q g' \<Longrightarrow> q_result q = TR_fail"
  using seekEof_quits_fail by (auto simp: on_ouf_def split: outcome.splits)

definition quit_rank :: "TResult \<Rightarrow> nat" where
  "quit_rank result = (if result = TR_fail then 0 else if testlib_shouldCheckDirt result then 2 else 1)"

lemma on_ouf_resultName:
  "on_ouf f g = Ret a g' \<Longrightarrow> tl_resultName g' = tl_resultName g"
  "on_ouf f g = Quit q g' \<Longrightarrow> tl_resultName g' = tl_resultName g"
  by (auto simp: on_ouf_def split: outcome.splits)

lemma quitscr_resultName [simp]: "tl_resultName (quitscr msg g) = tl_resultName g"
  by (simp add: quitscr_def)

definition count_quit :: "testlib \<Rightarrow> testlib" where
  "count_quit g = (if tl_alive g then g\<lparr>tl_quitCount := tl_quitCount g + 1\<rparr> else g)"

definition check_dirt :: "TResult \<Rightarrow> (testlib, bool) prog" where
  "check_dirt result g =
     (if testlib_shouldCheckDirt result \<and> tl_mode g \<noteq> TM_interactor then on_ouf seekEof g else Ret True g)"

lemma check_dirt_facts:
  "check_dirt result g = Ret b g' \<Longrightarrow> tl_resultName g' = tl_resultName g"
  "check_dirt result g = Ret False g' \<Longrightarrow> testlib_shouldCheckDirt result"
  "check_dirt result g = Quit q g' \<Longrightarrow> tl_resultName g' = tl_resultName g \<and> q_result q = TR_fail \<and>
     testlib_shouldCheckDirt result"
  by (simp_all add: check_dirt_def split: if_splits)
     (blast dest: on_ouf_resultName on_ouf_seekEof_quits_fail)+

lemma shouldCheckDirt_facts [simp]:
  "\<not> testlib_shouldCheckDirt TR_fail" "\<not> testlib_shouldCheckDirt TR_dirt" "\<not> testlib_shouldCheckDirt TR_pe"
  "\<not> testlib_shouldCheckDirt TR_wa" "\<not> testlib_shouldCheckDirt TR_unexpected_eof"
  "testlib_shouldCheckDirt TR_ok" "testlib_shouldCheckDirt TR_points"
  by (simp_all add: testlib_shouldCheckDirt_def)

text \<open>
  The body of \<^verbatim>\<open>InStream::quit\<close>. It never returns: it ends the process, or its last act is a call
  of itself, on the same stream or, when \<^verbatim>\<open>ouf.seekEof()\<close> failed, on the stream that failed.
\<close>

datatype round = Ends ending | Calls stream_info TResult string testlib

definition write_report :: "env \<Rightarrow> stream_info \<Rightarrow> TResult \<Rightarrow> string \<Rightarrow> testlib \<Rightarrow> round" where
  "write_report env info result message g =
     (if tl_resultName g \<noteq> [] then
        if \<not> env_canOpen env (tl_resultName g)
        then Calls info TR_fail ''Can not write to the result file'' (g\<lparr>tl_resultName := []\<rparr>)
        else (case report_text result message g of
            None \<Rightarrow> Calls info TR_fail ''Expected points, but infinity found'' g
          | Some rep \<Rightarrow>
              if \<not> env_canClose env (tl_resultName g)
              then Calls info TR_fail ''Can not write to the result file'' (g\<lparr>tl_resultName := []\<rparr>)
              else Ends (finish result message (g\<lparr>tl_report := Some rep\<rparr>)))
      else Ends (finish result message g))"

definition say_result :: "env \<Rightarrow> stream_info \<Rightarrow> TResult \<Rightarrow> string \<Rightarrow> testlib \<Rightarrow> round" where
  "say_result env info result message g =
     (case error_name result of
        None \<Rightarrow> Calls info TR_fail ''What is the code ??? '' g
      | Some errorName \<Rightarrow>
          write_report env info (if result = TR_dirt then TR_pe else result) message (quitscr errorName g))"

definition quit_round :: "env \<Rightarrow> stream_info \<Rightarrow> TResult \<Rightarrow> string \<Rightarrow> testlib \<Rightarrow> round" where
  "quit_round env info result0 msg g0 =
     (let g = count_quit g0;
          message = quit_message info result0 msg g;
          result = (if result0 = TR_unexpected_eof then TR_pe else result0)
      in if tl_mode g = TM_scorer \<and> result \<noteq> TR_fail
      then Calls info TR_fail ''Scorer should return points only. Don't use a quit function.'' g
      else if si_mode info \<noteq> M_output \<and> result \<noteq> TR_fail then
        if si_mode info = M_input \<and> tl_mode g = TM_validator \<and> si_lastLine info \<noteq> - 1
        then Calls info TR_fail (testlib_appendMessage (testlib_appendMessage message (si_name info))
               (''line '' @ vtos (si_lastLine info))) g
        else Calls info TR_fail (testlib_appendMessage message (si_name info)) g
      else (case check_dirt result g of
          Crash \<Rightarrow> Ends Aborted
        | Quit q g \<Rightarrow> Calls (quit_info q g) (q_result q) (q_msg q) g
        | Ret clean g \<Rightarrow>
            if \<not> clean then Calls info TR_dirt ''Extra information in the output file'' g
            else say_result env info result message g))"

text \<open>
  The calls end: a call of a call has a smaller weight, by the report file that has been given up
  or by the rank of the result.
\<close>

definition quit_weight :: "TResult \<Rightarrow> testlib \<Rightarrow> nat" where
  "quit_weight result g = (if tl_resultName g \<noteq> [] then 3 else 0) + quit_rank result"

lemma count_quit_resultName [simp]: "tl_resultName (count_quit g) = tl_resultName g"
  by (simp add: count_quit_def)

lemma report_text_None: "report_text result message g = None \<Longrightarrow> result = TR_points"
  by (auto simp: report_text_def Let_def split: if_splits)

lemma write_report_Calls:
  assumes "write_report env info result message g = Calls i r m h"
  shows "i = info \<and> r = TR_fail \<and> (tl_resultName g \<noteq> [] \<and> tl_resultName h = [] \<or> result = TR_points \<and> h = g)"
  using assms by (auto simp: write_report_def dest: report_text_None split: if_splits option.splits)

lemma say_result_Calls:
  assumes "say_result env info result message g = Calls i r m h"
  shows "r = TR_fail \<and> (tl_resultName g \<noteq> [] \<and> tl_resultName h = [] \<or>
    tl_resultName h = tl_resultName g \<and> result \<noteq> TR_fail)"
  using assms by (auto simp: say_result_def error_name_def split: if_splits option.splits dest!: write_report_Calls)

abbreviation no_eof_result :: "TResult \<Rightarrow> TResult" where
  "no_eof_result result \<equiv> if result = TR_unexpected_eof then TR_pe else result"

lemma quit_round_cases:
  obtains (redirect) m where "quit_round env info result msg g = Calls info TR_fail m (count_quit g)"
      "no_eof_result result \<noteq> TR_fail"
  | (failed) q g1 where "check_dirt (no_eof_result result) (count_quit g) = Quit q g1"
      "quit_round env info result msg g = Calls (quit_info q g1) (q_result q) (q_msg q) g1"
  | (crashed) "check_dirt (no_eof_result result) (count_quit g) = Crash" "quit_round env info result msg g = Ends Aborted"
  | (dirty) g1 where "check_dirt (no_eof_result result) (count_quit g) = Ret False g1"
      "quit_round env info result msg g = Calls info TR_dirt ''Extra information in the output file'' g1"
  | (said) g1 where "check_dirt (no_eof_result result) (count_quit g) = Ret True g1"
      "quit_round env info result msg g =
         say_result env info (no_eof_result result) (quit_message info result msg (count_quit g)) g1"
proof -
  let ?r = "no_eof_result result" and ?g = "count_quit g"
  consider "tl_mode ?g = TM_scorer \<and> ?r \<noteq> TR_fail \<or> si_mode info \<noteq> M_output \<and> ?r \<noteq> TR_fail"
    | "\<not> (tl_mode ?g = TM_scorer \<and> ?r \<noteq> TR_fail)" "\<not> (si_mode info \<noteq> M_output \<and> ?r \<noteq> TR_fail)"
    by blast
  then show thesis
  proof cases
    case 1
    then have "\<exists>m. quit_round env info result msg g = Calls info TR_fail m ?g" unfolding quit_round_def Let_def by auto
    then show thesis using redirect 1 by blast
  next
    case 2
    note unfolded = quit_round_def [of env info result msg g, unfolded Let_def if_not_P [OF 2(1)] if_not_P [OF 2(2)]]
    show thesis
    proof (cases "check_dirt ?r ?g")
      case (Ret clean g1)
      then show thesis using said [of g1] dirty [of g1] unfolded by (cases clean) simp_all
    next
      case (Quit q g1)
      then show thesis using failed [of q g1] unfolded by simp
    next
      case Crash
      then show thesis using crashed unfolded by simp
    qed
  qed
qed

lemma quit_round_Calls:
  assumes "quit_round env info result msg g = Calls i r m h"
  shows "quit_weight r h < quit_weight result g"
proof -
  let ?r = "no_eof_result result"
  have rank: "?r \<noteq> TR_fail \<Longrightarrow> 0 < quit_rank result" "quit_rank result \<le> 2" "quit_rank TR_fail = 0"
    "testlib_shouldCheckDirt ?r \<Longrightarrow> quit_rank result = 2" "quit_rank TR_dirt = 1"
    by (auto simp: quit_rank_def split: if_splits)
  show ?thesis
  proof (cases rule: quit_round_cases [of env info result msg g])
    case (redirect m')
    then show ?thesis using assms rank by (simp add: quit_weight_def)
  next
    case (failed q g1)
    then show ?thesis using assms rank check_dirt_facts(3) [OF failed(1)] by (auto simp: quit_weight_def)
  next
    case (dirty g1)
    then show ?thesis using assms rank check_dirt_facts(1,2) [OF dirty(1)] check_dirt_facts(2) by (auto simp: quit_weight_def)
  next
    case (said g1)
    then show ?thesis using assms rank say_result_Calls [of env info ?r _ g1 i r m h] check_dirt_facts(1) [OF said(1)]
      by (auto simp: quit_weight_def)
  qed (use assms in simp)
qed

function quit :: "env \<Rightarrow> stream_info \<Rightarrow> TResult \<Rightarrow> string \<Rightarrow> testlib \<Rightarrow> ending" where
  "quit env info result msg g =
     (case quit_round env info result msg g of
        Ends e \<Rightarrow> e
      | Calls info result msg g \<Rightarrow> quit env info result msg g)"
  by pat_completeness auto
termination
  by (relation "measure (\<lambda>(env, info, result, msg, g). quit_weight result g)") (auto dest: quit_round_Calls)

declare quit.simps [simp del]

end
