(* ===== verification/TL_Stream_Spec.thy ===== *)
theory TL_Stream_Spec
  imports TL_InStream
begin

text \<open>
  What the methods of \<^verbatim>\<open>InStream\<close> return, in terms of the codes the stream still holds. The
  stream is a \<open>char_source\<close> by interpretation; on top of that contract the token and line
  methods are shown to compute list functions: \<open>next_token\<close>, \<open>after_token\<close>, \<open>line_codes\<close>,
  \<open>after_line\<close>. The integer parsers accept exactly the texts that \<^verbatim>\<open>vtos\<close> produces for the
  values of their type.
\<close>

section \<open>Streams as character sources\<close>

definition is_view :: "instream \<Rightarrow> int list" where
  "is_view s = (case is_reader s of None \<Rightarrow> [] | Some r \<Rightarrow> rd_view r)"

definition is_room :: "instream \<Rightarrow> nat" where
  "is_room s = (case is_reader s of None \<Rightarrow> 0 | Some r \<Rightarrow> rd_room r)"

text \<open>The members that reading does not change.\<close>

definition stream_core :: "instream \<Rightarrow> instream" where
  "stream_core s = s\<lparr>is_reader := None, is_lastLine := 0, is_tmpReadToken := ''''\<rparr>"

definition is_good :: "instream \<Rightarrow> instream \<Rightarrow> bool" where
  "is_good k s \<longleftrightarrow> stream_core s = k \<and> (\<exists>r. is_reader s = Some r \<and> rd_good r)"

lemma stream_core_upd [simp]:
  "stream_core (s\<lparr>is_reader := r\<rparr>) = stream_core s"
  "stream_core (s\<lparr>is_lastLine := l\<rparr>) = stream_core s"
  "stream_core (s\<lparr>is_tmpReadToken := t\<rparr>) = stream_core s"
  by (simp_all add: stream_core_def)

lemma stream_core_sel [simp]:
  "is_strict (stream_core s) = is_strict s" "is_maxTokenLength (stream_core s) = is_maxTokenLength s"
  "is_mode (stream_core s) = is_mode s" "is_name (stream_core s) = is_name s"
  "is_maxMessageLength (stream_core s) = is_maxMessageLength s"
  "is_readManyIteration (stream_core s) = is_readManyIteration s"
  by (simp_all add: stream_core_def)

lemma is_upd [simp]:
  "is_view (s\<lparr>is_lastLine := l\<rparr>) = is_view s" "is_view (s\<lparr>is_tmpReadToken := t\<rparr>) = is_view s"
  "is_room (s\<lparr>is_lastLine := l\<rparr>) = is_room s" "is_room (s\<lparr>is_tmpReadToken := t\<rparr>) = is_room s"
  "is_good k (s\<lparr>is_lastLine := l\<rparr>) = is_good k s" "is_good k (s\<lparr>is_tmpReadToken := t\<rparr>) = is_good k s"
  by (simp_all add: is_view_def is_room_def is_good_def)

lemma is_reader_upd [simp]:
  "is_view (s\<lparr>is_reader := Some r\<rparr>) = rd_view r" "is_room (s\<lparr>is_reader := Some r\<rparr>) = rd_room r"
  "is_good k (s\<lparr>is_reader := Some r\<rparr>) \<longleftrightarrow> stream_core s = k \<and> rd_good r"
  by (simp_all add: is_view_def is_room_def is_good_def)

lemma on_reader_Some [simp]: "is_reader s = Some r \<Longrightarrow> f r = Ret a r' \<Longrightarrow>
    on_reader f s = Ret a (s\<lparr>is_reader := Some r'\<rparr>)"
  by (simp add: on_reader_def)

lemma is_goodE:
  assumes "is_good k s"
  obtains r where "is_reader s = Some r" "rd_good r" "is_view s = rd_view r" "is_room s = rd_room r"
    "stream_core s = k"
  using assms by (auto simp: is_good_def is_view_def is_room_def)

interpretation st: char_peek "on_reader rd_curChar" "on_reader rd_nextChar" "on_reader rd_skipChar"
  "\<lambda>c. on_reader (rd_unreadChar c)" "on_reader rd_eof" is_view is_room "is_good k" for k
proof unfold_locales
  fix s :: instream and c :: int and cs :: "int list"
  assume g: "is_good k s"
  then obtain r where r: "is_reader s = Some r" "rd_good r" "is_view s = rd_view r" "is_room s = rd_room r"
    "stream_core s = k" by (rule is_goodE)
  show "EOFC \<notin> set (is_view s)" using rd.view_codes r by simp
  show "\<exists>s'. on_reader rd_curChar s = Ret EOFC s' \<and> is_good k s' \<and> is_view s' = [] \<and> is_room s \<le> is_room s'"
    if "is_view s = []"
    using rd.cur_end [OF r(2)] r that by (fastforce simp: on_reader_Ret_iff)
  show "\<exists>s' s''. on_reader rd_curChar s = Ret c s' \<and> is_good k s' \<and> is_view s' = c # cs \<and> is_room s \<le> is_room s' \<and>
      on_reader rd_skipChar s' = Ret () s'' \<and> is_good k s'' \<and> is_view s'' = cs \<and> is_room s \<le> is_room s''"
    if v: "is_view s = c # cs"
  proof -
    obtain r1 r2 where "rd_curChar r = Ret c r1" "rd_good r1" "rd_view r1 = c # cs" "rd_room r \<le> rd_room r1"
      "rd_skipChar r1 = Ret () r2" "rd_good r2" "rd_view r2 = cs" "rd_room r \<le> rd_room r2"
      using rd.cur_char [OF r(2), of c cs] r(3) v by auto
    then show ?thesis using r
      by (intro exI [of _ "s\<lparr>is_reader := Some r1\<rparr>"] exI [of _ "s\<lparr>is_reader := Some r2\<rparr>"])
         (simp add: on_reader_Ret_iff)
  qed
  show "\<exists>s'. on_reader rd_nextChar s = Ret EOFC s' \<and> is_good k s' \<and> is_view s' = [] \<and> is_room s \<le> is_room s' \<and>
      (0 < is_room s \<longrightarrow> (\<exists>s''. on_reader (rd_unreadChar EOFC) s' = Ret () s'' \<and> is_good k s'' \<and> is_view s'' = [] \<and>
         is_room s \<le> Suc (is_room s'')))" if "is_view s = []"
    using rd.next_end [OF r(2)] r that by (fastforce simp: on_reader_Ret_iff)
  show "\<exists>s'. on_reader rd_nextChar s = Ret c s' \<and> is_good k s' \<and> is_view s' = cs \<and> is_room s \<le> is_room s' \<and>
      (0 < is_room s \<longrightarrow> (\<exists>s''. on_reader (rd_unreadChar c) s' = Ret () s'' \<and> is_good k s'' \<and> is_view s'' = c # cs \<and>
         is_room s \<le> is_room s''))" if v: "is_view s = c # cs"
  proof -
    obtain r1 where "rd_nextChar r = Ret c r1" "rd_good r1" "rd_view r1 = cs" "rd_room r \<le> rd_room r1"
      "0 < rd_room r \<longrightarrow> (\<exists>r2. rd_unreadChar c r1 = Ret () r2 \<and> rd_good r2 \<and> rd_view r2 = c # cs \<and>
         rd_room r \<le> rd_room r2)"
      using rd.next_char [OF r(2), of c cs] r(3) v by auto
    then show ?thesis using r
      by (intro exI [of _ "s\<lparr>is_reader := Some r1\<rparr>"]) (auto simp: on_reader_Ret_iff)
  qed
  show "\<exists>s'. on_reader rd_eof s = Ret (is_view s = []) s' \<and> is_good k s' \<and> is_view s' = is_view s \<and>
      is_room s \<le> is_room s'"
    using rd.eof_view [OF r(2)] r by (fastforce simp: on_reader_Ret_iff)
next
  fix s s1 s2 :: instream and c d :: int and cs :: "int list"
  assume *: "is_good k s" "is_view s = c # d # cs" "0 < is_room s"
    "on_reader rd_nextChar s = Ret c s1" "on_reader rd_curChar s1 = Ret d s2"
  from * obtain r r1 r2 where "is_reader s = Some r" "rd_good r" "rd_view r = c # d # cs" "0 < rd_room r"
    "stream_core s = k" "is_room s = rd_room r" "rd_nextChar r = Ret c r1" "rd_curChar r1 = Ret d r2"
    "s2 = s\<lparr>is_reader := Some r2\<rparr>"
    by (auto simp: on_reader_Ret_iff elim!: is_goodE)
  then show "\<exists>s3. on_reader (rd_unreadChar c) s2 = Ret () s3 \<and> is_good k s3 \<and> is_view s3 = c # d # cs \<and>
      is_room s \<le> Suc (is_room s3) \<and> 0 < is_room s3"
    using rdp.next_cur_unread [of r c d cs r1 r2] by (fastforce simp: on_reader_Ret_iff)
qed

text \<open>
  \<open>holds k v s\<close>: the stream holds the codes \<open>v\<close>, and can take a character back unless it is at
  its end. \<open>holds1\<close> can take one back in any case. Both are kept by every method below.
\<close>

definition holds :: "instream \<Rightarrow> int list \<Rightarrow> instream \<Rightarrow> bool" where
  "holds k v s \<longleftrightarrow> is_good k s \<and> is_view s = v \<and> (v \<noteq> [] \<longrightarrow> 0 < is_room s)"

definition holds1 :: "instream \<Rightarrow> int list \<Rightarrow> instream \<Rightarrow> bool" where
  "holds1 k v s \<longleftrightarrow> is_good k s \<and> is_view s = v \<and> 0 < is_room s"

abbreviation head_code :: "int list \<Rightarrow> int" where
  "head_code v \<equiv> case v of [] \<Rightarrow> EOFC | c # _ \<Rightarrow> c"

lemma holds1_holds: "holds1 k v s \<Longrightarrow> holds k v s"
  by (simp add: holds_def holds1_def)

lemma holds_nonempty: "holds k v s \<Longrightarrow> v \<noteq> [] \<Longrightarrow> holds1 k v s"
  by (simp add: holds_def holds1_def)

lemma holds_upd [simp]:
  "holds k v (s\<lparr>is_lastLine := l\<rparr>) = holds k v s" "holds k v (s\<lparr>is_tmpReadToken := t\<rparr>) = holds k v s"
  "holds1 k v (s\<lparr>is_lastLine := l\<rparr>) = holds1 k v s" "holds1 k v (s\<lparr>is_tmpReadToken := t\<rparr>) = holds1 k v s"
  by (simp_all add: holds_def holds1_def)

lemma holds_core: "holds k v s \<Longrightarrow> stream_core s = k" "holds1 k v s \<Longrightarrow> stream_core s = k"
  by (auto simp: holds_def holds1_def is_good_def)

lemma holds_reader: "holds k v s \<Longrightarrow> is_reader s \<noteq> None"
  by (auto simp: holds_def is_good_def)

lemma holds_codes: "holds k v s \<Longrightarrow> EOFC \<notin> set v"
  using st.view_codes by (auto simp: holds_def)

lemma holds_cur: "holds k v s \<Longrightarrow> \<exists>s'. on_reader rd_curChar s = Ret (head_code v) s' \<and> holds k v s'"
  using st.cur_view [of k s] by (fastforce simp: holds_def)

lemma holds1_cur: "holds1 k v s \<Longrightarrow> \<exists>s'. on_reader rd_curChar s = Ret (head_code v) s' \<and> holds1 k v s'"
  using st.cur_view [of k s] by (fastforce simp: holds1_def)

lemma holds_cur_skip:
  assumes "holds k (c # cs) s"
  shows "\<exists>s' s''. on_reader rd_curChar s = Ret c s' \<and> on_reader rd_skipChar s' = Ret () s'' \<and> holds1 k cs s''"
  using st.cur_char [of k s c cs] assms by (fastforce simp: holds_def holds1_def)

lemma holds_next_char:
  assumes "holds k (c # cs) s"
  shows "\<exists>s' s''. on_reader rd_nextChar s = Ret c s' \<and> holds1 k cs s' \<and>
    on_reader (rd_unreadChar c) s' = Ret () s'' \<and> holds1 k (c # cs) s''"
  using st.next_char [of k s c cs] assms by (fastforce simp: holds_def holds1_def)

lemma holds_next_end:
  assumes "holds k [] s"
  shows "\<exists>s'. on_reader rd_nextChar s = Ret EOFC s' \<and> holds k [] s'"
  using st.next_end [of k s] assms by (fastforce simp: holds_def)

lemma holds1_next_end:
  assumes "holds1 k [] s"
  shows "\<exists>s' s''. on_reader rd_nextChar s = Ret EOFC s' \<and> holds1 k [] s' \<and>
    on_reader (rd_unreadChar EOFC) s' = Ret () s'' \<and> holds k [] s''"
  using st.next_end [of k s] assms by (fastforce simp: holds_def holds1_def)

lemma holds1_next_unread:
  assumes "holds1 k v s"
  shows "\<exists>s' s''. on_reader rd_nextChar s = Ret (head_code v) s' \<and> holds1 k (tl v) s' \<and>
    on_reader (rd_unreadChar (head_code v)) s' = Ret () s'' \<and> holds k v s''"
  using holds1_next_end [of k s] holds_next_char [of k _ _ s] assms
  by (cases v) (fastforce dest: holds1_holds)+

lemma holds_eof: "holds k v s \<Longrightarrow> \<exists>s'. on_reader rd_eof s = Ret (v = []) s' \<and> holds k v s'"
  using st.eof_view [of k s] by (fastforce simp: holds_def)

lemma holds_note_line:
  "holds k v s \<Longrightarrow> \<exists>l. note_line s = Ret () (s\<lparr>is_lastLine := l\<rparr>)"
  by (auto simp: holds_def is_good_def note_line_def)

section \<open>White space and tokens\<close>

abbreviation nonblank :: "int \<Rightarrow> bool" where
  "nonblank c \<equiv> \<not> isBlanks c"

definition next_token :: "int list \<Rightarrow> int list" where
  "next_token v = takeWhile nonblank (dropWhile isBlanks v)"

definition after_token :: "int list \<Rightarrow> int list" where
  "after_token v = dropWhile nonblank (dropWhile isBlanks v)"

lemma skipBlanks_spec:
  "holds k v s \<Longrightarrow> \<exists>s'. skipBlanks s = Ret () s' \<and> holds k (dropWhile isBlanks v) s'"
proof (induction v arbitrary: s)
  case Nil
  then show ?case using holds_cur [OF Nil] by (auto simp: skipBlanks.simps [of s])
next
  case (Cons c cs)
  show ?case
  proof (cases "isBlanks c")
    case True
    from holds_cur_skip [OF Cons.prems] obtain s1 s2 where
      "on_reader rd_curChar s = Ret c s1" "on_reader rd_skipChar s1 = Ret () s2" "holds k cs s2"
      by (auto dest: holds1_holds)
    with True Cons.IH show ?thesis by (simp add: skipBlanks.simps [of s])
  next
    case False
    with holds_cur [OF Cons.prems] show ?thesis by (auto simp: skipBlanks.simps [of s])
  qed
qed

lemma eof_spec: "holds k v s \<Longrightarrow> \<exists>s'. eof s = Ret (v = []) s' \<and> holds k v s'"
  using holds_eof [of k v s] holds_reader [of k v s] by (auto simp: eof_def)

lemma seekEof_spec:
  "holds k v s \<Longrightarrow>
     \<exists>s'. seekEof s = Ret (dropWhile isBlanks v = []) s' \<and> holds k (dropWhile isBlanks v) s'"
proof -
  assume h: "holds k v s"
  from skipBlanks_spec [OF h] obtain s1 where s1: "skipBlanks s = Ret () s1" "holds k (dropWhile isBlanks v) s1" by blast
  from eof_spec [OF s1(2)] s1 holds_reader [OF h] show ?thesis by (auto simp: seekEof_def)
qed

text \<open>The loop of \<^verbatim>\<open>readWordTo\<close> with the read before it and the unread after it.\<close>

lemma readWordTo_loop_spec:
  assumes "holds1 k v s" "length result + length (takeWhile nonblank v) \<le> is_maxTokenLength k"
  shows "\<exists>s1 s2. andThen (on_reader rd_nextChar s) (readWordTo_loop result) =
      Ret (result @ map to_char (takeWhile nonblank v), head_code (dropWhile nonblank v)) s1 \<and>
    on_reader (rd_unreadChar (head_code (dropWhile nonblank v))) s1 = Ret () s2 \<and>
    holds k (dropWhile nonblank v) s2"
  using assms
proof (induction v arbitrary: s result)
  case Nil
  then show ?case using holds1_next_unread [of k "[]" s] by (auto simp: readWordTo_loop.simps)
next
  case (Cons c cs)
  from holds_next_char [OF holds1_holds [OF Cons.prems(1)]] obtain s1 s2 where s1:
    "on_reader rd_nextChar s = Ret c s1" "holds1 k cs s1"
    "on_reader (rd_unreadChar c) s1 = Ret () s2" "holds1 k (c # cs) s2" by blast
  have c: "c \<noteq> EOFC" using holds_codes [OF holds1_holds [OF Cons.prems(1)]] by auto
  have max: "is_maxTokenLength s1 = is_maxTokenLength k"
    using holds_core(2) [OF s1(2)] by (metis stream_core_sel(2))
  show ?case
  proof (cases "isBlanks c")
    case True
    then show ?thesis using s1 by (auto simp: readWordTo_loop.simps dest: holds1_holds)
  next
    case False
    then have "andThen (on_reader rd_nextChar s) (readWordTo_loop result)
      = andThen (on_reader rd_nextChar s1) (readWordTo_loop (result @ [to_char c]))"
      using s1(1) c max Cons.prems(2) by (simp add: readWordTo_loop.simps [of result c] Let_def)
    with Cons.IH [OF s1(2), of "result @ [to_char c]"] Cons.prems(2) False show ?thesis by simp
  qed
qed

lemma readWordTo_loop_long:
  assumes "holds1 k v s" "length result \<le> is_maxTokenLength k"
    "length result + length (takeWhile nonblank v) > is_maxTokenLength k"
  shows "\<exists>msg s'. andThen (on_reader rd_nextChar s) (readWordTo_loop result) = in_quit TR_pe msg s' \<and>
    stream_core s' = k"
  using assms
proof (induction v arbitrary: s result)
  case (Cons c cs)
  from holds_next_char [OF holds1_holds [OF Cons.prems(1)]] obtain s1 where s1:
    "on_reader rd_nextChar s = Ret c s1" "holds1 k cs s1" by blast
  have c: "c \<noteq> EOFC" using holds_codes [OF holds1_holds [OF Cons.prems(1)]] by auto
  have max: "is_maxTokenLength s1 = is_maxTokenLength k" and core: "stream_core s1 = k"
    using holds_core(2) [OF s1(2)] by auto
  have nb: "\<not> isBlanks c" using Cons.prems by (auto split: if_splits)
  show ?case
  proof (cases "length result < is_maxTokenLength k")
    case True
    then have "andThen (on_reader rd_nextChar s) (readWordTo_loop result)
      = andThen (on_reader rd_nextChar s1) (readWordTo_loop (result @ [to_char c]))"
      using s1(1) c max nb by (simp add: readWordTo_loop.simps [of result c] Let_def)
    with Cons.IH [OF s1(2), of "result @ [to_char c]"] Cons.prems(3) nb True show ?thesis by simp
  next
    case False
    then show ?thesis using s1(1) c max nb core
      by (auto simp: readWordTo_loop.simps [of result c] Let_def)
  qed
qed simp

text \<open>
  A token of a non-strict stream is the next run of non-blank characters; in strict mode the
  stream has to be at it already.
\<close>

definition token_start :: "instream \<Rightarrow> int list \<Rightarrow> int list" where
  "token_start k v = (if is_strict k then v else dropWhile isBlanks v)"

lemma holds_strict: "holds k v s \<Longrightarrow> is_strict s = is_strict k"
  using holds_core(1) [of k v s] by auto

lemma readWordTo_start:
  assumes "holds k v s"
  shows "\<exists>s'. andThen (if \<not> is_strict s then skipBlanks s else Ret () s) (\<lambda>_ s. note_line s) = Ret () s' \<and>
    holds k (token_start k v) s'"
proof -
  obtain s1 where "(if \<not> is_strict s then skipBlanks s else Ret () s) = Ret () s1" "holds k (token_start k v) s1"
    using skipBlanks_spec [OF assms] assms holds_strict [OF assms] by (auto simp: token_start_def)
  with holds_note_line [of k "token_start k v" s1] show ?thesis by fastforce
qed

definition readWordTo_rest :: "(instream, string) prog" where
  "readWordTo_rest s =
     andThen (on_reader rd_nextChar s) (\<lambda>cur s.
       if cur = EOFC then in_quit TR_unexpected_eof ''Unexpected end of file - token expected'' s
       else if isBlanks cur then in_quit TR_pe ''Unexpected white-space - token expected'' s
       else andThen (readWordTo_loop [] cur s) (\<lambda>(result, cur) s.
         andThen (on_reader (rd_unreadChar cur) s) (\<lambda>_ s.
           if length result = 0
           then in_quit TR_unexpected_eof ''Unexpected end of file or white-space - token expected'' s
           else Ret result s)))"

lemma readWordTo_split:
  assumes "holds k v s"
  shows "\<exists>s'. readWordTo s = readWordTo_rest s' \<and> holds k (token_start k v) s'"
proof -
  from readWordTo_start [OF assms] obtain s' where s': "holds k (token_start k v) s'"
    "andThen (if \<not> is_strict s then skipBlanks s else Ret () s) (\<lambda>_ s. note_line s) = Ret () s'" by blast
  have "readWordTo s = andThen (andThen (if \<not> is_strict s then skipBlanks s else Ret () s) (\<lambda>_ s. note_line s))
      (\<lambda>_ s. readWordTo_rest s)"
    by (simp only: readWordTo_def readWordTo_rest_def andThen_assoc)
  with s' show ?thesis by auto
qed

lemma readWordTo_token:
  assumes "holds k v s" "token_start k v = c # cs" "\<not> isBlanks c"
    "length (takeWhile nonblank (token_start k v)) \<le> is_maxTokenLength k"
  shows "\<exists>s'. readWordTo s = Ret (map to_char (takeWhile nonblank (token_start k v))) s' \<and>
    holds k (dropWhile nonblank (token_start k v)) s'"
proof -
  from readWordTo_split [OF assms(1)] obtain s0 where s0: "readWordTo s = readWordTo_rest s0" "holds1 k (c # cs) s0"
    using assms(2) holds_nonempty by force
  have c: "c \<noteq> EOFC" using holds_codes [OF holds1_holds [OF s0(2)]] by auto
  from holds_next_char [OF holds1_holds [OF s0(2)]] obtain s1 where n: "on_reader rd_nextChar s0 = Ret c s1" by blast
  from readWordTo_loop_spec [OF s0(2), of "[]"] assms(2-4) obtain s2 s3 where
    "readWordTo_loop [] c s1 = Ret (map to_char (takeWhile nonblank (c # cs)), head_code (dropWhile nonblank (c # cs))) s2"
    "on_reader (rd_unreadChar (head_code (dropWhile nonblank (c # cs)))) s2 = Ret () s3"
    "holds k (dropWhile nonblank (c # cs)) s3" using n by auto
  then show ?thesis using s0(1) n c assms(2,3) by (simp add: readWordTo_rest_def)
qed

lemma readWordTo_end:
  assumes "holds k v s" "token_start k v = []"
  shows "\<exists>s'. readWordTo s = in_quit TR_unexpected_eof ''Unexpected end of file - token expected'' s' \<and>
    holds k [] s'"
proof -
  from readWordTo_split [OF assms(1)] obtain s0 where "readWordTo s = readWordTo_rest s0" "holds k [] s0"
    using assms(2) by auto
  with holds_next_end [of k s0] show ?thesis by (auto simp: readWordTo_rest_def)
qed

lemma readWordTo_blank:
  assumes "holds k v s" "token_start k v = c # cs" "isBlanks c"
  shows "\<exists>s'. readWordTo s = in_quit TR_pe ''Unexpected white-space - token expected'' s' \<and> holds k cs s'"
proof -
  from readWordTo_split [OF assms(1)] obtain s0 where "readWordTo s = readWordTo_rest s0" "holds k (c # cs) s0"
    using assms(2) by auto
  moreover have "c \<noteq> EOFC" using assms(3) by auto
  ultimately show ?thesis using holds_next_char [of k c cs s0] assms(3)
    by (auto simp: readWordTo_rest_def dest: holds1_holds)
qed

lemma readWordTo_long:
  assumes "holds k v s" "token_start k v = c # cs" "\<not> isBlanks c"
    "length (takeWhile nonblank (token_start k v)) > is_maxTokenLength k"
  shows "\<exists>msg s'. readWordTo s = in_quit TR_pe msg s' \<and> stream_core s' = k"
proof -
  from readWordTo_split [OF assms(1)] obtain s0 where s0: "readWordTo s = readWordTo_rest s0" "holds1 k (c # cs) s0"
    using assms(2) holds_nonempty by force
  have c: "c \<noteq> EOFC" using holds_codes [OF holds1_holds [OF s0(2)]] by auto
  from holds_next_char [OF holds1_holds [OF s0(2)]] obtain s1 where n: "on_reader rd_nextChar s0 = Ret c s1" by blast
  from readWordTo_loop_long [OF s0(2), of "[]"] assms(2-4) obtain msg s2 where
    "readWordTo_loop [] c s1 = in_quit TR_pe msg s2" "stream_core s2 = k" using n by auto
  then show ?thesis using s0(1) n c assms(3) by (auto simp: readWordTo_rest_def in_quit_def)
qed

end
