(* ===== verification/TL_Verdict.thy ===== *)
theory TL_Verdict
  imports TL_Quit TL_Stream_Spec
begin

text \<open>
  How a testlib program ends: the finalize guard and the whole run of a \<^verbatim>\<open>main\<close>, and what the exit
  code says. A failure always exits with code 3; so does any quit on an input or answer stream;
  an accepting quit of a checker exits with 0 only if nothing but white space is left in the output.
\<close>

section \<open>Leaving the program\<close>

text \<open>
  The destructor of \<^verbatim>\<open>TestlibFinalizeGuard\<close>, which runs when the program exits with \<open>code\<close>. A
  failure found there quits, and its exit code replaces the former one. The test on unused
  command-line options and the validator's log files are not part of it here.
\<close>

definition finalize_guard :: "env \<Rightarrow> int \<Rightarrow> testlib \<Rightarrow> ending" where
  "finalize_guard env code g0 =
     (let was_alive = tl_alive g0;
          g = g0\<lparr>tl_alive := False\<rparr>;
          info = stream_info_of (tl_ouf g)
      in if was_alive \<and> tl_mode g = TM_checker \<and> tl_quitCount g = 0
         then quit env info TR_fail ''Checker must end with quit or quitf call.'' g
         else if was_alive \<and> tl_mode g = TM_validator \<and> tl_readEofCount g = 0 \<and> tl_quitCount g = 0
         then quit env info TR_fail ''Validator must end with readEof call.'' g
         else if was_alive \<and> \<not> tl_registered g
         then quit env info TR_fail
           ''Call register-function in the first line of the main (registerTestlibCmd or other similar)'' g
         else Exited code g)"

text \<open>A \<^verbatim>\<open>main\<close> that returns a number, quits or crashes.\<close>

definition run_main :: "env \<Rightarrow> (testlib, int) outcome \<Rightarrow> ending" where
  "run_main env m = (case m of
     Ret code g \<Rightarrow> finalize_guard env code g
   | Quit q g \<Rightarrow> (case quit env (quit_info q g) (q_result q) (q_msg q) g of
         Exited code g \<Rightarrow> finalize_guard env code g
       | Aborted \<Rightarrow> Aborted)
   | Crash \<Rightarrow> Aborted)"

section \<open>Failures\<close>

lemma exit_code_finish [simp]: "finish result message g = Exited code g' \<longleftrightarrow>
    code = resultExitCode result \<and> g' = final_state (finish result message g)"
  by (auto simp: finish_def Let_def)

lemma finish_Exited: "\<exists>g'. finish result message g = Exited (resultExitCode result) g'"
  by (simp add: finish_def Let_def)

lemma finish_not_Aborted [simp]: "finish result message g \<noteq> Aborted"
  by (simp add: finish_def Let_def)

lemma error_name_known [simp]:
  "error_name TR_ok = Some ''ok ''" "error_name TR_wa = Some ''wrong answer ''"
  "error_name TR_pe = Some ''wrong output format ''" "error_name TR_fail = Some ''FAIL ''"
  "error_name TR_dirt = Some ''wrong output format ''" "error_name TR_points = Some ''points ''"
  by (simp_all add: error_name_def)

lemma check_dirt_no [simp]: "\<not> testlib_shouldCheckDirt result \<Longrightarrow> check_dirt result g = Ret True g"
  by (simp add: check_dirt_def)

lemma report_text_Some: "result \<noteq> TR_points \<Longrightarrow> \<exists>rep. report_text result message g = Some rep"
  using report_text_None by (cases "report_text result message g") auto

lemma resultExitCode_known [simp]:
  "resultExitCode TR_ok = 0" "resultExitCode TR_wa = 1" "resultExitCode TR_pe = 2" "resultExitCode TR_fail = 3"
  "resultExitCode TR_points = 7"
  by (simp_all add: resultExitCode_def exit_code_defs)

lemmas round_defs = quit_round_def say_result_def write_report_def

lemma quit_Ends: "quit_round env info result msg g = Ends e \<Longrightarrow> quit env info result msg g = e"
  by (simp add: quit.simps [of env info result msg g])

lemma quit_Calls: "quit_round env info result msg g = Calls i r m h \<Longrightarrow> quit env info result msg g = quit env i r m h"
  by (simp add: quit.simps [of env info result msg g])

lemma quit_round_fail:
  "(\<exists>g'. quit_round env info TR_fail msg g = Ends (Exited 3 g')) \<or>
   (\<exists>m h. tl_resultName g \<noteq> [] \<and> tl_resultName h = [] \<and> quit_round env info TR_fail msg g = Calls info TR_fail m h)"
  by (auto simp: round_defs Let_def finish_def split: option.splits dest: report_text_None)

text \<open>A failure is reported as a failure whatever happens to the report file.\<close>

lemma quit_fail: "\<exists>g'. quit env info TR_fail msg g = Exited 3 g'"
  using quit_round_fail [of env info msg g]
proof (elim disjE exE conjE)
  fix m h assume h: "tl_resultName h = []" "quit_round env info TR_fail msg g = Calls info TR_fail m h"
  with quit_round_fail [of env info m h] obtain g' where "quit_round env info TR_fail m h = Ends (Exited 3 g')" by auto
  with h show ?thesis by (auto dest!: quit_Ends quit_Calls)
qed (auto dest: quit_Ends)

text \<open>Every quit on a stream that is not the participant's output is a failure of the checker.\<close>

lemma quit_not_output:
  assumes "si_mode info \<noteq> M_output"
  shows "\<exists>g'. quit env info result msg g = Exited 3 g'"
proof (cases "result = TR_fail")
  case True
  then show ?thesis using quit_fail by blast
next
  case False
  with assms have "\<exists>m h. quit_round env info result msg g = Calls info TR_fail m h"
    by (auto simp: quit_round_def Let_def)
  then show ?thesis using quit_Calls quit_fail by metis
qed

section \<open>The exit code of a checker\<close>

definition report_ok :: "env \<Rightarrow> testlib \<Rightarrow> bool" where
  "report_ok env g \<longleftrightarrow> tl_resultName g = [] \<or> (env_canOpen env (tl_resultName g) \<and> env_canClose env (tl_resultName g))"

lemma report_ok_upd [simp]:
  "report_ok env (count_quit g) = report_ok env g" "report_ok env (g\<lparr>tl_ouf := s\<rparr>) = report_ok env g"
  by (simp_all add: report_ok_def)

lemma count_quit_sel [simp]:
  "tl_mode (count_quit g) = tl_mode g" "tl_ouf (count_quit g) = tl_ouf g" "tl_ans (count_quit g) = tl_ans g"
  by (simp_all add: count_quit_def)

text \<open>The part of \<^verbatim>\<open>quit\<close> after the test on extra output.\<close>

lemma write_report_ok:
  assumes "report_ok env g" "result \<noteq> TR_points"
  shows "\<exists>g'. write_report env info result message g = Ends (Exited (resultExitCode result) g')"
  using assms by (auto simp: write_report_def report_ok_def finish_def Let_def split: option.splits dest: report_text_None)

lemma say_result_ok:
  assumes "report_ok env g" "error_name result = Some w" "result \<noteq> TR_points"
  shows "\<exists>g'. say_result env info result message g =
    Ends (Exited (resultExitCode (if result = TR_dirt then TR_pe else result)) g')"
  using write_report_ok [of env "quitscr w g" "if result = TR_dirt then TR_pe else result"] assms
  by (auto simp: say_result_def report_ok_def)

text \<open>What \<^verbatim>\<open>quit\<close> makes of a result code that it was given.\<close>

definition final_result :: "TResult \<Rightarrow> TResult" where
  "final_result r = (if r = TR_unexpected_eof \<or> r = TR_dirt then TR_pe else r)"

lemma quit_plain:
  assumes "tl_mode g \<noteq> TM_scorer" "si_mode info = M_output" "report_ok env g"
    and "result \<in> {TR_wa, TR_pe, TR_dirt, TR_unexpected_eof}"
  shows "\<exists>g'. quit env info result msg g = Exited (resultExitCode (final_result result)) g'"
proof -
  let ?r = "if result = TR_unexpected_eof then TR_pe else result"
  obtain w where w: "error_name ?r = Some w" using assms(4) by auto
  have "check_dirt ?r (count_quit g) = Ret True (count_quit g)" using assms(4) by auto
  then have "quit_round env info result msg g = say_result env info ?r (quit_message info result msg (count_quit g)) (count_quit g)"
    using assms(1,2) by (auto simp: quit_round_def Let_def)
  moreover have "resultExitCode (if ?r = TR_dirt then TR_pe else ?r) = resultExitCode (final_result result)"
    using assms(4) by (auto simp: final_result_def)
  moreover have "?r \<noteq> TR_points" using assms(4) by auto
  ultimately have "\<exists>g'. quit_round env info result msg g = Ends (Exited (resultExitCode (final_result result)) g')"
    using say_result_ok [of env "count_quit g" ?r w info] w assms(3) by simp
  then show ?thesis using quit_Ends by blast
qed

lemma final_result_known [simp]:
  "final_result TR_wa = TR_wa" "final_result TR_pe = TR_pe" "final_result TR_dirt = TR_pe"
  "final_result TR_unexpected_eof = TR_pe" "final_result TR_ok = TR_ok"
  by (simp_all add: final_result_def)

text \<open>An accepting quit: 0 when the output is used up, 2 when something is left.\<close>

lemma quit_ok:
  assumes "tl_mode g = TM_checker" "si_mode info = M_output" "report_ok env g" "holds k v (tl_ouf g)"
  shows "\<exists>g'. quit env info TR_ok msg g = Exited (if dropWhile isBlanks v = [] then 0 else 2) g'"
proof -
  obtain s where s: "seekEof (tl_ouf g) = Ret (dropWhile isBlanks v = []) s"
    using seekEof_spec [OF assms(4)] by blast
  let ?g = "(count_quit g)\<lparr>tl_ouf := s\<rparr>"
  have d: "check_dirt TR_ok (count_quit g) = Ret (dropWhile isBlanks v = []) ?g"
    using s assms(1) by (simp add: check_dirt_def on_ouf_def)
  show ?thesis
  proof (cases "dropWhile isBlanks v = []")
    case True
    then have "quit_round env info TR_ok msg g = say_result env info TR_ok (quit_message info TR_ok msg (count_quit g)) ?g"
      using d assms(1,2) by (simp add: quit_round_def Let_def)
    then have "\<exists>g'. quit_round env info TR_ok msg g = Ends (Exited 0 g')"
      using say_result_ok [of env ?g TR_ok "''ok ''" info] assms(3) by simp
    then show ?thesis using True quit_Ends by auto
  next
    case False
    then have "quit_round env info TR_ok msg g = Calls info TR_dirt ''Extra information in the output file'' ?g"
      using d assms(1,2) by (simp add: quit_round_def Let_def)
    then have "quit env info TR_ok msg g = quit env info TR_dirt ''Extra information in the output file'' ?g"
      by (rule quit_Calls)
    then show ?thesis using False quit_plain [of ?g info env TR_dirt] assms(1-3) by auto
  qed
qed

text \<open>No other exit codes: 3, the code of the result, or 2 when an accepting quit finds extra output.\<close>

lemma write_report_code:
  "write_report env info result message g = Ends e \<Longrightarrow> \<exists>g'. e = Exited (resultExitCode result) g'"
  by (auto simp: write_report_def finish_def Let_def split: if_splits option.splits)

lemma say_result_code:
  "say_result env info result message g = Ends e \<Longrightarrow> result \<noteq> TR_unexpected_eof \<Longrightarrow>
     \<exists>g'. e = Exited (resultExitCode (final_result result)) g'"
  by (auto simp: say_result_def final_result_def split: option.splits if_splits dest: write_report_code)

lemma quit_fail_code: "quit env info TR_fail msg g = Exited code g' \<Longrightarrow> code = 3"
  using quit_fail [of env info msg g] by auto

lemma quit_codes:
  assumes "quit env info result msg g = Exited code g'"
  shows "code = 3 \<or> testlib_shouldCheckDirt result \<and> code = 2 \<or> code = resultExitCode (final_result result) \<and>
    (testlib_shouldCheckDirt result \<and> tl_mode g \<noteq> TM_interactor \<longrightarrow> (\<exists>s. seekEof (tl_ouf g) = Ret True s))"
  using assms
proof (induction env info result msg g rule: quit.induct)
  case (1 env info result msg g)
  let ?r = "no_eof_result result"
  have dirt: "testlib_shouldCheckDirt ?r = testlib_shouldCheckDirt result" by simp
  have fr: "final_result ?r = final_result result" by (simp add: final_result_def)
  show ?case
  proof (cases rule: quit_round_cases [of env info result msg g])
    case (redirect m)
    then show ?thesis using 1(2) quit_Calls quit_fail_code by metis
  next
    case (failed q g1)
    then show ?thesis using 1(2) check_dirt_facts(3) [OF failed(1)] quit_Calls [OF failed(2)] quit_fail_code by metis
  next
    case crashed
    then show ?thesis using 1(2) quit_Ends [OF crashed(2)] by simp
  next
    case (dirty g1)
    have "testlib_shouldCheckDirt result" using check_dirt_facts(2) [OF dirty(1)] dirt by simp
    moreover have "quit env info TR_dirt ''Extra information in the output file'' g1 = Exited code g'"
      using 1(2) quit_Calls [OF dirty(2)] by simp
    ultimately show ?thesis using 1(1) [OF dirty(2)] by auto
  next
    case (said g1)
    have seek: "testlib_shouldCheckDirt result \<and> tl_mode g \<noteq> TM_interactor \<longrightarrow> (\<exists>s. seekEof (tl_ouf g) = Ret True s)"
      using said(1) dirt by (auto simp: check_dirt_def on_ouf_def split: outcome.splits)
    show ?thesis
    proof (cases "quit_round env info result msg g")
      case (Ends e)
      then show ?thesis using said(2) say_result_code [of env info ?r _ g1 e] 1(2) quit_Ends [OF Ends] fr seek by auto
    next
      case (Calls i r m h)
      then have "r = TR_fail" using said(2) say_result_Calls by metis
      then show ?thesis using 1(2) quit_Calls [OF Calls] quit_fail_code by metis
    qed
  qed
qed

text \<open>The exit code 0 means \<^verbatim>\<open>_ok\<close>, or a partial result that is 0 points.\<close>

lemma resultExitCode_0: "resultExitCode result = 0 \<longleftrightarrow> result = TR_ok \<or> result = TR_partially"
  by (auto simp: resultExitCode_def exit_code_defs)

lemma quit_exit_0:
  assumes "quit env info result msg g = Exited 0 g'"
  shows "(result = TR_ok \<or> result = TR_partially) \<and>
    (tl_mode g \<noteq> TM_interactor \<longrightarrow> (\<exists>s. seekEof (tl_ouf g) = Ret True s))"
proof -
  have "result = TR_ok \<or> result = TR_partially" "resultExitCode (final_result result) = 0 \<Longrightarrow> testlib_shouldCheckDirt result"
    using quit_codes [OF assms] resultExitCode_0 [of "final_result result"]
    by (auto simp: final_result_def testlib_shouldCheckDirt_def split: if_splits)
  then show ?thesis using quit_codes [OF assms] resultExitCode_0 by (auto simp: testlib_shouldCheckDirt_def)
qed

section \<open>The run of a main\<close>

text \<open>What the finalize guard looks at; a quit keeps it, and counts itself.\<close>

definition guard_view :: "testlib \<Rightarrow> bool \<times> bool \<times> TTestlibMode" where
  "guard_view g = (tl_alive g, tl_registered g, tl_mode g)"

definition guard_le :: "testlib \<Rightarrow> testlib \<Rightarrow> bool" where
  "guard_le g g' \<longleftrightarrow> guard_view g' = guard_view g \<and> tl_quitCount g \<le> tl_quitCount g'"

lemma guard_le_trans: "guard_le g g' \<Longrightarrow> guard_le g' g'' \<Longrightarrow> guard_le g g''"
  by (auto simp: guard_le_def)

lemma guard_le_upd [simp]:
  "guard_le g (g'\<lparr>tl_resultName := n\<rparr>) = guard_le g g'" "guard_le g (g'\<lparr>tl_report := r\<rparr>) = guard_le g g'"
  "guard_le g (quitscr m g') = guard_le g g'" "guard_le g g"
  by (simp_all add: guard_le_def guard_view_def quitscr_def)

lemma guard_finish: "finish result message g = Exited c g' \<Longrightarrow> guard_le g g'"
  by (auto simp: finish_def Let_def guard_le_def guard_view_def quitscr_def split: if_splits)

lemma guard_check_dirt:
  "check_dirt result g = Ret b g' \<Longrightarrow> guard_le g g'" "check_dirt result g = Quit q g' \<Longrightarrow> guard_le g g'"
  by (auto simp: check_dirt_def on_ouf_def guard_le_def guard_view_def split: if_splits outcome.splits)

lemma guard_count: "guard_le g (count_quit g)" "tl_alive g \<Longrightarrow> tl_quitCount g < tl_quitCount (count_quit g)"
  by (auto simp: guard_le_def guard_view_def count_quit_def)

lemma guard_write_report:
  "write_report env info r m g = Ends (Exited c h) \<or> write_report env info r m g = Calls i r' m' h \<Longrightarrow> guard_le g h"
  by (auto simp: write_report_def split: if_splits option.splits dest!: guard_finish simp del: exit_code_finish)
     (simp_all add: guard_le_def guard_view_def)

lemma guard_say_result:
  assumes "say_result env info r m g = Ends (Exited c h) \<or> say_result env info r m g = Calls i r' m' h"
  shows "guard_le g h"
proof (cases "error_name r")
  case None
  then show ?thesis using assms by (simp add: say_result_def)
next
  case (Some w)
  then have "guard_le (quitscr w g) h"
    using assms guard_write_report [of env info _ m "quitscr w g"] by (auto simp: say_result_def)
  then show ?thesis using guard_le_trans [of g "quitscr w g" h] by simp
qed

lemma guard_quit_round:
  assumes "quit_round env info r m g = Ends (Exited c h) \<or> quit_round env info r m g = Calls i r' m' h"
  shows "guard_le (count_quit g) h"
proof (cases rule: quit_round_cases [of env info r m g])
  case (failed q g1)
  then show ?thesis using assms guard_check_dirt(2) by force
next
  case (dirty g1)
  then show ?thesis using assms guard_check_dirt(1) by force
next
  case (said g1)
  then have "guard_le g1 h" using assms guard_say_result by metis
  then show ?thesis using guard_check_dirt(1) [OF said(1)] guard_le_trans by blast
qed (use assms in auto)

lemma quit_guard:
  "quit env info result msg g = Exited c g' \<Longrightarrow> guard_le (count_quit g) g'"
proof (induction env info result msg g rule: quit.induct)
  case (1 env info result msg g)
  show ?case
  proof (cases "quit_round env info result msg g")
    case (Ends e)
    then show ?thesis using 1(2) quit_Ends [OF Ends] guard_quit_round by metis
  next
    case (Calls i r m h)
    then have "guard_le (count_quit h) g'" using 1 quit_Calls [OF Calls] by metis
    then show ?thesis using Calls guard_quit_round guard_count(1) guard_le_trans by metis
  qed
qed

text \<open>After a quit the guard has nothing to complain about: the exit code stands.\<close>

lemma run_main_quit:
  assumes "quit env (quit_info q g) (q_result q) (q_msg q) g = Exited code g'" "tl_alive g" "tl_registered g"
  shows "\<exists>g''. run_main env (Quit q g) = Exited code g''"
proof -
  have "guard_le (count_quit g) g'" using quit_guard [OF assms(1)] .
  then have "0 < tl_quitCount g'" "tl_registered g'"
    using guard_count [of g] assms(2,3) by (auto simp: guard_le_def guard_view_def count_quit_def)
  then show ?thesis using assms(1) by (simp add: run_main_def finalize_guard_def Let_def)
qed

text \<open>A checker that falls off the end of its \<^verbatim>\<open>main\<close> is a failure.\<close>

lemma run_main_no_quit:
  assumes "tl_alive g" "tl_mode g = TM_checker" "tl_quitCount g = 0"
  shows "\<exists>g'. run_main env (Ret code g) = Exited 3 g'"
  using assms quit_fail by (auto simp: run_main_def finalize_guard_def Let_def)

end
