(* ===== verification/TL_Register.thy ===== *)
theory TL_Register
  imports TL_Quit TL_Stream_Spec
begin

text \<open>
  How a checker starts: \<^verbatim>\<open>setName\<close>, \<^verbatim>\<open>registerTestlibCmd\<close> and what it calls, the class \<^verbatim>\<open>Checker\<close>,
  \<^verbatim>\<open>registerTestlib\<close>, \<^verbatim>\<open>registerInteraction\<close>, \<^verbatim>\<open>setAppesModeEncoding\<close>. The lemmas say that after the usual
  registration with three readable files the output stream holds the output without its byte-order
  mark and the answer stream the answer. The checks of \<^verbatim>\<open>__testlib_ensuresPreconditions\<close> on the
  sizes of types and on NaN hold on the target and are left out.

  The result \<open>Some code\<close> of a registration is a call of \<^verbatim>\<open>std::exit(code)\<close>, after \<^verbatim>\<open>--help\<close>.
\<close>

section \<open>Command line\<close>

text \<open>The loop of \<^verbatim>\<open>__testlib_set_testset_and_group\<close> over the arguments after the program's name.\<close>

fun set_testset_and_group :: "string list \<Rightarrow> (testlib, unit) prog" where
  "set_testset_and_group [] g = Ret () g"
| "set_testset_and_group (a # args) g =
     (if a = ''--testset'' then
        (case args of
           b # rest \<Rightarrow> if b \<noteq> [] then set_testset_and_group rest (g\<lparr>tl_testset := b\<rparr>)
             else quit_free TR_fail ''Expected non-empty testset after --testset command line parameter'' g
         | [] \<Rightarrow> quit_free TR_fail ''Expected non-empty testset after --testset command line parameter'' g)
      else if a = ''--group'' then
        (case args of
           b # rest \<Rightarrow> set_testset_and_group rest (g\<lparr>tl_group := b\<rparr>)
         | [] \<Rightarrow> quit_free TR_fail ''Expected group after --group command line parameter'' g)
      else set_testset_and_group args g)"

text \<open>The loop of \<^verbatim>\<open>registerTestlibCmd\<close>; \<open>acc\<close> is the vector \<^verbatim>\<open>args\<close>.\<close>

fun checker_args :: "string list \<Rightarrow> string list \<Rightarrow> (testlib, string list) prog" where
  "checker_args acc [] g = Ret acc g"
| "checker_args acc (a # args) g =
     (if a = ''--testset'' then
        (case args of
           b # rest \<Rightarrow> if b \<noteq> [] then checker_args acc rest (g\<lparr>tl_checker := (tl_checker g)\<lparr>chk_testset := b\<rparr>\<rparr>)
             else quit_free TR_fail ''Expected testset after --testset command line parameter'' g
         | [] \<Rightarrow> quit_free TR_fail ''Expected testset after --testset command line parameter'' g)
      else if a = ''--group'' then
        (case args of
           b # rest \<Rightarrow> checker_args acc rest (g\<lparr>tl_checker := (tl_checker g)\<lparr>chk_group := b\<rparr>\<rparr>)
         | [] \<Rightarrow> quit_free TR_fail ''Expected group after --group command line parameter'' g)
      else checker_args (acc @ [a]) args g)"

definition chk_get_testset :: "(testlib, string) prog" where
  "chk_get_testset g =
     (if \<not> chk_initialized (tl_checker g)
      then quit_free TR_fail (''Checker should be initialized with registerTestlibCmd(argc, argv) instead of '' @
             ''registerTestlibCmd() to support checker.testset()'') g
      else Ret (chk_testset (tl_checker g)) g)"

definition chk_get_group :: "(testlib, string) prog" where
  "chk_get_group g =
     (if \<not> chk_initialized (tl_checker g)
      then quit_free TR_fail (''Checker should be initialized with registerTestlibCmd(argc, argv) instead of '' @
             ''registerTestlibCmd() to support checker.group()'') g
      else Ret (chk_group (tl_checker g)) g)"

definition setName :: "string \<Rightarrow> (testlib, unit) prog" where
  "setName name g = Ret () (g\<lparr>tl_checkerName := name\<rparr>)"

text \<open>\<^verbatim>\<open>__testlib_help\<close>: the text it prints is left out, its exit code is that of a failure.\<close>

definition testlib_help :: "(testlib, int option) prog" where
  "testlib_help g = Ret (Some FAIL_EXIT_CODE) g"

section \<open>Registration\<close>

definition init_inf :: "env \<Rightarrow> string \<Rightarrow> (testlib, unit) prog" where
  "init_inf env name = on_inf (init_name (env_mem env) (env_memEof env) (env_fs env) name M_input)"

definition init_ouf :: "env \<Rightarrow> string \<Rightarrow> (testlib, unit) prog" where
  "init_ouf env name = on_ouf (init_name (env_mem env) (env_memEof env) (env_fs env) name M_output)"

definition init_ans :: "env \<Rightarrow> string \<Rightarrow> (testlib, unit) prog" where
  "init_ans env name = on_ans (init_name (env_mem env) (env_memEof env) (env_fs env) name M_answer)"

definition usage_message :: string where
  "usage_message = ''Program must be run with the following arguments: '' @
     ''<input-file> <output-file> <answer-file> [<report-file> [<-appes>]]''"

text \<open>The arguments after the options have been taken out: where the report goes, and the streams.\<close>

definition set_report :: "string list \<Rightarrow> (testlib, unit) prog" where
  "set_report args g =
     (let argc = length args in
      if argc = 4 then Ret () (g\<lparr>tl_resultName := [], tl_appesMode := False\<rparr>)
      else if argc = 5 then Ret () (g\<lparr>tl_resultName := args ! 4, tl_appesMode := False\<rparr>)
      else if argc = 6 then
        if ''-APPES'' \<noteq> args ! 5 \<and> ''-appes'' \<noteq> args ! 5 then quit_free TR_fail usage_message g
        else Ret () (g\<lparr>tl_resultName := args ! 4, tl_appesMode := True\<rparr>)
      else Ret () g)"

text \<open>\<open>argv\<close> has the pointers of the C array: \<open>None\<close> is a null pointer.\<close>

definition registerTestlibCmd :: "env \<Rightarrow> string option list \<Rightarrow> (testlib, int option) prog" where
  "registerTestlibCmd env argv g =
     (if list_all (\<lambda>a. a \<noteq> None) (tl argv) then
        andThen (set_testset_and_group (map the (tl argv)) g) (\<lambda>_ g.
        let g = g\<lparr>tl_registered := True, tl_mode := TM_checker\<rparr> in
        case argv of
          Some arg0 # rest \<Rightarrow>
            let g = g\<lparr>tl_checker := (tl_checker g)\<lparr>chk_initialized := True\<rparr>\<rparr> in
            andThen (checker_args [arg0] (map the rest) g) (\<lambda>args g.
              let argc = length args in
              if argc > 1 \<and> args ! 1 = ''--help'' then testlib_help g
              else if argc < 4 \<or> argc > 6
              then quit_free TR_fail (''Program must be run with the following arguments: '' @
                     ''[--testset testset] [--group group] <input-file> <output-file> <answer-file> '' @
                     ''[<report-file> [<-appes>]]'' @ [CHR 0x0A] @ ''Use \"--help\" to get help information'') g
              else andThen (set_report args g) (\<lambda>_ g.
                   andThen (init_inf env (args ! 1) g) (\<lambda>_ g.
                   andThen (init_ouf env (args ! 2) g) (\<lambda>_ g.
                   andThen (on_ouf skipBom g) (\<lambda>_ g.
                   andThen (init_ans env (args ! 3) g) (\<lambda>_ g. Ret None g))))))
        | _ \<Rightarrow> Crash)
      else Crash)"

text \<open>\<^verbatim>\<open>registerTestlib(argc, ...)\<close> passes a null pointer as the program's name.\<close>

definition registerTestlib :: "env \<Rightarrow> string list \<Rightarrow> (testlib, int option) prog" where
  "registerTestlib env args g =
     (if length args < 3 \<or> length args > 5 then quit_free TR_fail usage_message g
      else registerTestlibCmd env (None # map Some args) g)"

text \<open>
  \<^verbatim>\<open>registerInteraction\<close>: \<open>stdin\<close> is the content of the standard input, \<open>canWrite\<close> whether the
  test-output file can be opened.
\<close>

definition registerInteraction :: "env \<Rightarrow> string \<Rightarrow> bool \<Rightarrow> string list \<Rightarrow> (testlib, int option) prog" where
  "registerInteraction env stdin canWrite argv g =
     andThen (set_testset_and_group (tl argv) g) (\<lambda>_ g.
     let g = g\<lparr>tl_registered := True, tl_mode := TM_interactor\<rparr>;
         argc = length argv
     in if argc > 1 \<and> argv ! 1 = ''--help'' then testlib_help g
        else if argc < 3 \<or> argc > 6
        then quit_free TR_fail (''Program must be run with the following arguments: '' @
               ''<input-file> <output-file> [<answer-file> [<report-file> [<-appes>]]]'' @ [CHR 0x0A] @
               ''Use \"--help\" to get help information'') g
        else andThen (if argc \<le> 4 then Ret () (g\<lparr>tl_resultName := [], tl_appesMode := False\<rparr>)
                      else if argc = 5 then Ret () (g\<lparr>tl_resultName := argv ! 4, tl_appesMode := False\<rparr>)
                      else if argv ! 5 \<noteq> ''-APPES'' \<and> argv ! 5 \<noteq> ''-appes'' then quit_free TR_fail usage_message g
                      else Ret () (g\<lparr>tl_resultName := argv ! 4, tl_appesMode := True\<rparr>)) (\<lambda>_ g.
             andThen (init_inf env (argv ! 1) g) (\<lambda>_ g.
               if \<not> canWrite
               then quit_free TR_fail (''Can not write to the test-output-file '' @ [CHR 0x27] @ argv ! 2 @ [CHR 0x27]) g
               else let g = g\<lparr>tl_toutOpen := True\<rparr> in
                 andThen (on_ouf (init_file (env_mem env) (env_memEof env) (env_fs env) H_stdin (open_file stdin) M_output) g)
                   (\<lambda>_ g. if argc \<ge> 4 then andThen (init_ans env (argv ! 3) g) (\<lambda>_ g. Ret None g)
                           else Ret None (g\<lparr>tl_ans := (tl_ans g)\<lparr>is_name := ''unopened answer stream''\<rparr>\<rparr>)))))"

section \<open>The encoding of the report\<close>

definition ENCODINGS :: "string list" where
  "ENCODINGS = [''ascii'', ''utf-7'', ''utf-8'', ''utf-16'', ''utf-16le'', ''utf-16be'', ''utf-32'', ''utf-32le'',
    ''utf-32be'', ''iso-8859-1'', ''iso-8859-2'', ''iso-8859-3'', ''iso-8859-4'', ''iso-8859-5'', ''iso-8859-6'',
    ''iso-8859-7'', ''iso-8859-8'', ''iso-8859-9'', ''iso-8859-10'', ''iso-8859-11'', ''iso-8859-13'',
    ''iso-8859-14'', ''iso-8859-15'', ''iso-8859-16'', ''windows-1250'', ''windows-1251'', ''windows-1252'',
    ''windows-1253'', ''windows-1254'', ''windows-1255'', ''windows-1256'', ''windows-1257'', ''windows-1258'',
    ''gb2312'', ''gbk'', ''gb18030'', ''big5'', ''shift-jis'', ''euc-jp'', ''euc-kr'', ''euc-cn'', ''euc-tw'',
    ''koi8-r'', ''koi8-u'', ''tis-620'', ''ibm437'', ''ibm850'', ''ibm852'', ''ibm855'', ''ibm857'', ''ibm860'',
    ''ibm861'', ''ibm862'', ''ibm863'', ''ibm865'', ''ibm866'', ''ibm869'', ''macroman'', ''maccentraleurope'',
    ''maciceland'', ''maccroatian'', ''macromania'', ''maccyrillic'', ''macukraine'', ''macgreek'',
    ''macturkish'', ''machebrew'', ''macarabic'', ''macthai'', ''hz-gb-2312'', ''iso-2022-jp'', ''iso-2022-kr'',
    ''iso-2022-cn'', ''armscii-8'', ''tscii'', ''iscii'', ''viscii'', ''geostd8'', ''cp949'', ''cp874'',
    ''cp1006'', ''cp775'', ''cp858'', ''cp737'', ''cp853'', ''cp856'', ''cp922'', ''cp1046'', ''cp1125'',
    ''cp1131'', ''ptcp154'', ''koi8-t'', ''koi8-ru'', ''mulelao-1'', ''cp1133'', ''iso-ir-166'', ''tcvn'',
    ''iso-ir-14'', ''iso-ir-87'', ''iso-ir-159'']"

definition setAppesModeEncoding :: "string \<Rightarrow> (testlib, unit) prog" where
  "setAppesModeEncoding appesModeEncoding g =
     (let e = lowerCase appesModeEncoding in
      if e \<notin> set ENCODINGS then quit_free TR_fail ''Unexpected encoding for setAppesModeEncoding(encoding)'' g
      else Ret () (g\<lparr>tl_appesModeEncoding := e\<rparr>))"

section \<open>Skipping the byte-order mark\<close>

text \<open>A stream over a named file: it can put back \<open>n\<close> characters, whatever they are.\<close>

definition buffered :: "instream \<Rightarrow> int list \<Rightarrow> nat \<Rightarrow> instream \<Rightarrow> bool" where
  "buffered k v n s \<longleftrightarrow> stream_core s = k \<and>
     (\<exists>x. is_reader s = Some (BufferedReader x) \<and> br_good x \<and> br_view x = v \<and> n \<le> br_room x)"

lemma buffered_holds: "buffered k v n s \<Longrightarrow> 0 < n \<Longrightarrow> holds k v s"
  by (auto simp: buffered_def holds_def is_good_def is_view_def is_room_def)

lemma buffered_cur:
  assumes "buffered k v n s"
  shows "\<exists>s'. curChar s = Ret (to_char (head_code v)) s' \<and> buffered k v n s'"
proof -
  from assms obtain x where x: "is_reader s = Some (BufferedReader x)" "br_good x" "br_view x = v" "n \<le> br_room x"
    "stream_core s = k" by (auto simp: buffered_def)
  from br.cur_view [OF x(2)] obtain x' where "br_curChar x = Ret (head_code v) x'" "br_good x'" "br_view x' = v"
    "br_room x \<le> br_room x'" using x(3) by auto
  with x show ?thesis by (auto simp: curChar_def buffered_def on_reader_def)
qed

lemma buffered_cur_skip:
  assumes "buffered k (c # cs) n s"
  shows "\<exists>s' s''. curChar s = Ret (to_char c) s' \<and> skipChar s' = Ret () s'' \<and> buffered k cs n s'' \<and> c = schar (to_char c)"
proof -
  from assms obtain x where x: "is_reader s = Some (BufferedReader x)" "br_good x" "br_view x = c # cs" "n \<le> br_room x"
    "stream_core s = k" by (auto simp: buffered_def)
  from br.cur_char [OF x(2,3)] obtain x' x'' where "br_curChar x = Ret c x'" "br_skipChar x' = Ret () x''"
    "br_good x''" "br_view x'' = cs" "br_room x \<le> br_room x''" by blast
  moreover have "c = schar (to_char c)" using br_at_char [OF x(2,3)] by blast
  ultimately show ?thesis using x by (auto simp: curChar_def skipChar_def buffered_def on_reader_def)
qed

lemma buffered_unread:
  assumes "buffered k v (Suc n) s"
  shows "\<exists>s'. unreadChar c s = Ret () s' \<and> buffered k (schar c # v) n s'"
proof -
  from assms obtain x where x: "is_reader s = Some (BufferedReader x)" "br_good x" "br_view x = v" "Suc n \<le> br_room x"
    "stream_core s = k" by (auto simp: buffered_def)
  then have "0 < br_bufferPos x" by (auto simp: br_room_def)
  from br_unread_spec [OF x(2) this, of "schar c"] obtain x' where "br_unreadChar (schar c) x = Ret () x'" "br_good x'"
    "br_bufferPos x' = br_bufferPos x - 1" "br_view x' = schar c # v" using x(3) by auto
  moreover have "n \<le> br_room x'" using br_room_pred [OF calculation(3)] x(4) by simp
  ultimately show ?thesis using x by (auto simp: unreadChar_def buffered_def on_reader_def)
qed

definition bom_codes :: "int list" where
  "bom_codes = map schar utf8Bom"

definition strip_bom :: "int list \<Rightarrow> int list" where
  "strip_bom v = (if take 3 v = bom_codes then drop 3 v else v)"

lemma bom_length [simp]: "length bom_codes = 3" "length utf8Bom = 3"
  by (simp_all add: bom_codes_def utf8Bom_def)

lemma skipBom_match_spec:
  assumes "buffered k v n s" "i \<le> 3"
  shows "\<exists>j v' s'. skipBom_match i s = Ret j s' \<and> i \<le> j \<and> j \<le> 3 \<and> buffered k v' n s' \<and>
    take i bom_codes @ v = take j bom_codes @ v' \<and> (j < 3 \<longrightarrow> v' = [] \<or> hd v' \<noteq> bom_codes ! j)"
  using assms
proof (induction "3 - i" arbitrary: i v s)
  case 0
  then show ?case by (intro exI [of _ i] exI [of _ v] exI [of _ s]) (simp add: skipBom_match.simps)
next
  case (Suc m)
  then have i: "i < 3" by simp
  show ?case
  proof (cases "v \<noteq> [] \<and> to_char (hd v) = utf8Bom ! i")
    case True
    then obtain c cs where v: "v = c # cs" "to_char c = utf8Bom ! i" by (cases v) auto
    from buffered_cur_skip [of k c cs n s] Suc.prems(1) v obtain s1 s2 where s:
      "curChar s = Ret (to_char c) s1" "skipChar s1 = Ret () s2" "buffered k cs n s2" "c = schar (to_char c)" by blast
    have c: "c = bom_codes ! i" using s(4) v(2) i by (simp add: bom_codes_def)
    have "skipBom_match i s = skipBom_match (Suc i) s2"
      using s(1,2) v(2) i by (simp add: skipBom_match.simps [of i s])
    moreover have "take i bom_codes @ v = take (Suc i) bom_codes @ cs"
      using v(1) c i by (simp add: take_Suc_conv_app_nth)
    ultimately show ?thesis using Suc.hyps(1) [of "Suc i" cs s2] Suc.hyps(2) s(3) i by fastforce
  next
    case False
    from buffered_cur [OF Suc.prems(1)] obtain s1 where s1: "curChar s = Ret (to_char (head_code v)) s1" "buffered k v n s1" by blast
    have "utf8Bom ! i \<noteq> CHR 0xFF" using i by (auto simp: utf8Bom_def nth_Cons split: nat.splits)
    moreover have "to_char EOFC = CHR 0xFF" by (simp add: to_char_def EOFC_def char_of_def)
    ultimately have "to_char (head_code v) \<noteq> utf8Bom ! i" using False by (cases v) auto
    then have "skipBom_match i s = Ret i s1" using s1(1) i by (simp add: skipBom_match.simps [of i s])
    moreover have "v = [] \<or> hd v \<noteq> bom_codes ! i" using False i by (auto simp: bom_codes_def)
    ultimately show ?thesis using s1(2) Suc.prems by blast
  qed
qed

lemma skipBom_restore_spec:
  "buffered k v n s \<Longrightarrow> j \<le> n \<Longrightarrow> j \<le> 3 \<Longrightarrow>
     \<exists>s'. skipBom_restore j s = Ret () s' \<and> buffered k (take j bom_codes @ v) (n - j) s'"
proof (induction j arbitrary: v n s)
  case (Suc j)
  then obtain m where n: "n = Suc m" by (cases n) auto
  from buffered_unread [of k v m s "utf8Bom ! j"] Suc.prems n obtain s1 where s1:
    "unreadChar (utf8Bom ! j) s = Ret () s1" "buffered k (schar (utf8Bom ! j) # v) m s1" by blast
  from Suc.IH [OF s1(2)] Suc.prems n obtain s2 where
    "skipBom_restore j s1 = Ret () s2" "buffered k (take j bom_codes @ schar (utf8Bom ! j) # v) (m - j) s2" by auto
  moreover have "take (Suc j) bom_codes = take j bom_codes @ [schar (utf8Bom ! j)]"
    using Suc.prems(3) by (simp add: take_Suc_conv_app_nth bom_codes_def)
  ultimately show ?case using s1(1) n by simp
qed simp

lemma skipBom_spec:
  assumes "buffered k v n s" "4 \<le> n"
  shows "\<exists>s'. skipBom s = Ret () s' \<and> holds k (strip_bom v) s'"
proof -
  from skipBom_match_spec [OF assms(1), of 0] obtain j v' s1 where j: "skipBom_match 0 s = Ret j s1" "j \<le> 3"
    "buffered k v' n s1" "v = take j bom_codes @ v'" "j < 3 \<longrightarrow> v' = [] \<or> hd v' \<noteq> bom_codes ! j" by auto
  show ?thesis
  proof (cases "j = 3")
    case True
    then have "strip_bom v = v'" using j(4) by (simp add: strip_bom_def)
    then show ?thesis using j(1,3) True buffered_holds assms(2) by (force simp: skipBom_def)
  next
    case False
    then have lt: "j < 3" using j(2) by simp
    have "take 3 v \<noteq> bom_codes"
    proof
      assume t: "take 3 v = bom_codes"
      then have len: "3 \<le> length v" by (metis bom_length(1) length_take min.cobounded1)
      then have "v' \<noteq> []" using j(4) lt by auto
      then have "v ! j = hd v'" using j(4) lt by (simp add: nth_append hd_conv_nth)
      moreover have "v ! j = bom_codes ! j" using t lt by (metis nth_take)
      ultimately show False using j(5) lt \<open>v' \<noteq> []\<close> by auto
    qed
    then have "strip_bom v = v" by (simp add: strip_bom_def)
    moreover obtain s2 where "skipBom_restore j s1 = Ret () s2" "buffered k v (n - j) s2"
      using skipBom_restore_spec [OF j(3), of j] j(2,4) assms(2) by auto
    ultimately show ?thesis using j(1) lt buffered_holds [of k v "n - j" s2] assms(2) by (simp add: skipBom_def)
  qed
qed

section \<open>After the registration\<close>

lemma br_new_facts:
  "br_good (br_new mem memEof (open_file c) name)" "br_view (br_new mem memEof (open_file c) name) = map schar c"
  "br_room (br_new mem memEof (open_file c) name) = MAX_UNREAD_COUNT"
  by (simp_all add: br_good_def br_view_def br_room_def br_new_def open_file_def buffer_sizes)

text \<open>The members of a stream that was just opened by name.\<close>

definition opened_core :: "string \<Rightarrow> TMode \<Rightarrow> instream" where
  "opened_core name mode = stream_core (InStream_new\<lparr>is_opened := True, is_name := name, is_mode := mode\<rparr>)"

lemma opened_core_sel [simp]:
  "is_mode (opened_core name mode) = mode" "\<not> is_strict (opened_core name mode)" "is_name (opened_core name mode) = name"
  "is_maxTokenLength (opened_core name mode) = 32 * 1024 * 1024"
  by (simp_all add: opened_core_def InStream_new_def)

lemma init_name_spec:
  assumes "fs name = Some content" "length content \<le> 128 * 1024 * 1024"
  shows "\<exists>s'. init_name mem memEof fs name mode InStream_new = Ret () s' \<and>
    buffered (opened_core name mode) (map schar content) MAX_UNREAD_COUNT s'"
  using assms br_new_facts [of mem memEof content name]
  by (simp add: init_name_def InStream_new_def reset_stream_def buffered_def opened_core_def stream_core_def Let_def
      split: TMode.splits)

lemma buffered_fresh: "buffered k v MAX_UNREAD_COUNT s \<Longrightarrow> holds k v s"
  using buffered_holds buffer_sizes(2) by blast

text \<open>
  A registered checker between two of its reads: what the output and the answer still hold, and
  that the report goes to the standard error stream.
\<close>

definition judging :: "instream \<Rightarrow> instream \<Rightarrow> int list \<Rightarrow> int list \<Rightarrow> testlib \<Rightarrow> bool" where
  "judging ko ka vo va g \<longleftrightarrow> holds ko vo (tl_ouf g) \<and> holds ka va (tl_ans g) \<and>
     tl_mode g = TM_checker \<and> tl_alive g \<and> tl_registered g \<and> tl_resultName g = []"

text \<open>Arguments that are not options.\<close>

definition plain_arg :: "string \<Rightarrow> bool" where
  "plain_arg a \<longleftrightarrow> a \<noteq> ''--testset'' \<and> a \<noteq> ''--group'' \<and> a \<noteq> ''--help''"

lemma registerTestlibCmd_spec:
  assumes files: "env_fs env inName = Some input" "env_fs env ouName = Some output" "env_fs env anName = Some answer"
    and sizes: "length input \<le> 128 * 1024 * 1024" "length output \<le> 128 * 1024 * 1024" "length answer \<le> 128 * 1024 * 1024"
    and names: "plain_arg inName" "plain_arg ouName" "plain_arg anName"
  shows "\<exists>g. registerTestlibCmd env [Some prog, Some inName, Some ouName, Some anName]
      (testlib_init\<lparr>tl_checkerName := cn\<rparr>) = Ret None g \<and>
    judging (opened_core ouName M_output) (opened_core anName M_answer)
      (strip_bom (map schar output)) (map schar answer) g"
proof -
  have i: "\<exists>s. init_name (env_mem env) (env_memEof env) (env_fs env) inName M_input InStream_new = Ret () s"
    and a: "\<exists>s. init_name (env_mem env) (env_memEof env) (env_fs env) anName M_answer InStream_new = Ret () s \<and>
      holds (opened_core anName M_answer) (map schar answer) s"
    using init_name_spec [where fs = "env_fs env", OF files(1) sizes(1)]
      init_name_spec [where fs = "env_fs env", OF files(3) sizes(3)] buffered_fresh by blast+
  obtain so where so: "init_name (env_mem env) (env_memEof env) (env_fs env) ouName M_output InStream_new = Ret () so"
    "buffered (opened_core ouName M_output) (map schar output) MAX_UNREAD_COUNT so"
    using init_name_spec [where fs = "env_fs env", OF files(2) sizes(2)] by blast
  have "4 \<le> MAX_UNREAD_COUNT" by (simp add: MAX_UNREAD_COUNT_def BUFFER_SIZE_def)
  from skipBom_spec [OF so(2) this] obtain so' where so': "skipBom so = Ret () so'"
    "holds (opened_core ouName M_output) (strip_bom (map schar output)) so'" by blast
  from i a so so' names show ?thesis
    by (auto simp: registerTestlibCmd_def plain_arg_def testlib_init_def set_report_def init_inf_def init_ouf_def
        init_ans_def on_inf_def on_ouf_def on_ans_def judging_def Let_def)
qed

text \<open>\<^verbatim>\<open>registerTestlib\<close> builds a string from the null pointer it passes as the program's name.\<close>

lemma registerTestlib_unusable:
  assumes "\<forall>a\<in>set args. plain_arg a"
  shows "registerTestlib env args g = (if length args < 3 \<or> length args > 5 then quit_free TR_fail usage_message g else Crash)"
proof -
  have "set_testset_and_group args g = Ret () g" for g
    using assms by (induction args) (auto simp: plain_arg_def)
  then show ?thesis by (simp add: registerTestlib_def registerTestlibCmd_def Let_def list_all_iff o_def)
qed

end
