(* ===== verification/TL_Integers.thy ===== *)
theory TL_Integers
  imports TL_Stream_Spec
begin

text \<open>
  The integer side of \<^verbatim>\<open>InStream\<close>: what \<^verbatim>\<open>stringToLongLong\<close> and its unsigned version accept, and
  the locale \<open>integer_method\<close> with the contract of the methods built on them, interpreted for
  \<^verbatim>\<open>readInteger\<close>, \<^verbatim>\<open>readLong\<close> and \<^verbatim>\<open>readUnsignedLong\<close>.
\<close>

section \<open>The integer parsers\<close>

lemma is_digit_simps: "\<not> (schar c < 48 \<or> 57 < schar c) \<longleftrightarrow> is_digit c"
  by (auto simp: is_digit_def)

abbreviation leading_zeroes :: "string \<Rightarrow> nat" where
  "leading_zeroes s \<equiv> length (takeWhile (\<lambda>c. c = CHR ''0'') s)"

lemma count_zeroes_eq:
  "count_zeroes cs z p = (if list_all is_digit cs then Some (z + (if p then leading_zeroes cs else 0)) else None)"
  by (induction cs z p rule: count_zeroes.induct) (auto simp: Let_def is_digit_def)

lemma digit_not_space: "is_digit c \<Longrightarrow> \<not> c_isspace c"
  by (auto simp: is_digit_def c_isspace_def)

lemma digit_not_sign: "is_digit c \<Longrightarrow> c \<noteq> CHR ''-'' \<and> c \<noteq> CHR ''+''"
  by (auto simp: is_digit_def char_simps)

lemma minus_facts: "\<not> c_isspace (CHR ''-'')" "\<not> is_digit (CHR ''-'')"
  by (simp_all add: c_isspace_def is_digit_def char_simps)

lemma takeWhile_list_all: "list_all P xs \<Longrightarrow> takeWhile P xs = xs"
  by (simp add: takeWhile_eq_all_conv list_all_iff)

lemma stoll_digits:
  assumes "list_all is_digit b" "b \<noteq> []"
  shows "stoll b = (if digits_val b \<le> LLONG_MAX then Some (digits_val b) else None)"
proof -
  obtain c cs where b: "b = c # cs" "is_digit c" using assms by (cases b) auto
  then have "dropWhile c_isspace b = b" "scan_sign b = (False, b)"
    using digit_not_space digit_not_sign by (auto simp: scan_sign_def)
  moreover have "LLONG_MIN \<le> digits_val b"
    using digits_val_nonneg [OF assms(1)] by (simp add: LLONG_MIN_def)
  ultimately show ?thesis using assms by (simp add: stoll_def takeWhile_list_all)
qed

lemma stoll_minus:
  assumes "list_all is_digit t" "t \<noteq> []"
  shows "stoll (CHR ''-'' # t) = (if LLONG_MIN \<le> - digits_val t then Some (- digits_val t) else None)"
proof -
  have "- digits_val t \<le> LLONG_MAX"
    using digits_val_nonneg [OF assms(1)] by (simp add: LLONG_MAX_def)
  then show ?thesis using assms minus_facts by (simp add: stoll_def scan_sign_def takeWhile_list_all)
qed

lemma stoull_digits:
  assumes "list_all is_digit b" "b \<noteq> []"
  shows "stoull b = (if digits_val b \<le> ULLONG_MAX then Some (digits_val b) else None)"
proof -
  obtain c cs where b: "b = c # cs" "is_digit c" using assms by (cases b) auto
  then have "dropWhile c_isspace b = b" "scan_sign b = (False, b)"
    using digit_not_space digit_not_sign by (auto simp: scan_sign_def)
  then show ?thesis using assms by (simp add: stoull_def takeWhile_list_all)
qed

text \<open>The test on the leading zeroes singles out the canonical notations.\<close>

lemma digits_val_zero_Cons: "digits_val (CHR ''0'' # s) = digits_val s"
  by (simp add: digits_val_def char_simps)

lemma zeroes_canonical:
  assumes "list_all is_digit b" "b \<noteq> []"
  shows "((leading_zeroes b > 0 \<and> digits_val b \<noteq> 0) \<or> leading_zeroes b > 1) \<longleftrightarrow> \<not> canonical_nat b"
proof (cases b)
  case (Cons c cs)
  show ?thesis
  proof (cases "c = CHR ''0''")
    case True
    show ?thesis
    proof (cases "cs = []")
      case False
      then obtain d ds where cs: "cs = d # ds" by (cases cs) auto
      show ?thesis
      proof (cases "d = CHR ''0''")
        case False
        then have "canonical_nat cs" "cs \<noteq> ''0''" using cs assms Cons by (auto simp: canonical_nat_def)
        then have "0 < digits_val cs" by (rule digits_val_pos)
        then show ?thesis using True Cons cs by (auto simp: canonical_nat_def digits_val_zero_Cons)
      qed (use True Cons cs in \<open>auto simp: canonical_nat_def\<close>)
    qed (use True Cons in \<open>auto simp: canonical_nat_def is_digit_def char_simps digits_val_zero_Cons\<close>)
  qed (use Cons assms in \<open>auto simp: canonical_nat_def\<close>)
qed (use assms in simp)

lemma zeroes_canonical_minus:
  assumes "list_all is_digit t" "t \<noteq> []"
  shows "leading_zeroes t = 0 \<longleftrightarrow> canonical_nat t \<and> t \<noteq> ''0''"
  using assms by (cases t) (auto simp: canonical_nat_def)

text \<open>Canonical notations of the integers: those that \<^verbatim>\<open>vtos\<close> writes.\<close>

definition canonical_int :: "string \<Rightarrow> bool" where
  "canonical_int b \<longleftrightarrow> canonical_nat b \<or> (b \<noteq> [] \<and> hd b = CHR ''-'' \<and> canonical_nat (tl b) \<and> tl b \<noteq> ''0'')"

lemma canonical_int_nonempty: "canonical_int b \<Longrightarrow> b \<noteq> []"
  by (auto simp: canonical_int_def canonical_nat_def)

lemma canonical_int_vtos: "canonical_int (vtos n)"
proof (cases "0 \<le> n")
  case True
  then show ?thesis by (simp add: canonical_int_def vtos_canonical)
next
  case False
  then have "vtos (- n) \<noteq> vtos 0" by (simp add: vtos_inj)
  moreover have "vtos 0 = ''0''" by (simp add: vtos_def)
  ultimately show ?thesis using False by (simp add: canonical_int_def vtos_neg vtos_canonical)
qed

lemma vtos_int_val: "canonical_int b \<Longrightarrow> vtos (int_val b) = b"
proof -
  assume c: "canonical_int b"
  show ?thesis
  proof (cases "canonical_nat b")
    case True
    then have "hd b \<noteq> CHR ''-''" "b \<noteq> []"
      using digit_not_sign by (cases b; auto simp: canonical_nat_def)+
    then have "int_val b = digits_val b" by (cases b) (simp_all add: int_val_def)
    with True show ?thesis by (simp add: vtos_digits_val)
  next
    case False
    with c obtain t where t: "b = CHR ''-'' # t" "canonical_nat t" "t \<noteq> ''0''"
      by (cases b) (auto simp: canonical_int_def)
    then have "0 < digits_val t" by (simp add: digits_val_pos)
    with t show ?thesis by (simp add: int_val_def vtos_neg vtos_digits_val)
  qed
qed

lemma canonical_int_iff: "canonical_int b \<longleftrightarrow> (\<exists>n. b = vtos n)"
  using canonical_int_vtos vtos_int_val by metis

text \<open>No value of 64 bits needs more than 20 characters.\<close>

lemma length_vtos_bound: "0 \<le> n \<Longrightarrow> n < 10 ^ Suc k \<Longrightarrow> length (vtos n) \<le> Suc k"
proof (induction k arbitrary: n)
  case 0
  then show ?case by (simp add: vtos_small)
next
  case (Suc k)
  show ?case
  proof (cases "n < 10")
    case True
    with Suc.prems show ?thesis by (simp add: vtos_small)
  next
    case False
    have "vtos (n div 10 * 10 + n mod 10) = vtos (n div 10) @ [to_char (48 + n mod 10)]"
      using False by (intro vtos_snoc) auto
    then have "length (vtos n) = Suc (length (vtos (n div 10)))" by simp
    moreover have "n div 10 < 10 ^ Suc k" using Suc.prems by auto
    ultimately show ?thesis using Suc.IH [of "n div 10"] Suc.prems by simp
  qed
qed

lemma length_vtos_long: "LLONG_MIN \<le> n \<Longrightarrow> n \<le> LLONG_MAX \<Longrightarrow> length (vtos n) \<le> 20"
  using length_vtos_bound [of "\<bar>n\<bar>" 18]
  by (cases "n < 0") (auto simp: vtos_neg limit_defs)

lemma length_vtos_ulong: "0 \<le> n \<Longrightarrow> n \<le> ULLONG_MAX \<Longrightarrow> length (vtos n) \<le> 20"
  using length_vtos_bound [of n 19] by (auto simp: limit_defs)

lemma stringToLongLong_c_eq:
  "stringToLongLong_c b s =
     (if canonical_int b \<and> LLONG_MIN \<le> int_val b \<and> int_val b \<le> LLONG_MAX then Ret (int_val b) s
      else expected_integer b s)"
proof (cases "b = [] \<or> length b > 20")
  case True
  then have "\<not> (canonical_int b \<and> LLONG_MIN \<le> int_val b \<and> int_val b \<le> LLONG_MAX)"
    using length_vtos_long [of "int_val b"] vtos_int_val [of b] canonical_int_nonempty [of b] by auto
  with True show ?thesis by (auto simp: stringToLongLong_c_def)
next
  case False
  show ?thesis
  proof (cases "length b > 1 \<and> b ! 0 = CHR ''-''")
    case True
    then obtain t where t: "b = CHR ''-'' # t" "t \<noteq> []" by (cases b) auto
    have can: "canonical_int b \<longleftrightarrow> canonical_nat t \<and> t \<noteq> ''0''"
      using t minus_facts by (auto simp: canonical_int_def canonical_nat_def)
    show ?thesis
    proof (cases "list_all is_digit t")
      case dig: True
      have "- digits_val t \<le> LLONG_MAX" using digits_val_nonneg [OF dig] by (simp add: limit_defs)
      with can zeroes_canonical_minus [OF dig t(2)] stoll_minus [OF dig t(2)] False t dig show ?thesis
        by (auto simp: stringToLongLong_c_def count_zeroes_eq int_val_def Let_def split del: if_split split: if_splits)
    next
      case nd: False
      then have "\<not> canonical_int b" using can by (auto simp: canonical_nat_def)
      with nd False t show ?thesis by (auto simp: stringToLongLong_c_def count_zeroes_eq Let_def)
    qed
  next
    case nm: False
    have can: "canonical_int b \<longleftrightarrow> canonical_nat b"
      using nm False by (cases b) (auto simp: canonical_int_def canonical_nat_def)
    show ?thesis
    proof (cases "list_all is_digit b")
      case dig: True
      have ne: "b \<noteq> []" using False by simp
      have "hd b \<noteq> CHR ''-''" using dig ne digit_not_sign by (cases b) auto
      then have iv: "int_val b = digits_val b" using ne by (cases b) (auto simp: int_val_def)
      have "LLONG_MIN \<le> digits_val b" using digits_val_nonneg [OF dig] by (simp add: limit_defs)
      with iv can zeroes_canonical [OF dig ne] stoll_digits [OF dig ne] False nm dig show ?thesis
        by (auto simp: stringToLongLong_c_def count_zeroes_eq Let_def)
    next
      case nd: False
      then have "\<not> canonical_int b" using can by (auto simp: canonical_nat_def)
      with nd False nm show ?thesis by (auto simp: stringToLongLong_c_def count_zeroes_eq Let_def)
    qed
  qed
qed


lemma in_set_NUL: "list_all is_digit b \<Longrightarrow> CHR 0x00 \<notin> set b"
  by (auto simp: list_all_iff is_digit_def schar_def)

lemma canonical_int_no_NUL: "canonical_int b \<Longrightarrow> CHR 0x00 \<notin> set b"
  using in_set_NUL [of b] in_set_NUL [of "tl b"]
  by (cases b) (auto simp: canonical_int_def canonical_nat_def)

text \<open>
  A text is accepted exactly when it is what \<^verbatim>\<open>vtos\<close> writes for a value of the type; every other
  text is a presentation error, with no change of the stream.
\<close>

lemma stringToLongLong_accepts:
  "LLONG_MIN \<le> n \<Longrightarrow> n \<le> LLONG_MAX \<Longrightarrow> stringToLongLong (vtos n) s = Ret n s"
  by (simp add: stringToLongLong_def stringToLongLong_c_eq canonical_int_vtos canonical_int_no_NUL int_val_vtos)

lemma stringToLongLong_rejects:
  assumes "\<nexists>n. b = vtos n \<and> LLONG_MIN \<le> n \<and> n \<le> LLONG_MAX"
  shows "\<exists>msg. stringToLongLong b s = in_quit TR_pe msg s"
proof -
  have "\<not> (canonical_int b \<and> LLONG_MIN \<le> int_val b \<and> int_val b \<le> LLONG_MAX)"
    using assms vtos_int_val by metis
  then show ?thesis by (auto simp: stringToLongLong_def stringToLongLong_c_eq expected_integer_def)
qed

lemma stringToUnsignedLongLong_c_eq:
  "stringToUnsignedLongLong_c b s =
     (if canonical_nat b \<and> digits_val b \<le> ULLONG_MAX then Ret (digits_val b) s else expected_unsigned b s)"
proof (cases "b = [] \<or> length b > 20")
  case True
  have "length b \<le> 20 \<and> b \<noteq> []" if "canonical_nat b" "digits_val b \<le> ULLONG_MAX"
    using that length_vtos_ulong [of "digits_val b"] vtos_digits_val [of b] digits_val_nonneg [of b]
    by (auto simp: canonical_nat_def)
  with True show ?thesis by (auto simp: stringToUnsignedLongLong_c_def)
next
  case False
  show ?thesis
  proof (cases "list_all is_digit b")
    case True
    then have "\<not> (\<exists>c\<in>set b. schar c < 48 \<or> schar c > 57)" by (auto simp: list_all_iff is_digit_def)
    moreover have "(length b > 1 \<and> b ! 0 = CHR ''0'') \<longleftrightarrow> \<not> canonical_nat b"
      using True False by (cases b) (auto simp: canonical_nat_def)
    ultimately show ?thesis using False stoull_digits [OF True]
      by (auto simp: stringToUnsignedLongLong_c_def)
  next
    case nd: False
    then have "\<exists>c\<in>set b. schar c < 48 \<or> schar c > 57" by (auto simp: list_all_iff is_digit_def not_le)
    with nd False show ?thesis by (auto simp: stringToUnsignedLongLong_c_def canonical_nat_def)
  qed
qed

lemma unsigned_round_trip: "0 \<le> n \<Longrightarrow> n \<le> ULLONG_MAX \<Longrightarrow> to_unsigned_long_long (to_long_long n) = n"
  by (simp add: to_unsigned_long_long_def to_long_long_def ULLONG_MAX_def mod_simps)

lemma stringToUnsignedLongLong_accepts:
  "0 \<le> n \<Longrightarrow> n \<le> ULLONG_MAX \<Longrightarrow>
    stringToUnsignedLongLong (vtos n) s = Ret (to_long_long n) s"
  using canonical_int_no_NUL [OF canonical_int_vtos, of n]
  by (simp add: stringToUnsignedLongLong_def stringToUnsignedLongLong_c_eq vtos_canonical digits_val_vtos)

lemma stringToUnsignedLongLong_rejects:
  assumes "\<nexists>n. b = vtos n \<and> 0 \<le> n \<and> n \<le> ULLONG_MAX"
  shows "\<exists>msg. stringToUnsignedLongLong b s = in_quit TR_pe msg s"
proof -
  have "\<not> (canonical_nat b \<and> digits_val b \<le> ULLONG_MAX)"
    using assms vtos_digits_val digits_val_nonneg canonical_nat_def by metis
  then show ?thesis
    by (auto simp: stringToUnsignedLongLong_def stringToUnsignedLongLong_c_eq expected_unsigned_def in_quit_def)
qed


section \<open>Reading integers\<close>

text \<open>
  \<^verbatim>\<open>readInteger\<close>, \<^verbatim>\<open>readLong\<close> and \<^verbatim>\<open>readUnsignedLong\<close> have one shape: an end-of-file test, the
  next token, a parser. The contract below is about any such method whose parser accepts exactly
  the canonical notations of the values from \<open>lo\<close> to \<open>hi\<close>.
\<close>

locale integer_method =
  fixes rd :: "(instream, int) prog" and parse :: "string \<Rightarrow> (instream, int) prog"
    and eof_msg :: string and lo hi :: int
  assumes rd_shape: "rd s = andThen (if \<not> is_strict s then seekEof s else Ret False s) (\<lambda>ended s.
      if ended then in_quit TR_unexpected_eof eof_msg s
      else andThen (readWordTo s) (\<lambda>w s. parse w (s\<lparr>is_tmpReadToken := w\<rparr>)))"
    and parse_ok: "lo \<le> n \<Longrightarrow> n \<le> hi \<Longrightarrow> parse (vtos n) s = Ret n s"
    and parse_bad: "(\<nexists>n. b = vtos n \<and> lo \<le> n \<and> n \<le> hi) \<Longrightarrow> \<exists>msg. parse b s = in_quit TR_pe msg s"
begin

lemma token_start_idem: "token_start k (token_start k v) = token_start k v"
  by (simp add: token_start_def)

lemma before_word:
  assumes "holds k v s" "token_start k v \<noteq> []"
  shows "\<exists>s'. holds k (token_start k v) s' \<and>
    rd s = andThen (readWordTo s') (\<lambda>w s. parse w (s\<lparr>is_tmpReadToken := w\<rparr>))"
  using assms seekEof_spec [OF assms(1)] holds_strict [OF assms(1)]
  by (auto simp: rd_shape [of s] token_start_def)

lemma read_ok:
  assumes "holds k v s" "map to_char (takeWhile nonblank (token_start k v)) = vtos n" "lo \<le> n" "n \<le> hi"
    "length (vtos n) \<le> is_maxTokenLength k"
  shows "\<exists>s'. rd s = Ret n s' \<and> holds k (dropWhile nonblank (token_start k v)) s'"
proof -
  have "vtos n \<noteq> []" using canonical_int_nonempty [OF canonical_int_vtos] .
  with assms(2) obtain c cs where v: "token_start k v = c # cs" "nonblank c"
    by (cases "token_start k v") (auto split: if_splits)
  then have ne: "token_start k v \<noteq> []" and idem: "token_start k (c # cs) = c # cs"
    using token_start_idem [of k v] by simp_all
  from before_word [OF assms(1) ne] obtain s1 where s1: "holds k (token_start k v) s1"
    "rd s = andThen (readWordTo s1) (\<lambda>w s. parse w (s\<lparr>is_tmpReadToken := w\<rparr>))" by blast
  have "length (takeWhile nonblank (token_start k v)) \<le> is_maxTokenLength k"
    using assms(2,5) by (metis length_map)
  with readWordTo_token [OF s1(1), of c cs] v obtain s2 where "readWordTo s1 = Ret (vtos n) s2"
    "holds k (dropWhile nonblank (token_start k v)) s2"
    using assms(2) idem by auto
  then show ?thesis using s1(2) parse_ok [OF assms(3,4)] by simp
qed

lemma read_end:
  assumes "holds k v s" "\<not> is_strict k" "next_token v = []"
  shows "\<exists>s'. rd s = in_quit TR_unexpected_eof eof_msg s' \<and> holds k [] s'"
proof -
  have d: "dropWhile isBlanks v = []"
    using assms(3) hd_dropWhile [of isBlanks v] by (cases "dropWhile isBlanks v") (auto simp: next_token_def split: if_splits)
  show ?thesis using seekEof_spec [OF assms(1), unfolded d] assms(2) holds_strict [OF assms(1)]
    by (auto simp: rd_shape [of s])
qed

lemma read_bad:
  assumes "holds k v s" "token_start k v \<noteq> []"
    and bad: "\<nexists>n. map to_char (takeWhile nonblank (token_start k v)) = vtos n \<and> lo \<le> n \<and> n \<le> hi \<and>
      length (vtos n) \<le> is_maxTokenLength k"
  shows "\<exists>msg s'. rd s = in_quit TR_pe msg s' \<and> stream_core s' = k"
proof -
  let ?w = "takeWhile nonblank (token_start k v)"
  from before_word [OF assms(1,2)] obtain s1 where s1: "holds k (token_start k v) s1"
    "rd s = andThen (readWordTo s1) (\<lambda>w s. parse w (s\<lparr>is_tmpReadToken := w\<rparr>))" by blast
  obtain c cs where c: "token_start k v = c # cs" using assms(2) by (cases "token_start k v") auto
  then have idem: "token_start k (c # cs) = c # cs" using token_start_idem [of k v] by simp
  consider "isBlanks c" | "nonblank c" "length ?w > is_maxTokenLength k" | "nonblank c" "length ?w \<le> is_maxTokenLength k"
    by linarith
  then show ?thesis
  proof cases
    case 1
    with readWordTo_blank [OF s1(1), of c cs] c s1(2) show ?thesis
      by (auto simp: idem in_quit_def dest: holds_core(1))
  next
    case 2
    with readWordTo_long [OF s1(1), of c cs] c s1(2) show ?thesis
      by (auto simp: idem in_quit_def)
  next
    case 3
    then obtain s2 where s2: "readWordTo s1 = Ret (map to_char ?w) s2" "holds k (dropWhile nonblank (token_start k v)) s2"
      using readWordTo_token [OF s1(1), of c cs] c by (auto simp: idem)
    have "\<nexists>n. map to_char ?w = vtos n \<and> lo \<le> n \<and> n \<le> hi"
      using bad 3(2) by (metis length_map)
    then obtain msg where "parse (map to_char ?w) (s2\<lparr>is_tmpReadToken := map to_char ?w\<rparr>)
        = in_quit TR_pe msg (s2\<lparr>is_tmpReadToken := map to_char ?w\<rparr>)"
      using parse_bad by blast
    with s1(2) s2 have "rd s = in_quit TR_pe msg (s2\<lparr>is_tmpReadToken := map to_char ?w\<rparr>)" by simp
    moreover have "stream_core (s2\<lparr>is_tmpReadToken := map to_char ?w\<rparr>) = k" using holds_core(1) [OF s2(2)] by simp
    ultimately show ?thesis by blast
  qed
qed

end

definition parse_int32 :: "string \<Rightarrow> (instream, int) prog" where
  "parse_int32 w s = andThen (stringToLongLong w s) (\<lambda>value s.
     if value < INT_MIN \<or> value > INT_MAX
     then in_quit TR_pe (''Expected int32, but \"'' @ testlib_part w @ ''\" found'') s
     else Ret value s)"

definition parse_uint64 :: "string \<Rightarrow> (instream, int) prog" where
  "parse_uint64 w s = andThen (stringToUnsignedLongLong w s) (\<lambda>v s. Ret (to_unsigned_long_long v) s)"

interpretation int32: integer_method readInteger parse_int32
  "''Unexpected end of file - int32 expected''" INT_MIN INT_MAX
proof unfold_locales
  show "readInteger s = andThen (if \<not> is_strict s then seekEof s else Ret False s) (\<lambda>ended s.
      if ended then in_quit TR_unexpected_eof ''Unexpected end of file - int32 expected'' s
      else andThen (readWordTo s) (\<lambda>w s. parse_int32 w (s\<lparr>is_tmpReadToken := w\<rparr>)))" for s
    by (simp add: readInteger_def parse_int32_def Let_def cong: if_cong)
  show "parse_int32 (vtos n) s = Ret n s" if "INT_MIN \<le> n" "n \<le> INT_MAX" for n s
    using that by (simp add: parse_int32_def stringToLongLong_accepts limit_defs)
  show "\<exists>msg. parse_int32 b s = in_quit TR_pe msg s" if "\<nexists>n. b = vtos n \<and> INT_MIN \<le> n \<and> n \<le> INT_MAX" for b s
  proof (cases "\<exists>n. b = vtos n \<and> LLONG_MIN \<le> n \<and> n \<le> LLONG_MAX")
    case True
    with that show ?thesis
      by (auto simp: parse_int32_def stringToLongLong_accepts) (metis linorder_not_le)+
  next
    case False
    with stringToLongLong_rejects [OF False, of s] show ?thesis by (auto simp: parse_int32_def in_quit_def)
  qed
qed

interpretation int64: integer_method readLong stringToLongLong
  "''Unexpected end of file - int64 expected''" LLONG_MIN LLONG_MAX
  by unfold_locales (simp_all add: readLong_def stringToLongLong_accepts stringToLongLong_rejects cong: if_cong)

interpretation uint64: integer_method readUnsignedLong parse_uint64
  "''Unexpected end of file - int64 expected''" 0 ULLONG_MAX
proof unfold_locales
  show "\<exists>msg. parse_uint64 b s = in_quit TR_pe msg s" if "\<nexists>n. b = vtos n \<and> 0 \<le> n \<and> n \<le> ULLONG_MAX" for b s
    using stringToUnsignedLongLong_rejects [OF that, of s] by (auto simp: parse_uint64_def in_quit_def)
qed (simp_all add: readUnsignedLong_def parse_uint64_def stringToUnsignedLongLong_accepts unsigned_round_trip
      cong: if_cong)

end
