(* ===== verification/TL_Lines.thy ===== *)
theory TL_Lines
  imports TL_Stream_Spec
begin

text \<open>
  The line side of \<^verbatim>\<open>InStream\<close>: \<^verbatim>\<open>eoln\<close>, \<^verbatim>\<open>readEoln\<close>, \<^verbatim>\<open>seekEoln\<close> and \<^verbatim>\<open>readStringTo\<close>. The functions
  \<open>line_codes\<close> and \<open>line_rest\<close> say what \<^verbatim>\<open>readStringTo\<close> delivers for any input; on texts whose
  CRs all stand before an LF this is the text up to the end of the line.
\<close>

section \<open>What a line is\<close>

text \<open>
  The codes appended to the line. A CR that is not followed by LF is dropped and the character after
  it is taken unseen: at the end of the file that is \<^verbatim>\<open>char(EOFC)\<close>.
\<close>

fun line_codes :: "int list \<Rightarrow> int list" where
  "line_codes [] = []"
| "line_codes (c # cs) =
     (if c = LF then []
      else if c = CR then
        (case cs of
           [] \<Rightarrow> [EOFC]
         | d # ds \<Rightarrow> if d = LF then [] else d # line_codes ds)
      else c # line_codes cs)"

text \<open>What is left when the loop stops: the end-of-line characters and what follows.\<close>

fun line_rest :: "int list \<Rightarrow> int list" where
  "line_rest [] = []"
| "line_rest (c # cs) =
     (if c = LF then c # cs
      else if c = CR then
        (case cs of
           [] \<Rightarrow> []
         | d # ds \<Rightarrow> if d = LF then c # cs else line_rest ds)
      else line_rest cs)"

fun skip_eol :: "int list \<Rightarrow> int list" where
  "skip_eol [] = []"
| "skip_eol (c # cs) = (if c = LF then cs else if c = CR then tl cs else c # cs)"

definition after_line :: "int list \<Rightarrow> int list" where
  "after_line v = skip_eol (line_rest v)"

lemma CR_facts [simp]: "CR \<noteq> LF" "LF \<noteq> CR" "CR \<noteq> EOFC" "LF \<noteq> EOFC" "EOFC \<noteq> CR" "EOFC \<noteq> LF"
  by (simp_all add: control_defs)

lemma line_induct [case_names empty eol last_CR CR_LF CR_other char]:
  assumes "P []" "\<And>cs. P (LF # cs)" "P [CR]" "\<And>ds. P (CR # LF # ds)"
    "\<And>d ds. d \<noteq> LF \<Longrightarrow> P ds \<Longrightarrow> P (CR # d # ds)" "\<And>c cs. c \<noteq> LF \<Longrightarrow> c \<noteq> CR \<Longrightarrow> P cs \<Longrightarrow> P (c # cs)"
  shows "P v"
proof (induction "length v" arbitrary: v rule: less_induct)
  case less
  show ?case
  proof (cases v)
    case (Cons c cs)
    consider "c = LF" | "c = CR" "cs = []" | d ds where "c = CR" "cs = d # ds" | "c \<noteq> LF" "c \<noteq> CR"
      by (cases cs) auto
    then show ?thesis
    proof cases
      case (3 d ds)
      then show ?thesis using less [of ds] Cons assms(4,5) by (cases "d = LF") auto
    qed (use Cons less [of cs] assms in auto)
  qed (use assms(1) in simp)
qed

lemma line_rest_form:
  "line_rest v = [] \<or> (\<exists>r. line_rest v = LF # r) \<or> (\<exists>r. line_rest v = CR # LF # r)"
  by (induction v rule: line_induct) simp_all

lemma length_line_rest: "length (line_rest v) \<le> length v"
  by (induction v rule: line_induct) simp_all

text \<open>Reading a line consumes input, so reading lines to the end of the file stops.\<close>

lemma length_after_line: "length (after_line v) \<le> length v"
proof -
  have "length (skip_eol w) \<le> length w" for w by (cases w) auto
  then show ?thesis using length_line_rest le_trans unfolding after_line_def by blast
qed

lemma after_line_less: "v \<noteq> [] \<Longrightarrow> length (after_line v) < length v"
proof (induction v rule: line_induct)
  case (CR_other d ds)
  then show ?case using length_after_line [of ds] by (simp add: after_line_def)
next
  case (char c cs)
  then show ?case using length_after_line [of cs] by (simp add: after_line_def)
qed (simp_all add: after_line_def)

section \<open>The loop of readStringTo\<close>

lemma holds_note_next:
  assumes "holds k (c # cs) s"
  shows "\<exists>s'. andThen (note_line s) (\<lambda>_ s. on_reader rd_nextChar s) = Ret c s' \<and> holds1 k cs s'"
proof -
  obtain l where l: "note_line s = Ret () (s\<lparr>is_lastLine := l\<rparr>)" using holds_note_line [OF assms] by blast
  from holds_next_char [of k c cs "s\<lparr>is_lastLine := l\<rparr>"] assms l show ?thesis by auto
qed

lemma holds_note_next_end:
  assumes "holds k [] s"
  shows "\<exists>s'. andThen (note_line s) (\<lambda>_ s. on_reader rd_nextChar s) = Ret EOFC s' \<and> holds k [] s'"
proof -
  obtain l where l: "note_line s = Ret () (s\<lparr>is_lastLine := l\<rparr>)" using holds_note_line [OF assms] by blast
  from holds_next_end [of k "s\<lparr>is_lastLine := l\<rparr>"] assms l show ?thesis by auto
qed

text \<open>The body of the loop, with the two calls that read a character grouped.\<close>

lemma readStringTo_loop_unfold:
  "readStringTo_loop result s = andThen (on_reader rd_curChar s) (\<lambda>cur s.
     if cur = LF \<or> cur = EOFC then Ret result s
     else if cur = CR then
       andThen (on_reader rd_nextChar s) (\<lambda>cur s.
       andThen (on_reader rd_curChar s) (\<lambda>c s.
         if c = LF then andThen (on_reader (rd_unreadChar cur) s) (\<lambda>_ s. Ret result s)
         else andThen (andThen (note_line s) (\<lambda>_ s. on_reader rd_nextChar s)) (\<lambda>c s.
           readStringTo_loop (result @ [to_char c]) s)))
     else andThen (andThen (note_line s) (\<lambda>_ s. on_reader rd_nextChar s)) (\<lambda>c s.
       readStringTo_loop (result @ [to_char c]) s))"
  by (subst readStringTo_loop.simps) (simp only: andThen_assoc)

lemma loop_at_end: "holds k [] s \<Longrightarrow> \<exists>s'. readStringTo_loop result s = Ret result s' \<and> holds k [] s'"
  using holds_cur [of k "[]" s] by (auto simp: readStringTo_loop_unfold)

lemma loop_after_CR:
  assumes "holds k (CR # cs) s"
  shows "\<exists>s1 s2. on_reader rd_curChar s = Ret CR s1 \<and> holds1 k (CR # cs) s1 \<and>
    on_reader rd_nextChar s1 = Ret CR s2 \<and> holds1 k cs s2"
proof -
  have "holds1 k (CR # cs) s" using assms holds_nonempty by blast
  from holds1_cur [OF this] obtain s1 where s1: "on_reader rd_curChar s = Ret CR s1" "holds1 k (CR # cs) s1" by auto
  with holds_next_char [OF holds1_holds [OF s1(2)]] show ?thesis by blast
qed

lemma readStringTo_loop_spec:
  "holds k v s \<Longrightarrow>
   \<exists>s'. readStringTo_loop result s = Ret (result @ map to_char (line_codes v)) s' \<and> holds k (line_rest v) s'"
proof (induction v arbitrary: s result rule: line_induct)
  case empty
  then show ?case using loop_at_end by simp
next
  case (eol cs)
  then show ?case using holds_cur [OF eol] by (auto simp: readStringTo_loop_unfold)
next
  case last_CR
  from loop_after_CR [OF last_CR] obtain s1 s2 where s2:
    "on_reader rd_curChar s = Ret CR s1" "on_reader rd_nextChar s1 = Ret CR s2" "holds k [] s2"
    by (auto dest: holds1_holds)
  from holds_cur [OF s2(3)] obtain s3 where s3: "on_reader rd_curChar s2 = Ret EOFC s3" "holds k [] s3" by auto
  from holds_note_next_end [OF s3(2)] obtain s4 where s4:
    "andThen (note_line s3) (\<lambda>_ s. on_reader rd_nextChar s) = Ret EOFC s4" "holds k [] s4" by blast
  from loop_at_end [OF s4(2)] s2 s3 s4 show ?case
    by (simp add: readStringTo_loop_unfold [of result s])
next
  case (CR_LF ds)
  from loop_after_CR [OF CR_LF] obtain s1 s2 where s2:
    "on_reader rd_curChar s = Ret CR s1" "holds1 k (CR # LF # ds) s1" "on_reader rd_nextChar s1 = Ret CR s2"
    "holds1 k (LF # ds) s2" by auto
  from holds1_cur [OF s2(4)] obtain s3 where s3: "on_reader rd_curChar s2 = Ret LF s3" by auto
  from st.next_cur_unread [of k s1 CR LF ds s2 s3] s2 s3 obtain s4 where
    "on_reader (rd_unreadChar CR) s3 = Ret () s4" "holds k (CR # LF # ds) s4"
    by (auto simp: holds1_def holds_def)
  with s2 s3 show ?case by (simp add: readStringTo_loop_unfold [of result s])
next
  case (CR_other d ds)
  from loop_after_CR [OF CR_other(3)] obtain s1 s2 where s2:
    "on_reader rd_curChar s = Ret CR s1" "on_reader rd_nextChar s1 = Ret CR s2" "holds k (d # ds) s2"
    by (auto dest: holds1_holds)
  from holds_cur [OF s2(3)] obtain s3 where s3: "on_reader rd_curChar s2 = Ret d s3" "holds k (d # ds) s3" by auto
  from holds_note_next [OF s3(2)] obtain s4 where s4:
    "andThen (note_line s3) (\<lambda>_ s. on_reader rd_nextChar s) = Ret d s4" "holds k ds s4"
    by (auto dest: holds1_holds)
  from CR_other(2) [of s4 "result @ [to_char d]"] s2 s3 s4 CR_other(1) show ?case
    by (simp add: readStringTo_loop_unfold [of result s])
next
  case (char c cs)
  have ne: "c \<noteq> EOFC" using holds_codes [OF char(4)] by auto
  from holds_cur [OF char(4)] obtain s1 where s1: "on_reader rd_curChar s = Ret c s1" "holds k (c # cs) s1" by auto
  from holds_note_next [OF s1(2)] obtain s2 where s2:
    "andThen (note_line s1) (\<lambda>_ s. on_reader rd_nextChar s) = Ret c s2" "holds k cs s2"
    by (auto dest: holds1_holds)
  from char(3) [of s2 "result @ [to_char c]"] s1 s2 ne char(1,2) show ?case
    by (simp add: readStringTo_loop_unfold [of result s])
qed

section \<open>Ends of lines\<close>

text \<open>Where the loop leaves a non-strict stream, \<^verbatim>\<open>eoln\<close> answers true and goes past the end of line.\<close>

lemma eoln_at_eol:
  assumes "holds k (line_rest v) s" "\<not> is_strict k"
  shows "\<exists>s'. eoln s = Ret True s' \<and> holds k (after_line v) s'"
proof -
  have str: "\<not> is_strict s" and rd: "is_reader s \<noteq> None"
    using holds_strict [OF assms(1)] holds_reader [OF assms(1)] assms(2) by auto
  have str': "\<not> is_strict s'" if "holds1 k w s'" for w s'
    using holds_strict [OF holds1_holds [OF that]] assms(2) by simp
  consider "line_rest v = []" | r where "line_rest v = LF # r" | r where "line_rest v = CR # LF # r"
    using line_rest_form by blast
  then show ?thesis
  proof cases
    case 1
    with holds_next_end [of k s] assms(1) obtain s1 where s1: "on_reader rd_nextChar s = Ret EOFC s1" "holds k [] s1" by auto
    then show ?thesis using holds_strict [OF s1(2)] assms(2) rd 1 by (auto simp: eoln_def after_line_def)
  next
    case (2 r)
    with holds_next_char [of k LF r s] assms(1) obtain s1 where
      "on_reader rd_nextChar s = Ret LF s1" "holds1 k r s1" by auto
    then show ?thesis using rd 2 str' by (auto simp: eoln_def after_line_def dest: holds1_holds)
  next
    case (3 r)
    with holds_next_char [of k CR "LF # r" s] assms(1) obtain s1 where s1:
      "on_reader rd_nextChar s = Ret CR s1" "holds1 k (LF # r) s1" by auto
    with holds_next_char [of k LF r s1] obtain s2 where
      "on_reader rd_nextChar s1 = Ret LF s2" "holds1 k r s2" by (auto dest: holds1_holds)
    then show ?thesis using rd 3 s1 str' by (auto simp: eoln_def after_line_def dest: holds1_holds)
  qed
qed

text \<open>In strict mode \<^verbatim>\<open>eoln\<close> is true before LF and does not move otherwise.\<close>

lemma eoln_strict:
  assumes "holds1 k v s" "is_strict k"
  shows "\<exists>s'. eoln s = Ret (v \<noteq> [] \<and> hd v = LF) s' \<and> holds k (if v \<noteq> [] \<and> hd v = LF then tl v else v) s'"
proof -
  have h: "holds k v s" using assms(1) by (rule holds1_holds)
  have rd: "is_reader s \<noteq> None" using holds_reader [OF h] .
  from holds1_next_unread [OF assms(1)] obtain s1 s2 where s: "on_reader rd_nextChar s = Ret (head_code v) s1"
    "holds1 k (tl v) s1" "on_reader (rd_unreadChar (head_code v)) s1 = Ret () s2" "holds k v s2" by blast
  have str: "is_strict s1" using holds_strict [OF holds1_holds [OF s(2)]] assms(2) by simp
  show ?thesis using s str rd holds1_holds [OF s(2)] by (cases v) (auto simp: eoln_def)
qed

section \<open>Lines\<close>

lemma readStringTo_spec:
  assumes "holds k v s" "\<not> is_strict k"
  shows "\<exists>s'. readStringTo s = Ret (map to_char (line_codes v)) s' \<and> holds k (after_line v) s'"
proof -
  from readStringTo_loop_spec [OF assms(1), of "[]"] obtain s1 where s1:
    "readStringTo_loop [] s = Ret (map to_char (line_codes v)) s1" "holds k (line_rest v) s1" by auto
  from eoln_at_eol [OF s1(2) assms(2)] obtain s2 where "eoln s1 = Ret True s2" "holds k (after_line v) s2" by blast
  then show ?thesis using s1 holds_reader [OF assms(1)] holds_strict [OF s1(2)] assms(2)
    by (auto simp: readStringTo_def)
qed

lemma readString_spec:
  assumes "holds k v s" "\<not> is_strict k"
  shows "\<exists>s'. readString s = Ret (map to_char (line_codes v)) s' \<and> holds k (after_line v) s'"
  using readStringTo_spec [OF assms] by (auto simp: readString_def)

text \<open>
  In strict mode the line has to end with LF: a line that ends at the end of the file or with CR LF
  is a presentation error.
\<close>

lemma readStringTo_strict:
  assumes "holds k v s" "is_strict k" "line_rest v = LF # r"
  shows "\<exists>s'. readStringTo s = Ret (map to_char (line_codes v)) s' \<and> holds k r s'"
proof -
  from readStringTo_loop_spec [OF assms(1), of "[]"] obtain s1 where s1:
    "readStringTo_loop [] s = Ret (map to_char (line_codes v)) s1" "holds k (LF # r) s1" using assms(3) by auto
  from holds_note_line [OF s1(2)] obtain l where l: "note_line s1 = Ret () (s1\<lparr>is_lastLine := l\<rparr>)" by blast
  have "holds1 k (LF # r) (s1\<lparr>is_lastLine := l\<rparr>)" using s1(2) by (simp add: holds_nonempty)
  from eoln_strict [OF this assms(2)] obtain s2 where "eoln (s1\<lparr>is_lastLine := l\<rparr>) = Ret True s2" "holds k r s2" by auto
  then show ?thesis using s1 l holds_reader [OF assms(1)] holds_strict [OF s1(2)] assms(2)
    by (auto simp: readStringTo_def readEoln_def)
qed

text \<open>On texts whose CRs all stand before an LF, a line is the text before its end-of-line.\<close>

fun crlf_text :: "int list \<Rightarrow> bool" where
  "crlf_text [] = True"
| "crlf_text (c # cs) = ((c = CR \<longrightarrow> cs \<noteq> [] \<and> hd cs = LF) \<and> crlf_text cs)"

abbreviation eol_code :: "int \<Rightarrow> bool" where
  "eol_code c \<equiv> c = LF \<or> c = CR"

lemma line_codes_crlf: "crlf_text v \<Longrightarrow> line_codes v = takeWhile (\<lambda>c. \<not> eol_code c) v"
  by (induction v rule: line_induct) simp_all

lemma after_line_crlf:
  "crlf_text v \<Longrightarrow> after_line v = (case dropWhile (\<lambda>c. c \<noteq> LF) v of [] \<Rightarrow> [] | _ # r \<Rightarrow> r)"
  by (induction v rule: line_induct) (simp_all add: after_line_def)

text \<open>A CR before the end of the file puts the byte 0xFF on the line.\<close>

lemma line_codes_last_CR:
  "LF \<notin> set v \<Longrightarrow> CR \<notin> set v \<Longrightarrow> line_codes (v @ [CR]) = v @ [EOFC]"
  by (induction v) simp_all

end
