(* ===== verification/TL_Judging.thy ===== *)
theory TL_Judging
  imports TL_Verdict TL_Register TL_Integers TL_Lines
begin

text \<open>
  What the proofs about the checkers share: the steps a registered checker takes on its two streams
  and the exit code of each way to end. \<open>exits env m code\<close> says that the program ends with that
  exit code. The tokens of a text are a list; the token methods walk along it.
\<close>

section \<open>Steps of a checker\<close>

definition exits :: "env \<Rightarrow> (testlib, int) outcome \<Rightarrow> int \<Rightarrow> bool" where
  "exits env m code \<longleftrightarrow> (\<exists>g. run_main env m = Exited code g)"

lemma exits_unique: "exits env m c \<Longrightarrow> exits env m d \<Longrightarrow> c = d"
  by (auto simp: exits_def)

text \<open>The parameters of the streams of a checker.\<close>

definition checker_streams :: "instream \<Rightarrow> instream \<Rightarrow> bool" where
  "checker_streams ko ka \<longleftrightarrow> is_mode ko = M_output \<and> is_mode ka = M_answer \<and> \<not> is_strict ko \<and> \<not> is_strict ka \<and>
     is_maxTokenLength ko = 32 * 1024 * 1024 \<and> is_maxTokenLength ka = 32 * 1024 * 1024"

lemma checker_streams_opened [simp]: "checker_streams (opened_core on M_output) (opened_core an M_answer)"
  by (simp add: checker_streams_def)

lemma judging_ans:
  assumes "judging ko ka vo va g" "\<And>s. holds ka va s \<Longrightarrow> \<exists>s'. f s = Ret a s' \<and> holds ka va' s'"
  shows "\<exists>g'. on_ans f g = Ret a g' \<and> judging ko ka vo va' g'"
proof -
  from assms obtain s' where "f (tl_ans g) = Ret a s'" "holds ka va' s'" by (auto simp: judging_def)
  then show ?thesis using assms(1) by (auto simp: on_ans_def judging_def)
qed

lemma judging_ouf:
  assumes "judging ko ka vo va g" "\<And>s. holds ko vo s \<Longrightarrow> \<exists>s'. f s = Ret a s' \<and> holds ko vo' s'"
  shows "\<exists>g'. on_ouf f g = Ret a g' \<and> judging ko ka vo' va g'"
proof -
  from assms obtain s' where "f (tl_ouf g) = Ret a s'" "holds ko vo' s'" by (auto simp: judging_def)
  then show ?thesis using assms(1) by (auto simp: on_ouf_def judging_def)
qed

section \<open>Ways to end\<close>

lemma exits_quit:
  assumes "judging ko ka vo va g" "quit env (quit_info q g) (q_result q) (q_msg q) g = Exited code g'"
  shows "exits env (Quit q g) code"
  using run_main_quit [OF assms(2)] assms(1) by (auto simp: judging_def exits_def)

lemma judging_info:
  assumes "judging ko ka vo va g" "checker_streams ko ka"
  shows "si_mode (quit_info (QuitReq None r m) g) = M_output" "report_ok env g" "tl_mode g = TM_checker"
  using assms holds_core(1) [of ko vo "tl_ouf g"]
  by (auto simp: judging_def checker_streams_def quit_info_def stream_info_of_def report_ok_def)

lemma exits_plain:
  assumes "judging ko ka vo va g" "checker_streams ko ka" "result \<in> {TR_wa, TR_pe}"
  shows "exits env (quit_free result m g) (if result = TR_wa then 1 else 2)"
proof -
  note j = judging_info [OF assms(1,2)]
  have "\<exists>g'. quit env (quit_info (QuitReq None result m) g) result m g = Exited (resultExitCode (final_result result)) g'"
    using j assms(3) by (intro quit_plain) auto
  moreover have "resultExitCode (final_result result) = (if result = TR_wa then 1 else 2)" using assms(3) by auto
  ultimately show ?thesis unfolding quit_free_def using exits_quit [OF assms(1), of env "QuitReq None result m"] by auto
qed

lemma exits_fail:
  assumes "judging ko ka vo va g"
  shows "exits env (quit_free TR_fail m g) 3"
proof -
  obtain g' where "quit env (quit_info (QuitReq None TR_fail m) g) TR_fail m g = Exited 3 g'" using quit_fail by blast
  then show ?thesis unfolding quit_free_def using exits_quit [OF assms, of env "QuitReq None TR_fail m"] by simp
qed

lemma exits_ok:
  assumes "judging ko ka vo va g" "checker_streams ko ka"
  shows "exits env (quit_free TR_ok m g) (if dropWhile isBlanks vo = [] then 0 else 2)"
proof -
  note j = judging_info [OF assms]
  have "\<exists>g'. quit env (quit_info (QuitReq None TR_ok m) g) TR_ok m g = Exited (if dropWhile isBlanks vo = [] then 0 else 2) g'"
    using j assms(1) by (intro quit_ok [where k = ko]) (auto simp: judging_def)
  then show ?thesis unfolding quit_free_def using exits_quit [OF assms(1), of env "QuitReq None TR_ok m"]
    by (metis quitreq.sel(2,3))
qed

text \<open>A quit request made on the output stream or on the answer stream.\<close>

lemma exits_ouf:
  assumes "judging ko ka vo va g" "checker_streams ko ka"
    and "\<exists>m s'. f (tl_ouf g) = in_quit result m s' \<and> stream_core s' = ko" "result \<in> {TR_pe, TR_unexpected_eof}"
  shows "exits env (andThen (on_ouf f g) h) 2"
proof -
  from assms(3) obtain m s' where f: "f (tl_ouf g) = in_quit result m s'" "stream_core s' = ko" by blast
  let ?q = "QuitReq (Some (stream_info_of s')) result m" and ?g = "g\<lparr>tl_ouf := s'\<rparr>"
  have on: "andThen (on_ouf f g) h = Quit ?q ?g" using f(1) by (simp add: on_ouf_def in_quit_def)
  have "si_mode (stream_info_of s') = M_output"
    using f(2) assms(2) by (auto simp: stream_info_of_def checker_streams_def)
  moreover have "report_ok env ?g" "tl_mode ?g \<noteq> TM_scorer" using assms(1) by (auto simp: judging_def report_ok_def)
  ultimately have "\<exists>g'. quit env (stream_info_of s') result m ?g = Exited (resultExitCode (final_result result)) g'"
    using assms(4) by (intro quit_plain) auto
  moreover have "resultExitCode (final_result result) = 2" using assms(4) by auto
  ultimately obtain g' where "quit env (quit_info ?q ?g) (q_result ?q) (q_msg ?q) ?g = Exited 2 g'"
    by (auto simp: quit_info_def)
  from run_main_quit [OF this] show ?thesis using on assms(1) by (auto simp: exits_def judging_def)
qed

lemma exits_ans:
  assumes "judging ko ka vo va g" "checker_streams ko ka"
    and "\<exists>m s'. f (tl_ans g) = in_quit result m s' \<and> stream_core s' = ka"
  shows "exits env (andThen (on_ans f g) h) 3"
proof -
  from assms(3) obtain m s' where f: "f (tl_ans g) = in_quit result m s'" "stream_core s' = ka" by blast
  let ?q = "QuitReq (Some (stream_info_of s')) result m" and ?g = "g\<lparr>tl_ans := s'\<rparr>"
  have on: "andThen (on_ans f g) h = Quit ?q ?g" using f(1) by (simp add: on_ans_def in_quit_def)
  have "si_mode (stream_info_of s') \<noteq> M_output"
    using f(2) assms(2) by (auto simp: stream_info_of_def checker_streams_def)
  then obtain g' where "quit env (quit_info ?q ?g) (q_result ?q) (q_msg ?q) ?g = Exited 3 g'"
    using quit_not_output [of "stream_info_of s'" env result m ?g] by (auto simp: quit_info_def)
  from run_main_quit [OF this] show ?thesis using on assms(1) by (auto simp: exits_def judging_def)
qed

section \<open>Tokens\<close>

lemma next_token_Nil: "next_token v = [] \<longleftrightarrow> dropWhile isBlanks v = []"
  using hd_dropWhile [of isBlanks v]
  by (cases "dropWhile isBlanks v") (simp_all add: next_token_def del: dropWhile_eq_Nil_conv)

lemma after_token_less: "next_token v \<noteq> [] \<Longrightarrow> length (after_token v) < length v"
proof -
  assume "next_token v \<noteq> []"
  moreover have "length (next_token v) + length (after_token v) = length (dropWhile isBlanks v)"
    by (simp add: next_token_def after_token_def flip: length_append)
  ultimately show ?thesis using length_dropWhile_le [of isBlanks v] by (cases "next_token v") auto
qed

function tokens :: "int list \<Rightarrow> int list list" where
  "tokens v = (if next_token v = [] then [] else next_token v # tokens (after_token v))"
  by pat_completeness auto
termination
  by (relation "measure length") (auto simp: after_token_less)

declare tokens.simps [simp del]

lemma tokens_Nil: "tokens v = [] \<longleftrightarrow> dropWhile isBlanks v = []"
  by (simp add: tokens.simps [of v] flip: next_token_Nil del: dropWhile_eq_Nil_conv)

lemma tokens_Cons: "tokens v = t # ts \<longleftrightarrow> next_token v = t \<and> t \<noteq> [] \<and> tokens (after_token v) = ts"
  by (auto simp: tokens.simps [of v])

lemma tokens_skip: "tokens (dropWhile isBlanks v) = tokens v"
proof -
  have "next_token (dropWhile isBlanks v) = next_token v" "after_token (dropWhile isBlanks v) = after_token v"
    by (simp_all add: next_token_def after_token_def)
  then show ?thesis by (simp add: tokens.simps [of v] tokens.simps [of "dropWhile isBlanks v"])
qed

text \<open>The tokens of a text are not empty and have no blanks in them.\<close>

lemma tokens_nonblank: "t \<in> set (tokens v) \<Longrightarrow> t \<noteq> [] \<and> (\<forall>c\<in>set t. nonblank c)"
proof (induction v rule: tokens.induct)
  case (1 v)
  show ?case
  proof (cases "next_token v = []")
    case False
    have nb: "\<forall>c\<in>set (next_token v). nonblank c" unfolding next_token_def by (blast dest: set_takeWhileD)
    from 1(2) False consider "t = next_token v" | "t \<in> set (tokens (after_token v))"
      by (subst (asm) tokens.simps) auto
    then show ?thesis using 1(1) [OF False] False nb by cases simp_all
  qed (use 1 in \<open>simp add: tokens.simps [of v]\<close>)
qed

definition short_tokens :: "int list \<Rightarrow> bool" where
  "short_tokens v \<longleftrightarrow> (\<forall>t\<in>set (tokens v). length t \<le> 32 * 1024 * 1024)"

lemma short_tokens_step:
  assumes "short_tokens v" "tokens v = t # ts"
  shows "length t \<le> 32 * 1024 * 1024" "short_tokens (after_token v)"
  using assms by (auto simp: short_tokens_def tokens_Cons)

lemma tokens_length: "t \<in> set (tokens v) \<Longrightarrow> length t \<le> length v"
proof (induction v rule: tokens.induct)
  case (1 v)
  show ?case
  proof (cases "next_token v = []")
    case False
    have "length (next_token v) \<le> length (dropWhile isBlanks v)" unfolding next_token_def by (rule length_takeWhile_le)
    then have le: "length (next_token v) \<le> length v" using length_dropWhile_le [of isBlanks v] by linarith
    from 1(2) False consider "t = next_token v" | "t \<in> set (tokens (after_token v))"
      by (subst (asm) tokens.simps) auto
    then show ?thesis using 1(1) [OF False] after_token_less [OF False] le by cases simp_all
  qed (use 1 in \<open>simp add: tokens.simps [of v]\<close>)
qed

text \<open>In particular a text of at most 32 MB has no longer token.\<close>

lemma short_tokens_small: "length v \<le> 32 * 1024 * 1024 \<Longrightarrow> short_tokens v"
  unfolding short_tokens_def using tokens_length order_trans by blast

section \<open>Steps on tokens\<close>

lemma judging_seekEof_ans:
  assumes "judging ko ka vo va g"
  shows "\<exists>g'. on_ans seekEof g = Ret (tokens va = []) g' \<and> judging ko ka vo (dropWhile isBlanks va) g'"
  using judging_ans [OF assms, of seekEof] seekEof_spec unfolding tokens_Nil by blast

lemma judging_seekEof_ouf:
  assumes "judging ko ka vo va g"
  shows "\<exists>g'. on_ouf seekEof g = Ret (tokens vo = []) g' \<and> judging ko ka (dropWhile isBlanks vo) va g'"
  using judging_ouf [OF assms, of seekEof] seekEof_spec unfolding tokens_Nil by blast

lemma readWordTo_tokens:
  assumes "holds k v s" "\<not> is_strict k" "is_maxTokenLength k = 32 * 1024 * 1024" "tokens v = t # ts"
    "length t \<le> 32 * 1024 * 1024"
  shows "\<exists>s'. readWordTo s = Ret (map to_char t) s' \<and> holds k (after_token v) s'"
proof -
  have t: "takeWhile nonblank (token_start k v) = t" "t \<noteq> []" "dropWhile nonblank (token_start k v) = after_token v"
    using assms(2,4) by (auto simp: token_start_def tokens_Cons next_token_def after_token_def)
  then obtain c cs where "token_start k v = c # cs" "nonblank c"
    by (cases "token_start k v") (auto split: if_splits)
  with readWordTo_token [OF assms(1)] assms(3,5) t show ?thesis by auto
qed

lemma readWord_tokens:
  assumes "holds k v s" "\<not> is_strict k" "is_maxTokenLength k = 32 * 1024 * 1024" "tokens v = t # ts"
    "length t \<le> 32 * 1024 * 1024"
  shows "\<exists>s'. readWord s = Ret (map to_char t) s' \<and> holds k (after_token v) s'"
  using readWordTo_tokens [OF assms] by (auto simp: readWord_def)

lemma readWord_no_token:
  assumes "holds k v s" "\<not> is_strict k" "tokens v = []"
  shows "\<exists>m s'. readWord s = in_quit TR_unexpected_eof m s' \<and> stream_core s' = k"
proof -
  have "token_start k v = []" using assms(2,3) by (simp add: token_start_def tokens_Nil)
  from readWordTo_end [OF assms(1) this] show ?thesis
    by (auto simp: readWord_def in_quit_def dest: holds_core(1))
qed

text \<open>The reads of a checker's loop, on the answer and on the output.\<close>

lemma judging_word_ans:
  assumes "judging ko ka vo va g" "checker_streams ko ka" "tokens va = t # ts" "short_tokens va"
  shows "\<exists>g'. on_ans readWordTo g = Ret (map to_char t) g' \<and> judging ko ka vo (after_token va) g'"
    and "\<exists>g'. on_ans readWord g = Ret (map to_char t) g' \<and> judging ko ka vo (after_token va) g'"
  using assms short_tokens_step [OF assms(4,3)]
  by (intro judging_ans [OF assms(1)]; auto intro!: readWordTo_tokens readWord_tokens simp: checker_streams_def)+

lemma judging_word_ouf:
  assumes "judging ko ka vo va g" "checker_streams ko ka" "tokens vo = t # ts" "short_tokens vo"
  shows "\<exists>g'. on_ouf readWordTo g = Ret (map to_char t) g' \<and> judging ko ka (after_token vo) va g'"
    and "\<exists>g'. on_ouf readWord g = Ret (map to_char t) g' \<and> judging ko ka (after_token vo) va g'"
  using assms short_tokens_step [OF assms(4,3)]
  by (intro judging_ouf [OF assms(1)]; auto intro!: readWordTo_tokens readWord_tokens simp: checker_streams_def)+

end
