(* ===== verification/TL_Checkers.thy ===== *)
theory TL_Checkers
  imports TL_Judging
begin

text \<open>
  The checkers of \<^verbatim>\<open>support/checkers\<close> that work on tokens: \<^verbatim>\<open>wcmp\<close>, \<^verbatim>\<open>ncmp\<close>, \<^verbatim>\<open>yesno\<close>, \<^verbatim>\<open>nyesno\<close>. Each
  \<^verbatim>\<open>main\<close> is a program from the initial global state; its loops are functions that terminate because
  every round takes a token. The lemmas give the exit code of the process for any output and answer
  file. The counters are \<^verbatim>\<open>int\<close> in the source; files are at most 128 MB, so they cannot overflow.
\<close>

section \<open>Programs\<close>

abbreviation (input) sq :: "string \<Rightarrow> string" where
  "sq s \<equiv> [CHR 0x27] @ s @ [CHR 0x27]"

abbreviation (input) dq :: "string \<Rightarrow> string" where
  "dq s \<equiv> [CHR 0x22] @ s @ [CHR 0x22]"

text \<open>The first two statements of every \<^verbatim>\<open>main\<close>; \<open>Some code\<close> is the exit after \<^verbatim>\<open>--help\<close>.\<close>

definition checker_main ::
  "string \<Rightarrow> (testlib, int) prog \<Rightarrow> env \<Rightarrow> string option list \<Rightarrow> (testlib, int) outcome"
where
  "checker_main name body env argv =
     andThen (setName name testlib_init) (\<lambda>_ g.
     andThen (registerTestlibCmd env argv g) (\<lambda>e g.
       case e of Some code \<Rightarrow> Ret code g | None \<Rightarrow> body g))"

lemma on_ans_Ret_iff: "on_ans f g = Ret a g' \<longleftrightarrow> (\<exists>s. f (tl_ans g) = Ret a s \<and> g' = g\<lparr>tl_ans := s\<rparr>)"
  by (auto simp: on_ans_def split: outcome.splits)

lemma on_ouf_Ret_iff: "on_ouf f g = Ret a g' \<longleftrightarrow> (\<exists>s. f (tl_ouf g) = Ret a s \<and> g' = g\<lparr>tl_ouf := s\<rparr>)"
  by (auto simp: on_ouf_def split: outcome.splits)

lemmas on_Ret_iffs = on_ans_Ret_iff on_ouf_Ret_iff

lemmas size_rules = seekEof_size readWordTo_size readWord_size readLong_size

subsection \<open>wcmp: sequences of tokens\<close>

definition differ_message :: "string \<Rightarrow> int \<Rightarrow> string \<Rightarrow> string \<Rightarrow> string" where
  "differ_message what n expected found =
     vtos n @ englishEnding n @ '' '' @ what @ '' differ - expected: '' @ sq expected @ '', found: '' @ sq found"

function wcmp_loop :: "int \<Rightarrow> string \<Rightarrow> (testlib, int \<times> string) prog" where
  "wcmp_loop n j g =
     andThen (on_ans seekEof g) (\<lambda>ansEnd g.
       if ansEnd then Ret (n, j) g
       else andThen (on_ouf seekEof g) (\<lambda>oufEnd g.
         if oufEnd then Ret (n, j) g
         else andThen (on_ans readWordTo g) (\<lambda>j g.
              andThen (on_ouf readWordTo g) (\<lambda>p g.
                if j \<noteq> p
                then quit_free TR_wa (differ_message ''words'' (n + 1) (compress j) (compress p)) g
                else wcmp_loop (n + 1) j g))))"
  by pat_completeness auto
termination
  by (relation "measure (\<lambda>(n, j, g). is_size (tl_ans g))")
     (auto simp: on_Ret_iffs dest!: seekEof_size readWordTo_size)

definition wcmp_body :: "(testlib, int) prog" where
  "wcmp_body g =
     andThen (wcmp_loop 0 '''' g) (\<lambda>(n, j) g.
     andThen (on_ans seekEof g) (\<lambda>ansEnd g.
     andThen (if ansEnd then on_ouf seekEof g else Ret False g) (\<lambda>oufEnd g.
       if ansEnd \<and> oufEnd then
         if n = 1 then quit_free TR_ok (dq (compress j)) g
         else quit_free TR_ok (vtos n @ '' tokens'') g
       else andThen (on_ans seekEof g) (\<lambda>ansEnd g.
         if ansEnd then quit_free TR_wa ''Participant output contains extra tokens'' g
         else quit_free TR_wa ''Unexpected EOF in the participants output'' g))))"

definition wcmp_main :: "env \<Rightarrow> string option list \<Rightarrow> (testlib, int) outcome" where
  "wcmp_main = checker_main ''compare sequences of tokens'' wcmp_body"

subsection \<open>ncmp: sequences of 64-bit integers\<close>

function ncmp_loop :: "int \<Rightarrow> string \<Rightarrow> (testlib, int \<times> string) prog" where
  "ncmp_loop n firstElems g =
     andThen (on_ans seekEof g) (\<lambda>ansEnd g.
       if ansEnd then Ret (n, firstElems) g
       else andThen (on_ouf seekEof g) (\<lambda>oufEnd g.
         if oufEnd then Ret (n, firstElems) g
         else andThen (on_ans readLong g) (\<lambda>j g.
              andThen (on_ouf readLong g) (\<lambda>p g.
                if j \<noteq> p then quit_free TR_wa (differ_message ''numbers'' (n + 1) (vtos j) (vtos p)) g
                else ncmp_loop (n + 1)
                  (if n + 1 \<le> 5 then (if length firstElems > 0 then firstElems @ '' '' else firstElems) @ vtos j
                   else firstElems) g))))"
  by pat_completeness auto
termination
  by (relation "measure (\<lambda>(n, f, g). is_size (tl_ans g))")
     (auto simp: on_Ret_iffs dest!: seekEof_size readLong_size)

text \<open>The loops that count what is left, for \<^verbatim>\<open>ncmp\<close> with \<^verbatim>\<open>readLong\<close>, for \<^verbatim>\<open>nyesno\<close> with \<^verbatim>\<open>readToken\<close>.\<close>

function extra_longs_ans :: "int \<Rightarrow> (testlib, int) prog" where
  "extra_longs_ans count g = andThen (on_ans seekEof g) (\<lambda>ended g.
     if ended then Ret count g else andThen (on_ans readLong g) (\<lambda>_ g. extra_longs_ans (count + 1) g))"
  by pat_completeness auto
termination
  by (relation "measure (\<lambda>(c, g). is_size (tl_ans g))") (auto simp: on_Ret_iffs dest!: seekEof_size readLong_size)

function extra_longs_ouf :: "int \<Rightarrow> (testlib, int) prog" where
  "extra_longs_ouf count g = andThen (on_ouf seekEof g) (\<lambda>ended g.
     if ended then Ret count g else andThen (on_ouf readLong g) (\<lambda>_ g. extra_longs_ouf (count + 1) g))"
  by pat_completeness auto
termination
  by (relation "measure (\<lambda>(c, g). is_size (tl_ouf g))") (auto simp: on_Ret_iffs dest!: seekEof_size readLong_size)

definition longer_message :: "string \<Rightarrow> string \<Rightarrow> int \<Rightarrow> int \<Rightarrow> string" where
  "longer_message one other len n =
     one @ '' contains longer sequence [length = '' @ vtos len @ ''], but '' @ other @ '' contains '' @ vtos n @ '' elements''"

definition ncmp_body :: "(testlib, int) prog" where
  "ncmp_body g =
     andThen (ncmp_loop 0 '''' g) (\<lambda>(n, firstElems) g.
     andThen (extra_longs_ans 0 g) (\<lambda>extraInAnsCount g.
     andThen (extra_longs_ouf 0 g) (\<lambda>extraInOufCount g.
       if extraInAnsCount > 0
       then quit_free TR_wa (longer_message ''Answer'' ''output'' (n + extraInAnsCount) n) g
       else if extraInOufCount > 0
       then quit_free TR_wa (longer_message ''Output'' ''answer'' (n + extraInOufCount) n) g
       else if n \<le> 5 then quit_free TR_ok (vtos n @ '' number(s): '' @ dq (compress firstElems)) g
       else quit_free TR_ok (vtos n @ '' numbers'') g)))"

definition ncmp_main :: "env \<Rightarrow> string option list \<Rightarrow> (testlib, int) outcome" where
  "ncmp_main = checker_main ''compare ordered sequences of signed int64 numbers'' ncmp_body"

subsection \<open>yesno: one word\<close>

definition YES :: string where "YES = ''YES''"
definition NO :: string where "NO = ''NO''"

definition yesno_body :: "(testlib, int) prog" where
  "yesno_body g =
     andThen (on_ans readWord g) (\<lambda>ja g. let ja = upperCase ja in
     andThen (on_ouf readWord g) (\<lambda>pa g. let pa = upperCase pa in
       if ja \<noteq> YES \<and> ja \<noteq> NO
       then quit_free TR_fail (YES @ '' or '' @ NO @ '' expected in answer, but '' @ compress ja @ '' found'') g
       else if pa \<noteq> YES \<and> pa \<noteq> NO
       then quit_free TR_pe (YES @ '' or '' @ NO @ '' expected, but '' @ compress pa @ '' found'') g
       else if ja \<noteq> pa then quit_free TR_wa (''expected '' @ compress ja @ '', found '' @ compress pa) g
       else quit_free TR_ok (''answer is '' @ ja) g))"

definition yesno_main :: "env \<Rightarrow> string option list \<Rightarrow> (testlib, int) outcome" where
  "yesno_main = checker_main (YES @ '' or '' @ NO @ '' (case insensitive)'') yesno_body"

subsection \<open>nyesno: a sequence of words\<close>

definition token_note :: "int \<Rightarrow> string" where
  "token_note index = '' ['' @ vtos index @ englishEnding index @ '' token]''"

function nyesno_loop :: "int \<Rightarrow> int \<Rightarrow> int \<Rightarrow> string \<Rightarrow> (testlib, int \<times> int \<times> int \<times> string) prog" where
  "nyesno_loop index yesCount noCount pa g =
     andThen (on_ans seekEof g) (\<lambda>ansEnd g.
       if ansEnd then Ret (index, yesCount, noCount, pa) g
       else andThen (on_ouf seekEof g) (\<lambda>oufEnd g.
         if oufEnd then Ret (index, yesCount, noCount, pa) g
         else andThen (on_ans readToken g) (\<lambda>ja g. let index = index + 1; ja = upperCase ja in
              andThen (on_ouf readToken g) (\<lambda>pa g. let pa = upperCase pa in
                if ja \<noteq> YES \<and> ja \<noteq> NO
                then quit_free TR_fail (YES @ '' or '' @ NO @ '' expected in answer, but '' @ compress ja @ '' found'' @ token_note index) g
                else if pa \<noteq> YES \<and> pa \<noteq> NO
                then quit_free TR_pe (YES @ '' or '' @ NO @ '' expected, but '' @ compress pa @ '' found'' @ token_note index) g
                else if ja \<noteq> pa
                then quit_free TR_wa (''expected '' @ compress ja @ '', found '' @ compress pa @ token_note index) g
                else nyesno_loop index (if pa = YES then yesCount + 1 else yesCount)
                       (if pa = YES then noCount else noCount + 1) pa g))))"
  by pat_completeness auto
termination
  by (relation "measure (\<lambda>(i, y, n, p, g). is_size (tl_ans g))")
     (auto simp: on_Ret_iffs readToken_def dest!: seekEof_size readWord_size)

function extra_tokens_ans :: "int \<Rightarrow> (testlib, int) prog" where
  "extra_tokens_ans count g = andThen (on_ans seekEof g) (\<lambda>ended g.
     if ended then Ret count g else andThen (on_ans readToken g) (\<lambda>_ g. extra_tokens_ans (count + 1) g))"
  by pat_completeness auto
termination
  by (relation "measure (\<lambda>(c, g). is_size (tl_ans g))")
     (auto simp: on_Ret_iffs readToken_def dest!: seekEof_size readWord_size)

function extra_tokens_ouf :: "int \<Rightarrow> (testlib, int) prog" where
  "extra_tokens_ouf count g = andThen (on_ouf seekEof g) (\<lambda>ended g.
     if ended then Ret count g else andThen (on_ouf readToken g) (\<lambda>_ g. extra_tokens_ouf (count + 1) g))"
  by pat_completeness auto
termination
  by (relation "measure (\<lambda>(c, g). is_size (tl_ouf g))")
     (auto simp: on_Ret_iffs readToken_def dest!: seekEof_size readWord_size)

definition nyesno_body :: "(testlib, int) prog" where
  "nyesno_body g =
     andThen (nyesno_loop 0 0 0 '''' g) (\<lambda>(index, yesCount, noCount, pa) g.
     andThen (extra_tokens_ans 0 g) (\<lambda>extraInAnsCount g.
     andThen (extra_tokens_ouf 0 g) (\<lambda>extraInOufCount g.
       if extraInAnsCount > 0
       then quit_free TR_wa (longer_message ''Answer'' ''output'' (index + extraInAnsCount) index) g
       else if extraInOufCount > 0
       then quit_free TR_wa (longer_message ''Output'' ''answer'' (index + extraInOufCount) index) g
       else if index = 0 then quit_free TR_ok ''Empty output'' g
       else if index = 1 then quit_free TR_ok pa g
       else quit_free TR_ok (vtos index @ '' token(s): yes count is '' @ vtos yesCount @ '', no count is '' @ vtos noCount) g)))"

definition nyesno_main :: "env \<Rightarrow> string option list \<Rightarrow> (testlib, int) outcome" where
  "nyesno_main = checker_main (''multiple '' @ YES @ ''/'' @ NO @ '' (case insensitive)'') nyesno_body"

declare wcmp_loop.simps [simp del] ncmp_loop.simps [simp del] nyesno_loop.simps [simp del]
  extra_longs_ans.simps [simp del] extra_longs_ouf.simps [simp del]
  extra_tokens_ans.simps [simp del] extra_tokens_ouf.simps [simp del]

section \<open>What the checkers decide\<close>

text \<open>The words of a text: its tokens as strings.\<close>

definition words :: "int list \<Rightarrow> string list" where
  "words v = map (map to_char) (tokens v)"

lemma words_simps:
  "words v = [] \<longleftrightarrow> tokens v = []" "words (dropWhile isBlanks v) = words v"
  "tokens v = t # ts \<Longrightarrow> words v = map to_char t # words (after_token v)"
proof -
  show "tokens v = t # ts \<Longrightarrow> words v = map to_char t # words (after_token v)"
    using tokens_Cons [of v t ts] by (simp add: words_def)
qed (simp_all add: words_def tokens_skip)

lemma short_tokens_skip [simp]: "short_tokens (dropWhile isBlanks v) = short_tokens v"
  by (simp add: short_tokens_def tokens_skip)

lemma after_token_skip [simp]: "after_token (dropWhile isBlanks v) = after_token v"
  by (simp add: after_token_def)

lemma judging_seek_both:
  assumes "judging ko ka vo va g" "tokens va \<noteq> []"
  shows "\<exists>g1 g2. on_ans seekEof g = Ret False g1 \<and> on_ouf seekEof g1 = Ret (tokens vo = []) g2 \<and>
    judging ko ka (dropWhile isBlanks vo) (dropWhile isBlanks va) g2"
  using judging_seekEof_ans [OF assms(1)] assms(2) judging_seekEof_ouf by force

lemma judging_seek_ans_end:
  assumes "judging ko ka vo va g" "tokens va = []"
  shows "\<exists>g1. on_ans seekEof g = Ret True g1 \<and> judging ko ka vo (dropWhile isBlanks va) g1"
  using judging_seekEof_ans [OF assms(1)] assms(2) by simp

subsection \<open>Loops over pairs of words\<close>

text \<open>
  The loops of \<^verbatim>\<open>wcmp\<close>, \<^verbatim>\<open>ncmp\<close> and \<^verbatim>\<open>nyesno\<close> go along both sequences of words while both have one; each
  round ends the program with a verdict on the two words or goes on. The verdict of the first round
  that gives one, or the words that are left:
\<close>

fun first_verdict :: "(string \<Rightarrow> string \<Rightarrow> int option) \<Rightarrow> string list \<Rightarrow> string list \<Rightarrow> int + (string list \<times> string list)" where
  "first_verdict step (j # js) (p # ps) =
     (case step j p of Some code \<Rightarrow> Inl code | None \<Rightarrow> first_verdict step js ps)"
| "first_verdict step js ps = Inr (js, ps)"

locale pair_loop =
  fixes loop :: "'s \<Rightarrow> (testlib, 's) prog" and step :: "string \<Rightarrow> string \<Rightarrow> int option" and fine :: "int list \<Rightarrow> bool"
  assumes fine_step: "fine v \<Longrightarrow> tokens v = t # ts \<Longrightarrow> fine (after_token v)"
    and fine_same: "fine v \<Longrightarrow> tokens v' = tokens v \<Longrightarrow> fine v'"
    and stop: "judging ko ka vo va g \<Longrightarrow> tokens va = [] \<or> tokens vo = [] \<Longrightarrow>
      \<exists>vo' va' g'. loop st g = Ret st g' \<and> judging ko ka vo' va' g' \<and> tokens vo' = tokens vo \<and> tokens va' = tokens va"
    and round: "judging ko ka vo va g \<Longrightarrow> checker_streams ko ka \<Longrightarrow> fine vo \<Longrightarrow> fine va \<Longrightarrow>
      tokens va = t # ts \<Longrightarrow> tokens vo = u # us \<Longrightarrow>
      (case step (map to_char t) (map to_char u) of
         Some code \<Rightarrow> \<forall>env h. exits env (andThen (loop st g) h) code
       | None \<Rightarrow> \<exists>st' g'. loop st g = loop st' g' \<and> judging ko ka (after_token vo) (after_token va) g')"
begin

lemma loop_spec:
  assumes "judging ko ka vo va g" "checker_streams ko ka" "fine vo" "fine va"
  shows "case first_verdict step (words va) (words vo) of
      Inl code \<Rightarrow> \<forall>env h. exits env (andThen (loop st g) h) code
    | Inr (js, ps) \<Rightarrow> \<exists>st' vo' va' g'. loop st g = Ret st' g' \<and> judging ko ka vo' va' g' \<and> fine vo' \<and> fine va' \<and>
        words va' = js \<and> words vo' = ps \<and> (js = [] \<or> ps = [])"
  using assms
proof (induction "tokens va" arbitrary: vo va g st)
  case Nil
  with stop [OF Nil.prems(1), of st] obtain vo' va' g' where *: "loop st g = Ret st g'" "judging ko ka vo' va' g'"
    "tokens vo' = tokens vo" "tokens va' = []" by auto
  moreover have "fine vo'" "fine va'" using fine_same Nil *(3,4) by metis+
  moreover have "words va = []" "words va' = []" "words vo' = words vo" using Nil.hyps *(3,4) by (simp_all add: words_def)
  ultimately show ?case by simp blast
next
  case (Cons t ts)
  show ?case
  proof (cases "tokens vo")
    case Nil
    with stop [OF Cons.prems(1), of st] obtain vo' va' g' where *: "loop st g = Ret st g'" "judging ko ka vo' va' g'"
      "tokens vo' = []" "tokens va' = tokens va" by auto
    moreover have "fine vo'" "fine va'" using fine_same Cons.prems(3,4) *(3,4) Nil by metis+
    moreover have "words vo = []" "words vo' = []" "words va' = words va" using Nil *(3,4) by (simp_all add: words_def)
    moreover from this have "first_verdict step (words va) (words vo) = Inr (words va, [])" by (cases "words va") simp_all
    ultimately show ?thesis by simp blast
  next
    case (Cons u us)
    have w: "words va = map to_char t # words (after_token va)" "words vo = map to_char u # words (after_token vo)"
      using words_simps(3) Cons Cons.hyps(2) by metis+
    note r = round [OF Cons.prems(1-4) Cons.hyps(2) [symmetric] Cons, of st]
    show ?thesis
    proof (cases "step (map to_char t) (map to_char u)")
      case (Some code)
      then show ?thesis using r w by simp
    next
      case None
      then obtain st' g' where g': "loop st g = loop st' g'" "judging ko ka (after_token vo) (after_token va) g'" using r by auto
      have "ts = tokens (after_token va)" "fine (after_token vo)" "fine (after_token va)"
        using tokens_Cons [of va t ts] Cons.hyps(2) fine_step [OF Cons.prems(3) Cons]
          fine_step [OF Cons.prems(4) Cons.hyps(2) [symmetric]] by simp_all
      from Cons.hyps(1) [OF this(1) g'(2) Cons.prems(2) this(2,3), of st'] show ?thesis
        unfolding g'(1) w using None by simp
    qed
  qed
qed

end

subsection \<open>wcmp\<close>

definition wcmp_step :: "string \<Rightarrow> string \<Rightarrow> int option" where
  "wcmp_step j p = (if j \<noteq> p then Some 1 else None)"

interpretation wcmp: pair_loop "\<lambda>(n, j). wcmp_loop n j" wcmp_step short_tokens
proof unfold_locales
  fix v v' :: "int list" and t :: "int list" and ts
  show "short_tokens v \<Longrightarrow> tokens v = t # ts \<Longrightarrow> short_tokens (after_token v)" by (rule short_tokens_step(2))
  show "short_tokens v \<Longrightarrow> tokens v' = tokens v \<Longrightarrow> short_tokens v'" by (simp add: short_tokens_def)
next
  fix ko ka vo va g and st :: "int \<times> string"
  assume "judging ko ka vo va g" "tokens va = [] \<or> tokens vo = []"
  then show "\<exists>vo' va' g'. (case st of (n, j) \<Rightarrow> wcmp_loop n j) g = Ret st g' \<and> judging ko ka vo' va' g' \<and>
      tokens vo' = tokens vo \<and> tokens va' = tokens va"
    using judging_seek_both [of ko ka vo va g] judging_seek_ans_end [of ko ka vo va g]
    by (cases st; cases "tokens va") (force simp: wcmp_loop.simps tokens_skip)+
next
  fix ko ka vo va g t ts u us and st :: "int \<times> string"
  assume *: "judging ko ka vo va g" "checker_streams ko ka" "short_tokens vo" "short_tokens va" "tokens va = t # ts" "tokens vo = u # us"
  obtain n j where st: "st = (n, j)" by fastforce
  obtain g1 g2 where g2: "on_ans seekEof g = Ret False g1" "on_ouf seekEof g1 = Ret False g2"
    "judging ko ka (dropWhile isBlanks vo) (dropWhile isBlanks va) g2"
    using judging_seek_both [OF *(1)] *(5,6) by auto
  obtain g3 where g3: "on_ans readWordTo g2 = Ret (map to_char t) g3" "judging ko ka (dropWhile isBlanks vo) (after_token va) g3"
    using judging_word_ans(1) [OF g2(3) *(2), of t ts] *(4,5) by (auto simp: tokens_skip)
  obtain g4 where g4: "on_ouf readWordTo g3 = Ret (map to_char u) g4" "judging ko ka (after_token vo) (after_token va) g4"
    using judging_word_ouf(1) [OF g3(2) *(2), of u us] *(3,6) by (auto simp: tokens_skip)
  have "exits env (andThen (quit_free TR_wa m g4) h) 1" for env m and h :: "int \<times> string \<Rightarrow> testlib \<Rightarrow> (testlib, int) outcome"
    using exits_plain [OF g4(2) *(2), of TR_wa env m] by (simp add: quit_free_def)
  then show "case wcmp_step (map to_char t) (map to_char u) of
      Some code \<Rightarrow> \<forall>env h. exits env (andThen ((case st of (n, j) \<Rightarrow> wcmp_loop n j) g) h) code
    | None \<Rightarrow> \<exists>st' g'. (case st of (n, j) \<Rightarrow> wcmp_loop n j) g = (case st' of (n, j) \<Rightarrow> wcmp_loop n j) g' \<and>
        judging ko ka (after_token vo) (after_token va) g'"
    using g2 g3 g4 st by (cases "map to_char t = map to_char u")
      (auto simp: wcmp_step_def wcmp_loop.simps [of n j g] intro!: exI [of _ "n + 1"])
qed

lemma wcmp_first_verdict:
  "(case first_verdict wcmp_step js ps of Inl code \<Rightarrow> code | Inr (js, ps) \<Rightarrow> if js = [] \<and> ps = [] then 0 else 1)
    = (if ps = js then 0 else 1)"
  by (induction wcmp_step js ps rule: first_verdict.induct) (auto simp: wcmp_step_def)

lemma wcmp_body_exits:
  assumes "judging ko ka vo va g" "checker_streams ko ka" "short_tokens vo" "short_tokens va"
  shows "exits env (wcmp_body g) (if words vo = words va then 0 else 1)"
proof (cases "first_verdict wcmp_step (words va) (words vo)")
  case (Inl code)
  then show ?thesis
    using wcmp.loop_spec [OF assms, of "(0, [])"] wcmp_first_verdict [of "words va" "words vo"] by (simp add: wcmp_body_def)
next
  case (Inr rest)
  then obtain n j vo' va' g' where l: "wcmp_loop 0 [] g = Ret (n, j) g'" "judging ko ka vo' va' g'"
    "rest = (words va', words vo')" using wcmp.loop_spec [OF assms, of "(0, [])"] by auto
  then have code: "(if words vo = words va then 0 else 1) = (if words va' = [] \<and> words vo' = [] then 0 else (1::int))"
    using wcmp_first_verdict [of "words va" "words vo"] Inr by simp
  obtain g1 where g1: "on_ans seekEof g' = Ret (tokens va' = []) g1" "judging ko ka vo' (dropWhile isBlanks va') g1"
    using judging_seekEof_ans [OF l(2)] by blast
  obtain g2 where g2: "on_ouf seekEof g1 = Ret (tokens vo' = []) g2"
    "judging ko ka (dropWhile isBlanks vo') (dropWhile isBlanks va') g2" using judging_seekEof_ouf [OF g1(2)] by blast
  have wa: "exits env (quit_free TR_wa m h) 1" if "judging ko ka x y h" for x y h m
    using exits_plain [OF that assms(2), of TR_wa] by simp
  show ?thesis
  proof (cases "tokens va' = [] \<and> tokens vo' = []")
    case True
    then have "exits env (quit_free TR_ok m g2) 0" for m
      using exits_ok [OF g2(2) assms(2), of env m] by (simp add: tokens_Nil)
    then show ?thesis using True l(1) g1(1) g2(1) code by (simp add: wcmp_body_def words_def)
  next
    case False
    obtain h x y where "judging ko ka x y h" "wcmp_body g = andThen (on_ans seekEof h) (\<lambda>ansEnd g.
         if ansEnd then quit_free TR_wa ''Participant output contains extra tokens'' g
         else quit_free TR_wa ''Unexpected EOF in the participants output'' g)"
      using False l(1) g1 g2 by (cases "tokens va' = []") (auto simp: wcmp_body_def)
    then have "exits env (wcmp_body g) 1" using judging_seekEof_ans wa by fastforce
    then show ?thesis using code False by (simp add: words_def)
  qed
qed

end
