(* ===== verification/TL_Token_Checkers.thy ===== *)
theory TL_Token_Checkers
  imports TL_Checkers
begin

text \<open>
  The exit codes of \<^verbatim>\<open>ncmp\<close>, \<^verbatim>\<open>yesno\<close> and \<^verbatim>\<open>nyesno\<close> as functions of the words of the answer and of the
  output, and the step from the body of a checker to its whole run on files. The loops of \<^verbatim>\<open>ncmp\<close>
  and \<^verbatim>\<open>nyesno\<close> are instances of the locale \<open>pair_loop\<close>.
\<close>

subsection \<open>ncmp\<close>

text \<open>The words that are notations of 64-bit integers.\<close>

definition int64_word :: "string \<Rightarrow> bool" where
  "int64_word w \<longleftrightarrow> canonical_int w \<and> LLONG_MIN \<le> int_val w \<and> int_val w \<le> LLONG_MAX"

lemma int64_word_iff: "int64_word w \<longleftrightarrow> (\<exists>n. w = vtos n \<and> LLONG_MIN \<le> n \<and> n \<le> LLONG_MAX)"
  unfolding int64_word_def canonical_int_iff using int_val_vtos by metis

lemma int64_word_eq: "int64_word v \<Longrightarrow> int64_word w \<Longrightarrow> int_val v = int_val w \<longleftrightarrow> v = w"
  using vtos_int_val by (metis int64_word_def)

lemma readLong_tokens:
  assumes "holds k v s" "\<not> is_strict k" "is_maxTokenLength k = 32 * 1024 * 1024" "tokens v = t # ts"
  shows "int64_word (map to_char t) \<Longrightarrow>
      \<exists>s'. readLong s = Ret (int_val (map to_char t)) s' \<and> holds k (after_token v) s'"
    and "\<not> int64_word (map to_char t) \<Longrightarrow> \<exists>m s'. readLong s = in_quit TR_pe m s' \<and> stream_core s' = k"
proof -
  have t: "takeWhile nonblank (token_start k v) = t" "t \<noteq> []" "dropWhile nonblank (token_start k v) = after_token v"
    using assms(2,4) by (auto simp: token_start_def tokens_Cons next_token_def after_token_def)
  show "\<exists>s'. readLong s = Ret (int_val (map to_char t)) s' \<and> holds k (after_token v) s'" if "int64_word (map to_char t)"
    using int64.read_ok [OF assms(1), of "int_val (map to_char t)"] that t length_vtos_long [of "int_val (map to_char t)"] assms(3)
    by (simp add: int64_word_def vtos_int_val)
  show "\<exists>m s'. readLong s = in_quit TR_pe m s' \<and> stream_core s' = k" if "\<not> int64_word (map to_char t)"
  proof (rule int64.read_bad [OF assms(1)])
    show "token_start k v \<noteq> []" using t(1,2) by auto
    show "\<nexists>n. map to_char (takeWhile nonblank (token_start k v)) = vtos n \<and> LLONG_MIN \<le> n \<and> n \<le> LLONG_MAX \<and>
        length (vtos n) \<le> is_maxTokenLength k"
      using that t(1) int64_word_iff by metis
  qed
qed

lemma judging_long_ans:
  assumes "judging ko ka vo va g" "checker_streams ko ka" "tokens va = t # ts"
  shows "int64_word (map to_char t) \<Longrightarrow>
      \<exists>g'. on_ans readLong g = Ret (int_val (map to_char t)) g' \<and> judging ko ka vo (after_token va) g'"
    and "\<not> int64_word (map to_char t) \<Longrightarrow> exits env (andThen (on_ans readLong g) h) 3"
proof -
  note k = assms(2) [unfolded checker_streams_def]
  show "\<exists>g'. on_ans readLong g = Ret (int_val (map to_char t)) g' \<and> judging ko ka vo (after_token va) g'"
    if "int64_word (map to_char t)"
    by (rule judging_ans [OF assms(1)]) (use that k assms(3) readLong_tokens(1) in blast)
  show "exits env (andThen (on_ans readLong g) h) 3" if "\<not> int64_word (map to_char t)"
    using exits_ans [OF assms(1,2), of readLong TR_pe] readLong_tokens(2) [of ka va "tl_ans g" t ts] that k assms(1,3)
    by (auto simp: judging_def)
qed

lemma judging_long_ouf:
  assumes "judging ko ka vo va g" "checker_streams ko ka" "tokens vo = t # ts"
  shows "int64_word (map to_char t) \<Longrightarrow>
      \<exists>g'. on_ouf readLong g = Ret (int_val (map to_char t)) g' \<and> judging ko ka (after_token vo) va g'"
    and "\<not> int64_word (map to_char t) \<Longrightarrow> exits env (andThen (on_ouf readLong g) h) 2"
proof -
  note k = assms(2) [unfolded checker_streams_def]
  show "\<exists>g'. on_ouf readLong g = Ret (int_val (map to_char t)) g' \<and> judging ko ka (after_token vo) va g'"
    if "int64_word (map to_char t)"
    by (rule judging_ouf [OF assms(1)]) (use that k assms(3) readLong_tokens(1) in blast)
  show "exits env (andThen (on_ouf readLong g) h) 2" if "\<not> int64_word (map to_char t)"
    using exits_ouf [OF assms(1,2), of readLong TR_pe] readLong_tokens(2) [of ko vo "tl_ouf g" t ts] that k assms(1,3)
    by (auto simp: judging_def)
qed

definition ncmp_step :: "string \<Rightarrow> string \<Rightarrow> int option" where
  "ncmp_step j p =
     (if \<not> int64_word j then Some 3 else if \<not> int64_word p then Some 2 else if j \<noteq> p then Some 1 else None)"

lemma ncmp_loop_round:
  assumes "judging ko ka vo va g" "checker_streams ko ka" "tokens va = t # ts" "tokens vo = u # us"
  shows "case ncmp_step (map to_char t) (map to_char u) of
      Some code \<Rightarrow> \<forall>env h. exits env (andThen (ncmp_loop n f g) h) code
    | None \<Rightarrow> \<exists>f' g'. ncmp_loop n f g = ncmp_loop (n + 1) f' g' \<and> judging ko ka (after_token vo) (after_token va) g'"
proof -
  let ?t = "map to_char t" and ?u = "map to_char u"
  obtain g1 g2 where g2: "on_ans seekEof g = Ret False g1" "on_ouf seekEof g1 = Ret False g2"
    "judging ko ka (dropWhile isBlanks vo) (dropWhile isBlanks va) g2"
    using judging_seek_both [OF assms(1)] assms(3,4) by auto
  have tk: "tokens (dropWhile isBlanks va) = t # ts" "tokens (dropWhile isBlanks vo) = u # us"
    using assms(3,4) by (simp_all add: tokens_skip)
  have run: "ncmp_loop n f g = andThen (on_ans readLong g2) (\<lambda>j g. andThen (on_ouf readLong g) (\<lambda>p g.
      if j \<noteq> p then quit_free TR_wa (differ_message ''numbers'' (n + 1) (vtos j) (vtos p)) g
      else ncmp_loop (n + 1)
        (if n + 1 \<le> 5 then (if length f > 0 then f @ '' '' else f) @ vtos j else f) g))"
    using g2 by (simp add: ncmp_loop.simps [of n f g] cong: if_cong)
  show ?thesis
  proof (cases "int64_word ?t")
    case False
    then show ?thesis using judging_long_ans(2) [OF g2(3) assms(2) tk(1) False] run
      by (simp add: ncmp_step_def andThen_assoc)
  next
    case jt: True
    obtain g3 where g3: "on_ans readLong g2 = Ret (int_val ?t) g3" "judging ko ka (dropWhile isBlanks vo) (after_token va) g3"
      using judging_long_ans(1) [OF g2(3) assms(2) tk(1) jt] by auto
    show ?thesis
    proof (cases "int64_word ?u")
      case False
      then show ?thesis using judging_long_ouf(2) [OF g3(2) assms(2) tk(2) False] run g3(1) jt
        by (simp add: ncmp_step_def andThen_assoc)
    next
      case ju: True
      obtain g4 where g4: "on_ouf readLong g3 = Ret (int_val ?u) g4" "judging ko ka (after_token vo) (after_token va) g4"
        using judging_long_ouf(1) [OF g3(2) assms(2) tk(2) ju] by auto
      show ?thesis
      proof (cases "?t = ?u")
        case False
        then have "exits env (andThen (ncmp_loop n f g) h) 1" for env h
          using exits_plain [OF g4(2) assms(2), of TR_wa env] run g3(1) g4(1) int64_word_eq [OF jt ju]
          by (simp add: quit_free_def)
        then show ?thesis using False jt ju by (simp add: ncmp_step_def)
      next
        case True
        then have "\<exists>f'. ncmp_loop n f g = ncmp_loop (n + 1) f' g4" unfolding run g3(1) andThen_simps(1) g4(1) by auto
        then show ?thesis using g4(2) True jt ju by (auto simp: ncmp_step_def)
      qed
    qed
  qed
qed

interpretation ncmp: pair_loop "\<lambda>(n, f). ncmp_loop n f" ncmp_step "\<lambda>_. True"
proof unfold_locales
  fix ko ka vo va g and st :: "int \<times> string"
  assume "judging ko ka vo va g" "tokens va = [] \<or> tokens vo = []"
  then show "\<exists>vo' va' g'. (case st of (n, j) \<Rightarrow> ncmp_loop n j) g = Ret st g' \<and> judging ko ka vo' va' g' \<and>
      tokens vo' = tokens vo \<and> tokens va' = tokens va"
    using judging_seek_both [of ko ka vo va g] judging_seek_ans_end [of ko ka vo va g]
    by (cases st; cases "tokens va") (force simp: ncmp_loop.simps tokens_skip)+
next
  fix ko ka vo va g t ts u us and st :: "int \<times> string"
  assume "judging ko ka vo va g" "checker_streams ko ka" "tokens va = t # ts" "tokens vo = u # us"
  then show "case ncmp_step (map to_char t) (map to_char u) of
      Some code \<Rightarrow> \<forall>env h. exits env (andThen ((case st of (n, j) \<Rightarrow> ncmp_loop n j) g) h) code
    | None \<Rightarrow> \<exists>st' g'. (case st of (n, j) \<Rightarrow> ncmp_loop n j) g = (case st' of (n, j) \<Rightarrow> ncmp_loop n j) g' \<and>
        judging ko ka (after_token vo) (after_token va) g'"
    using ncmp_loop_round [of ko ka vo va g t ts u us "fst st" "snd st"] by (fastforce split: option.splits prod.splits)
qed simp_all

lemma extra_longs_ans_spec:
  assumes "judging ko ka vo va g" "checker_streams ko ka"
  shows "if list_all int64_word (words va)
    then \<exists>va' g'. extra_longs_ans c g = Ret (c + int (length (words va))) g' \<and> judging ko ka vo va' g' \<and> tokens va' = []
    else \<forall>h. exits env (andThen (extra_longs_ans c g) h) 3"
  using assms
proof (induction "tokens va" arbitrary: va g c)
  case Nil
  then obtain g1 where "on_ans seekEof g = Ret True g1" "judging ko ka vo (dropWhile isBlanks va) g1"
    using judging_seek_ans_end by metis
  with Nil show ?case by (auto simp: extra_longs_ans.simps [of c g] words_def tokens_skip)
next
  case (Cons t ts)
  then obtain g1 where g1: "on_ans seekEof g = Ret False g1" "judging ko ka vo (dropWhile isBlanks va) g1"
    using judging_seekEof_ans [OF Cons.prems(1)] by fastforce
  have ta: "tokens (dropWhile isBlanks va) = t # ts" using Cons.hyps by (simp add: tokens_skip)
  let ?va = "after_token (dropWhile isBlanks va)"
  have w: "words va = map to_char t # words ?va" using words_simps(2,3) ta by metis
  have run: "extra_longs_ans c g = andThen (on_ans readLong g1) (\<lambda>_ g. extra_longs_ans (c + 1) g)"
    using g1 by (simp add: extra_longs_ans.simps [of c g])
  show ?case
  proof (cases "int64_word (map to_char t)")
    case False
    then show ?thesis using judging_long_ans(2) [OF g1(2) Cons.prems(2) ta False] run w by (simp add: andThen_assoc)
  next
    case True
    then obtain g2 where g2: "on_ans readLong g1 = Ret (int_val (map to_char t)) g2" "judging ko ka vo ?va g2"
      using judging_long_ans(1) [OF g1(2) Cons.prems(2) ta True] by auto
    have "ts = tokens ?va" using ta by (simp add: tokens_Cons)
    from Cons.hyps(1) [OF this g2(2) Cons.prems(2), of "c + 1"] show ?thesis
      using run g2(1) w True by (auto simp: add.assoc split: if_splits)
  qed
qed

lemma extra_longs_ouf_spec:
  assumes "judging ko ka vo va g" "checker_streams ko ka"
  shows "if list_all int64_word (words vo)
    then \<exists>vo' g'. extra_longs_ouf c g = Ret (c + int (length (words vo))) g' \<and> judging ko ka vo' va g' \<and> tokens vo' = []
    else \<forall>h. exits env (andThen (extra_longs_ouf c g) h) 2"
  using assms
proof (induction "tokens vo" arbitrary: vo g c)
  case Nil
  then obtain g1 where "on_ouf seekEof g = Ret True g1" "judging ko ka (dropWhile isBlanks vo) va g1"
    using judging_seekEof_ouf [OF Nil.prems(1)] by auto
  with Nil show ?case by (auto simp: extra_longs_ouf.simps [of c g] words_def tokens_skip)
next
  case (Cons t ts)
  then obtain g1 where g1: "on_ouf seekEof g = Ret False g1" "judging ko ka (dropWhile isBlanks vo) va g1"
    using judging_seekEof_ouf [OF Cons.prems(1)] by fastforce
  have ta: "tokens (dropWhile isBlanks vo) = t # ts" using Cons.hyps by (simp add: tokens_skip)
  let ?vo = "after_token (dropWhile isBlanks vo)"
  have w: "words vo = map to_char t # words ?vo" using words_simps(2,3) ta by metis
  have run: "extra_longs_ouf c g = andThen (on_ouf readLong g1) (\<lambda>_ g. extra_longs_ouf (c + 1) g)"
    using g1 by (simp add: extra_longs_ouf.simps [of c g])
  show ?case
  proof (cases "int64_word (map to_char t)")
    case False
    then show ?thesis using judging_long_ouf(2) [OF g1(2) Cons.prems(2) ta False] run w by (simp add: andThen_assoc)
  next
    case True
    then obtain g2 where g2: "on_ouf readLong g1 = Ret (int_val (map to_char t)) g2" "judging ko ka ?vo va g2"
      using judging_long_ouf(1) [OF g1(2) Cons.prems(2) ta True] by auto
    have "ts = tokens ?vo" using ta by (simp add: tokens_Cons)
    from Cons.hyps(1) [OF this g2(2) Cons.prems(2), of "c + 1"] show ?thesis
      using run g2(1) w True by (auto simp: add.assoc split: if_splits)
  qed
qed

text \<open>
  The verdict on the words of the answer and of the output: the first position with a word that is
  no integer, or with different integers, decides; then what is left has to be integers, and nothing.
\<close>

definition ncmp_verdict :: "string list \<Rightarrow> string list \<Rightarrow> int" where
  "ncmp_verdict js ps = (case first_verdict ncmp_step js ps of
     Inl code \<Rightarrow> code
   | Inr (js, ps) \<Rightarrow> if \<not> list_all int64_word js then 3 else if \<not> list_all int64_word ps then 2
       else if js = [] \<and> ps = [] then 0 else 1)"

lemma ncmp_verdict_simps [simp]:
  "ncmp_verdict [] ps = (if \<not> list_all int64_word ps then 2 else if ps = [] then 0 else 1)"
  "ncmp_verdict js [] = (if \<not> list_all int64_word js then 3 else if js = [] then 0 else 1)"
  "ncmp_verdict (j # js) (p # ps) =
     (if \<not> int64_word j then 3 else if \<not> int64_word p then 2 else if j \<noteq> p then 1 else ncmp_verdict js ps)"
proof -
  show "ncmp_verdict js [] = (if \<not> list_all int64_word js then 3 else if js = [] then 0 else 1)"
    by (cases js) (simp_all add: ncmp_verdict_def)
qed (simp_all add: ncmp_verdict_def ncmp_step_def)

lemma ncmp_verdict_0: "ncmp_verdict js ps = 0 \<longleftrightarrow> js = ps \<and> list_all int64_word js"
proof (induction js arbitrary: ps)
  case (Cons j js)
  then show ?case by (cases ps) auto
qed auto

lemma ncmp_verdict_3: "list_all int64_word js \<Longrightarrow> ncmp_verdict js ps \<noteq> 3"
proof (induction js arbitrary: ps)
  case (Cons j js)
  then show ?case by (cases ps) auto
qed auto

lemma ncmp_body_exits:
  assumes "judging ko ka vo va g" "checker_streams ko ka"
  shows "exits env (ncmp_body g) (ncmp_verdict (words va) (words vo))"
proof (cases "first_verdict ncmp_step (words va) (words vo)")
  case (Inl code)
  then show ?thesis
    using ncmp.loop_spec [OF assms, of "(0, [])"] by (simp add: ncmp_body_def ncmp_verdict_def)
next
  case (Inr rest)
  then obtain n f vo' va' g' where l: "ncmp_loop 0 [] g = Ret (n, f) g'" "judging ko ka vo' va' g'"
    "rest = (words va', words vo')" using ncmp.loop_spec [OF assms, of "(0, [])"] by auto
  let ?js = "words va'" and ?ps = "words vo'"
  have code: "ncmp_verdict (words va) (words vo) = (if \<not> list_all int64_word ?js then 3
      else if \<not> list_all int64_word ?ps then 2 else if ?js = [] \<and> ?ps = [] then 0 else 1)"
    using Inr l(3) by (simp add: ncmp_verdict_def)
  show ?thesis
  proof (cases "list_all int64_word ?js")
    case False
    then show ?thesis using extra_longs_ans_spec [OF l(2) assms(2), of 0 env] l(1) code by (simp add: ncmp_body_def)
  next
    case js: True
    then obtain va2 g2 where g2: "extra_longs_ans 0 g' = Ret (int (length ?js)) g2" "judging ko ka vo' va2 g2"
      using extra_longs_ans_spec [OF l(2) assms(2), of 0 env] by auto
    show ?thesis
    proof (cases "list_all int64_word ?ps")
      case False
      then show ?thesis using js extra_longs_ouf_spec [OF g2(2) assms(2), of 0 env] l(1) g2(1) code
        by (simp add: ncmp_body_def)
    next
      case ps: True
      then obtain vo3 g3 where g3: "extra_longs_ouf 0 g2 = Ret (int (length ?ps)) g3" "judging ko ka vo3 va2 g3" "tokens vo3 = []"
        using extra_longs_ouf_spec [OF g2(2) assms(2), of 0 env] by auto
      have "exits env (quit_free TR_wa m g3) 1" "exits env (quit_free TR_ok m g3) 0" for m
        using exits_plain [OF g3(2) assms(2), of TR_wa env m] exits_ok [OF g3(2) assms(2), of env m] g3(3)
        by (simp_all add: tokens_Nil)
      then show ?thesis using l(1) g2(1) g3(1) js ps code by (simp add: ncmp_body_def)
    qed
  qed
qed

subsection \<open>yesno\<close>

definition yesno_word :: "string \<Rightarrow> bool" where
  "yesno_word w \<longleftrightarrow> upperCase w = YES \<or> upperCase w = NO"

definition yesno_verdict :: "string list \<Rightarrow> string list \<Rightarrow> int" where
  "yesno_verdict js ps =
     (if js = [] then 3 else if ps = [] then 2
      else if \<not> yesno_word (hd js) then 3 else if \<not> yesno_word (hd ps) then 2
      else if upperCase (hd js) \<noteq> upperCase (hd ps) then 1
      else if tl ps = [] then 0 else 2)"

lemma exits_wa: "judging ko ka vo va g \<Longrightarrow> checker_streams ko ka \<Longrightarrow> exits env (quit_free TR_wa m g) 1"
  using exits_plain [of ko ka vo va g TR_wa env m] by simp

lemma exits_pe: "judging ko ka vo va g \<Longrightarrow> checker_streams ko ka \<Longrightarrow> exits env (quit_free TR_pe m g) 2"
  using exits_plain [of ko ka vo va g TR_pe env m] by simp

lemma yesno_body_exits:
  assumes "judging ko ka vo va g" "checker_streams ko ka" "short_tokens vo" "short_tokens va"
  shows "exits env (yesno_body g) (yesno_verdict (words va) (words vo))"
proof (cases "tokens va")
  case Nil
  then have "exits env (yesno_body g) 3"
    unfolding yesno_body_def using assms(1,2) readWord_no_token
    by (intro exits_ans [OF assms(1,2)]) (auto simp: judging_def checker_streams_def)
  then show ?thesis using Nil by (simp add: yesno_verdict_def words_def)
next
  case (Cons t ts)
  then obtain g1 where g1: "on_ans readWord g = Ret (map to_char t) g1" "judging ko ka vo (after_token va) g1"
    using judging_word_ans(2) [OF assms(1,2) Cons assms(4)] by blast
  have wa: "words va = map to_char t # words (after_token va)" using words_simps(3) [OF Cons] .
  show ?thesis
  proof (cases "tokens vo")
    case Nil
    then have "exits env (yesno_body g) 2"
      unfolding yesno_body_def g1(1) andThen_simps(1) Let_def using g1(2) assms(2) readWord_no_token
      by (intro exits_ouf [OF g1(2) assms(2), where result = TR_unexpected_eof]) (auto simp: judging_def checker_streams_def)
    then show ?thesis using Nil wa by (simp add: yesno_verdict_def words_def)
  next
    case (Cons u us)
    then obtain g2 where g2: "on_ouf readWord g1 = Ret (map to_char u) g2" "judging ko ka (after_token vo) (after_token va) g2"
      using judging_word_ouf(2) [OF g1(2) assms(2) Cons assms(3)] by blast
    have wo: "words vo = map to_char u # words (after_token vo)" using words_simps(3) [OF Cons] .
    have "exits env (quit_free TR_ok m g2) (if words (after_token vo) = [] then 0 else 2)" for m
      using exits_ok [OF g2(2) assms(2), of env m] unfolding words_simps(1) tokens_Nil .
    then show ?thesis
      using g1(1) g2(1) wa wo exits_fail [OF g2(2)] exits_pe [OF g2(2) assms(2)] exits_wa [OF g2(2) assms(2)]
      by (simp add: yesno_body_def yesno_verdict_def yesno_word_def Let_def)
  qed
qed

subsection \<open>nyesno\<close>

definition nyesno_step :: "string \<Rightarrow> string \<Rightarrow> int option" where
  "nyesno_step j p =
     (if \<not> yesno_word j then Some 3 else if \<not> yesno_word p then Some 2
      else if upperCase j \<noteq> upperCase p then Some 1 else None)"

lemma nyesno_loop_round:
  assumes "judging ko ka vo va g" "checker_streams ko ka" "short_tokens vo" "short_tokens va"
    "tokens va = t # ts" "tokens vo = u # us"
  shows "case nyesno_step (map to_char t) (map to_char u) of
      Some code \<Rightarrow> \<forall>env h. exits env (andThen (nyesno_loop i y n pa g) h) code
    | None \<Rightarrow> \<exists>i' y' n' pa' g'. nyesno_loop i y n pa g = nyesno_loop i' y' n' pa' g' \<and>
        judging ko ka (after_token vo) (after_token va) g'"
proof -
  let ?t = "map to_char t" and ?u = "map to_char u"
  obtain g1 g2 where g2: "on_ans seekEof g = Ret False g1" "on_ouf seekEof g1 = Ret False g2"
    "judging ko ka (dropWhile isBlanks vo) (dropWhile isBlanks va) g2"
    using judging_seek_both [OF assms(1)] assms(5,6) by auto
  obtain g3 where g3: "on_ans readToken g2 = Ret ?t g3" "judging ko ka (dropWhile isBlanks vo) (after_token va) g3"
    using judging_word_ans(2) [OF g2(3) assms(2), of t ts] assms(4,5) by (auto simp: tokens_skip readToken_def)
  obtain g4 where g4: "on_ouf readToken g3 = Ret ?u g4" "judging ko ka (after_token vo) (after_token va) g4"
    using judging_word_ouf(2) [OF g3(2) assms(2), of u us] assms(3,6) by (auto simp: tokens_skip readToken_def)
  note run = nyesno_loop.simps [of i y n pa g, unfolded g2(1) andThen_simps(1) if_False g2(2) g3(1) Let_def g4(1)]
  show ?thesis
  proof (cases "nyesno_step ?t ?u")
    case None
    then have "\<exists>i' y' n' pa'. nyesno_loop i y n pa g = nyesno_loop i' y' n' pa' g4"
      unfolding run by (auto simp: nyesno_step_def yesno_word_def split: if_splits)
    then show ?thesis using None g4(2) by (simp, blast)
  next
    case (Some code)
    then have "exits env (andThen (nyesno_loop i y n pa g) h) code" for env h
      unfolding run using exits_fail [OF g4(2), of env] exits_pe [OF g4(2) assms(2), of env] exits_wa [OF g4(2) assms(2), of env]
      by (auto simp: nyesno_step_def yesno_word_def quit_free_def split: if_splits)
    then show ?thesis using Some by simp
  qed
qed

interpretation nyesno: pair_loop "\<lambda>(i, y, n, pa). nyesno_loop i y n pa" nyesno_step short_tokens
proof unfold_locales
  fix v v' :: "int list" and t :: "int list" and ts
  show "short_tokens v \<Longrightarrow> tokens v = t # ts \<Longrightarrow> short_tokens (after_token v)" by (rule short_tokens_step(2))
  show "short_tokens v \<Longrightarrow> tokens v' = tokens v \<Longrightarrow> short_tokens v'" by (simp add: short_tokens_def)
next
  fix ko ka vo va g and st :: "int \<times> int \<times> int \<times> string"
  assume "judging ko ka vo va g" "tokens va = [] \<or> tokens vo = []"
  then show "\<exists>vo' va' g'. (case st of (i, y, n, pa) \<Rightarrow> nyesno_loop i y n pa) g = Ret st g' \<and> judging ko ka vo' va' g' \<and>
      tokens vo' = tokens vo \<and> tokens va' = tokens va"
    using judging_seek_both [of ko ka vo va g] judging_seek_ans_end [of ko ka vo va g]
    by (cases st; cases "tokens va") (force simp: nyesno_loop.simps tokens_skip)+
next
  fix ko ka vo va g t ts u us and st :: "int \<times> int \<times> int \<times> string"
  assume "judging ko ka vo va g" "checker_streams ko ka" "short_tokens vo" "short_tokens va" "tokens va = t # ts" "tokens vo = u # us"
  then show "case nyesno_step (map to_char t) (map to_char u) of
      Some code \<Rightarrow> \<forall>env h. exits env (andThen ((case st of (i, y, n, pa) \<Rightarrow> nyesno_loop i y n pa) g) h) code
    | None \<Rightarrow> \<exists>st' g'. (case st of (i, y, n, pa) \<Rightarrow> nyesno_loop i y n pa) g = (case st' of (i, y, n, pa) \<Rightarrow> nyesno_loop i y n pa) g' \<and>
        judging ko ka (after_token vo) (after_token va) g'"
    using nyesno_loop_round [of ko ka vo va g t ts u us "fst st" "fst (snd st)" "fst (snd (snd st))" "snd (snd (snd st))"]
    by (fastforce split: option.splits prod.splits)
qed

lemma extra_tokens_ans_spec:
  assumes "judging ko ka vo va g" "checker_streams ko ka" "short_tokens va"
  shows "\<exists>va' g'. extra_tokens_ans c g = Ret (c + int (length (words va))) g' \<and> judging ko ka vo va' g'"
  using assms
proof (induction "tokens va" arbitrary: va g c)
  case Nil
  then obtain g1 where "on_ans seekEof g = Ret True g1" "judging ko ka vo (dropWhile isBlanks va) g1"
    using judging_seek_ans_end by metis
  with Nil show ?case by (auto simp: extra_tokens_ans.simps [of c g] words_def)
next
  case (Cons t ts)
  then obtain g1 where g1: "on_ans seekEof g = Ret False g1" "judging ko ka vo (dropWhile isBlanks va) g1"
    using judging_seekEof_ans [OF Cons.prems(1)] by fastforce
  have ta: "tokens va = t # ts" using Cons.hyps by simp
  obtain g2 where g2: "on_ans readToken g1 = Ret (map to_char t) g2" "judging ko ka vo (after_token va) g2"
    using judging_word_ans(2) [OF g1(2) Cons.prems(2), of t ts] ta Cons.prems(3) by (auto simp: tokens_skip readToken_def)
  have "ts = tokens (after_token va)" using ta by (simp add: tokens_Cons)
  from Cons.hyps(1) [OF this g2(2) Cons.prems(2) short_tokens_step(2) [OF Cons.prems(3) ta], of "c + 1"] show ?case
    using g1(1) g2(1) words_simps(3) [OF ta] by (simp add: extra_tokens_ans.simps [of c g] add.assoc)
qed

lemma extra_tokens_ouf_spec:
  assumes "judging ko ka vo va g" "checker_streams ko ka" "short_tokens vo"
  shows "\<exists>vo' g'. extra_tokens_ouf c g = Ret (c + int (length (words vo))) g' \<and> judging ko ka vo' va g' \<and> tokens vo' = []"
  using assms
proof (induction "tokens vo" arbitrary: vo g c)
  case Nil
  then obtain g1 where "on_ouf seekEof g = Ret True g1" "judging ko ka (dropWhile isBlanks vo) va g1"
    using judging_seekEof_ouf [OF Nil.prems(1)] by auto
  with Nil show ?case by (auto simp: extra_tokens_ouf.simps [of c g] words_def tokens_skip)
next
  case (Cons t ts)
  then obtain g1 where g1: "on_ouf seekEof g = Ret False g1" "judging ko ka (dropWhile isBlanks vo) va g1"
    using judging_seekEof_ouf [OF Cons.prems(1)] by fastforce
  have ta: "tokens vo = t # ts" using Cons.hyps by simp
  obtain g2 where g2: "on_ouf readToken g1 = Ret (map to_char t) g2" "judging ko ka (after_token vo) va g2"
    using judging_word_ouf(2) [OF g1(2) Cons.prems(2), of t ts] ta Cons.prems(3) by (auto simp: tokens_skip readToken_def)
  have "ts = tokens (after_token vo)" using ta by (simp add: tokens_Cons)
  from Cons.hyps(1) [OF this g2(2) Cons.prems(2) short_tokens_step(2) [OF Cons.prems(3) ta], of "c + 1"] show ?case
    using g1(1) g2(1) words_simps(3) [OF ta] by (simp add: extra_tokens_ouf.simps [of c g] add.assoc)
qed

definition nyesno_verdict :: "string list \<Rightarrow> string list \<Rightarrow> int" where
  "nyesno_verdict js ps = (case first_verdict nyesno_step js ps of
     Inl code \<Rightarrow> code
   | Inr (js, ps) \<Rightarrow> if js = [] \<and> ps = [] then 0 else 1)"

lemma nyesno_verdict_0:
  "nyesno_verdict js ps = 0 \<longleftrightarrow> list_all yesno_word js \<and> map upperCase js = map upperCase ps"
proof (induction js arbitrary: ps)
  case Nil
  then show ?case by (auto simp: nyesno_verdict_def)
next
  case (Cons j js)
  show ?case
  proof (cases ps)
    case (Cons p ps')
    have "nyesno_verdict (j # js) ps = (case nyesno_step j p of Some code \<Rightarrow> code | None \<Rightarrow> nyesno_verdict js ps')"
      using Cons by (simp add: nyesno_verdict_def split: option.split)
    with Cons Cons.IH [of ps'] show ?thesis by (auto simp: nyesno_step_def yesno_word_def split: if_splits)
  qed (simp add: nyesno_verdict_def)
qed

lemma nyesno_body_exits:
  assumes "judging ko ka vo va g" "checker_streams ko ka" "short_tokens vo" "short_tokens va"
  shows "exits env (nyesno_body g) (nyesno_verdict (words va) (words vo))"
proof (cases "first_verdict nyesno_step (words va) (words vo)")
  case (Inl code)
  then show ?thesis
    using nyesno.loop_spec [OF assms, of "(0, 0, 0, [])"] by (simp add: nyesno_body_def nyesno_verdict_def)
next
  case (Inr rest)
  then obtain i y n pa vo' va' g' where l: "nyesno_loop 0 0 0 [] g = Ret (i, y, n, pa) g'" "judging ko ka vo' va' g'"
    "rest = (words va', words vo')" "short_tokens vo'" "short_tokens va'"
    using nyesno.loop_spec [OF assms, of "(0, 0, 0, [])"] by auto
  obtain va2 g2 where g2: "extra_tokens_ans 0 g' = Ret (int (length (words va'))) g2" "judging ko ka vo' va2 g2"
    using extra_tokens_ans_spec [OF l(2) assms(2) l(5), of 0] by auto
  obtain vo3 g3 where g3: "extra_tokens_ouf 0 g2 = Ret (int (length (words vo'))) g3" "judging ko ka vo3 va2 g3" "tokens vo3 = []"
    using extra_tokens_ouf_spec [OF g2(2) assms(2) l(4), of 0] by auto
  have "exits env (quit_free TR_wa m g3) 1" "exits env (quit_free TR_ok m g3) 0" for m
    using exits_wa [OF g3(2) assms(2)] exits_ok [OF g3(2) assms(2), of env m] g3(3) by (simp_all add: tokens_Nil)
  then show ?thesis using l g2(1) g3(1) Inr by (simp add: nyesno_body_def nyesno_verdict_def)
qed

section \<open>Whole runs\<close>

text \<open>A test on disk: the three files are readable, not larger than 128 MB, and not named like an option.\<close>

definition test_files :: "env \<Rightarrow> string list \<Rightarrow> string \<Rightarrow> string \<Rightarrow> bool" where
  "test_files env names output answer \<longleftrightarrow> length names = 3 \<and> list_all plain_arg names \<and>
     (\<exists>input. env_fs env (names ! 0) = Some input \<and> length input \<le> 128 * 1024 * 1024) \<and>
     env_fs env (names ! 1) = Some output \<and> length output \<le> 128 * 1024 * 1024 \<and>
     env_fs env (names ! 2) = Some answer \<and> length answer \<le> 128 * 1024 * 1024"

text \<open>The codes a checker finds in the output file and in the answer file.\<close>

definition output_codes :: "string \<Rightarrow> int list" where
  "output_codes output = strip_bom (map schar output)"

definition answer_codes :: "string \<Rightarrow> int list" where
  "answer_codes answer = map schar answer"

lemma checker_main_exits:
  assumes "test_files env names output answer"
    and "\<And>ko ka g. checker_streams ko ka \<Longrightarrow> judging ko ka (output_codes output) (answer_codes answer) g \<Longrightarrow> exits env (body g) code"
  shows "exits env (checker_main name body env (Some prog # map Some names)) code"
proof -
  obtain i o' a where n: "names = [i, o', a]"
    using assms(1) by (auto simp: test_files_def length_Suc_conv numeral_3_eq_3)
  with assms(1) obtain input where f: "env_fs env i = Some input" "env_fs env o' = Some output" "env_fs env a = Some answer"
    "length input \<le> 128 * 1024 * 1024" "length output \<le> 128 * 1024 * 1024" "length answer \<le> 128 * 1024 * 1024"
    "plain_arg i" "plain_arg o'" "plain_arg a"
    by (auto simp: test_files_def numeral_2_eq_2)
  from registerTestlibCmd_spec [OF f, of prog name] obtain g where
    "registerTestlibCmd env [Some prog, Some i, Some o', Some a] (testlib_init\<lparr>tl_checkerName := name\<rparr>) = Ret None g"
    "judging (opened_core o' M_output) (opened_core a M_answer) (output_codes output) (answer_codes answer) g"
    by (auto simp: output_codes_def answer_codes_def)
  with assms(2) [OF checker_streams_opened this(2)] n show ?thesis by (simp add: checker_main_def setName_def)
qed

end
