(* ===== verification/TL_Line_Checkers.thy ===== *)
theory TL_Line_Checkers
  imports TL_Token_Checkers
begin

text \<open>
  The checkers that work on lines: \<^verbatim>\<open>fcmp\<close>, \<^verbatim>\<open>lcmp\<close> and the judge's own \<^verbatim>\<open>default\<close>. Their loops
  run while the answer is not at its end. They are written with a bound \<open>fuel\<close> on the number of
  rounds; a bound that is used up is \<open>Crash\<close>, and the lemmas show that any bound larger than the
  length of the file is never used up, because every line takes at least one character.
\<close>

section \<open>Programs\<close>

subsection \<open>fcmp: sequences of lines\<close>

primrec fcmp_loop :: "nat \<Rightarrow> int \<Rightarrow> string \<Rightarrow> (testlib, int \<times> string) prog" where
  "fcmp_loop 0 n strAnswer g = Crash"
| "fcmp_loop (Suc fuel) n strAnswer g =
     andThen (on_ans eof g) (\<lambda>ended g.
       if ended then Ret (n, strAnswer) g
       else andThen (on_ans readString g) (\<lambda>j g.
            andThen (if j = [] then on_ans eof g else Ret False g) (\<lambda>last g.
              if last then Ret (n, strAnswer) g
              else andThen (on_ouf readString g) (\<lambda>p g.
                if j \<noteq> p then quit_free TR_wa (differ_message ''lines'' (n + 1) (compress j) (compress p)) g
                else fcmp_loop fuel (n + 1) j g))))"

definition lines_verdict :: "int \<Rightarrow> string \<Rightarrow> (testlib, int) prog" where
  "lines_verdict n strAnswer g =
     (if n = 1 then quit_free TR_ok (''single line: '' @ sq (compress strAnswer)) g
      else quit_free TR_ok (vtos n @ '' lines'') g)"

definition fcmp_body :: "nat \<Rightarrow> (testlib, int) prog" where
  "fcmp_body fuel g = andThen (fcmp_loop fuel 0 '''' g) (\<lambda>(n, strAnswer) g. lines_verdict n strAnswer g)"

definition fcmp_main :: "nat \<Rightarrow> env \<Rightarrow> string option list \<Rightarrow> (testlib, int) outcome" where
  "fcmp_main fuel = checker_main ''compare files as sequence of lines'' (fcmp_body fuel)"

subsection \<open>lcmp: sequences of tokens in lines\<close>

text \<open>\<^verbatim>\<open>while (sa >> cur)\<close> on a string stream: the words between white space of the C locale.\<close>

definition stream_words :: "string \<Rightarrow> string list" where
  "stream_words s = tokenize_loop c_isspace s [] []"

definition compareWords :: "string \<Rightarrow> string \<Rightarrow> bool" where
  "compareWords a b \<longleftrightarrow> stream_words a = stream_words b"

primrec lcmp_loop :: "nat \<Rightarrow> int \<Rightarrow> string \<Rightarrow> (testlib, int \<times> string) prog" where
  "lcmp_loop 0 n strAnswer g = Crash"
| "lcmp_loop (Suc fuel) n strAnswer g =
     andThen (on_ans eof g) (\<lambda>ended g.
       if ended then Ret (n, strAnswer) g
       else andThen (on_ans readString g) (\<lambda>j g.
            andThen (if j = [] then on_ans eof g else Ret False g) (\<lambda>last g.
              if last then Ret (n, strAnswer) g
              else andThen (on_ouf readString g) (\<lambda>p g.
                if \<not> compareWords j p
                then quit_free TR_wa (differ_message ''lines'' (n + 1) (compress j) (compress p)) g
                else lcmp_loop fuel (n + 1) p g))))"

definition lcmp_body :: "nat \<Rightarrow> (testlib, int) prog" where
  "lcmp_body fuel g = andThen (lcmp_loop fuel 0 '''' g) (\<lambda>(n, strAnswer) g. lines_verdict n strAnswer g)"

definition lcmp_main :: "nat \<Rightarrow> env \<Rightarrow> string option list \<Rightarrow> (testlib, int) outcome" where
  "lcmp_main fuel = checker_main ''compare files as sequence of tokens in lines'' (lcmp_body fuel)"

subsection \<open>default: lines without trailing white space\<close>

definition hasUtf8Bom :: "string \<Rightarrow> bool" where
  "hasUtf8Bom s \<longleftrightarrow> length s \<ge> 3 \<and> uchar (s ! 0) = 0xEF \<and> uchar (s ! 1) = 0xBB \<and> uchar (s ! 2) = 0xBF"

text \<open>The characters that \<^verbatim>\<open>normalizeLine\<close> takes off the end of a line.\<close>

definition trailing_space :: "char \<Rightarrow> bool" where
  "trailing_space ch \<longleftrightarrow> ch = CHR '' '' \<or> ch = CHR 0x09 \<or> ch = CHR 0x0D \<or> ch = CHR 0x0C \<or> ch = CHR 0x0B"

function strip_trailing :: "string \<Rightarrow> string" where
  "strip_trailing line = (if line \<noteq> [] \<and> trailing_space (last line) then strip_trailing (butlast line) else line)"
  by pat_completeness auto
termination
  by (relation "measure length") auto

definition normalizeLine :: "string \<Rightarrow> bool \<Rightarrow> string" where
  "normalizeLine line isFirstLine =
     strip_trailing (if isFirstLine \<and> hasUtf8Bom line then drop 3 line else line)"

primrec readNormalizedLines_loop :: "nat \<Rightarrow> string list \<Rightarrow> (instream, string list) prog" where
  "readNormalizedLines_loop 0 lines s = Crash"
| "readNormalizedLines_loop (Suc fuel) lines s =
     andThen (eof s) (\<lambda>ended s.
       if ended then Ret lines s
       else andThen (readLine s) (\<lambda>line s.
            andThen (if line = [] then eof s else Ret False s) (\<lambda>last s.
              if last then Ret lines s
              else readNormalizedLines_loop fuel (lines @ [normalizeLine line (lines = [])]) s)))"

function drop_empty_back :: "string list \<Rightarrow> string list" where
  "drop_empty_back lines = (if lines \<noteq> [] \<and> last lines = [] then drop_empty_back (butlast lines) else lines)"
  by pat_completeness auto
termination
  by (relation "measure length") auto

definition readNormalizedLines :: "nat \<Rightarrow> (instream, string list) prog" where
  "readNormalizedLines fuel s =
     andThen (readNormalizedLines_loop fuel [] s) (\<lambda>lines s. Ret (drop_empty_back lines) s)"

text \<open>The \<^verbatim>\<open>for\<close> loop: the index of the first line that differs among the first \<open>common\<close> lines.\<close>

fun first_difference :: "string list \<Rightarrow> string list \<Rightarrow> nat \<Rightarrow> nat option" where
  "first_difference (e # es) (f # fs) i = (if e \<noteq> f then Some i else first_difference es fs (Suc i))"
| "first_difference es fs i = None"

definition default_body :: "nat \<Rightarrow> (testlib, int) prog" where
  "default_body fuel g =
     andThen (on_ans (readNormalizedLines fuel) g) (\<lambda>expected g.
     andThen (on_ouf (readNormalizedLines fuel) g) (\<lambda>found g.
       case first_difference expected found 0 of
         Some i \<Rightarrow> quit_free TR_wa (differ_message ''lines'' (wrap_int (int (i + 1)))
           (compress (expected ! i)) (compress (found ! i))) g
       | None \<Rightarrow>
           if length expected \<noteq> length found then
             let lineNo = min (length expected) (length found) + 1;
                 ex = (if lineNo \<le> length expected then expected ! (lineNo - 1) else ''<EOF>'');
                 got = (if lineNo \<le> length found then found ! (lineNo - 1) else ''<EOF>'')
             in quit_free TR_wa (differ_message ''lines'' (wrap_int (int lineNo)) (compress ex) (compress got)) g
           else if length expected = 1 then quit_free TR_ok (''single line: '' @ sq (compress (expected ! 0))) g
           else quit_free TR_ok (vtos (wrap_int (int (length expected))) @ '' lines'') g))"

definition default_main :: "nat \<Rightarrow> env \<Rightarrow> string option list \<Rightarrow> (testlib, int) outcome" where
  "default_main fuel = checker_main ''NOIP default checker: ignore trailing spaces and line endings'' (default_body fuel)"

declare strip_trailing.simps [simp del] drop_empty_back.simps [simp del]

section \<open>The lines of a text\<close>

definition line_text :: "int list \<Rightarrow> string" where
  "line_text v = map to_char (line_codes v)"

function text_lines :: "int list \<Rightarrow> string list" where
  "text_lines v =
     (if v = [] \<or> (line_text v = [] \<and> after_line v = []) then [] else line_text v # text_lines (after_line v))"
  by pat_completeness auto
termination
  by (relation "measure length") (auto simp: after_line_less)

declare text_lines.simps [simp del]

lemma judging_eof_ans:
  "judging ko ka vo va g \<Longrightarrow> \<exists>g'. on_ans eof g = Ret (va = []) g' \<and> judging ko ka vo va g'"
  using judging_ans [of ko ka vo va g eof] eof_spec by blast

lemma judging_line_ans:
  "judging ko ka vo va g \<Longrightarrow> checker_streams ko ka \<Longrightarrow>
    \<exists>g'. on_ans readString g = Ret (line_text va) g' \<and> judging ko ka vo (after_line va) g'"
  using judging_ans [of ko ka vo va g readString] readString_spec
  by (metis checker_streams_def line_text_def)

lemma judging_line_ouf:
  "judging ko ka vo va g \<Longrightarrow> checker_streams ko ka \<Longrightarrow>
    \<exists>g'. on_ouf readString g = Ret (line_text vo) g' \<and> judging ko ka (after_line vo) va g'"
  using judging_ouf [of ko ka vo va g readString] readString_spec
  by (metis checker_streams_def line_text_def)

section \<open>fcmp and lcmp\<close>

text \<open>
  Both loops read a line of the output for every line of the answer and stop at the first that does
  not agree. When the answer is used up, only white space may be left in the output.
\<close>

fun line_verdict :: "(string \<Rightarrow> string \<Rightarrow> bool) \<Rightarrow> string list \<Rightarrow> int list \<Rightarrow> int" where
  "line_verdict agree [] vo = (if tokens vo = [] then 0 else 2)"
| "line_verdict agree (j # js) vo = (if agree j (line_text vo) then line_verdict agree js (after_line vo) else 1)"

locale line_loop =
  fixes loop :: "nat \<Rightarrow> int \<Rightarrow> string \<Rightarrow> (testlib, int \<times> string) prog" and agree :: "string \<Rightarrow> string \<Rightarrow> bool"
    and keep :: "string \<Rightarrow> string \<Rightarrow> string"
  assumes loop_round: "loop (Suc fuel) n strAnswer g =
     andThen (on_ans eof g) (\<lambda>ended g.
       if ended then Ret (n, strAnswer) g
       else andThen (on_ans readString g) (\<lambda>j g.
            andThen (if j = [] then on_ans eof g else Ret False g) (\<lambda>last g.
              if last then Ret (n, strAnswer) g
              else andThen (on_ouf readString g) (\<lambda>p g.
                if \<not> agree j p then quit_free TR_wa (differ_message ''lines'' (n + 1) (compress j) (compress p)) g
                else loop fuel (n + 1) (keep j p) g))))"
begin

lemma loop_exits:
  assumes "judging ko ka vo va g" "checker_streams ko ka" "length va < fuel"
  shows "exits env (andThen (loop fuel n a g) (\<lambda>(n, a). lines_verdict n a)) (line_verdict agree (text_lines va) vo)"
  using assms
proof (induction fuel arbitrary: vo va g n a)
  case (Suc fuel)
  have ok: "exits env (lines_verdict n a g') (if tokens vo = [] then 0 else 2)" if "judging ko ka vo va' g'" for va' g'
    using exits_ok [OF that Suc.prems(2), of env] unfolding lines_verdict_def tokens_Nil
    by (cases "n = 1") (simp_all only: if_True if_False refl)
  obtain g1 where g1: "on_ans eof g = Ret (va = []) g1" "judging ko ka vo va g1" using judging_eof_ans [OF Suc.prems(1)] by blast
  show ?case
  proof (cases "va = []")
    case True
    then show ?thesis using g1 ok [OF g1(2)] by (simp add: loop_round text_lines.simps [of "[]"])
  next
    case False
    obtain g2 where g2: "on_ans readString g1 = Ret (line_text va) g2" "judging ko ka vo (after_line va) g2"
      using judging_line_ans [OF g1(2) Suc.prems(2)] by blast
    obtain last g3 where g3: "(if line_text va = [] then on_ans eof g2 else Ret False g2) = Ret last g3"
      "judging ko ka vo (after_line va) g3" "last \<longleftrightarrow> line_text va = [] \<and> after_line va = []"
      using judging_eof_ans [OF g2(2)] g2(2) by (cases "line_text va = []") auto
    show ?thesis
    proof (cases last)
      case True
      then show ?thesis using False g1(1) g2(1) g3 ok [OF g3(2)] by (simp add: loop_round text_lines.simps [of va])
    next
      case nl: False
      obtain g4 where g4: "on_ouf readString g3 = Ret (line_text vo) g4" "judging ko ka (after_line vo) (after_line va) g4"
        using judging_line_ouf [OF g3(2) Suc.prems(2)] by blast
      have "text_lines va = line_text va # text_lines (after_line va)"
        using False nl g3(3) by (simp add: text_lines.simps [of va])
      moreover have "length (after_line va) < fuel" using after_line_less [OF False] Suc.prems(3) by simp
      moreover have "exits env (quit_free TR_wa m g4) 1" for m by (rule exits_wa [OF g4(2) Suc.prems(2)])
      ultimately show ?thesis
        using False nl g1(1) g2(1) g3(1) g4(1) Suc.IH [OF g4(2) Suc.prems(2)] by (simp add: loop_round quit_free_def)
    qed
  qed
qed simp

end

interpretation fcmp: line_loop fcmp_loop "(=)" "\<lambda>j p. j"
  by unfold_locales (simp cong: if_cong)

interpretation lcmp: line_loop lcmp_loop compareWords "\<lambda>j p. p"
  by unfold_locales simp

section \<open>default\<close>

text \<open>The normalised lines of a text; the first line loses a byte-order mark.\<close>

fun normalized :: "bool \<Rightarrow> string list \<Rightarrow> string list" where
  "normalized first [] = []"
| "normalized first (l # ls) = normalizeLine l first # normalized False ls"

definition norm_lines :: "int list \<Rightarrow> string list" where
  "norm_lines v = drop_empty_back (normalized True (text_lines v))"

lemma readNormalizedLines_loop_spec:
  assumes "holds k v s" "\<not> is_strict k" "length v < fuel"
  shows "\<exists>s'. readNormalizedLines_loop fuel ls s = Ret (ls @ normalized (ls = []) (text_lines v)) s' \<and> holds k [] s'"
  using assms
proof (induction fuel arbitrary: v s ls)
  case (Suc fuel)
  obtain s1 where s1: "eof s = Ret (v = []) s1" "holds k v s1" using eof_spec [OF Suc.prems(1)] by blast
  show ?case
  proof (cases "v = []")
    case True
    then show ?thesis using s1 by (simp add: text_lines.simps [of "[]"])
  next
    case False
    obtain s2 where s2: "readLine s1 = Ret (line_text v) s2" "holds k (after_line v) s2"
      using readString_spec [OF s1(2) Suc.prems(2)] by (auto simp: readLine_def line_text_def)
    obtain last s3 where s3: "(if line_text v = [] then eof s2 else Ret False s2) = Ret last s3" "holds k (after_line v) s3"
      "last \<longleftrightarrow> line_text v = [] \<and> after_line v = []"
      using eof_spec [OF s2(2)] s2(2) by (cases "line_text v = []") auto
    show ?thesis
    proof (cases last)
      case True
      then show ?thesis using False s1(1) s2(1) s3 by (simp add: text_lines.simps [of v] text_lines.simps [of "[]"])
    next
      case nl: False
      let ?l = "normalizeLine (line_text v) (ls = [])"
      have "length (after_line v) < fuel" using after_line_less [OF False] Suc.prems(3) by simp
      moreover have "text_lines v = line_text v # text_lines (after_line v)"
        using False nl s3(3) by (simp add: text_lines.simps [of v])
      ultimately show ?thesis
        using Suc.IH [OF s3(2) Suc.prems(2), of "ls @ [?l]"] False nl s1(1) s2(1) s3(1) by simp
    qed
  qed
qed simp

lemma readNormalizedLines_spec:
  assumes "holds k v s" "\<not> is_strict k" "length v < fuel"
  shows "\<exists>s'. readNormalizedLines fuel s = Ret (norm_lines v) s' \<and> holds k [] s'"
  using readNormalizedLines_loop_spec [OF assms, of "[]"] by (auto simp: readNormalizedLines_def norm_lines_def)

lemma first_difference_None: "first_difference es fs i = None \<Longrightarrow> length es = length fs \<Longrightarrow> es = fs"
  by (induction es fs i rule: first_difference.induct) (auto split: if_splits)

lemma first_difference_refl: "first_difference es es i = None"
  by (induction es arbitrary: i) auto

lemma default_body_exits:
  assumes "judging ko ka vo va g" "checker_streams ko ka" "length va < fuel" "length vo < fuel"
  shows "exits env (default_body fuel g) (if norm_lines vo = norm_lines va then 0 else 1)"
proof -
  note k = assms(2) [unfolded checker_streams_def]
  obtain g1 where g1: "on_ans (readNormalizedLines fuel) g = Ret (norm_lines va) g1" "judging ko ka vo [] g1"
    using judging_ans [OF assms(1), of "readNormalizedLines fuel"] readNormalizedLines_spec k assms(3) by metis
  obtain g2 where g2: "on_ouf (readNormalizedLines fuel) g1 = Ret (norm_lines vo) g2" "judging ko ka [] [] g2"
    using judging_ouf [OF g1(2), of "readNormalizedLines fuel"] readNormalizedLines_spec k assms(4) by metis
  have wa: "exits env (quit_free TR_wa m g2) 1" and ok: "exits env (quit_free TR_ok m g2) 0" for m
    using exits_wa [OF g2(2) assms(2)] exits_ok [OF g2(2) assms(2), of env m] by simp_all
  show ?thesis
  proof (cases "norm_lines vo = norm_lines va")
    case True
    then show ?thesis using ok g1(1) g2(1) by (simp add: default_body_def first_difference_refl)
  next
    case False
    show ?thesis
    proof (cases "first_difference (norm_lines va) (norm_lines vo) 0")
      case None
      have "length (norm_lines va) \<noteq> length (norm_lines vo)" using False first_difference_None [OF None] by auto
      then show ?thesis using False None wa g1(1) g2(1) by (simp add: default_body_def Let_def)
    next
      case (Some i)
      then show ?thesis using False wa g1(1) g2(1) by (simp add: default_body_def)
    qed
  qed
qed

end
