(* ===== verification/TL_Pattern.thy ===== *)
theory TL_Pattern
  imports TL_InStream
begin

text \<open>
  The regular-expression-like \<^verbatim>\<open>class pattern\<close> of \<^verbatim>\<open>testlib.h\<close>: its constructor, which compiles a text
  into a tree, and \<^verbatim>\<open>matches\<close>, which walks the tree greedily. \<^verbatim>\<open>pattern::next\<close>, which draws a random
  string, is in the theory on random values.

  The scanning functions take their position as a reference \<^verbatim>\<open>size_t &pos\<close>: it is the state of the
  model's operations. The state of the constructor is arbitrary, since it only fails by \<^verbatim>\<open>__testlib_fail\<close>.
\<close>

section \<open>Scanning a pattern\<close>

abbreviation slash :: char where "slash \<equiv> CHR 0x5C"
abbreviation NUL :: char where "NUL \<equiv> CHR 0x00"

text \<open>\<^verbatim>\<open>s[pos]\<close> for \<^verbatim>\<open>pos <= s.length()\<close>: the character after the last is the null character.\<close>

definition char_at :: "string \<Rightarrow> nat \<Rightarrow> char" where
  "char_at s pos = (if pos < length s then s ! pos else NUL)"

definition pattern_isSlash :: "string \<Rightarrow> nat \<Rightarrow> bool" where
  "pattern_isSlash s pos \<longleftrightarrow> char_at s pos = slash"

text \<open>The loop of \<^verbatim>\<open>__pattern_isCommandChar\<close>: the number of slashes that end the first \<open>n\<close> characters.\<close>

primrec slashes_before :: "string \<Rightarrow> nat \<Rightarrow> nat" where
  "slashes_before s 0 = 0"
| "slashes_before s (Suc n) = (if s ! n = slash then Suc (slashes_before s n) else 0)"

definition pattern_isCommandChar :: "string \<Rightarrow> nat \<Rightarrow> char \<Rightarrow> bool" where
  "pattern_isCommandChar s pos val =
     (if pos \<ge> length s then False else slashes_before s pos mod 2 = 0 \<and> s ! pos = val)"

definition pattern_getChar :: "string \<Rightarrow> (nat, char) prog" where
  "pattern_getChar s pos =
     (if length s < pos then Crash
      else let pos = (if pattern_isSlash s pos then pos + 2 else pos + 1) in Ret (char_at s (pos - 1)) pos)"

definition illegal_pattern :: "string \<Rightarrow> ('s, 'a) prog" where
  "illegal_pattern s = testlib_fail (''pattern: Illegal pattern (or part) '' @ [CHR 0x22] @ s @ [CHR 0x22])"

text \<open>
  \<^verbatim>\<open>sscanf(part, "%d", &number)\<close>: white space, a sign, digits. A number that \<^verbatim>\<open>int\<close> cannot hold is
  undefined behaviour.
\<close>

definition scan_d :: "string \<Rightarrow> int option" where
  "scan_d s =
     (let (neg, t) = scan_sign (dropWhile c_isspace s); ds = takeWhile is_digit t
      in if ds = [] then None else Some (if neg then - digits_val ds else digits_val ds))"

lemma getChar_progress: "pattern_getChar s pos = Ret c pos' \<Longrightarrow> pos < pos'"
  by (auto simp: pattern_getChar_def Let_def split: if_splits)

function scan_parts :: "string \<Rightarrow> string list \<Rightarrow> string \<Rightarrow> (nat, string list \<times> string) prog" where
  "scan_parts s parts part pos =
     (if pos < length s \<and> \<not> pattern_isCommandChar s pos CHR ''}'' then
        if pattern_isCommandChar s pos CHR '','' then scan_parts s (parts @ [part]) [] (pos + 1)
        else andThen (pattern_getChar s pos) (\<lambda>c pos. scan_parts s parts (part @ [c]) pos)
      else Ret (parts, part) pos)"
  by pat_completeness auto
termination
  by (relation "measure (\<lambda>(s, parts, part, pos). length s - pos)") (auto dest: getChar_progress)

primrec scan_numbers :: "string \<Rightarrow> string list \<Rightarrow> (nat, int list) prog" where
  "scan_numbers s [] pos = Ret [] pos"
| "scan_numbers s (p # ps) pos =
     (if p = [] then illegal_pattern s pos
      else case scan_d p of
        None \<Rightarrow> illegal_pattern s pos
      | Some number \<Rightarrow>
          if number < INT_MIN \<or> INT_MAX < number then Crash
          else andThen (scan_numbers s ps pos) (\<lambda>numbers pos. Ret (number # numbers) pos))"

definition pattern_scanCounts :: "string \<Rightarrow> (nat, int \<times> int) prog" where
  "pattern_scanCounts s pos =
     (if pos \<ge> length s then Ret (1, 1) pos
      else if pattern_isCommandChar s pos CHR ''{'' then
        andThen (scan_parts s [] [] (pos + 1)) (\<lambda>(parts, part) pos.
          let parts = (if part \<noteq> [] then parts @ [part] else parts) in
          if \<not> pattern_isCommandChar s pos CHR ''}'' then illegal_pattern s pos
          else let pos = pos + 1 in
          if length parts < 1 \<or> length parts > 2 then illegal_pattern s pos
          else andThen (scan_numbers s parts pos) (\<lambda>numbers pos.
            let (from, to) = (if length numbers = 1 then (numbers ! 0, numbers ! 0) else (numbers ! 0, numbers ! 1))
            in if from > to then illegal_pattern s pos else Ret (from, to) pos))
      else if pattern_isCommandChar s pos CHR ''?'' then Ret (0, 1) (pos + 1)
      else if pattern_isCommandChar s pos CHR ''*'' then Ret (0, INT_MAX) (pos + 1)
      else if pattern_isCommandChar s pos CHR ''+'' then Ret (1, INT_MAX) (pos + 1)
      else Ret (1, 1) pos)"

text \<open>\<^verbatim>\<open>for (char c = prev; c != next; c++)\<close> and the last element, for \<^verbatim>\<open>prev <= next\<close>.\<close>

definition char_range :: "char \<Rightarrow> char \<Rightarrow> string" where
  "char_range prev nxt = map to_char [schar prev..schar nxt]"

definition push_prev :: "string \<Rightarrow> char \<Rightarrow> string" where
  "push_prev result prev = (if prev \<noteq> NUL then result @ [prev] else result)"

function scan_set :: "string \<Rightarrow> string \<Rightarrow> char \<Rightarrow> (nat, string) prog" where
  "scan_set s result prev pos =
     (if pos < length s \<and> \<not> pattern_isCommandChar s pos CHR '']'' then
        if pattern_isCommandChar s pos CHR ''-'' \<and> prev \<noteq> NUL then
          if pos + 1 + 1 = length s \<or> pattern_isCommandChar s (pos + 1) CHR '']''
          then scan_set s (result @ [prev]) CHR ''-'' (pos + 1)
          else andThen (pattern_getChar s (pos + 1)) (\<lambda>nxt pos.
            if schar prev > schar nxt then illegal_pattern s pos
            else scan_set s (result @ char_range prev nxt) NUL pos)
        else andThen (pattern_getChar s pos) (\<lambda>c pos. scan_set s (push_prev result prev) c pos)
      else Ret (push_prev result prev) pos)"
  by pat_completeness auto
termination
  by (relation "measure (\<lambda>(s, result, prev, pos). length s - pos)") (auto dest!: getChar_progress)

text \<open>\<^verbatim>\<open>std::binary_search\<close> on signed characters, by \<^verbatim>\<open>std::lower_bound\<close>.\<close>

function lower_bound :: "string \<Rightarrow> char \<Rightarrow> nat \<Rightarrow> nat \<Rightarrow> nat" where
  "lower_bound cs c first len =
     (if 0 < len then
        let half = len div 2 in
        if schar (cs ! (first + half)) < schar c then lower_bound cs c (first + half + 1) (len - half - 1)
        else lower_bound cs c first half
      else first)"
  by pat_completeness auto
termination
  by (relation "measure (\<lambda>(cs, c, first, len). len)") auto

definition binary_search :: "string \<Rightarrow> char \<Rightarrow> bool" where
  "binary_search cs c \<longleftrightarrow>
     (let i = lower_bound cs c 0 (length cs) in i \<noteq> length cs \<and> \<not> schar c < schar (cs ! i))"

definition sort_chars :: "string \<Rightarrow> string" where
  "sort_chars = sort_key schar"

definition complement_set :: "string \<Rightarrow> string" where
  "complement_set result = filter (\<lambda>c. \<not> binary_search (sort_chars result) c) (map to_char [0..254])"

definition pattern_scanCharSet :: "string \<Rightarrow> (nat, string) prog" where
  "pattern_scanCharSet s pos =
     (if pos \<ge> length s then illegal_pattern s pos
      else if pattern_isCommandChar s pos CHR ''['' then
        let pos = pos + 1; negative = pattern_isCommandChar s pos CHR ''^'';
            pos = (if negative then pos + 1 else pos)
        in andThen (scan_set s [] NUL pos) (\<lambda>result pos.
             if \<not> pattern_isCommandChar s pos CHR '']'' then illegal_pattern s pos
             else Ret (sort_chars (if negative then complement_set result else result)) (pos + 1))
      else andThen (pattern_getChar s pos) (\<lambda>c pos. Ret [c] pos))"

declare scan_parts.simps [simp del] scan_set.simps [simp del] lower_bound.simps [simp del]

section \<open>The constructor\<close>

datatype pattern = Pattern (pat_s: string) (pat_children: "pattern list") (pat_chars: string) (pat_from: int) (pat_to: int)

definition pattern_src :: "pattern \<Rightarrow> string" where
  "pattern_src p = pat_s p"

definition drop_spaces :: "string \<Rightarrow> string" where
  "drop_spaces s = map ((!) s) (filter (\<lambda>i. \<not> pattern_isCommandChar s i CHR '' '') [0..<length s])"

text \<open>The loop over the brackets: the depth, the first return to depth 0, the separators at depth 0.\<close>

function scan_brackets :: "string \<Rightarrow> nat \<Rightarrow> int \<Rightarrow> int \<Rightarrow> nat list \<Rightarrow> ('s, int \<times> int \<times> nat list) prog" where
  "scan_brackets s i opened firstClose seps g =
     (if i < length s then
        if pattern_isCommandChar s i CHR ''('' then scan_brackets s (i + 1) (opened + 1) firstClose seps g
        else if pattern_isCommandChar s i CHR '')'' then
          scan_brackets s (i + 1) (opened - 1)
            (if opened - 1 = 0 \<and> firstClose = - 1 then int i else firstClose) seps g
        else if opened < 0 then illegal_pattern s g
        else scan_brackets s (i + 1) opened firstClose
            (if pattern_isCommandChar s i CHR ''|'' \<and> opened = 0 then seps @ [i] else seps) g
      else Ret (opened, firstClose, seps) g)"
  by pat_completeness auto
termination
  by (relation "measure (\<lambda>(s, i, opened, firstClose, seps, g). length s - i)") auto

declare scan_brackets.simps [simp del]

text \<open>The parts of \<open>s\<close> between the separators.\<close>

primrec pattern_parts :: "string \<Rightarrow> nat \<Rightarrow> nat list \<Rightarrow> string list" where
  "pattern_parts s start [] = []"
| "pattern_parts s start (sep # seps) = take (sep - start) (drop start s) # pattern_parts s (sep + 1) seps"

text \<open>A call with a local variable passed by reference.\<close>

definition with_local :: "'p \<Rightarrow> ('p, 'a) prog \<Rightarrow> ('s, 'a \<times> 'p) prog" where
  "with_local x f g = (case f x of Ret a x \<Rightarrow> Ret (a, x) g | Quit q x \<Rightarrow> Quit q g | Crash \<Rightarrow> Crash)"

primrec for_each :: "('x \<Rightarrow> ('s, 'a) prog) \<Rightarrow> 'x list \<Rightarrow> ('s, 'a list) prog" where
  "for_each f [] g = Ret [] g"
| "for_each f (x # xs) g = andThen (f x g) (\<lambda>y g. andThen (for_each f xs g) (\<lambda>ys g. Ret (y # ys) g))"

lemma for_each_cong [fundef_cong]:
  "xs = xs' \<Longrightarrow> g = g' \<Longrightarrow> (\<And>x h. x \<in> set xs' \<Longrightarrow> f x h = f' x h) \<Longrightarrow> for_each f xs g = for_each f' xs' g'"
  by (induction xs' arbitrary: xs g g') (auto intro!: andThen_cong)

definition scan_item :: "string \<Rightarrow> (nat, string \<times> int \<times> int) prog" where
  "scan_item s pos = andThen (pattern_scanCharSet s pos) (\<lambda>chars pos.
     andThen (pattern_scanCounts s pos) (\<lambda>(from, to) pos. Ret (chars, from, to) pos))"

definition is_group :: "string \<Rightarrow> int \<Rightarrow> bool" where
  "is_group s firstClose \<longleftrightarrow> firstClose + 1 = int (length s) \<and> pattern_isCommandChar s 0 CHR ''('' \<and>
     pattern_isCommandChar s (length s - 1) CHR '')''"

lemma scan_set_mono: "scan_set s result prev pos = Ret r pos' \<Longrightarrow> pos \<le> pos'"
proof (induction s result prev pos rule: scan_set.induct)
  case (1 s result prev pos)
  then show ?case
    by (simp add: scan_set.simps [of s result prev pos] andThen_Ret_iff illegal_pattern_def testlib_fail_def split: if_splits)
       (fastforce dest: getChar_progress)+
qed

lemma scan_parts_mono: "scan_parts s parts part pos = Ret r pos' \<Longrightarrow> pos \<le> pos'"
proof (induction s parts part pos rule: scan_parts.induct)
  case (1 s parts part pos)
  then show ?case
    by (simp add: scan_parts.simps [of s parts part pos] andThen_Ret_iff split: if_splits)
       (fastforce dest: getChar_progress)+
qed

lemma scanCharSet_progress: "pattern_scanCharSet s pos = Ret r pos' \<Longrightarrow> pos < pos'"
  by (auto simp: pattern_scanCharSet_def illegal_pattern_def testlib_fail_def andThen_Ret_iff Let_def
      split: if_splits dest!: scan_set_mono getChar_progress)

lemma scan_numbers_pos: "scan_numbers s ps pos = Ret ns pos' \<Longrightarrow> pos' = pos"
  by (induction ps arbitrary: ns)
     (auto simp: illegal_pattern_def testlib_fail_def andThen_Ret_iff split: if_splits option.splits)

lemma scanCounts_mono: "pattern_scanCounts s pos = Ret r pos' \<Longrightarrow> pos \<le> pos'"
  by (auto simp: pattern_scanCounts_def illegal_pattern_def testlib_fail_def andThen_Ret_iff Let_def
      simp del: scan_numbers.simps split: if_splits prod.splits dest!: scan_parts_mono scan_numbers_pos)

lemma scan_item_progress: "with_local 0 (scan_item s) g = Ret (r, pos) g' \<Longrightarrow> 0 < pos"
  by (auto simp: with_local_def scan_item_def andThen_Ret_iff split: outcome.splits prod.splits
      dest!: scanCharSet_progress scanCounts_mono)

lemma drop_spaces_length: "length (drop_spaces s) \<le> length s"
  unfolding drop_spaces_def by (metis length_map length_filter_le length_upt minus_nat.diff_0)

lemma parts_shorter_from:
  "0 < start \<Longrightarrow> s \<noteq> [] \<Longrightarrow> p \<in> set (pattern_parts s start seps) \<Longrightarrow> length p < length s"
  by (induction seps arbitrary: start) (auto simp: min_def)

lemma parts_shorter:
  assumes "seps \<noteq> []" "\<forall>i\<in>set seps. i < length s" "p \<in> set (pattern_parts s 0 (seps @ [length s]))"
  shows "length p < length s"
proof (cases seps)
  case (Cons a as)
  then show ?thesis using assms parts_shorter_from [of "Suc a" s p "as @ [length s]"] by (cases "s = []") auto
qed (use assms(1) in simp)

lemma scan_brackets_seps:
  assumes "scan_brackets s i opened firstClose seps g = Ret (opened', firstClose', seps') g'" "\<forall>j\<in>set seps. j < length s"
  shows "\<forall>j\<in>set seps'. j < length s"
  using assms
proof (induction s i opened firstClose seps g rule: scan_brackets.induct)
  case (1 s i opened firstClose seps g)
  note eq = scan_brackets.simps [of s i opened firstClose seps g]
  consider "\<not> i < length s" | "i < length s" "pattern_isCommandChar s i CHR ''(''"
    | "i < length s" "\<not> pattern_isCommandChar s i CHR ''(''" "pattern_isCommandChar s i CHR '')''"
    | "i < length s" "\<not> pattern_isCommandChar s i CHR ''(''" "\<not> pattern_isCommandChar s i CHR '')''"
    by blast
  then show ?case
  proof cases
    case 1
    then have "scan_brackets s i opened firstClose seps g = Ret (opened, firstClose, seps) g" using eq by (simp only: if_False)
    then show ?thesis using "1.prems" by simp
  next
    case 2
    then have "scan_brackets s i opened firstClose seps g = scan_brackets s (i + 1) (opened + 1) firstClose seps g"
      using eq by (simp only: if_True)
    then show ?thesis using "1.IH"(1) [OF 2] "1.prems" by metis
  next
    case 3
    then have "scan_brackets s i opened firstClose seps g = scan_brackets s (i + 1) (opened - 1)
        (if opened - 1 = 0 \<and> firstClose = - 1 then int i else firstClose) seps g"
      using eq by (simp only: if_True if_False)
    then show ?thesis using "1.IH"(2) [OF 3] "1.prems" by metis
  next
    case 4
    let ?seps = "if pattern_isCommandChar s i CHR ''|'' \<and> opened = 0 then seps @ [i] else seps"
    have "\<not> opened < 0"
    proof
      assume "opened < 0"
      then have "scan_brackets s i opened firstClose seps g = illegal_pattern s g" using eq 4 by (simp only: if_True if_False)
      then show False using "1.prems"(1) by (simp add: illegal_pattern_def testlib_fail_def)
    qed
    moreover have "\<forall>j\<in>set ?seps. j < length s" using "1.prems"(2) 4(1) by auto
    moreover have "scan_brackets s i opened firstClose seps g = scan_brackets s (i + 1) opened firstClose ?seps g"
      using eq 4 calculation(1) by (simp only: if_True if_False)
    ultimately show ?thesis using "1.IH"(3) [OF 4] "1.prems"(1) by metis
  qed
qed

definition item_pattern :: "string \<Rightarrow> pattern list \<Rightarrow> (string \<times> int \<times> int) \<times> nat \<Rightarrow> pattern" where
  "item_pattern src children scanned = (case fst scanned of (chars, from, to) \<Rightarrow> Pattern src children chars from to)"

text \<open>
  \<^verbatim>\<open>pattern::pattern\<close>: a bracketed pattern has the inner pattern as its only child, a pattern with
  separators has one child for each alternative, any other pattern is a set of characters with a
  repetition count, followed by the rest as its only child.
\<close>

function pattern_new :: "string \<Rightarrow> ('s, pattern) prog" where
  "pattern_new src g =
     (let s = drop_spaces src in
      andThen (scan_brackets s 0 0 (- 1) [] g) (\<lambda>(opened, firstClose, seps) g.
        if opened \<noteq> 0 then illegal_pattern s g
        else if seps = [] \<and> is_group s firstClose then
          andThen (pattern_new (take (length s - 2) (drop 1 s)) g) (\<lambda>child g. Ret (Pattern src [child] [] 0 0) g)
        else if seps \<noteq> [] then
          andThen (for_each pattern_new (pattern_parts s 0 (seps @ [length s])) g) (\<lambda>children g.
            Ret (Pattern src children [] 0 0) g)
        else
          andThen (with_local 0 (scan_item s) g) (\<lambda>scanned g.
            if snd scanned < length s
            then andThen (pattern_new (drop (snd scanned) s) g) (\<lambda>child g. Ret (item_pattern src [child] scanned) g)
            else Ret (item_pattern src [] scanned) g)))"
  by pat_completeness auto
termination
proof (relation "measure (\<lambda>(src, g). length src)", goal_cases)
  case (2 src g s)
  then have "0 < length s" by (auto simp: is_group_def pattern_isCommandChar_def)
  then show ?case using 2(1) drop_spaces_length [of src] by (simp del: length_greater_0_conv)
next
  case (3 src g s a g1 opened y firstClose seps h x)
  have "\<forall>j\<in>set seps. j < length s" using 3(2,3,4) scan_brackets_seps [of s 0 0 "- 1" "[]" g opened firstClose seps g1] by simp
  then show ?case using parts_shorter [OF 3(7) _ 3(8)] 3(1) drop_spaces_length [of src] by simp
next
  case (4 src g s a g1 opened y firstClose seps g2 scanned g3)
  have "0 < snd scanned" using 4(8) scan_item_progress [of s g2 "fst scanned" "snd scanned" g3] by simp
  then show ?case using 4(1,9) drop_spaces_length [of src] by simp
qed simp

declare pattern_new.simps [simp del]

section \<open>Matching\<close>

function pattern_greedyMatch :: "string \<Rightarrow> nat \<Rightarrow> string \<Rightarrow> nat" where
  "pattern_greedyMatch s pos chars =
     (if pos < length s then
        if \<not> binary_search chars (s ! pos) then 0 else Suc (pattern_greedyMatch s (pos + 1) chars)
      else 0)"
  by pat_completeness auto
termination
  by (relation "measure (\<lambda>(s, pos, chars). length s - pos)") auto

declare pattern_greedyMatch.simps [simp del]

fun matches_at :: "pattern \<Rightarrow> string \<Rightarrow> nat \<Rightarrow> bool" where
  "matches_at (Pattern src children chars from to) s pos =
     (let size = pattern_greedyMatch s pos chars in
      if to > 0 \<and> int size < from then False
      else let pos = (if to > 0 then pos + (if int size > to then nat to else size) else pos) in
           if length children > 0 then list_ex (\<lambda>child. matches_at child s pos) children
           else pos = length s)"

definition pattern_matches :: "pattern \<Rightarrow> string \<Rightarrow> bool" where
  "pattern_matches p s = matches_at p s 0"

section \<open>Sorted sets of characters\<close>

abbreviation sorted_chars :: "string \<Rightarrow> bool" where
  "sorted_chars cs \<equiv> sorted (map schar cs)"

lemma lower_bound_spec:
  assumes "sorted_chars cs" "first + len \<le> length cs" "\<forall>i<first. schar (cs ! i) < schar c"
    "\<forall>i. first + len \<le> i \<and> i < length cs \<longrightarrow> schar c \<le> schar (cs ! i)"
  shows "lower_bound cs c first len \<le> length cs \<and> (\<forall>i<lower_bound cs c first len. schar (cs ! i) < schar c) \<and>
    (\<forall>i. lower_bound cs c first len \<le> i \<and> i < length cs \<longrightarrow> schar c \<le> schar (cs ! i))"
  using assms
proof (induction cs c first len rule: lower_bound.induct)
  case (1 cs c first len)
  have mono: "schar (cs ! i) \<le> schar (cs ! j)" if "i \<le> j" "j < length cs" for i j
    using sorted_nth_mono [OF "1.prems"(1), of i j] that by simp
  define m where "m = first + len div 2"
  show ?case
  proof (cases "0 < len")
    case False
    then have "lower_bound cs c first len = first" by (simp add: lower_bound.simps [of cs c first 0])
    then show ?thesis using "1.prems" False by simp
  next
    case True
    then have m: "m < length cs" using "1.prems"(2) by (simp add: m_def)
    show ?thesis
    proof (cases "schar (cs ! m) < schar c")
      case less: True
      have "\<forall>i<m + 1. schar (cs ! i) < schar c" using mono [OF _ m] less by (metis less_Suc_eq_le Suc_eq_plus1 order_le_less_trans)
      moreover have "m + 1 + (len - len div 2 - 1) = first + len" using True by (simp add: m_def)
      ultimately show ?thesis
        using "1.IH"(1) [OF True refl] less "1.prems" True
        by (simp add: lower_bound.simps [of cs c first len] Let_def m_def)
    next
      case ge: False
      have "\<forall>i. m \<le> i \<and> i < length cs \<longrightarrow> schar c \<le> schar (cs ! i)" using mono ge by (metis linorder_not_less order_trans)
      then show ?thesis
        using "1.IH"(2) [OF True refl] ge "1.prems" True m
        by (simp add: lower_bound.simps [of cs c first len] Let_def m_def)
    qed
  qed
qed

lemma binary_search_iff:
  assumes "sorted_chars cs"
  shows "binary_search cs c \<longleftrightarrow> c \<in> set cs"
proof -
  define k where "k = lower_bound cs c 0 (length cs)"
  have k: "k \<le> length cs" "\<forall>i<k. schar (cs ! i) < schar c" "\<forall>i. k \<le> i \<and> i < length cs \<longrightarrow> schar c \<le> schar (cs ! i)"
    using lower_bound_spec [OF assms, of 0 "length cs" c] by (auto simp: k_def)
  have "binary_search cs c \<longleftrightarrow> k < length cs \<and> cs ! k = c"
    using k(1,3) by (auto simp: binary_search_def k_def [symmetric] Let_def intro: order_antisym)
  also have "\<dots> \<longleftrightarrow> c \<in> set cs"
  proof
    assume "c \<in> set cs"
    then obtain j where j: "j < length cs" "cs ! j = c" by (auto simp: in_set_conv_nth)
    then have "k \<le> j" using k(2) by (metis linorder_not_less less_irrefl)
    moreover have "schar (cs ! k) \<le> schar c" using sorted_nth_mono [OF assms \<open>k \<le> j\<close>] j \<open>k \<le> j\<close> by simp
    ultimately show "k < length cs \<and> cs ! k = c" using k(3) j by (metis order_antisym order_refl order_le_less_trans schar_eq_iff)
  qed auto
  finally show ?thesis .
qed

lemma sorted_sort_chars [simp]: "sorted_chars (sort_chars cs)"
  by (simp add: sort_chars_def)

lemma set_sort_chars [simp]: "set (sort_chars cs) = set cs"
  by (simp add: sort_chars_def)

lemma set_complement_set: "set (complement_set cs) = UNIV - set cs - {CHR 0xFF}"
proof -
  have "c \<in> set (map to_char [0..254]) \<longleftrightarrow> c \<noteq> CHR 0xFF" for c
  proof -
    have "c \<in> set (map to_char [0..254]) \<longleftrightarrow> uchar c \<noteq> EOFC"
      using uchar_range [of c] uchar_to_char by (force simp: EOFC_def image_iff intro: bexI [where x = "uchar c"])
    then show ?thesis by (simp add: uchar_eq_EOFC_iff)
  qed
  then show ?thesis unfolding complement_set_def set_filter by (auto simp only: binary_search_iff sorted_sort_chars set_sort_chars)
qed

lemma greedyMatch_takeWhile:
  assumes "sorted_chars chars"
  shows "pattern_greedyMatch s pos chars = length (takeWhile (\<lambda>c. c \<in> set chars) (drop pos s))"
  using assms
proof (induction s pos chars rule: pattern_greedyMatch.induct)
  case (1 s pos chars)
  then show ?case
    by (cases "pos < length s") (auto simp: pattern_greedyMatch.simps [of s pos] Cons_nth_drop_Suc [symmetric] binary_search_iff)
qed

section \<open>Well-formed patterns\<close>

fun wf_pattern :: "pattern \<Rightarrow> bool" where
  "wf_pattern (Pattern src children chars from to) \<longleftrightarrow>
     sorted_chars chars \<and> from \<le> to \<and> list_all wf_pattern children"

lemma scanCharSet_sorted: "pattern_scanCharSet s pos = Ret cs pos' \<Longrightarrow> sorted_chars cs"
  by (auto simp: pattern_scanCharSet_def illegal_pattern_def testlib_fail_def andThen_Ret_iff Let_def split: if_splits)

lemma scanCounts_ordered: "pattern_scanCounts s pos = Ret (from, to) pos' \<Longrightarrow> from \<le> to"
  by (auto simp: pattern_scanCounts_def illegal_pattern_def testlib_fail_def andThen_Ret_iff Let_def INT_MAX_def
      simp del: scan_numbers.simps split: if_splits prod.splits)

lemma scan_item_wf:
  "with_local 0 (scan_item s) g = Ret scanned g' \<Longrightarrow> list_all wf_pattern children \<Longrightarrow> wf_pattern (item_pattern src children scanned)"
  by (auto simp: with_local_def scan_item_def item_pattern_def andThen_Ret_iff split: outcome.splits prod.splits
      dest: scanCharSet_sorted scanCounts_ordered)

lemma for_each_all:
  assumes "for_each f xs g = Ret ys g'" "\<And>x h y h'. x \<in> set xs \<Longrightarrow> f x h = Ret y h' \<Longrightarrow> P y"
  shows "list_all P ys"
  using assms by (induction xs arbitrary: g ys) (auto simp: andThen_Ret_iff, blast+)

text \<open>Every pattern the constructor builds is well-formed.\<close>

lemma pattern_new_wf: "pattern_new src g = Ret p g' \<Longrightarrow> wf_pattern p"
proof (induction src g arbitrary: p g' rule: pattern_new.induct)
  case (1 src g)
  let ?s = "drop_spaces src"
  obtain opened firstClose seps g1 where sc: "scan_brackets ?s 0 0 (- 1) [] g = Ret (opened, firstClose, seps) g1"
    and ok: "\<not> opened \<noteq> 0"
    using "1.prems" by (auto simp: pattern_new.simps [of src g] Let_def andThen_Ret_iff illegal_pattern_def testlib_fail_def split: if_splits)
  note new = "1.prems" [unfolded pattern_new.simps [of src g] Let_def sc andThen_simps prod.case if_not_P [OF ok]]
  note IH = "1.IH" [OF refl sc refl refl ok]
  consider "seps = [] \<and> is_group ?s firstClose" | "\<not> (seps = [] \<and> is_group ?s firstClose)" "seps \<noteq> []"
    | "\<not> (seps = [] \<and> is_group ?s firstClose)" "\<not> seps \<noteq> []" by blast
  then show ?case
  proof cases
    case 1
    then obtain child where "pattern_new (take (length ?s - 2) (drop 1 ?s)) g1 = Ret child g'" "p = Pattern src [child] [] 0 0"
      using new by (auto simp only: if_True andThen_Ret_iff outcome.inject simp_thms)
    then show ?thesis using IH(1) [OF 1] by simp
  next
    case 2
    then obtain children where ch: "for_each pattern_new (pattern_parts ?s 0 (seps @ [length ?s])) g1 = Ret children g'"
      and p: "p = Pattern src children [] 0 0"
      using new by (auto simp only: if_True if_False andThen_Ret_iff outcome.inject simp_thms)
    have "list_all wf_pattern children" by (rule for_each_all [OF ch], rule IH(2) [OF 2])
    then show ?thesis using p by simp
  next
    case 3
    then obtain scanned g2 where it: "with_local 0 (scan_item ?s) g1 = Ret scanned g2"
      and p: "(if snd scanned < length ?s
         then andThen (pattern_new (drop (snd scanned) ?s) g2) (\<lambda>child g. Ret (item_pattern src [child] scanned) g)
         else Ret (item_pattern src [] scanned) g2) = Ret p g'"
      using new by (auto simp only: if_True if_False andThen_Ret_iff simp_thms)
    show ?thesis
    proof (cases "snd scanned < length ?s")
      case True
      then obtain child where "pattern_new (drop (snd scanned) ?s) g2 = Ret child g'" "p = item_pattern src [child] scanned"
        using p by (auto simp only: if_True andThen_Ret_iff outcome.inject)
      then show ?thesis using IH(3) [OF 3 it True] scan_item_wf [OF it, of "[child]" src] by simp
    next
      case False
      then show ?thesis using p scan_item_wf [OF it, of "[]" src] by simp
    qed
  qed
qed

section \<open>The language of a pattern\<close>

text \<open>
  What a pattern means as a regular expression: a block of \<open>from\<close> to \<open>to\<close> characters of the set, then
  a word of one of the children. The matcher takes the longest block it can and never gives a
  character back, so it only finds words of the language; it finds all of them when a block that may
  be cut short is never followed by one of its own characters.
\<close>

definition in_block :: "string \<Rightarrow> int \<Rightarrow> int \<Rightarrow> string \<Rightarrow> bool" where
  "in_block chars from to u \<longleftrightarrow>
     (if to > 0 then set u \<subseteq> set chars \<and> from \<le> int (length u) \<and> int (length u) \<le> to else u = [])"

inductive in_lang :: "pattern \<Rightarrow> string \<Rightarrow> bool" where
  leaf: "in_block chars from to u \<Longrightarrow> in_lang (Pattern src [] chars from to) u"
| node: "in_block chars from to u \<Longrightarrow> c \<in> set children \<Longrightarrow> in_lang c v \<Longrightarrow>
    in_lang (Pattern src children chars from to) (u @ v)"

inductive_simps in_lang_Pattern: "in_lang (Pattern src children chars from to) w"

text \<open>The length of the block the matcher takes.\<close>

definition block_length :: "string \<Rightarrow> int \<Rightarrow> string \<Rightarrow> nat" where
  "block_length chars to w = (if to > 0 then nat (min (int (length (takeWhile (\<lambda>c. c \<in> set chars) w))) to) else 0)"

text \<open>The matcher on what is left of the string.\<close>

fun accepts :: "pattern \<Rightarrow> string \<Rightarrow> bool" where
  "accepts (Pattern src children chars from to) w \<longleftrightarrow>
     in_block chars from to (take (block_length chars to w) w) \<and>
     (if children = [] then drop (block_length chars to w) w = []
      else list_ex (\<lambda>c. accepts c (drop (block_length chars to w) w)) children)"

lemma block_length_le: "block_length chars to w \<le> length w"
  using length_takeWhile_le [of "\<lambda>c. c \<in> set chars" w] unfolding block_length_def by (auto simp: min_def)

lemma take_block: "set (take (block_length chars to w) w) \<subseteq> set chars" if "to > 0"
proof -
  let ?n = "length (takeWhile (\<lambda>c. c \<in> set chars) w)"
  have "block_length chars to w \<le> ?n" using that by (simp add: block_length_def)
  then have "set (take (block_length chars to w) w) \<subseteq> set (take ?n w)" by (rule set_take_subset_set_take)
  also have "take ?n w = takeWhile (\<lambda>c. c \<in> set chars) w" by (metis takeWhile_eq_take)
  finally show ?thesis using set_takeWhileD by fastforce
qed

lemma matches_at_accepts:
  assumes "wf_pattern p" "pos \<le> length s"
  shows "matches_at p s pos \<longleftrightarrow> accepts p (drop pos s)"
  using assms
proof (induction p s pos rule: matches_at.induct)
  case (1 src children chars lo to s pos)
  let ?n = "length (takeWhile (\<lambda>c. c \<in> set chars) (drop pos s))" and ?b = "block_length chars to (drop pos s)"
  have g: "pattern_greedyMatch s pos chars = ?n" using "1.prems" by (simp add: greedyMatch_takeWhile)
  have b: "(if to > 0 then pos + (if int ?n > to then nat to else ?n) else pos) = pos + ?b"
    by (simp add: block_length_def min_def)
  have short: "to > 0 \<and> int ?n < lo \<longleftrightarrow> \<not> in_block chars lo to (take ?b (drop pos s))"
    using "1.prems"(1) take_block [of to chars "drop pos s"] block_length_le [of chars to "drop pos s"]
    by (cases "to > 0") (auto simp: in_block_def block_length_def)
  have le: "pos + ?b \<le> length s" using block_length_le [of chars to "drop pos s"] "1.prems"(2) by simp
  show ?case
  proof (cases "to > 0 \<and> int ?n < lo")
    case True
    then show ?thesis using short g by simp
  next
    case False
    have IH: "matches_at c s (pos + ?b) = accepts c (drop (pos + ?b) s)" if "c \<in> set children" for c
      using "1.IH" [OF refl, unfolded g, OF False refl, unfolded b] that length_pos_if_in_set [OF that] "1.prems"(1) le
      by (simp add: list_all_iff)
    show ?thesis using False short g b le IH
      by (auto simp: Let_def list_ex_iff add.commute)
  qed
qed

lemma accepts_sound: "accepts p w \<Longrightarrow> in_lang p w"
proof (induction p w rule: accepts.induct)
  case (1 src children chars lo to w)
  let ?b = "block_length chars to w"
  have block: "in_block chars lo to (take ?b w)" using "1.prems" by simp
  show ?case
  proof (cases "children = []")
    case True
    then show ?thesis using "1.prems" in_lang.leaf [OF block] by simp
  next
    case False
    then obtain c where c: "c \<in> set children" "accepts c (drop ?b w)" using "1.prems" by (auto simp: list_ex_iff)
    then show ?thesis using in_lang.node [OF block c(1) "1.IH" [OF False c]] by simp
  qed
qed

text \<open>The characters that a word of the language may start with.\<close>

fun starts :: "pattern \<Rightarrow> string" where
  "starts (Pattern src children chars from to) =
     (if to > 0 then chars else []) @ (if to > 0 \<and> from > 0 then [] else concat (map starts children))"

text \<open>No block that may be cut short is followed by one of its characters.\<close>

fun deterministic :: "pattern \<Rightarrow> bool" where
  "deterministic (Pattern src children chars from to) \<longleftrightarrow>
     list_all deterministic children \<and>
     (to \<le> 0 \<or> from = to \<or> list_all (\<lambda>c. list_all (\<lambda>x. x \<notin> set chars) (starts c)) children)"

lemma in_lang_starts: "in_lang p w \<Longrightarrow> w \<noteq> [] \<Longrightarrow> hd w \<in> set (starts p)"
proof (induction rule: in_lang.induct)
  case (leaf chars lo to u src)
  then show ?case by (cases u) (auto simp: in_block_def split: if_splits)
next
  case (node chars lo to u c children v src)
  then show ?case by (cases u) (auto simp: in_block_def split: if_splits)
qed

lemma block_length_exact:
  assumes "in_block chars lo to u" "to \<le> 0 \<or> lo = to \<or> v = [] \<or> hd v \<notin> set chars"
  shows "block_length chars to (u @ v) = length u"
proof (cases "to > 0")
  case True
  then have u: "set u \<subseteq> set chars" "lo \<le> int (length u)" "int (length u) \<le> to" using assms(1) by (auto simp: in_block_def)
  then have tw: "takeWhile (\<lambda>c. c \<in> set chars) (u @ v) = u @ takeWhile (\<lambda>c. c \<in> set chars) v"
    by (auto intro: takeWhile_append2)
  show ?thesis
  proof (cases "lo = to")
    case True
    then show ?thesis using u tw \<open>to > 0\<close> by (simp add: block_length_def)
  next
    case False
    then have "takeWhile (\<lambda>c. c \<in> set chars) v = []" using assms(2) \<open>to > 0\<close> by (cases v) auto
    then show ?thesis using u tw \<open>to > 0\<close> by (simp add: block_length_def)
  qed
next
  case False
  then show ?thesis using assms(1) by (simp add: in_block_def block_length_def)
qed

lemma accepts_complete: "in_lang p w \<Longrightarrow> deterministic p \<Longrightarrow> accepts p w"
proof (induction rule: in_lang.induct)
  case (leaf chars lo to u src)
  then show ?case using block_length_exact [of chars lo to u "[]"] by simp
next
  case (node chars lo to u c children v src)
  have "to \<le> 0 \<or> lo = to \<or> v = [] \<or> hd v \<notin> set chars"
    using node.prems node.hyps(2) in_lang_starts [OF node.hyps(3)] by (auto simp: list_all_iff)
  then have "block_length chars to (u @ v) = length u" by (rule block_length_exact [OF node.hyps(1)])
  then show ?case using node by (auto simp: list_ex_iff list_all_iff)
qed

lemma pattern_matches_accepts: "wf_pattern p \<Longrightarrow> pattern_matches p w \<longleftrightarrow> accepts p w"
  using matches_at_accepts [of p 0 w] by (simp add: pattern_matches_def)

lemma pattern_matches_in_lang: "wf_pattern p \<Longrightarrow> pattern_matches p w \<Longrightarrow> in_lang p w"
  using pattern_matches_accepts accepts_sound by blast

lemma pattern_matches_iff: "wf_pattern p \<Longrightarrow> deterministic p \<Longrightarrow> pattern_matches p w \<longleftrightarrow> in_lang p w"
  using pattern_matches_accepts accepts_sound accepts_complete by blast

end
