(* ===== verification/TL_Hcmp.thy ===== *)
theory TL_Hcmp
  imports TL_Token_Checkers TL_Pattern
begin

text \<open>
  The checker \<^verbatim>\<open>hcmp\<close>, which compares two integers of any length as texts: both must match the pattern
  \<^verbatim>\<open>0|-?[1-9][0-9]*\<close>. The pattern is a global object, compiled before \<^verbatim>\<open>main\<close> runs.
\<close>

section \<open>The program\<close>

definition pnum :: "(unit, pattern) outcome" where
  "pnum = pattern_new ''0|-?[1-9][0-9]*'' ()"

definition isNumeric :: "pattern \<Rightarrow> string \<Rightarrow> bool" where
  "isNumeric p s = pattern_matches p s"

definition hcmp_body :: "pattern \<Rightarrow> (testlib, int) prog" where
  "hcmp_body p g =
     andThen (on_ans readWord g) (\<lambda>ja g.
     andThen (on_ouf readWord g) (\<lambda>pa g.
       if \<not> isNumeric p ja then quit_free TR_fail (compress ja @ '' is not a valid integer'') g
       else andThen (on_ans seekEof g) (\<lambda>ended g.
         if \<not> ended then quit_free TR_fail ''expected exactly one token in the answer file'' g
         else if \<not> isNumeric p pa then quit_free TR_pe (compress pa @ '' is not a valid integer'') g
         else if ja \<noteq> pa then quit_free TR_wa (''expected '' @ sq (compress ja) @ '', found '' @ sq (compress pa)) g
         else quit_free TR_ok (''answer is '' @ sq (compress ja)) g)))"

definition hcmp_main :: "env \<Rightarrow> string option list \<Rightarrow> (testlib, int) outcome" where
  "hcmp_main env argv = (case pnum of
     Ret p u \<Rightarrow> checker_main ''compare two signed huge integers'' (hcmp_body p) env argv
   | Quit q u \<Rightarrow> Quit q testlib_init
   | Crash \<Rightarrow> Crash)"

section \<open>The pattern of an integer\<close>

definition pnum_pattern :: pattern where
  "pnum_pattern = Pattern ''0|-?[1-9][0-9]*''
     [Pattern ''0'' [] ''0'' 1 1,
      Pattern ''-?[1-9][0-9]*''
        [Pattern ''[1-9][0-9]*'' [Pattern ''[0-9]*'' [] ''0123456789'' 0 INT_MAX] ''123456789'' 1 1] ''-'' 0 1] [] 0 0"

lemma pnum_compiled: "pnum = Ret pnum_pattern ()"
  by code_simp

lemma pnum_deterministic: "wf_pattern pnum_pattern" "deterministic pnum_pattern"
  by code_simp+

lemma is_digit_iff: "is_digit c \<longleftrightarrow> c \<in> set ''0123456789''"
proof -
  have "is_digit c \<longleftrightarrow> schar c \<in> set [48..57]" by (simp only: is_digit_def set_upto atLeastAtMost_iff)
  also have "[48..57] = map schar ''0123456789''" by code_simp
  also have "schar c \<in> set (map schar ''0123456789'') \<longleftrightarrow> c \<in> set ''0123456789''"
    unfolding set_map by (rule inj_image_mem_iff) (simp add: inj_def)
  finally show ?thesis .
qed

lemma nonzero_digit_iff: "x \<in> set ''123456789'' \<longleftrightarrow> is_digit x \<and> x \<noteq> CHR ''0''"
  unfolding is_digit_iff by auto

lemma in_lang_leaf: "in_lang (Pattern src [] chars lo hi) w \<longleftrightarrow> in_block chars lo hi w"
  unfolding in_lang_Pattern list.set(1) by simp

lemma in_lang_child: "in_lang (Pattern src [c] chars lo hi) w \<longleftrightarrow> (\<exists>u v. w = u @ v \<and> in_block chars lo hi u \<and> in_lang c v)"
  unfolding in_lang_Pattern by auto

lemma in_block_one: "in_block chars 1 1 u \<longleftrightarrow> (\<exists>x\<in>set chars. u = [x])"
  by (cases u) (auto simp: in_block_def)

lemma in_block_opt: "in_block chars 0 1 u \<longleftrightarrow> u = [] \<or> (\<exists>x\<in>set chars. u = [x])"
  by (cases u) (auto simp: in_block_def)

lemma in_lang_one: "in_lang (Pattern src [c] chars 1 1) w \<longleftrightarrow> (\<exists>x v. w = x # v \<and> x \<in> set chars \<and> in_lang c v)"
  unfolding in_lang_child in_block_one by (metis append_Cons append_Nil)

lemma in_lang_opt:
  "in_lang (Pattern src [c] chars 0 1) w \<longleftrightarrow> in_lang c w \<or> (\<exists>x v. w = x # v \<and> x \<in> set chars \<and> in_lang c v)"
  unfolding in_lang_child in_block_opt by (metis append_Cons append_Nil)

abbreviation positive_pattern :: pattern where
  "positive_pattern \<equiv> Pattern ''[1-9][0-9]*'' [Pattern ''[0-9]*'' [] ''0123456789'' 0 INT_MAX] ''123456789'' 1 1"

lemma in_lang_positive:
  assumes "int (length w) \<le> INT_MAX"
  shows "in_lang positive_pattern w \<longleftrightarrow> canonical_nat w \<and> w \<noteq> ''0''"
proof -
  have "in_block ''0123456789'' 0 INT_MAX v \<longleftrightarrow> list_all is_digit v \<and> int (length v) \<le> INT_MAX" for v
    unfolding in_block_def list_all_iff is_digit_iff by (auto simp: INT_MAX_def simp del: list.set)
  then have "in_lang positive_pattern w \<longleftrightarrow>
      (\<exists>x v. w = x # v \<and> x \<in> set ''123456789'' \<and> list_all is_digit v \<and> int (length v) \<le> INT_MAX)"
    unfolding in_lang_one in_lang_leaf by simp
  then show ?thesis using assms unfolding nonzero_digit_iff by (cases w) (auto simp: canonical_nat_def)
qed

text \<open>The pattern matches the canonical decimal texts, as far as their length fits an \<^verbatim>\<open>int\<close>.\<close>

lemma isNumeric_iff:
  assumes "int (length w) \<le> INT_MAX"
  shows "isNumeric pnum_pattern w \<longleftrightarrow> canonical_int w"
proof -
  let ?neg = "Pattern ''-?[1-9][0-9]*'' [positive_pattern] ''-'' 0 1"
  have neg: "in_lang ?neg w \<longleftrightarrow> in_lang positive_pattern w \<or> (\<exists>v. w = CHR ''-'' # v \<and> in_lang positive_pattern v)"
    unfolding in_lang_opt by auto
  have "isNumeric pnum_pattern w \<longleftrightarrow> in_lang pnum_pattern w"
    by (simp add: isNumeric_def pattern_matches_iff pnum_deterministic)
  also have "\<dots> \<longleftrightarrow> in_lang (Pattern ''0'' [] ''0'' 1 1) w \<or> in_lang ?neg w"
    unfolding pnum_pattern_def in_lang_Pattern [of "''0|-?[1-9][0-9]*''"] by (auto simp: in_block_def)
  also have "\<dots> \<longleftrightarrow> w = ''0'' \<or> (canonical_nat w \<and> w \<noteq> ''0'') \<or> (\<exists>v. w = CHR ''-'' # v \<and> canonical_nat v \<and> v \<noteq> ''0'')"
    unfolding neg in_lang_leaf in_block_one using in_lang_positive [OF assms] in_lang_positive [of "tl w"] assms by auto
  also have "\<dots> \<longleftrightarrow> canonical_int w"
    by (cases w) (auto simp: canonical_int_def canonical_nat_def is_digit_def schar_def)
  finally show ?thesis .
qed

section \<open>The verdict\<close>

definition hcmp_verdict :: "string list \<Rightarrow> string list \<Rightarrow> int" where
  "hcmp_verdict js ps =
     (if js = [] then 3 else if ps = [] then 2
      else if \<not> canonical_int (hd js) \<or> tl js \<noteq> [] then 3
      else if \<not> canonical_int (hd ps) then 2
      else if hd js \<noteq> hd ps then 1
      else if tl ps = [] then 0 else 2)"

lemma short_word: "tokens v = t # ts \<Longrightarrow> short_tokens v \<Longrightarrow> int (length (map to_char t)) \<le> INT_MAX"
  by (auto simp: short_tokens_def INT_MAX_def)

lemma hcmp_body_exits:
  assumes "judging ko ka vo va g" "checker_streams ko ka" "short_tokens vo" "short_tokens va"
  shows "exits env (hcmp_body pnum_pattern g) (hcmp_verdict (words va) (words vo))"
proof (cases "tokens va")
  case Nil
  then have "exits env (hcmp_body pnum_pattern g) 3"
    unfolding hcmp_body_def using assms(1,2) readWord_no_token
    by (intro exits_ans [OF assms(1,2)]) (auto simp: judging_def checker_streams_def)
  then show ?thesis using Nil by (simp add: hcmp_verdict_def words_def)
next
  case ans: (Cons t ts)
  then obtain g1 where g1: "on_ans readWord g = Ret (map to_char t) g1" "judging ko ka vo (after_token va) g1"
    using judging_word_ans(2) [OF assms(1,2) ans assms(4)] by blast
  note wa = words_simps(3) [OF ans] isNumeric_iff [OF short_word [OF ans assms(4)]]
  show ?thesis
  proof (cases "tokens vo")
    case Nil
    then have "exits env (hcmp_body pnum_pattern g) 2"
      unfolding hcmp_body_def g1(1) andThen_simps(1) using g1(2) assms(2) readWord_no_token
      by (intro exits_ouf [OF g1(2) assms(2), where result = TR_unexpected_eof]) (auto simp: judging_def checker_streams_def)
    then show ?thesis using Nil wa by (simp add: hcmp_verdict_def words_def)
  next
    case out: (Cons u us)
    then obtain g2 where g2: "on_ouf readWord g1 = Ret (map to_char u) g2" "judging ko ka (after_token vo) (after_token va) g2"
      using judging_word_ouf(2) [OF g1(2) assms(2) out assms(3)] by blast
    obtain g3 where g3: "on_ans seekEof g2 = Ret (words (after_token va) = []) g3"
      "judging ko ka (after_token vo) (dropWhile isBlanks (after_token va)) g3"
      using judging_seekEof_ans [OF g2(2)] unfolding words_simps(1) by blast
    note wo = words_simps(3) [OF out] isNumeric_iff [OF short_word [OF out assms(3)]]
    have "exits env (quit_free TR_ok m g3) (if words (after_token vo) = [] then 0 else 2)" for m
      using exits_ok [OF g3(2) assms(2), of env m] unfolding words_simps(1) tokens_Nil .
    then show ?thesis
      using g1(1) g2(1) g3(1) wa wo exits_fail [OF g2(2)] exits_fail [OF g3(2)] exits_pe [OF g3(2) assms(2)] exits_wa [OF g3(2) assms(2)]
      by (simp add: hcmp_body_def hcmp_verdict_def)
  qed
qed

end
