(* ===== verification/TL_Validator.thy ===== *)
theory TL_Validator
  imports TL_Register "HOL-Library.AList" "HOL-Library.Char_ord" "HOL-Library.List_Lexorder"
begin

text \<open>
  \<^verbatim>\<open>class Validator\<close> of \<^verbatim>\<open>testlib.h\<close>: the variables, bounds and features a validator of test files has
  seen, its log files, the markup of a test and the extraction of one test case, and the registration
  of a validator.

  A \<^verbatim>\<open>std::map\<close> from strings is an association list with distinct keys, iterated in the order of
  the keys; a \<^verbatim>\<open>std::set\<close> of strings is a set. The order of \<^verbatim>\<open>std::string\<close> is lexicographic in the
  unsigned bytes, which is the library's order on \<^typ>\<open>string\<close>. What has been written to files is
  a component of the state.
\<close>

section \<open>Bounds\<close>

definition VALIDATOR_MAX_VARIABLE_COUNT :: nat where "VALIDATOR_MAX_VARIABLE_COUNT = 255"

record ValidatorBoundsHit =
  minHit :: bool
  maxHit :: bool

definition merge :: "ValidatorBoundsHit \<Rightarrow> ValidatorBoundsHit \<Rightarrow> bool \<Rightarrow> bool \<Rightarrow> ValidatorBoundsHit" where
  "merge this other ignoreMin ignoreMax =
     \<lparr>minHit = (minHit this \<or> minHit other) \<or> ignoreMin, maxHit = (maxHit this \<or> maxHit other) \<or> ignoreMax\<rparr>"

record ConstantBound =
  cb_value :: string
  cb_broken :: bool

text \<open>
  The argument is the text that \<^verbatim>\<open>std::to_string\<close> makes of the bound: for an integer \<open>vtos\<close>, for a double the
  format \<^verbatim>\<open>%f\<close>.
\<close>

definition adjust :: "string \<Rightarrow> ConstantBound \<Rightarrow> ConstantBound" where
  "adjust t_string b =
     (if length t_string \<ge> 32 then b\<lparr>cb_broken := True, cb_value := ''''\<rparr>
      else let b = (if \<not> cb_broken b \<and> cb_value b = '''' then b\<lparr>cb_value := t_string\<rparr> else b)
           in if \<not> cb_broken b \<and> cb_value b \<noteq> t_string then b\<lparr>cb_broken := True, cb_value := ''''\<rparr> else b)"

definition has_value :: "ConstantBound \<Rightarrow> bool" where
  "has_value b \<longleftrightarrow> cb_value b \<noteq> '''' \<and> \<not> cb_broken b \<and> length (cb_value b) < 32"

record ConstantBounds =
  lowerBound :: ConstantBound
  upperBound :: ConstantBound

section \<open>The validator\<close>

record Validator =
  v_initialized :: bool
  v_testset :: string
  v_group :: string
  v_testOverviewLogFileName :: string
  v_testMarkupFileName :: string
  v_testCase :: int
  v_testCaseFileName :: string
  v_boundsHit :: "(string \<times> ValidatorBoundsHit) list"
  v_constantBounds :: "(string \<times> ConstantBounds) list"
  v_features :: "string set"
  v_hitFeatures :: "string set"
  v_variables :: "string set"
  v_written :: "(string \<times> string) list"

definition Validator_new :: Validator where
  "Validator_new = \<lparr>v_initialized = False, v_testset = ''tests'', v_group = '''',
     v_testOverviewLogFileName = '''', v_testMarkupFileName = '''', v_testCase = - 1, v_testCaseFileName = '''',
     v_boundsHit = [], v_constantBounds = [], v_features = {}, v_hitFeatures = {}, v_variables = {}, v_written = []\<rparr>"

definition isVariableNameBoundsAnalyzable :: "string \<Rightarrow> bool" where
  "isVariableNameBoundsAnalyzable variableName \<longleftrightarrow>
     list_all (\<lambda>c. \<not> (is_digit c \<or> schar c < schar CHR '' '')) variableName"

definition isFeatureNameAnalyzable :: "string \<Rightarrow> bool" where
  "isFeatureNameAnalyzable featureName \<longleftrightarrow> list_all (\<lambda>c. \<not> schar c < schar CHR '' '') featureName"

type_synonym vstate = "testlib \<times> Validator"

definition on_testlib :: "(testlib, 'a) prog \<Rightarrow> (vstate, 'a) prog" where
  "on_testlib f gv = (case f (fst gv) of
     Ret a g \<Rightarrow> Ret a (g, snd gv) | Quit q g \<Rightarrow> Quit q (g, snd gv) | Crash \<Rightarrow> Crash)"

definition v_get_testset :: "(Validator, string) prog" where
  "v_get_testset v =
     (if \<not> v_initialized v
      then testlib_fail (''Validator should be initialized with registerValidation(argc, argv) instead of '' @
             ''registerValidation() to support validator.testset()'') v
      else Ret (v_testset v) v)"

definition v_get_group :: "(Validator, string) prog" where
  "v_get_group v =
     (if \<not> v_initialized v
      then testlib_fail (''Validator should be initialized with registerValidation(argc, argv) instead of '' @
             ''registerValidation() to support validator.group()'') v
      else Ret (v_group v) v)"

definition prepVariableName :: "string \<Rightarrow> string" where
  "prepVariableName variableName =
     (if length variableName \<ge> 2 \<and> variableName \<noteq> ''~~'' then
        if hd variableName = CHR ''~'' \<and> last variableName \<noteq> CHR ''~'' then drop 1 variableName
        else if hd variableName \<noteq> CHR ''~'' \<and> last variableName = CHR ''~'' then take (length variableName - 1) variableName
        else if hd variableName = CHR ''~'' \<and> last variableName = CHR ''~''
        then take (length variableName - 2) (drop 1 variableName)
        else variableName
      else variableName)"

definition ignoreMinBound :: "string \<Rightarrow> bool" where
  "ignoreMinBound variableName \<longleftrightarrow> length variableName \<ge> 2 \<and> variableName \<noteq> ''~~'' \<and> hd variableName = CHR ''~''"

definition ignoreMaxBound :: "string \<Rightarrow> bool" where
  "ignoreMaxBound variableName \<longleftrightarrow> length variableName \<ge> 2 \<and> variableName \<noteq> ''~~'' \<and> last variableName = CHR ''~''"

text \<open>\<^verbatim>\<open>m[key]\<close> for a key that is not in the map inserts the default value.\<close>

definition at_key :: "'v \<Rightarrow> (string \<times> 'v) list \<Rightarrow> string \<Rightarrow> 'v" where
  "at_key dflt m key = (case map_of m key of None \<Rightarrow> dflt | Some v \<Rightarrow> v)"

definition no_hit :: ValidatorBoundsHit where
  "no_hit = \<lparr>minHit = False, maxHit = False\<rparr>"

definition no_bound :: ConstantBound where
  "no_bound = \<lparr>cb_value = '''', cb_broken = False\<rparr>"

definition addBoundsHit :: "string \<Rightarrow> ValidatorBoundsHit \<Rightarrow> Validator \<Rightarrow> Validator" where
  "addBoundsHit variableName boundsHit v =
     (if isVariableNameBoundsAnalyzable variableName \<and> length (v_boundsHit v) < VALIDATOR_MAX_VARIABLE_COUNT then
        let prepared = prepVariableName variableName
        in v\<lparr>v_boundsHit := AList.update prepared
             (merge boundsHit (at_key no_hit (v_boundsHit v) prepared) (ignoreMinBound variableName) (ignoreMaxBound variableName))
             (v_boundsHit v)\<rparr>
      else v)"

definition addVariable :: "string \<Rightarrow> Validator \<Rightarrow> Validator" where
  "addVariable variableName v =
     (if isVariableNameBoundsAnalyzable variableName \<and> card (v_variables v) < VALIDATOR_MAX_VARIABLE_COUNT
      then v\<lparr>v_variables := insert (prepVariableName variableName) (v_variables v)\<rparr>
      else v)"

definition adjustConstantBounds :: "string \<Rightarrow> string \<Rightarrow> string \<Rightarrow> Validator \<Rightarrow> Validator" where
  "adjustConstantBounds variableName lower upper v =
     (if isVariableNameBoundsAnalyzable variableName \<and> length (v_constantBounds v) < VALIDATOR_MAX_VARIABLE_COUNT then
        let prepared = prepVariableName variableName;
            b = at_key \<lparr>lowerBound = no_bound, upperBound = no_bound\<rparr> (v_constantBounds v) prepared
        in v\<lparr>v_constantBounds := AList.update prepared
             \<lparr>lowerBound = adjust lower (lowerBound b), upperBound = adjust upper (upperBound b)\<rparr> (v_constantBounds v)\<rparr>
      else v)"

definition v_addFeature :: "string \<Rightarrow> (Validator, unit) prog" where
  "v_addFeature feature v =
     (if feature \<in> v_features v then testlib_fail (''Feature '' @ feature @ '' registered twice.'') v
      else if \<not> isFeatureNameAnalyzable feature
      then testlib_fail (''Feature name '' @ [CHR 0x27] @ feature @ [CHR 0x27] @ '' contains restricted characters.'') v
      else Ret () (v\<lparr>v_features := insert feature (v_features v)\<rparr>))"

definition v_feature :: "string \<Rightarrow> (Validator, unit) prog" where
  "v_feature feature v =
     (if \<not> isFeatureNameAnalyzable feature
      then testlib_fail (''Feature name '' @ [CHR 0x27] @ feature @ [CHR 0x27] @ '' contains restricted characters.'') v
      else if feature \<notin> v_features v
      then testlib_fail (''Feature '' @ feature @ '' didn't registered via addFeature(feature).'') v
      else Ret () (v\<lparr>v_hitFeatures := insert feature (v_hitFeatures v)\<rparr>))"

definition on_validator :: "(Validator, 'a) prog \<Rightarrow> (vstate, 'a) prog" where
  "on_validator f gv = (case f (snd gv) of
     Ret a v \<Rightarrow> Ret a (fst gv, v) | Quit q v \<Rightarrow> Quit q (fst gv, v) | Crash \<Rightarrow> Crash)"

definition addFeature :: "string \<Rightarrow> (vstate, unit) prog" where
  "addFeature feature gv =
     (if tl_mode (fst gv) \<noteq> TM_validator
      then on_testlib (quit_free TR_fail ''Features are supported in validators only.'') gv
      else on_validator (v_addFeature feature) gv)"

definition feature_hit :: "string \<Rightarrow> (vstate, unit) prog" where
  "feature_hit feature gv =
     (if tl_mode (fst gv) \<noteq> TM_validator
      then on_testlib (quit_free TR_fail ''Features are supported in validators only.'') gv
      else on_validator (v_feature feature) gv)"

section \<open>Log files\<close>

abbreviation quoted :: "string \<Rightarrow> string" where
  "quoted s \<equiv> [CHR 0x22] @ s @ [CHR 0x22]"

abbreviation newline :: string where "newline \<equiv> [CHR 0x0A]"

definition getVariablesLog :: "Validator \<Rightarrow> string" where
  "getVariablesLog v = concat (map (\<lambda>n. ''variable '' @ quoted n @ newline) (sorted_list_of_set (v_variables v)))"

definition getBoundsHitLog :: "Validator \<Rightarrow> string" where
  "getBoundsHitLog v = concat (map (\<lambda>(n, h). quoted n @ '':'' @ (if minHit h then '' min-value-hit'' else '''') @
     (if maxHit h then '' max-value-hit'' else '''') @ newline) (sort_key fst (v_boundsHit v)))"

definition bound_text :: "ConstantBound \<Rightarrow> string" where
  "bound_text b = '' '' @ (if has_value b then cb_value b else ''?'')"

definition getConstantBoundsLog :: "Validator \<Rightarrow> string" where
  "getConstantBoundsLog v = concat (map (\<lambda>(n, b).
     if has_value (lowerBound b) \<or> has_value (upperBound b)
     then ''constant-bounds '' @ quoted n @ '':'' @ bound_text (lowerBound b) @ bound_text (upperBound b) @ newline
     else '''') (sort_key fst (v_constantBounds v)))"

definition getFeaturesLog :: "Validator \<Rightarrow> string" where
  "getFeaturesLog v = concat (map (\<lambda>f. ''feature '' @ quoted f @ '':'' @ (if f \<in> v_hitFeatures v then '' hit'' else '''') @
     newline) (sorted_list_of_set (v_features v)))"

text \<open>\<^verbatim>\<open>fprintf(f, "%s", s.c_str())\<close> stops at the first null character.\<close>

definition c_text :: "string \<Rightarrow> string" where
  "c_text s = takeWhile (\<lambda>c. c \<noteq> CHR 0x00) s"

definition write_file :: "env \<Rightarrow> string \<Rightarrow> string \<Rightarrow> string \<Rightarrow> string \<Rightarrow> (vstate, unit) prog" where
  "write_file env fileName content openMsg closeMsg gv =
     (let written = (fst gv, (snd gv)\<lparr>v_written := v_written (snd gv) @ [(fileName, content)]\<rparr>) in
      if fileName = ''stdout'' \<or> fileName = ''stderr'' then Ret () written
      else if \<not> env_canOpen env fileName then testlib_fail openMsg gv
      else if \<not> env_canClose env fileName then testlib_fail closeMsg written
      else Ret () written)"

definition writeTestOverviewLog :: "env \<Rightarrow> (vstate, unit) prog" where
  "writeTestOverviewLog env gv =
     (let v = snd gv; fileName = v_testOverviewLogFileName v in
      if fileName \<noteq> '''' then
        write_file env fileName
          (c_text (getBoundsHitLog v) @ c_text (getFeaturesLog v) @ c_text (getConstantBoundsLog v) @ c_text (getVariablesLog v))
          (''Validator::writeTestOverviewLog: can't write test overview log to ('' @ fileName @ '')'')
          (''Validator::writeTestOverviewLog: can't close test overview log file ('' @ fileName @ '')'')
          (fst gv, v\<lparr>v_testOverviewLogFileName := ''''\<rparr>)
      else Ret () gv)"

definition TEST_MARKUP_HEADER :: string where "TEST_MARKUP_HEADER = [CHR ''M'', CHR ''U'', CHR 0xF3, CHR 0x01]"
definition TEST_CASE_OPEN_TAG :: string where "TEST_CASE_OPEN_TAG = ''!c''"
definition TEST_CASE_CLOSE_TAG :: string where "TEST_CASE_CLOSE_TAG = '';''"

text \<open>The loop of \<^verbatim>\<open>writeTestMarkup\<close> over the codes that were read; 256 + k marks test case k.\<close>

primrec markup_loop :: "int list \<Rightarrow> string" where
  "markup_loop [] = ''''"
| "markup_loop (c # cs) =
     (if cs = [] \<and> c = - 1 then ''''
      else if c \<le> 256 then
        let cc = to_char c in (if cc = CHR 0x5C \<or> cc = CHR ''!'' then [CHR 0x5C] else '''') @ [cc] @ markup_loop cs
      else TEST_CASE_OPEN_TAG @ vtos (c - 256) @ TEST_CASE_CLOSE_TAG @ markup_loop cs)"

definition writeTestMarkup :: "env \<Rightarrow> (vstate, unit) prog" where
  "writeTestMarkup env gv =
     (if v_testMarkupFileName (snd gv) \<noteq> '''' then
        andThen (on_testlib inf_getReadChars gv) (\<lambda>readChars gv.
          if readChars \<noteq> [] then
            write_file env (v_testMarkupFileName (snd gv)) (c_text (TEST_MARKUP_HEADER @ markup_loop readChars))
              (''Validator::writeTestMarkup: can't write test markup to ('' @ v_testMarkupFileName (snd gv) @ '')'')
              (''Validator::writeTestMarkup: can't close test markup file ('' @ v_testCaseFileName (snd gv) @ '')'') gv
          else Ret () gv)
      else Ret () gv)"

text \<open>The loop of \<^verbatim>\<open>writeTestCase\<close>: the text since the last mark, the text found, whether the last mark is the one wanted.\<close>

primrec test_case_loop :: "int \<Rightarrow> int list \<Rightarrow> string \<Rightarrow> string \<Rightarrow> bool \<Rightarrow> string" where
  "test_case_loop wanted [] content found matched = (if matched then content else found)"
| "test_case_loop wanted (c # cs) content found matched =
     (if cs = [] \<and> c = - 1 then test_case_loop wanted cs content found matched
      else if c \<le> 256 then test_case_loop wanted cs (content @ [to_char c]) found matched
      else test_case_loop wanted cs '''' (if matched then content else found) (c - 256 = wanted))"

definition writeTestCase :: "env \<Rightarrow> (vstate, unit) prog" where
  "writeTestCase env gv =
     (if v_testCase (snd gv) > 0 then
        andThen (on_testlib inf_getReadChars gv) (\<lambda>readChars gv.
          if readChars \<noteq> [] then
            let content = test_case_loop (v_testCase (snd gv)) readChars '''' '''' False; name = v_testCaseFileName (snd gv)
            in if content \<noteq> '''' then
                 write_file env (if name = '''' then ''stdout'' else name) (c_text content)
                   (''Validator::writeTestCase: can't write test case to ('' @ name @ '')'')
                   (''Validator::writeTestCase: can't close test case file ('' @ name @ '')'') gv
               else Ret () gv
          else Ret () gv)
      else Ret () gv)"

section \<open>Registration\<close>

text \<open>\<^verbatim>\<open>registerValidation()\<close>: the input is the standard input, read strictly.\<close>

definition registerValidation :: "env \<Rightarrow> string \<Rightarrow> (vstate, unit) prog" where
  "registerValidation env stdin gv =
     on_testlib (\<lambda>g. andThen (on_inf (init_file (env_mem env) (env_memEof env) (env_fs env) H_stdin (open_file stdin) M_input)
         (g\<lparr>tl_registered := True, tl_mode := TM_validator\<rparr>)) (\<lambda>_ g.
       Ret () (g\<lparr>tl_inf := (tl_inf g)\<lparr>is_strict := True\<rparr>\<rparr>))) gv"

definition validation_comment :: string where
  "validation_comment = ''Validator must be run with the following arguments: [--testset testset] [--group group]'' @
     '' [--testOverviewLogFileName fileName] [--testMarkupFileName fileName] [--testCase testCase] [--testCaseFileName fileName]''"

text \<open>
  One \<^verbatim>\<open>if\<close> of the loop over the arguments, on the arguments from the current one on: the option
  takes the next argument, which becomes the current one, and the next \<^verbatim>\<open>if\<close> looks at it.
\<close>

definition option_if :: "string \<Rightarrow> (string \<Rightarrow> (vstate, unit) prog) \<Rightarrow> string list \<Rightarrow> (vstate, string list) prog" where
  "option_if name use args gv = (case args of
     [] \<Rightarrow> Ret [] gv
   | a # rest \<Rightarrow>
       if a = name then
         (case rest of
            [] \<Rightarrow> on_testlib (quit_free TR_fail validation_comment) gv
          | x # _ \<Rightarrow> andThen (use x gv) (\<lambda>_ gv. Ret rest gv))
       else Ret args gv)"

abbreviation set_v :: "(Validator \<Rightarrow> Validator) \<Rightarrow> (vstate, unit) prog" where
  "set_v f gv \<equiv> Ret () (fst gv, f (snd gv))"

definition use_testset :: "string \<Rightarrow> (vstate, unit) prog" where
  "use_testset x gv = (if x = '''' then on_testlib (quit_free TR_fail validation_comment) gv else set_v (v_testset_update (\<lambda>_. x)) gv)"

definition use_testCase :: "string \<Rightarrow> (vstate, unit) prog" where
  "use_testCase x gv = andThen (on_testlib (on_inf (stringToLongLong_c x)) gv) (\<lambda>testCase gv.
     if testCase < 1 \<or> testCase \<ge> TESTLIB_MAX_TEST_CASE
     then on_testlib (quit_free TR_fail (''Argument testCase should be between 1 and '' @ vtos TESTLIB_MAX_TEST_CASE @
            '', but '' @ vtos testCase @ '' found'')) gv
     else set_v (v_testCase_update (\<lambda>_. testCase)) gv)"

definition register_round :: "string list \<Rightarrow> (vstate, string list) prog" where
  "register_round args gv =
     andThen (option_if ''--testset'' use_testset args gv) (\<lambda>args gv.
     andThen (option_if ''--group'' (\<lambda>x. set_v (v_group_update (\<lambda>_. x))) args gv) (\<lambda>args gv.
     andThen (option_if ''--testOverviewLogFileName'' (\<lambda>x. set_v (v_testOverviewLogFileName_update (\<lambda>_. x))) args gv) (\<lambda>args gv.
     andThen (option_if ''--testMarkupFileName'' (\<lambda>x. set_v (v_testMarkupFileName_update (\<lambda>_. x))) args gv) (\<lambda>args gv.
     andThen (option_if ''--testCase'' use_testCase args gv) (\<lambda>args gv.
       option_if ''--testCaseFileName'' (\<lambda>x. set_v (v_testCaseFileName_update (\<lambda>_. x))) args gv)))))"

lemma option_if_length: "option_if name use args gv = Ret args' gv' \<Longrightarrow> length args' \<le> length args"
  by (auto simp: option_if_def on_testlib_def quit_free_def andThen_Ret_iff split: list.splits if_splits)

lemma register_round_length: "register_round args gv = Ret args' gv' \<Longrightarrow> length args' \<le> length args"
  by (auto simp: register_round_def andThen_Ret_iff dest!: option_if_length)

function register_loop :: "string list \<Rightarrow> (vstate, unit) prog" where
  "register_loop args gv =
     (if args = [] then Ret () gv
      else andThen (register_round args gv) (\<lambda>args gv. register_loop (tl args) gv))"
  by pat_completeness auto
termination
proof (relation "measure (\<lambda>(args, gv). length args)", goal_cases)
  case (2 args gv a s)
  then have "length a \<le> length args" "0 < length args" using register_round_length [of args gv a s] by auto
  then show ?case by (simp del: length_greater_0_conv)
qed simp

declare register_loop.simps [simp del]

definition registerValidation_argv :: "env \<Rightarrow> string \<Rightarrow> string list \<Rightarrow> (vstate, unit) prog" where
  "registerValidation_argv env stdin argv gv =
     andThen (registerValidation env stdin gv) (\<lambda>_ gv.
     andThen (on_testlib (set_testset_and_group (tl argv)) gv) (\<lambda>_ gv.
       register_loop (tl argv) (fst gv, (snd gv)\<lparr>v_initialized := True\<rparr>)))"

section \<open>The invariant\<close>

text \<open>
  At most 255 variables are recorded in each table, under names that can be analysed, and only
  registered features are hit.
\<close>

definition table_ok :: "(string \<times> 'v) list \<Rightarrow> bool" where
  "table_ok m \<longleftrightarrow> length m \<le> VALIDATOR_MAX_VARIABLE_COUNT \<and> distinct (map fst m) \<and>
     list_all isVariableNameBoundsAnalyzable (map fst m)"

definition validator_ok :: "Validator \<Rightarrow> bool" where
  "validator_ok v \<longleftrightarrow> table_ok (v_boundsHit v) \<and> table_ok (v_constantBounds v) \<and>
     finite (v_variables v) \<and> card (v_variables v) \<le> VALIDATOR_MAX_VARIABLE_COUNT \<and>
     (\<forall>n\<in>v_variables v. isVariableNameBoundsAnalyzable n) \<and>
     finite (v_features v) \<and> v_hitFeatures v \<subseteq> v_features v \<and> (\<forall>f\<in>v_features v. isFeatureNameAnalyzable f)"

lemma validator_ok_new: "validator_ok Validator_new"
  by (simp add: validator_ok_def table_ok_def Validator_new_def)

lemma prep_analyzable: "isVariableNameBoundsAnalyzable n \<Longrightarrow> isVariableNameBoundsAnalyzable (prepVariableName n)"
  unfolding isVariableNameBoundsAnalyzable_def prepVariableName_def list_all_iff
  by (auto dest!: in_set_takeD in_set_dropD)

lemma length_update: "length (AList.update k v m) = (if k \<in> fst ` set m then length m else Suc (length m))"
  by (induction m) auto

lemma keys_update: "set (map fst (AList.update k v m)) = insert k (set (map fst m))"
  by (induction m) auto

lemma table_ok_update:
  assumes "table_ok m" "length m < VALIDATOR_MAX_VARIABLE_COUNT" "isVariableNameBoundsAnalyzable n"
  shows "table_ok (AList.update (prepVariableName n) x m)"
  using assms prep_analyzable [OF assms(3)] unfolding table_ok_def list_all_iff keys_update
  by (auto simp: length_update distinct_update)

lemma addBoundsHit_ok: "validator_ok v \<Longrightarrow> validator_ok (addBoundsHit n h v)"
  by (simp add: validator_ok_def addBoundsHit_def Let_def table_ok_update)

lemma adjustConstantBounds_ok: "validator_ok v \<Longrightarrow> validator_ok (adjustConstantBounds n a b v)"
  by (simp add: validator_ok_def adjustConstantBounds_def Let_def table_ok_update)

lemma addVariable_ok: "validator_ok v \<Longrightarrow> validator_ok (addVariable n v)"
  by (auto simp: validator_ok_def addVariable_def card_insert_if prep_analyzable)

lemma v_addFeature_ok: "validator_ok v \<Longrightarrow> v_addFeature f v = Ret u v' \<Longrightarrow> validator_ok v'"
  by (auto simp: validator_ok_def v_addFeature_def testlib_fail_def split: if_splits)

lemma v_feature_ok: "validator_ok v \<Longrightarrow> v_feature f v = Ret u v' \<Longrightarrow> validator_ok v'"
  by (auto simp: validator_ok_def v_feature_def testlib_fail_def split: if_splits)

text \<open>The states a validator goes through: any sequence of its operations, from the constructor on.\<close>

inductive v_reachable :: "Validator \<Rightarrow> bool" where
  start: "v_reachable Validator_new"
| hit: "v_reachable v \<Longrightarrow> v_reachable (addBoundsHit n h v)"
| bounds: "v_reachable v \<Longrightarrow> v_reachable (adjustConstantBounds n a b v)"
| variable: "v_reachable v \<Longrightarrow> v_reachable (addVariable n v)"
| newFeature: "v_reachable v \<Longrightarrow> v_addFeature f v = Ret u v' \<Longrightarrow> v_reachable v'"
| hitFeature: "v_reachable v \<Longrightarrow> v_feature f v = Ret u v' \<Longrightarrow> v_reachable v'"

lemma v_reachable_ok: "v_reachable v \<Longrightarrow> validator_ok v"
  by (induction rule: v_reachable.induct)
     (auto intro: validator_ok_new addBoundsHit_ok adjustConstantBounds_ok addVariable_ok v_addFeature_ok v_feature_ok)

section \<open>What the tables say\<close>

text \<open>
  A bound that has a value is the one value that every call gave.
\<close>

fun adjust_all :: "int list \<Rightarrow> ConstantBound \<Rightarrow> ConstantBound" where
  "adjust_all [] b = b"
| "adjust_all (t # ts) b = adjust_all ts (adjust (vtos t) b)"

definition bound_of :: "int list \<Rightarrow> ConstantBound \<Rightarrow> bool" where
  "bound_of ts b \<longleftrightarrow> (if ts = [] then b = no_bound else if list_all ((=) (hd ts)) ts then b = \<lparr>cb_value = vtos (hd ts), cb_broken = False\<rparr>
     else b = \<lparr>cb_value = '''', cb_broken = True\<rparr>)"

lemma vtos_not_Nil: "vtos n \<noteq> []"
  by (cases "0 \<le> n") (simp_all add: vtos_neg)

lemma adjust_step:
  assumes "bound_of ts b" "length (vtos t) < 32"
  shows "bound_of (ts @ [t]) (adjust (vtos t) b)"
proof (cases "ts = []")
  case True
  then show ?thesis using assms by (simp add: bound_of_def adjust_def no_bound_def Let_def)
next
  case False
  show ?thesis
  proof (cases "list_all ((=) (hd ts)) ts")
    case True
    then show ?thesis using assms False by (auto simp: bound_of_def adjust_def Let_def vtos_not_Nil vtos_inj)
  next
    case nall: False
    then show ?thesis using assms False by (simp add: bound_of_def adjust_def Let_def)
  qed
qed

lemma adjust_all_snoc: "adjust_all (ts @ [t]) b = adjust (vtos t) (adjust_all ts b)"
  by (induction ts arbitrary: b) simp_all

lemma adjust_all_bound: "list_all (\<lambda>t. length (vtos t) < 32) ts \<Longrightarrow> bound_of ts (adjust_all ts no_bound)"
proof (induction ts rule: rev_induct)
  case (snoc t ts)
  then show ?case using adjust_step by (simp add: adjust_all_snoc)
qed (simp add: bound_of_def)

lemma has_value_iff:
  assumes "ts \<noteq> []" "list_all (\<lambda>t. length (vtos t) < 32) ts"
  shows "has_value (adjust_all ts no_bound) \<longleftrightarrow> list_all ((=) (hd ts)) ts"
    "has_value (adjust_all ts no_bound) \<Longrightarrow> cb_value (adjust_all ts no_bound) = vtos (hd ts)"
  using adjust_all_bound [OF assms(2)] assms by (cases ts; auto simp: bound_of_def has_value_def vtos_not_Nil split: if_splits)+

section \<open>Markup and test cases\<close>

text \<open>A reader of the markup: the codes of the bytes and of the marks.\<close>

function unmarkup :: "string \<Rightarrow> int list" where
  "unmarkup s = (case s of
     [] \<Rightarrow> []
   | c # t \<Rightarrow>
       if c = CHR 0x5C then (case t of [] \<Rightarrow> [] | d # u \<Rightarrow> uchar d # unmarkup u)
       else if c = CHR ''!''
       then (256 + digits_val (takeWhile is_digit (tl t))) # unmarkup (drop 1 (dropWhile is_digit (tl t)))
       else uchar c # unmarkup t)"
  by pat_completeness auto
termination
proof (relation "measure length", goal_cases)
  case (3 s c t)
  have "length (dropWhile is_digit (tl t)) \<le> length t"
    using length_dropWhile_le [of is_digit "tl t"] by simp
  then show ?case using 3 by simp
qed auto

declare unmarkup.simps [simp del]

definition read_code :: "int \<Rightarrow> bool" where
  "read_code c \<longleftrightarrow> 0 \<le> c \<and> c \<le> 255 \<or> 256 < c"

lemma unmarkup_simps:
  "unmarkup [] = []" "unmarkup (CHR 0x5C # d # u) = uchar d # unmarkup u"
  "c \<noteq> CHR 0x5C \<Longrightarrow> c \<noteq> CHR ''!'' \<Longrightarrow> unmarkup (c # t) = uchar c # unmarkup t"
  by (simp_all add: unmarkup.simps)

lemma unmarkup_mark: "0 < n \<Longrightarrow> unmarkup (TEST_CASE_OPEN_TAG @ vtos n @ TEST_CASE_CLOSE_TAG @ t) = (256 + n) # unmarkup t"
proof -
  assume n: "0 < n"
  have d: "list_all is_digit (vtos n)" "\<not> is_digit CHR '';''" using vtos_digits n by (simp_all add: is_digit_def schar_def)
  have "takeWhile is_digit (vtos n @ CHR '';'' # t) = vtos n" "dropWhile is_digit (vtos n @ CHR '';'' # t) = CHR '';'' # t"
    using d by (simp_all add: list_all_iff takeWhile_append dropWhile_append)
  then show ?thesis using n digits_val_vtos [of n]
    by (subst unmarkup.simps) (simp add: TEST_CASE_OPEN_TAG_def TEST_CASE_CLOSE_TAG_def)
qed

text \<open>The markup loses nothing: the bytes read and the marks set can be read back from it.\<close>

lemma unmarkup_markup: "list_all read_code cs \<Longrightarrow> unmarkup (markup_loop cs) = cs"
proof (induction cs)
  case (Cons c cs)
  show ?case
  proof (cases "c \<le> 256")
    case True
    then have "uchar (to_char c) = c" "c \<noteq> - 1" using Cons.prems by (auto simp: read_code_def uchar_to_char)
    then show ?thesis using True Cons
      by (cases "to_char c = CHR 0x5C \<or> to_char c = CHR ''!''") (auto simp: Let_def unmarkup_simps)
  next
    case False
    then show ?thesis using Cons unmarkup_mark [of "c - 256" "markup_loop cs"] by simp
  qed
qed (simp add: unmarkup_simps)

text \<open>
  A test with marks: what precedes the first mark, and the bytes of the test cases. The loop of
  \<^verbatim>\<open>writeTestCase\<close> finds the last test case with the wanted number.
\<close>

definition marked_test :: "int list \<Rightarrow> (int \<times> int list) list \<Rightarrow> int list" where
  "marked_test pre segs = pre @ concat (map (\<lambda>(k, cs). (256 + k) # cs) segs)"

abbreviation byte_codes :: "int list \<Rightarrow> bool" where
  "byte_codes cs \<equiv> list_all (\<lambda>c. 0 \<le> c \<and> c \<le> 255) cs"

lemma test_case_loop_bytes:
  "byte_codes cs \<Longrightarrow> test_case_loop w (cs @ rest) content found matched = test_case_loop w rest (content @ map to_char cs) found matched"
  by (induction cs arbitrary: content) auto

lemma test_case_loop_segs:
  assumes "list_all (\<lambda>(k, cs). 0 < k \<and> byte_codes cs) segs" "ends = [] \<or> ends = [- 1]"
  shows "test_case_loop w (concat (map (\<lambda>(k, cs). (256 + k) # cs) segs) @ ends) content found matched =
    (case map_of (rev segs) w of Some cs \<Rightarrow> map to_char cs | None \<Rightarrow> if matched then content else found)"
  using assms(1)
proof (induction segs arbitrary: content found matched)
  case Nil
  then show ?case using assms(2) by auto
next
  case (Cons seg segs)
  obtain k cs where seg: "seg = (k, cs)" by (cases seg)
  then show ?case using Cons by (auto simp: test_case_loop_bytes map_add_def split: option.split)
qed

lemma test_case_loop_marked:
  assumes "byte_codes pre" "list_all (\<lambda>(k, cs). 0 < k \<and> byte_codes cs) segs" "ends = [] \<or> ends = [- 1]"
  shows "test_case_loop w (marked_test pre segs @ ends) '''' '''' False =
    (case map_of (rev segs) w of Some cs \<Rightarrow> map to_char cs | None \<Rightarrow> '''')"
  unfolding marked_test_def append_assoc test_case_loop_bytes [OF assms(1)] by (simp add: test_case_loop_segs [OF assms(2,3)])

section \<open>Options of a validator\<close>

text \<open>
  An argument that is the value of an option and has the name of a later one is taken for that option
  too, because the tests of one round of the loop are not exclusive.
\<close>

lemma option_value_as_option:
  "\<exists>v'. register_loop [''--testset'', ''--group'', ''g''] (g, v) = Ret () (g, v') \<and> v_testset v' = ''--group'' \<and> v_group v' = ''g''"
  by (simp add: register_loop.simps register_round_def option_if_def use_testset_def)

lemma option_value_not_option:
  "\<exists>v'. register_loop [''--group'', ''--testset'', ''t''] (g, v) = Ret () (g, v') \<and> v_group v' = ''--testset'' \<and> v_testset v' = v_testset v"
  by (simp add: register_loop.simps register_round_def option_if_def use_testset_def)

end
