(* ===== verification/TL_Bounded.thy ===== *)
theory TL_Bounded
  imports TL_Validator TL_Integers TL_Pattern
begin

text \<open>
  The methods of \<^verbatim>\<open>InStream\<close> that also check what they read and tell the validator about it: integers
  in a range, tokens and lines that match a pattern, and sequences of all of them. Their state is the
  stream together with the validator. A strict stream has to hold exactly one space between two
  elements of a sequence.
\<close>

section \<open>Definitions\<close>

type_synonym vstream = "instream \<times> Validator"

definition on_stream :: "(instream, 'a) prog \<Rightarrow> (vstream, 'a) prog" where
  "on_stream f sv = (case f (fst sv) of
     Ret a s \<Rightarrow> Ret a (s, snd sv) | Quit q s \<Rightarrow> Quit q (s, snd sv) | Crash \<Rightarrow> Crash)"

subsection \<open>Sequences\<close>

definition set_iteration :: "int \<Rightarrow> instream \<Rightarrow> instream" where
  "set_iteration i s = s\<lparr>is_readManyIteration := i\<rparr>"

text \<open>The loop of \<^verbatim>\<open>__testlib_readMany\<close>; the increment of the largest \<^verbatim>\<open>int\<close> is undefined.\<close>

primrec readMany_loop :: "(vstream, 'a) prog \<Rightarrow> bool \<Rightarrow> nat \<Rightarrow> (vstream, 'a list) prog" where
  "readMany_loop readOne space 0 sv = Ret [] sv"
| "readMany_loop readOne space (Suc n) sv =
     andThen (readOne sv) (\<lambda>x sv.
       if is_readManyIteration (fst sv) = INT_MAX then Crash
       else let sv = (set_iteration (is_readManyIteration (fst sv) + 1) (fst sv), snd sv) in
       andThen (if is_strict (fst sv) \<and> space \<and> 0 < n then andThen (on_stream readSpace sv) (\<lambda>_ sv. Ret () sv) else Ret () sv)
         (\<lambda>_ sv. andThen (readMany_loop readOne space n sv) (\<lambda>xs sv. Ret (x # xs) sv)))"

definition readMany :: "string \<Rightarrow> (vstream, 'a) prog \<Rightarrow> bool \<Rightarrow> int \<Rightarrow> int \<Rightarrow> (vstream, 'a list) prog" where
  "readMany name readOne space sz indexBase sv =
     (if sz < 0 then on_stream (in_quit TR_fail (name @ '': size should be non-negative.'')) sv
      else if sz > 100000000 then on_stream (in_quit TR_fail (name @ '': size should be at most 100000000.'')) sv
      else andThen (readMany_loop readOne space (nat sz) (set_iteration indexBase (fst sv), snd sv)) (\<lambda>result sv.
        Ret result (set_iteration NO_INDEX (fst sv), snd sv)))"

text \<open>\<^verbatim>\<open>if (strict && !variablesName.empty()) validator.addVariable(variablesName)\<close>.\<close>

definition note_variable :: "string \<Rightarrow> vstream \<Rightarrow> vstream" where
  "note_variable name sv = (if is_strict (fst sv) \<and> name \<noteq> '''' then (fst sv, addVariable name (snd sv)) else sv)"

subsection \<open>Tokens and lines that match a pattern\<close>

definition mismatch_message :: "string \<Rightarrow> string \<Rightarrow> int \<Rightarrow> string \<Rightarrow> string \<Rightarrow> string \<Rightarrow> string" where
  "mismatch_message what param iteration name text src =
     (if iteration = NO_INDEX then
        if name = '''' then what @ '' '' @ quoted (testlib_part text) @ '' doesn't correspond to pattern '' @ quoted src
        else what @ param @ '' [name='' @ name @ ''] equals to '' @ quoted (testlib_part text) @
          '', doesn't correspond to pattern '' @ quoted src
      else if name = ''''
      then what @ '' element [index='' @ vtos iteration @ ''] equals to '' @ quoted (testlib_part text) @
          '' doesn't correspond to pattern '' @ quoted src
      else what @ '' element '' @ name @ ''['' @ vtos iteration @ ''] equals to '' @ quoted (testlib_part text) @
          '', doesn't correspond to pattern '' @ quoted src)"

definition readWord_p :: "pattern \<Rightarrow> string \<Rightarrow> (vstream, string) prog" where
  "readWord_p p variableName sv =
     andThen (on_stream readWordTo sv) (\<lambda>w sv.
       let sv = ((fst sv)\<lparr>is_tmpReadToken := w\<rparr>, snd sv) in
       if \<not> pattern_matches p w
       then on_stream (in_quit TR_wa (mismatch_message ''Token'' '' parameter'' (is_readManyIteration (fst sv)) variableName w (pattern_src p))) sv
       else Ret w (note_variable variableName sv))"

definition readWord_s :: "string \<Rightarrow> string \<Rightarrow> (vstream, string) prog" where
  "readWord_s ptrn variableName sv = andThen (pattern_new ptrn sv) (\<lambda>p sv. readWord_p p variableName sv)"

definition readWords_p :: "int \<Rightarrow> pattern \<Rightarrow> string \<Rightarrow> int \<Rightarrow> (vstream, string list) prog" where
  "readWords_p sz p variablesName indexBase sv =
     readMany ''readWords'' (readWord_p p variablesName) True sz indexBase (note_variable variablesName sv)"

definition readWords :: "int \<Rightarrow> int \<Rightarrow> (vstream, string list) prog" where
  "readWords sz indexBase = readMany ''readWords'' (on_stream readWord) True sz indexBase"

definition readWords_s :: "int \<Rightarrow> string \<Rightarrow> string \<Rightarrow> int \<Rightarrow> (vstream, string list) prog" where
  "readWords_s sz ptrn variablesName indexBase sv =
     andThen (pattern_new ptrn sv) (\<lambda>p sv.
       readMany ''readWords'' (readWord_p p variablesName) True sz indexBase (note_variable variablesName sv))"

definition readToken_p :: "pattern \<Rightarrow> string \<Rightarrow> (vstream, string) prog" where
  "readToken_p = readWord_p"

definition readToken_s :: "string \<Rightarrow> string \<Rightarrow> (vstream, string) prog" where
  "readToken_s = readWord_s"

definition readTokens_p :: "int \<Rightarrow> pattern \<Rightarrow> string \<Rightarrow> int \<Rightarrow> (vstream, string list) prog" where
  "readTokens_p sz p variablesName indexBase sv =
     readMany ''readTokens'' (readToken_p p variablesName) True sz indexBase (note_variable variablesName sv)"

definition readTokens :: "int \<Rightarrow> int \<Rightarrow> (vstream, string list) prog" where
  "readTokens sz indexBase = readMany ''readTokens'' (on_stream readToken) True sz indexBase"

definition readTokens_s :: "int \<Rightarrow> string \<Rightarrow> string \<Rightarrow> int \<Rightarrow> (vstream, string list) prog" where
  "readTokens_s sz ptrn variablesName indexBase sv =
     andThen (pattern_new ptrn sv) (\<lambda>p sv.
       readMany ''readTokens'' (readWord_p p variablesName) True sz indexBase (note_variable variablesName sv))"

definition readWordTo_p :: "pattern \<Rightarrow> string \<Rightarrow> (vstream, string) prog" where
  "readWordTo_p p variableName sv =
     andThen (on_stream readWordTo sv) (\<lambda>w sv.
       if \<not> pattern_matches p w
       then on_stream (in_quit TR_wa (mismatch_message ''Token'' '' parameter'' NO_INDEX variableName w (pattern_src p))) sv
       else Ret w (note_variable variableName sv))"

definition readWordTo_s :: "string \<Rightarrow> string \<Rightarrow> (vstream, string) prog" where
  "readWordTo_s ptrn variableName sv = andThen (pattern_new ptrn sv) (\<lambda>p sv. readWordTo_p p variableName sv)"

definition readTokenTo_p :: "pattern \<Rightarrow> string \<Rightarrow> (vstream, string) prog" where
  "readTokenTo_p = readWordTo_p"

definition readTokenTo_s :: "string \<Rightarrow> string \<Rightarrow> (vstream, string) prog" where
  "readTokenTo_s = readWordTo_s"

definition readStrings :: "int \<Rightarrow> int \<Rightarrow> (vstream, string list) prog" where
  "readStrings sz indexBase = readMany ''readStrings'' (on_stream readString) False sz indexBase"

definition readStringTo_p :: "pattern \<Rightarrow> string \<Rightarrow> (vstream, string) prog" where
  "readStringTo_p p variableName sv =
     andThen (on_stream readStringTo sv) (\<lambda>l sv.
       if \<not> pattern_matches p l
       then on_stream (in_quit TR_wa (mismatch_message ''Line'' '''' (is_readManyIteration (fst sv)) variableName l (pattern_src p))) sv
       else Ret l (note_variable variableName sv))"

definition readStringTo_s :: "string \<Rightarrow> string \<Rightarrow> (vstream, string) prog" where
  "readStringTo_s ptrn variableName sv = andThen (pattern_new ptrn sv) (\<lambda>p sv. readStringTo_p p variableName sv)"

definition readString_p :: "pattern \<Rightarrow> string \<Rightarrow> (vstream, string) prog" where
  "readString_p p variableName sv =
     andThen (readStringTo_p p variableName sv) (\<lambda>l sv. Ret l ((fst sv)\<lparr>is_tmpReadToken := l\<rparr>, snd sv))"

definition readString_s :: "string \<Rightarrow> string \<Rightarrow> (vstream, string) prog" where
  "readString_s ptrn variableName sv =
     andThen (readStringTo_s ptrn variableName sv) (\<lambda>l sv. Ret l ((fst sv)\<lparr>is_tmpReadToken := l\<rparr>, snd sv))"

definition readStrings_p :: "int \<Rightarrow> pattern \<Rightarrow> string \<Rightarrow> int \<Rightarrow> (vstream, string list) prog" where
  "readStrings_p sz p variablesName indexBase sv =
     readMany ''readStrings'' (readString_p p variablesName) False sz indexBase (note_variable variablesName sv)"

definition readStrings_s :: "int \<Rightarrow> string \<Rightarrow> string \<Rightarrow> int \<Rightarrow> (vstream, string list) prog" where
  "readStrings_s sz ptrn variablesName indexBase sv =
     andThen (pattern_new ptrn sv) (\<lambda>p sv.
       readMany ''readStrings'' (readString_p p variablesName) False sz indexBase (note_variable variablesName sv))"

definition readLines :: "int \<Rightarrow> int \<Rightarrow> (vstream, string list) prog" where
  "readLines sz indexBase = readMany ''readLines'' (on_stream readString) False sz indexBase"

definition readLineTo_p :: "pattern \<Rightarrow> string \<Rightarrow> (vstream, string) prog" where
  "readLineTo_p = readStringTo_p"

definition readLineTo_s :: "string \<Rightarrow> string \<Rightarrow> (vstream, string) prog" where
  "readLineTo_s = readStringTo_s"

definition readLine_p :: "pattern \<Rightarrow> string \<Rightarrow> (vstream, string) prog" where
  "readLine_p = readString_p"

definition readLine_s :: "string \<Rightarrow> string \<Rightarrow> (vstream, string) prog" where
  "readLine_s = readString_s"

definition readLines_p :: "int \<Rightarrow> pattern \<Rightarrow> string \<Rightarrow> int \<Rightarrow> (vstream, string list) prog" where
  "readLines_p sz p variablesName indexBase sv =
     readMany ''readLines'' (readString_p p variablesName) False sz indexBase (note_variable variablesName sv)"

definition readLines_s :: "int \<Rightarrow> string \<Rightarrow> string \<Rightarrow> int \<Rightarrow> (vstream, string list) prog" where
  "readLines_s sz ptrn variablesName indexBase sv =
     andThen (pattern_new ptrn sv) (\<lambda>p sv.
       readMany ''readLines'' (readString_p p variablesName) False sz indexBase (note_variable variablesName sv))"

subsection \<open>Integers in a range\<close>

text \<open>
  The three methods have the same text, with the word for the number and the printing of the bounds
  of their type.
\<close>

definition range_text :: "string \<Rightarrow> int \<Rightarrow> string \<Rightarrow> string \<Rightarrow> string \<Rightarrow> string \<Rightarrow> string" where
  "range_text what iteration name result minv maxv =
     (let violates = ''violates the range ['' @ minv @ '', '' @ maxv @ '']'' in
      if iteration = NO_INDEX then
        if name = [] then what @ '' '' @ result @ '' '' @ violates
        else what @ '' parameter [name='' @ name @ ''] equals to '' @ result @ '', '' @ violates
      else if name = [] then what @ '' element [index='' @ vtos iteration @ ''] equals to '' @ result @ '', '' @ violates
      else what @ '' element '' @ name @ ''['' @ vtos iteration @ ''] equals to '' @ result @ '', '' @ violates)"

definition range_message :: "string \<Rightarrow> (int \<Rightarrow> string) \<Rightarrow> int \<Rightarrow> string \<Rightarrow> int \<Rightarrow> int \<Rightarrow> int \<Rightarrow> string" where
  "range_message what human iteration name result minv maxv = range_text what iteration name (vtos result) (human minv) (human maxv)"

definition note_bounds :: "string \<Rightarrow> int \<Rightarrow> int \<Rightarrow> int \<Rightarrow> vstream \<Rightarrow> vstream" where
  "note_bounds name minv maxv result sv =
     (if is_strict (fst sv) \<and> name \<noteq> ''''
      then (fst sv, addVariable name (adjustConstantBounds name (vtos minv) (vtos maxv)
             (addBoundsHit name \<lparr>minHit = (minv = result), maxHit = (maxv = result)\<rparr> (snd sv))))
      else sv)"

definition read_in :: "(instream, int) prog \<Rightarrow> string \<Rightarrow> (int \<Rightarrow> string) \<Rightarrow> int \<Rightarrow> int \<Rightarrow> string \<Rightarrow> (vstream, int) prog" where
  "read_in rd what human minv maxv variableName sv =
     andThen (on_stream rd sv) (\<lambda>result sv.
       if result < minv \<or> result > maxv
       then on_stream (in_quit TR_wa (range_message what human (is_readManyIteration (fst sv)) variableName result minv maxv)) sv
       else Ret result (note_bounds variableName minv maxv result sv))"

definition readLong_in :: "int \<Rightarrow> int \<Rightarrow> string \<Rightarrow> (vstream, int) prog" where
  "readLong_in = read_in readLong ''Integer'' toHumanReadableString_signed"

definition readUnsignedLong_in :: "int \<Rightarrow> int \<Rightarrow> string \<Rightarrow> (vstream, int) prog" where
  "readUnsignedLong_in = read_in readUnsignedLong ''Unsigned integer'' toHumanReadableString_unsigned"

definition readLong_uin :: "int \<Rightarrow> int \<Rightarrow> string \<Rightarrow> (vstream, int) prog" where
  "readLong_uin = readUnsignedLong_in"

definition readInt_in :: "int \<Rightarrow> int \<Rightarrow> string \<Rightarrow> (vstream, int) prog" where
  "readInt_in = read_in readInt ''Integer'' toHumanReadableString_signed"

definition readInteger_in :: "int \<Rightarrow> int \<Rightarrow> string \<Rightarrow> (vstream, int) prog" where
  "readInteger_in = readInt_in"

definition readLongs_in :: "int \<Rightarrow> int \<Rightarrow> int \<Rightarrow> string \<Rightarrow> int \<Rightarrow> (vstream, int list) prog" where
  "readLongs_in sz minv maxv variablesName indexBase sv =
     readMany ''readLongs'' (readLong_in minv maxv variablesName) True sz indexBase (note_variable variablesName sv)"

definition readLongs :: "int \<Rightarrow> int \<Rightarrow> (vstream, int list) prog" where
  "readLongs sz indexBase = readMany ''readLongs'' (on_stream readLong) True sz indexBase"

definition readUnsignedLongs_in :: "int \<Rightarrow> int \<Rightarrow> int \<Rightarrow> string \<Rightarrow> int \<Rightarrow> (vstream, int list) prog" where
  "readUnsignedLongs_in sz minv maxv variablesName indexBase sv =
     readMany ''readUnsignedLongs'' (readUnsignedLong_in minv maxv variablesName) True sz indexBase (note_variable variablesName sv)"

definition readUnsignedLongs :: "int \<Rightarrow> int \<Rightarrow> (vstream, int list) prog" where
  "readUnsignedLongs sz indexBase = readMany ''readUnsignedLongs'' (on_stream readUnsignedLong) True sz indexBase"

definition readInts_in :: "int \<Rightarrow> int \<Rightarrow> int \<Rightarrow> string \<Rightarrow> int \<Rightarrow> (vstream, int list) prog" where
  "readInts_in sz minv maxv variablesName indexBase sv =
     readMany ''readInts'' (readInt_in minv maxv variablesName) True sz indexBase (note_variable variablesName sv)"

definition readInts :: "int \<Rightarrow> int \<Rightarrow> (vstream, int list) prog" where
  "readInts sz indexBase = readMany ''readInts'' (on_stream readInt) True sz indexBase"

definition readIntegers_in :: "int \<Rightarrow> int \<Rightarrow> int \<Rightarrow> string \<Rightarrow> int \<Rightarrow> (vstream, int list) prog" where
  "readIntegers_in sz minv maxv variablesName indexBase sv =
     readMany ''readIntegers'' (readInt_in minv maxv variablesName) True sz indexBase (note_variable variablesName sv)"

definition readIntegers :: "int \<Rightarrow> int \<Rightarrow> (vstream, int list) prog" where
  "readIntegers sz indexBase = readMany ''readIntegers'' (on_stream readInt) True sz indexBase"

section \<open>One integer\<close>

lemma on_stream_Ret [simp]: "f s = Ret a s' \<Longrightarrow> on_stream f (s, V) = Ret a (s', V)"
  by (simp add: on_stream_def)

lemma on_stream_quit: "on_stream (in_quit r m) (s, V) = Quit (QuitReq (Some (stream_info_of s)) r m) (s, V)"
  by (simp add: on_stream_def in_quit_def)

context integer_method
begin

lemma read_in_spec:
  assumes "holds k v s" "map to_char (takeWhile nonblank (token_start k v)) = vtos n" "lo \<le> n" "n \<le> hi"
    "length (vtos n) \<le> is_maxTokenLength k"
  shows "\<exists>s'. holds k (dropWhile nonblank (token_start k v)) s' \<and>
    read_in rd what human minv maxv name (s, V) =
      (if minv \<le> n \<and> n \<le> maxv then Ret n (note_bounds name minv maxv n (s', V))
       else on_stream (in_quit TR_wa (range_message what human (is_readManyIteration k) name n minv maxv)) (s', V))"
proof -
  obtain s' where s': "rd s = Ret n s'" "holds k (dropWhile nonblank (token_start k v)) s'" using read_ok [OF assms] by blast
  then have "is_readManyIteration s' = is_readManyIteration k" using holds_core(1) stream_core_sel(6) by metis
  then show ?thesis using s' by (intro exI [of _ s']) (auto simp: read_in_def)
qed

end

text \<open>What a validator records of an accepted integer.\<close>

lemma note_bounds_fst [simp]: "fst (note_bounds name minv maxv n sv) = fst sv"
  by (simp add: note_bounds_def)

lemma note_variable_fst [simp]: "fst (note_variable name sv) = fst sv"
  by (simp add: note_variable_def)

section \<open>Sequences on a strict stream\<close>

text \<open>Texts separated by single spaces.\<close>

fun spaced :: "int list list \<Rightarrow> int list" where
  "spaced [] = []"
| "spaced [x] = x"
| "spaced (x # y # zs) = x @ SPACE # spaced (y # zs)"

lemma holds_iteration: "holds k v s \<Longrightarrow> holds (set_iteration i k) v (set_iteration i s)"
  by (auto simp: holds_def is_good_def is_view_def is_room_def stream_core_def set_iteration_def)

lemma set_iteration_sel [simp]:
  "is_strict (set_iteration i s) = is_strict s" "is_maxTokenLength (set_iteration i s) = is_maxTokenLength s"
  "is_readManyIteration (set_iteration i s) = i" "set_iteration i (set_iteration j s) = set_iteration i s"
  by (simp_all add: set_iteration_def)

lemma set_iteration_same: "set_iteration (is_readManyIteration k) k = k"
  by (simp add: set_iteration_def)

lemma readSpace_spec:
  assumes "holds k (SPACE # r) s"
  shows "\<exists>s'. readSpace s = Ret CHR '' '' s' \<and> holds k r s'"
proof -
  obtain l where l: "note_line s = Ret () (s\<lparr>is_lastLine := l\<rparr>)" using holds_note_line [OF assms] by blast
  have "holds k (SPACE # r) (s\<lparr>is_lastLine := l\<rparr>)" using assms by simp
  from holds_next_char [OF this] obtain s' where "on_reader rd_nextChar (s\<lparr>is_lastLine := l\<rparr>) = Ret SPACE s'" "holds1 k r s'" by blast
  moreover have "to_char SPACE = CHR '' ''" by (simp add: SPACE_def to_char_def char_of_def)
  ultimately show ?thesis using l holds1_holds by (auto simp: readSpace_def readChar_expect_def readChar_def nextChar_def)
qed

text \<open>
  A method that reads one element: on a strict stream that holds the text of the element and then a
  blank or nothing, it returns the element, and records something in the validator.
\<close>

locale element_method =
  fixes readOne :: "(vstream, 'a) prog" and text_of :: "'a \<Rightarrow> int list" and fine :: "instream \<Rightarrow> 'a \<Rightarrow> bool"
    and tell :: "'a \<Rightarrow> Validator \<Rightarrow> Validator"
  assumes one: "holds k (text_of x @ r) s \<Longrightarrow> is_strict k \<Longrightarrow> fine k x \<Longrightarrow> r = [] \<or> isBlanks (hd r) \<Longrightarrow>
      \<exists>s'. readOne (s, V) = Ret x (s', tell x V) \<and> holds k r s'"
    and fine_iteration: "fine (set_iteration i k) x = fine k x"
begin

lemma loop_spec:
  assumes "holds k (spaced (map text_of xs) @ r) s" "is_strict k" "list_all (fine k) xs" "r = [] \<or> isBlanks (hd r)"
    "is_readManyIteration k + int (length xs) \<le> INT_MAX"
  shows "\<exists>s'. readMany_loop readOne True (length xs) (s, V) = Ret xs (s', fold tell xs V) \<and>
    holds (set_iteration (is_readManyIteration k + int (length xs)) k) r s'"
  using assms
proof (induction xs arbitrary: k s V)
  case Nil
  then show ?case by (auto simp: set_iteration_same)
next
  case (Cons x xs)
  let ?i = "is_readManyIteration k" and ?rest = "if xs = [] then r else SPACE # spaced (map text_of xs) @ r"
  have tx: "spaced (map text_of (x # xs)) @ r = text_of x @ ?rest" by (cases xs) simp_all
  have "?rest = [] \<or> isBlanks (hd ?rest)" using Cons.prems(4) by (simp add: isBlanks_def)
  then obtain s1 where s1: "readOne (s, V) = Ret x (s1, tell x V)" "holds k ?rest s1"
    using one [of k x ?rest s V] Cons.prems(1-3) unfolding tx by auto
  have it: "is_readManyIteration s1 = ?i" "is_strict s1"
    using holds_core(1) [OF s1(2)] Cons.prems(2) stream_core_sel(1,6) by metis+
  let ?k = "set_iteration (?i + 1) k"
  have h: "holds ?k ?rest (set_iteration (?i + 1) s1)" by (rule holds_iteration [OF s1(2)])
  have "\<exists>s2. (if is_strict s1 \<and> True \<and> 0 < length xs
        then andThen (on_stream readSpace (set_iteration (?i + 1) s1, tell x V)) (\<lambda>_ sv. Ret () sv)
        else Ret () (set_iteration (?i + 1) s1, tell x V)) = Ret () (s2, tell x V) \<and>
      holds ?k (spaced (map text_of xs) @ r) s2"
    using h readSpace_spec [of ?k "spaced (map text_of xs) @ r"] it(2) by (cases "xs = []") fastforce+
  then obtain s2 where s2: "(if is_strict s1 \<and> True \<and> 0 < length xs
        then andThen (on_stream readSpace (set_iteration (?i + 1) s1, tell x V)) (\<lambda>_ sv. Ret () sv)
        else Ret () (set_iteration (?i + 1) s1, tell x V)) = Ret () (s2, tell x V)"
      "holds ?k (spaced (map text_of xs) @ r) s2" by blast
  have "list_all (fine ?k) xs" using Cons.prems(3) by (simp add: list_all_iff fine_iteration)
  then obtain s3 where s3: "readMany_loop readOne True (length xs) (s2, tell x V) = Ret xs (s3, fold tell xs (tell x V))"
    "holds (set_iteration (?i + 1 + int (length xs)) k) r s3"
    using Cons.IH [OF s2(2), of "tell x V"] Cons.prems by auto
  then show ?case using s1(1) s2(1) it Cons.prems(5)
    by (intro exI [of _ s3]) (simp add: Let_def add.assoc)
qed

lemma many_spec:
  assumes "holds k (spaced (map text_of xs) @ r) s" "is_strict k" "list_all (fine k) xs" "r = [] \<or> isBlanks (hd r)"
    "indexBase + int (length xs) \<le> INT_MAX" "length xs \<le> 100000000" "is_readManyIteration k = NO_INDEX"
  shows "\<exists>s'. readMany name readOne True (int (length xs)) indexBase (s, V) = Ret xs (s', fold tell xs V) \<and> holds k r s'"
proof -
  let ?k = "set_iteration indexBase k"
  have "list_all (fine ?k) xs" using assms(3) by (simp add: list_all_iff fine_iteration)
  then obtain s' where "readMany_loop readOne True (length xs) (set_iteration indexBase s, V) = Ret xs (s', fold tell xs V)"
    "holds (set_iteration (indexBase + int (length xs)) k) r s'"
    using loop_spec [OF holds_iteration [OF assms(1), of indexBase]] assms by auto
  moreover have "holds k r (set_iteration NO_INDEX s')"
    using holds_iteration [OF calculation(2), of NO_INDEX] set_iteration_same [of k] assms(7) by simp
  ultimately show ?thesis using assms(6) by (auto simp: readMany_def)
qed

end

section \<open>Sequences of integers\<close>

definition int_text :: "int \<Rightarrow> int list" where
  "int_text n = map schar (vtos n)"

definition tell_bounds :: "string \<Rightarrow> int \<Rightarrow> int \<Rightarrow> int \<Rightarrow> Validator \<Rightarrow> Validator" where
  "tell_bounds name minv maxv n V =
     (if name \<noteq> '''' then addVariable name (adjustConstantBounds name (vtos minv) (vtos maxv)
        (addBoundsHit name \<lparr>minHit = (minv = n), maxHit = (maxv = n)\<rparr> V)) else V)"

lemma vtos_nonblank: "c \<in> set (vtos n) \<Longrightarrow> \<not> isBlanks (schar c)"
proof -
  assume c: "c \<in> set (vtos n)"
  have d: "is_digit c \<Longrightarrow> \<not> isBlanks (schar c)" for c by (auto simp: is_digit_def isBlanks_def control_defs)
  show ?thesis
  proof (cases "0 \<le> n")
    case True
    then show ?thesis using c d vtos_digits [of n] by (auto simp: list_all_iff)
  next
    case False
    then have "c = CHR ''-'' \<or> is_digit c" using c vtos_digits [of "- n"] by (auto simp: vtos_neg list_all_iff)
    then show ?thesis using d by (auto simp: isBlanks_def control_defs schar_def)
  qed
qed

lemma int_text_token:
  assumes "r = [] \<or> isBlanks (hd r)"
  shows "takeWhile nonblank (int_text n @ r) = int_text n" "dropWhile nonblank (int_text n @ r) = r"
proof -
  have all: "\<forall>c\<in>set (int_text n). nonblank c" using vtos_nonblank by (auto simp: int_text_def)
  have "takeWhile nonblank r = []" "dropWhile nonblank r = r" using assms by (cases r; simp)+
  then show "takeWhile nonblank (int_text n @ r) = int_text n" "dropWhile nonblank (int_text n @ r) = r"
    using all by (simp_all add: takeWhile_append2 dropWhile_append2)
qed

sublocale integer_method \<subseteq> bounded: element_method "read_in rd what human minv maxv name" int_text
  "\<lambda>k n. lo \<le> n \<and> n \<le> hi \<and> minv \<le> n \<and> n \<le> maxv \<and> length (vtos n) \<le> is_maxTokenLength k"
  "tell_bounds name minv maxv" for what human minv maxv name
proof unfold_locales
  fix k :: instream and x :: int and r :: "int list" and s :: instream and V :: Validator
  assume h: "holds k (int_text x @ r) s" and k: "is_strict k"
    and f: "lo \<le> x \<and> x \<le> hi \<and> minv \<le> x \<and> x \<le> maxv \<and> length (vtos x) \<le> is_maxTokenLength k"
    and r: "r = [] \<or> isBlanks (hd r)"
  have ts: "token_start k (int_text x @ r) = int_text x @ r" using k by (simp add: token_start_def)
  have "map to_char (takeWhile nonblank (token_start k (int_text x @ r))) = vtos x"
    unfolding ts int_text_token(1) [OF r] by (simp add: int_text_def comp_def)
  from read_in_spec [OF h this, of what human minv maxv name V] f obtain s' where s':
    "holds k r s'" "read_in rd what human minv maxv name (s, V) = Ret x (note_bounds name minv maxv x (s', V))"
    unfolding ts int_text_token(2) [OF r] by auto
  have "is_strict s'" using holds_strict [OF s'(1)] k by simp
  then show "\<exists>s'. read_in rd what human minv maxv name (s, V) = Ret x (s', tell_bounds name minv maxv x V) \<and> holds k r s'"
    using s' by (auto simp: note_bounds_def tell_bounds_def)
qed simp

text \<open>
  The hits that a sequence leaves behind for its variable: the minimum is hit exactly when an element
  is the minimum, or was hit before, or is to be ignored.
\<close>

lemma at_key_update: "at_key d (AList.update k v m) k' = (if k' = k then v else at_key d m k')"
  by (simp add: at_key_def update_conv)

abbreviation hits :: "Validator \<Rightarrow> string \<Rightarrow> ValidatorBoundsHit" where
  "hits V name \<equiv> at_key no_hit (v_boundsHit V) (prepVariableName name)"

lemma tell_bounds_table:
  assumes "name \<noteq> ''''" "isVariableNameBoundsAnalyzable name" "length (v_boundsHit V) < VALIDATOR_MAX_VARIABLE_COUNT"
  shows "v_boundsHit (tell_bounds name minv maxv n V) = AList.update (prepVariableName name)
    (merge \<lparr>minHit = (minv = n), maxHit = (maxv = n)\<rparr> (hits V name) (ignoreMinBound name) (ignoreMaxBound name)) (v_boundsHit V)"
  using assms by (simp add: tell_bounds_def addVariable_def adjustConstantBounds_def addBoundsHit_def Let_def)

definition tracked :: "string \<Rightarrow> Validator \<Rightarrow> bool" where
  "tracked name V \<longleftrightarrow> length (v_boundsHit V) < VALIDATOR_MAX_VARIABLE_COUNT \<and> prepVariableName name \<in> set (map fst (v_boundsHit V))"

lemma tell_bounds_tracked:
  assumes "name \<noteq> ''''" "isVariableNameBoundsAnalyzable name"
    "tracked name V \<or> length (v_boundsHit V) + 1 < VALIDATOR_MAX_VARIABLE_COUNT"
  shows "tracked name (tell_bounds name minv maxv n V)"
    "minHit (hits (tell_bounds name minv maxv n V) name) \<longleftrightarrow> minv = n \<or> minHit (hits V name) \<or> ignoreMinBound name"
    "maxHit (hits (tell_bounds name minv maxv n V) name) \<longleftrightarrow> maxv = n \<or> maxHit (hits V name) \<or> ignoreMaxBound name"
proof -
  have len: "length (v_boundsHit V) < VALIDATOR_MAX_VARIABLE_COUNT" using assms(3) by (auto simp: tracked_def)
  note table = tell_bounds_table [OF assms(1,2) len]
  show "tracked name (tell_bounds name minv maxv n V)"
    using assms(3) unfolding tracked_def table keys_update length_update by auto
  show "minHit (hits (tell_bounds name minv maxv n V) name) \<longleftrightarrow> minv = n \<or> minHit (hits V name) \<or> ignoreMinBound name"
    "maxHit (hits (tell_bounds name minv maxv n V) name) \<longleftrightarrow> maxv = n \<or> maxHit (hits V name) \<or> ignoreMaxBound name"
    unfolding table at_key_update by (auto simp: merge_def)
qed

lemma fold_tell_bounds_hits:
  assumes "name \<noteq> ''''" "isVariableNameBoundsAnalyzable name"
    "tracked name V \<or> length (v_boundsHit V) + 1 < VALIDATOR_MAX_VARIABLE_COUNT" "xs \<noteq> []"
  shows "(minHit (hits (fold (tell_bounds name minv maxv) xs V) name) \<longleftrightarrow> minHit (hits V name) \<or> minv \<in> set xs \<or> ignoreMinBound name) \<and>
    (maxHit (hits (fold (tell_bounds name minv maxv) xs V) name) \<longleftrightarrow> maxHit (hits V name) \<or> maxv \<in> set xs \<or> ignoreMaxBound name)"
  using assms(3,4)
proof (induction xs arbitrary: V)
  case (Cons x xs)
  note t = tell_bounds_tracked [OF assms(1,2) Cons.prems(1), of minv maxv x]
  show ?case
  proof (cases "xs = []")
    case True
    then show ?thesis using t(2,3) by auto
  next
    case False
    then show ?thesis using t Cons.IH [OF disjI1 [OF t(1)] False] by auto
  qed
qed simp

end
