(* ===== verification/TL_Period.thy ===== *)
theory TL_Period
  imports TL_Prelude
begin

text \<open>
  The linear congruential generator of \<^verbatim>\<open>random_t\<close> has full period: from any state modulo \<open>2 ^ 48\<close> it
  reaches every other state, and every other step of it reaches every state of the same parity. The
  rejection loops of \<^verbatim>\<open>random_t::next\<close> end because of this.
\<close>

definition lcg_a :: int where "lcg_a = 0x5DEECE66D"
definition lcg_c :: int where "lcg_c = 0xB"

definition lcg_step :: "int \<Rightarrow> int" where
  "lcg_step x = (lcg_a * x + lcg_c) mod 2 ^ 48"

definition geo :: "nat \<Rightarrow> int" where
  "geo n = (\<Sum>i<n. lcg_a ^ i)"

lemma geo_simps: "geo 0 = 0" "geo (Suc n) = geo n + lcg_a ^ n" "geo (m + n) = geo m + lcg_a ^ m * geo n"
proof -
  show "geo 0 = 0" "geo (Suc n) = geo n + lcg_a ^ n" by (simp_all add: geo_def)
  show "geo (m + n) = geo m + lcg_a ^ m * geo n"
    by (induction n) (simp_all add: geo_def algebra_simps power_add)
qed

lemma lcg_a_power_mod_4: "lcg_a ^ n mod 4 = 1"
proof (induction n)
  case (Suc n)
  have "lcg_a ^ Suc n mod 4 = (lcg_a mod 4) * (lcg_a ^ n mod 4) mod 4" by (simp add: mod_mult_eq)
  then show ?case using Suc by (simp add: lcg_a_def)
qed simp

lemma lcg_a_power_odd: "odd (lcg_a ^ n)"
  by (simp add: lcg_a_def)

lemma geo_odd: "odd n \<Longrightarrow> odd (geo n)"
proof -
  have "geo n mod 2 = int n mod 2"
  proof (induction n)
    case (Suc n)
    obtain k where "lcg_a ^ n = 2 * k + 1" using oddE [OF lcg_a_power_odd] by blast
    then show ?case unfolding geo_simps(2) using Suc by simp presburger
  qed (simp add: geo_simps)
  then show "odd n \<Longrightarrow> odd (geo n)" by presburger
qed

text \<open>The sum of the first \<open>n\<close> powers is divisible by the same powers of two as \<open>n\<close>.\<close>

lemma odd_factor: "odd (q :: int) \<Longrightarrow> 2 ^ k dvd q * x \<longleftrightarrow> 2 ^ k dvd x"
  by (metis coprime_commute coprime_dvd_mult_right_iff coprime_power_right_iff coprime_right_2_iff_odd)

lemma geo_double: "geo (2 * m) = geo m * (1 + lcg_a ^ m)"
  unfolding mult_2 geo_simps(3) by (simp add: algebra_simps)

lemma geo_dvd: "2 ^ k dvd geo n \<longleftrightarrow> 2 ^ k dvd int n"
proof (induction n arbitrary: k rule: less_induct)
  case (less n)
  consider "n = 0" | "odd n" | m where "n = 2 * m" "0 < m" by (cases "n = 0") (auto elim!: evenE)
  then show ?case
  proof cases
    case 1
    then show ?thesis by (simp add: geo_simps)
  next
    case 2
    then have "odd (geo n)" "odd (int n)" using geo_odd by auto
    then show ?thesis by (cases k) (auto simp: dvd_def)
  next
    case (3 m)
    have "\<exists>q. 1 + lcg_a ^ m = 2 * q \<and> odd q" using lcg_a_power_mod_4 [of m] by presburger
    then obtain q where q: "1 + lcg_a ^ m = 2 * q" "odd q" by blast
    have g: "geo n = q * (2 * geo m)" unfolding 3(1) geo_double q(1) by simp
    show ?thesis
    proof (cases k)
      case (Suc j)
      have "2 ^ k dvd geo n \<longleftrightarrow> 2 * 2 ^ j dvd 2 * geo m" unfolding g odd_factor [OF q(2)] by (simp add: Suc)
      also have "\<dots> \<longleftrightarrow> 2 ^ j dvd int m" using less.IH [of m j] 3 by simp
      also have "\<dots> \<longleftrightarrow> 2 ^ k dvd int n" using 3(1) by (simp add: Suc)
      finally show ?thesis .
    qed simp
  qed
qed

lemma geo_minus: "lcg_a ^ n - 1 = (lcg_a - 1) * geo n"
proof (induction n)
  case (Suc n)
  have "lcg_a ^ Suc n - 1 = (lcg_a ^ n - 1) + (lcg_a - 1) * lcg_a ^ n" by (simp add: algebra_simps)
  then show ?case by (simp only: Suc geo_simps(2) distrib_left)
qed (simp add: geo_simps)

section \<open>The orbit of a state\<close>

lemma lcg_iterate: "0 \<le> x \<Longrightarrow> x < 2 ^ 48 \<Longrightarrow> (lcg_step ^^ n) x = (lcg_a ^ n * x + lcg_c * geo n) mod 2 ^ 48"
proof (induction n)
  case 0
  then show ?case by (simp add: geo_simps)
next
  case (Suc n)
  let ?y = "lcg_a ^ n * x + lcg_c * geo n"
  have "(lcg_step ^^ Suc n) x = (lcg_a * (?y mod 2 ^ 48) + lcg_c) mod 2 ^ 48" 
    using Suc by (simp only: funpow.simps comp_apply lcg_step_def [of "?y mod 2 ^ 48"])
  also have "\<dots> = (lcg_a * ?y + lcg_c) mod 2 ^ 48" by (metis mod_add_left_eq mod_mult_right_eq)
  also have "lcg_a * ?y + lcg_c = lcg_a ^ Suc n * x + lcg_c * (lcg_a * geo n + 1)" by (simp add: algebra_simps)
  also have "lcg_a * geo n + 1 = geo (Suc n)" using geo_simps(3) [of 1 n] geo_simps(1) geo_simps(2) [of 0] by simp
  finally show ?case .
qed

lemma lcg_difference:
  "(lcg_a ^ (m + d) * x + lcg_c * geo (m + d)) - (lcg_a ^ m * x + lcg_c * geo m) = lcg_a ^ m * ((lcg_a - 1) * x + lcg_c) * geo d"
proof -
  have "(lcg_a ^ (m + d) * x + lcg_c * geo (m + d)) - (lcg_a ^ m * x + lcg_c * geo m) =
      lcg_a ^ m * ((lcg_a ^ d - 1) * x + lcg_c * geo d)"
    unfolding geo_simps(3) power_add by (simp add: algebra_simps)
  then show ?thesis unfolding geo_minus by (simp add: algebra_simps)
qed

lemma lcg_no_return:
  assumes "0 \<le> x" "x < 2 ^ 48" "(lcg_step ^^ m) x = (lcg_step ^^ (m + d)) x"
  shows "2 ^ 48 dvd d"
proof -
  have "2 ^ 48 dvd lcg_a ^ m * ((lcg_a - 1) * x + lcg_c) * geo d"
    using assms(3) unfolding lcg_iterate [OF assms(1,2)] by (metis lcg_difference mod_eq_dvd_iff)
  moreover have "odd (lcg_a ^ m * ((lcg_a - 1) * x + lcg_c))" by (simp add: lcg_a_def lcg_c_def)
  ultimately have "2 ^ 48 dvd geo d" using odd_factor by blast
  then have "(2::int) ^ 48 dvd int d" using geo_dvd by blast
  then show ?thesis by (metis int_dvd_int_iff of_nat_numeral of_nat_power)
qed

lemma lcg_range: "0 \<le> x \<Longrightarrow> x < 2 ^ 48 \<Longrightarrow> 0 \<le> (lcg_step ^^ n) x \<and> (lcg_step ^^ n) x < 2 ^ 48"
  by (cases n) (simp_all add: lcg_step_def)

text \<open>Full period: every state is reached from every state.\<close>

lemma lcg_full_period:
  assumes "0 \<le> x" "x < 2 ^ 48" "0 \<le> y" "y < 2 ^ 48"
  shows "\<exists>n. (lcg_step ^^ n) x = y"
proof -
  define N :: nat where "N = 2 ^ 48"
  define g where "g n = (lcg_step ^^ n) x" for n
  have N: "int N = 2 ^ 48" by (simp add: N_def)
  have "inj_on g {..<N}"
  proof (rule linorder_inj_onI)
    fix m n assume "m < n" "m \<in> {..<N}" "n \<in> {..<N}"
    then have d: "n = m + (n - m)" "0 < n - m" "n - m < N" by auto
    show "g m \<noteq> g n"
    proof
      assume "g m = g n"
      then have "(lcg_step ^^ m) x = (lcg_step ^^ (m + (n - m))) x" using d(1) by (simp add: g_def)
      from lcg_no_return [OF assms(1,2) this] have "N dvd n - m" by (simp only: N_def)
      then show False using d(2,3) by (auto dest: dvd_imp_le)
    qed
  qed auto
  then have "card (g ` {..<N}) = card {0..<int N}" by (simp add: card_image)
  moreover have "g ` {..<N} \<subseteq> {0..<int N}" using lcg_range [OF assms(1,2)] by (auto simp: g_def N)
  ultimately have "g ` {..<N} = {0..<int N}" by (intro card_subset_eq) auto
  moreover have "y \<in> {0..<int N}" using assms(3,4) N by simp
  ultimately have "y \<in> g ` {..<N}" by simp
  then show ?thesis by (auto simp: g_def)
qed

lemma lcg_parity: "0 \<le> x \<Longrightarrow> x < 2 ^ 48 \<Longrightarrow> (lcg_step ^^ n) x mod 2 = (x + int n) mod 2"
proof (induction n)
  case (Suc n)
  have "lcg_step z mod 2 = (lcg_a * z + lcg_c) mod 2" for z
    unfolding lcg_step_def by (rule mod_mod_cancel) (simp add: dvd_power)
  then have "lcg_step z mod 2 = (z + 1) mod 2" for z by (simp add: lcg_a_def lcg_c_def) presburger
  then show ?case using Suc by simp presburger
qed simp

text \<open>Every other step reaches every state of the same parity.\<close>

lemma lcg_even_period:
  assumes "0 \<le> x" "x < 2 ^ 48" "0 \<le> y" "y < 2 ^ 48" "x mod 2 = y mod 2"
  shows "\<exists>n. (lcg_step ^^ (2 * n)) x = y"
proof -
  obtain m where m: "(lcg_step ^^ m) x = y" using lcg_full_period [OF assms(1-4)] by blast
  then have "even m" using lcg_parity [OF assms(1,2), of m] assms(5) by presburger
  then show ?thesis using m by (auto elim!: evenE)
qed

end
