(* ===== verification/TL_Random.thy ===== *)
theory TL_Random
  imports TL_Pattern TL_Period "HOL-Library.Multiset"
begin

text \<open>
  \<^verbatim>\<open>class random_t\<close> of \<^verbatim>\<open>testlib.h\<close>, the random numbers of the generators of tests, and \<^verbatim>\<open>pattern::next\<close>,
  which draws a string. The state is the seed, a 64-bit word, together with the static \<^verbatim>\<open>version\<close>.

  The loops of \<^verbatim>\<open>next\<close> that draw again until the number is small enough have no bound: they are partial
  functions, and \<open>None\<close>, a loop that does not end, counts as \<open>Crash\<close> in what calls them. They are shown
  to end from every state, because the generator runs through all its states.

  The templates over an integer type \<^verbatim>\<open>T\<close> take the type as an argument, \<^verbatim>\<open>int\<close> or \<^verbatim>\<open>long long\<close> (\<^verbatim>\<open>long\<close> is
  the same type on the target); a signed overflow is \<open>Crash\<close>. Two computations in floating point are
  parameters: the power function of \<^verbatim>\<open>wnext\<close> with a large \<^verbatim>\<open>type\<close>, and the estimate by which \<^verbatim>\<open>distinct\<close>
  chooses between its two methods.
\<close>

unbundle bit_operations_syntax

section \<open>The generator\<close>

record random_t =
  rt_seed :: "64 word"
  rt_version :: int

definition rt_multiplier :: "64 word" where "rt_multiplier = 0x5DEECE66D"
definition rt_addend :: "64 word" where "rt_addend = 0xB"
definition rt_mask :: "64 word" where "rt_mask = push_bit 48 1 - 1"
definition rt_lim :: int where "rt_lim = 25"

definition random_t_new :: "int \<Rightarrow> random_t" where
  "random_t_new version = \<lparr>rt_seed = 3905348978240129619, rt_version = version\<rparr>"

text \<open>The first branch of \<^verbatim>\<open>nextBits\<close>.\<close>

definition draw_bits :: "nat \<Rightarrow> (random_t, int) prog" where
  "draw_bits bits r =
     (let seed = (rt_seed r * rt_multiplier + rt_addend) AND rt_mask
      in Ret (uint (drop_bit (48 - bits) seed)) (r\<lparr>rt_seed := seed\<rparr>))"

function nextBits :: "nat \<Rightarrow> (random_t, int) prog" where
  "nextBits bits r =
     (if bits \<le> 48 then draw_bits bits r
      else if bits > 63 then testlib_fail ''random_t::nextBits(int bits): n must be less than 64'' r
      else let lowerBitCount = (if rt_version r = 0 then 31 else 32)
           in andThen (nextBits 31 r) (\<lambda>left r.
                andThen (nextBits lowerBitCount r) (\<lambda>right r. Ret (push_bit 32 left XOR right) r)))"
  by pat_completeness auto
termination
  by (relation "measure fst") auto

declare nextBits.simps [simp del]

text \<open>
  The seed of a command line: every character, as \<^verbatim>\<open>unsigned int\<close>, and a constant after every argument.
\<close>

definition seed_char :: "64 word \<Rightarrow> char \<Rightarrow> 64 word" where
  "seed_char seed c = seed * rt_multiplier + word_of_int (schar c mod 2 ^ 32) + rt_addend"

definition seed_arg :: "64 word \<Rightarrow> string \<Rightarrow> 64 word" where
  "seed_arg seed arg = foldl seed_char seed arg + rt_multiplier div rt_addend"

definition setSeed_argv :: "string list \<Rightarrow> (random_t, unit) prog" where
  "setSeed_argv argv r = Ret () (r\<lparr>rt_seed := foldl seed_arg 3905348978240129619 (tl argv) AND rt_mask\<rparr>)"

definition setSeed :: "int \<Rightarrow> (random_t, unit) prog" where
  "setSeed seed r = Ret () (r\<lparr>rt_seed := (word_of_int seed XOR rt_multiplier) AND rt_mask\<rparr>)"

section \<open>Numbers below a bound\<close>

text \<open>\<^verbatim>\<open>do { bits = nextBits(b); } while (bits >= limit);\<close>\<close>

partial_function (option) draw_below :: "nat \<Rightarrow> int \<Rightarrow> random_t \<Rightarrow> (random_t, int) outcome option" where
  "draw_below b limit r =
     (case nextBits b r of
        Ret bits r \<Rightarrow> if bits \<ge> limit then draw_below b limit r else Some (Ret bits r)
      | Quit q r \<Rightarrow> Some (Quit q r)
      | Crash \<Rightarrow> Some Crash)"

declare draw_below.simps [code]

definition ended :: "('s, 'a) outcome option \<Rightarrow> ('s, 'a) outcome" where
  "ended x = (case x of None \<Rightarrow> Crash | Some y \<Rightarrow> y)"

definition next_int :: "int \<Rightarrow> (random_t, int) prog" where
  "next_int n r =
     (if n \<le> 0 then testlib_fail ''random_t::next(int n): n must be positive'' r
      else if n AND - n = n then andThen (nextBits 31 r) (\<lambda>bits r. Ret (drop_bit 31 (n * bits)) r)
      else andThen (ended (draw_below 31 (INT_MAX div n * n) r)) (\<lambda>bits r. Ret (bits mod n) r))"

definition next_long :: "int \<Rightarrow> (random_t, int) prog" where
  "next_long n r =
     (if n \<le> 0 then testlib_fail ''random_t::next(long long n): n must be positive'' r
      else andThen (ended (draw_below 63 (LLONG_MAX div n * n) r)) (\<lambda>bits r. Ret (bits mod n) r))"

definition next_uint :: "int \<Rightarrow> (random_t, int) prog" where
  "next_uint n r =
     (if n \<ge> INT_MAX then testlib_fail ''random_t::next(unsigned int n): n must be less INT_MAX'' r else next_int n r)"

definition next_ulonglong :: "int \<Rightarrow> (random_t, int) prog" where
  "next_ulonglong n r =
     (if n \<ge> LLONG_MAX then testlib_fail ''random_t::next(unsigned long long n): n must be less LONGLONG_MAX'' r
      else next_long n r)"

definition next_ulong :: "int \<Rightarrow> (random_t, int) prog" where
  "next_ulong n r =
     (if n \<ge> LLONG_MAX then testlib_fail ''random_t::next(unsigned long n): n must be less LONG_MAX'' r
      else next_ulonglong n r)"

text \<open>The overload for \<^verbatim>\<open>long\<close>, which has the values of \<^verbatim>\<open>long long\<close>.\<close>

definition next_l :: "int \<Rightarrow> (random_t, int) prog" where
  "next_l n r = next_long n r"

section \<open>Numbers in a range\<close>

definition next_int_range :: "int \<Rightarrow> int \<Rightarrow> (random_t, int) prog" where
  "next_int_range from to r = andThen (next_long (to - from + 1) r) (\<lambda>x r. Ret (x + from) r)"

text \<open>The same for \<^verbatim>\<open>unsigned int\<close>, whose values are all values of \<^verbatim>\<open>long long\<close>.\<close>

definition next_uint_range :: "int \<Rightarrow> int \<Rightarrow> (random_t, int) prog" where
  "next_uint_range from to r = andThen (next_long (to - from + 1) r) (\<lambda>x r. Ret ((x + from) mod 2 ^ 32) r)"

definition llong_fits :: "int \<Rightarrow> bool" where
  "llong_fits x \<longleftrightarrow> LLONG_MIN \<le> x \<and> x \<le> LLONG_MAX"

definition next_long_range :: "int \<Rightarrow> int \<Rightarrow> (random_t, int) prog" where
  "next_long_range from to r =
     (if \<not> llong_fits (to - from) \<or> \<not> llong_fits (to - from + 1) then Crash
      else andThen (next_long (to - from + 1) r) (\<lambda>x r. Ret (x + from) r))"

definition next_l_range :: "int \<Rightarrow> int \<Rightarrow> (random_t, int) prog" where
  "next_l_range from to r =
     (if \<not> llong_fits (to - from) \<or> \<not> llong_fits (to - from + 1) then Crash
      else andThen (next_l (to - from + 1) r) (\<lambda>x r. Ret (x + from) r))"

text \<open>Unsigned arithmetic wraps around: the range of all values has the size 0.\<close>

definition next_ulonglong_range :: "int \<Rightarrow> int \<Rightarrow> (random_t, int) prog" where
  "next_ulonglong_range from to r =
     (if from > to
      then testlib_fail ''random_t::next(unsigned long long from, unsigned long long to): from can't not exceed to'' r
      else andThen (next_ulonglong ((to - from + 1) mod 2 ^ 64) r) (\<lambda>x r. Ret ((x + from) mod 2 ^ 64) r))"

definition next_ulong_range :: "int \<Rightarrow> int \<Rightarrow> (random_t, int) prog" where
  "next_ulong_range from to r =
     (if from > to
      then testlib_fail ''random_t::next(unsigned long from, unsigned long to): from can't not exceed to'' r
      else andThen (next_ulong ((to - from + 1) mod 2 ^ 64) r) (\<lambda>x r. Ret ((x + from) mod 2 ^ 64) r))"

text \<open>
  \<^verbatim>\<open>next()\<close>: the 53 bits of a \<^verbatim>\<open>double\<close> hold the sum exactly, the division by \<open>2 ^ 53\<close> is exact, and the
  quotient is below 1, so that \<^verbatim>\<open>__testlib_crop\<close> returns it unchanged.
\<close>

definition next_double :: "(random_t, real) prog" where
  "next_double r =
     andThen (nextBits 26 r) (\<lambda>x r. let left = push_bit 27 x in
     andThen (nextBits 27 r) (\<lambda>right r. Ret (of_int (left + right) / 2 ^ 53) r))"

section \<open>The templates\<close>

text \<open>The integer types \<^verbatim>\<open>T\<close> of the templates, their values, and the overload of \<^verbatim>\<open>next\<close> for them.\<close>

datatype itype = T_int | T_long

definition t_max :: "itype \<Rightarrow> int" where
  "t_max T = (case T of T_int \<Rightarrow> INT_MAX | T_long \<Rightarrow> LLONG_MAX)"

definition t_min :: "itype \<Rightarrow> int" where
  "t_min T = (case T of T_int \<Rightarrow> INT_MIN | T_long \<Rightarrow> LLONG_MIN)"

definition t_fits :: "itype \<Rightarrow> int \<Rightarrow> bool" where
  "t_fits T x \<longleftrightarrow> t_min T \<le> x \<and> x \<le> t_max T"

definition t_name :: "itype \<Rightarrow> string" where
  "t_name T = (case T of T_int \<Rightarrow> ''int'' | T_long \<Rightarrow> ''long long'')"

definition next_of :: "itype \<Rightarrow> int \<Rightarrow> (random_t, int) prog" where
  "next_of T = (case T of T_int \<Rightarrow> next_int | T_long \<Rightarrow> next_long)"

definition range_of :: "itype \<Rightarrow> int \<Rightarrow> int \<Rightarrow> (random_t, int) prog" where
  "range_of T = (case T of T_int \<Rightarrow> next_int_range | T_long \<Rightarrow> next_long_range)"

text \<open>The cast of a size to \<^verbatim>\<open>int\<close>.\<close>

definition to_int32 :: "int \<Rightarrow> int" where
  "to_int32 x = (x + 2 ^ 31) mod 2 ^ 32 - 2 ^ 31"

definition rnd_any :: "'a list \<Rightarrow> (random_t, 'a) prog" where
  "rnd_any c r =
     (let sz = to_int32 (int (length c)) in
      if sz \<le> 0 then testlib_fail ''random_t::any(const Container& c): c.size() must be positive'' r
      else andThen (next_int sz r) (\<lambda>i r. Ret (c ! nat i) r))"

text \<open>The overload for two iterators; \<open>c\<close> are the elements between them.\<close>

definition rnd_any_iter :: "'a list \<Rightarrow> (random_t, 'a) prog" where
  "rnd_any_iter c r =
     (let sz = to_int32 (int (length c)) in
      if sz \<le> 0
      then testlib_fail ''random_t::any(const Iter& begin, const Iter& end): range must have positive length'' r
      else andThen (next_int sz r) (\<lambda>i r. Ret (c ! nat i) r))"

section \<open>Weighted numbers\<close>

text \<open>\<^verbatim>\<open>weighted n type x\<close> is \<^verbatim>\<open>(T) (double(n) * p)\<close> for the value \<open>x\<close> of \<^verbatim>\<open>next()\<close>.\<close>

type_synonym weight = "int \<Rightarrow> int \<Rightarrow> real \<Rightarrow> int"

primrec wnext_loop :: "(int \<Rightarrow> int \<Rightarrow> int) \<Rightarrow> itype \<Rightarrow> int \<Rightarrow> nat \<Rightarrow> int \<Rightarrow> (random_t, int) prog" where
  "wnext_loop better T n 0 result r = Ret result r"
| "wnext_loop better T n (Suc i) result r =
     andThen (next_of T n r) (\<lambda>x r. wnext_loop better T n i (better result x) r)"

definition wnext :: "weight \<Rightarrow> itype \<Rightarrow> int \<Rightarrow> int \<Rightarrow> (random_t, int) prog" where
  "wnext weighted T n type r =
     (if n \<le> 0 then testlib_fail (''random_t::wnext('' @ t_name T @ '' n, int type): n must be positive'') r
      else if type = INT_MIN then Crash
      else if \<bar>type\<bar> < rt_lim then
        andThen (next_of T n r) (\<lambda>result r.
        andThen (wnext_loop testlib_max T n (nat type) result r) (\<lambda>result r.
        wnext_loop testlib_min T n (nat (- type)) result r))
      else andThen (next_double r) (\<lambda>x r. Ret (testlib_crop (weighted n type x) 0 n) r))"

text \<open>The overloads for \<^verbatim>\<open>long long\<close> and \<^verbatim>\<open>long\<close>.\<close>

definition wnext_longlong :: "weight \<Rightarrow> int \<Rightarrow> int \<Rightarrow> (random_t, int) prog" where
  "wnext_longlong weighted = wnext weighted T_long"

definition wnext_l :: "weight \<Rightarrow> int \<Rightarrow> int \<Rightarrow> (random_t, int) prog" where
  "wnext_l weighted n type r = wnext_longlong weighted n type r"

definition wnext_uint :: "weight \<Rightarrow> int \<Rightarrow> int \<Rightarrow> (random_t, int) prog" where
  "wnext_uint weighted n type r =
     (if n \<ge> INT_MAX then testlib_fail ''random_t::wnext(unsigned int n, int type): n must be less INT_MAX'' r
      else wnext weighted T_int n type r)"

definition wnext_ulonglong :: "weight \<Rightarrow> int \<Rightarrow> int \<Rightarrow> (random_t, int) prog" where
  "wnext_ulonglong weighted n type r =
     (if n \<ge> LLONG_MAX
      then testlib_fail ''random_t::wnext(unsigned long long n, int type): n must be less LONGLONG_MAX'' r
      else wnext weighted T_long n type r)"

definition wnext_ulong :: "weight \<Rightarrow> int \<Rightarrow> int \<Rightarrow> (random_t, int) prog" where
  "wnext_ulong weighted n type r =
     (if n \<ge> LLONG_MAX then testlib_fail ''random_t::wnext(unsigned long n, int type): n must be less LONG_MAX'' r
      else wnext_ulonglong weighted n type r)"

definition wnext_range :: "weight \<Rightarrow> itype \<Rightarrow> int \<Rightarrow> int \<Rightarrow> int \<Rightarrow> (random_t, int) prog" where
  "wnext_range weighted T from to type r =
     (if from > to
      then testlib_fail (''random_t::wnext('' @ t_name T @ '' from, '' @ t_name T @ '' to, int type): from can't not exceed to'') r
      else if \<not> t_fits T (to - from) \<or> \<not> t_fits T (to - from + 1) then Crash
      else andThen (wnext weighted T (to - from + 1) type r) (\<lambda>x r. Ret (x + from) r))"

definition wnext_longlong_range :: "weight \<Rightarrow> int \<Rightarrow> int \<Rightarrow> int \<Rightarrow> (random_t, int) prog" where
  "wnext_longlong_range weighted = wnext_range weighted T_long"

definition wnext_l_range :: "weight \<Rightarrow> int \<Rightarrow> int \<Rightarrow> int \<Rightarrow> (random_t, int) prog" where
  "wnext_l_range weighted from to type r =
     (if from > to
      then testlib_fail ''random_t::wnext(long from, long to, int type): from can't not exceed to'' r
      else if \<not> llong_fits (to - from) \<or> \<not> llong_fits (to - from + 1) then Crash
      else andThen (wnext_l weighted (to - from + 1) type r) (\<lambda>x r. Ret (x + from) r))"

definition wnext_uint_range :: "weight \<Rightarrow> int \<Rightarrow> int \<Rightarrow> int \<Rightarrow> (random_t, int) prog" where
  "wnext_uint_range weighted from to type r =
     (if from > to
      then testlib_fail ''random_t::wnext(unsigned int from, unsigned int to, int type): from can't not exceed to'' r
      else andThen (wnext_uint weighted ((to - from + 1) mod 2 ^ 32) type r) (\<lambda>x r. Ret (to_int32 (x + from)) r))"

definition wnext_ulonglong_range :: "weight \<Rightarrow> int \<Rightarrow> int \<Rightarrow> int \<Rightarrow> (random_t, int) prog" where
  "wnext_ulonglong_range weighted from to type r =
     (if from > to
      then testlib_fail
        ''random_t::wnext(unsigned long long from, unsigned long long to, int type): from can't not exceed to'' r
      else andThen (wnext_ulonglong weighted ((to - from + 1) mod 2 ^ 64) type r) (\<lambda>x r. Ret ((x + from) mod 2 ^ 64) r))"

definition wnext_ulong_range :: "weight \<Rightarrow> int \<Rightarrow> int \<Rightarrow> int \<Rightarrow> (random_t, int) prog" where
  "wnext_ulong_range weighted from to type r =
     (if from > to
      then testlib_fail ''random_t::wnext(unsigned long from, unsigned long to, int type): from can't not exceed to'' r
      else andThen (wnext_ulong weighted ((to - from + 1) mod 2 ^ 64) type r) (\<lambda>x r. Ret ((x + from) mod 2 ^ 64) r))"

definition wany :: "weight \<Rightarrow> 'a list \<Rightarrow> int \<Rightarrow> (random_t, 'a) prog" where
  "wany weighted c type r =
     (let sz = to_int32 (int (length c)) in
      if sz \<le> 0 then testlib_fail ''random_t::wany(const Container& c, int type): c.size() must be positive'' r
      else andThen (wnext weighted T_int sz type r) (\<lambda>i r. Ret (c ! nat i) r))"

definition wany_iter :: "weight \<Rightarrow> 'a list \<Rightarrow> int \<Rightarrow> (random_t, 'a) prog" where
  "wany_iter weighted c type r =
     (let sz = to_int32 (int (length c)) in
      if sz \<le> 0
      then testlib_fail ''random_t::any(const Iter& begin, const Iter& end, int type): range must have positive length'' r
      else andThen (wnext weighted T_int sz type r) (\<lambda>i r. Ret (c ! nat i) r))"

section \<open>Permutations, sets and partitions\<close>

definition swap_at :: "nat \<Rightarrow> nat \<Rightarrow> 'a list \<Rightarrow> 'a list" where
  "swap_at i j p = p[i := p ! j, j := p ! i]"

function perm_loop :: "itype \<Rightarrow> int \<Rightarrow> int \<Rightarrow> 'a list \<Rightarrow> (random_t, 'a list) prog" where
  "perm_loop T sz i p r =
     (if i < sz then andThen (next_of T (i + 1) r) (\<lambda>j r. perm_loop T sz (i + 1) (swap_at (nat i) (nat j) p) r)
      else Ret p r)"
  by pat_completeness auto
termination
  by (relation "measure (\<lambda>(T, sz, i, p, r). nat (sz - i))") auto

declare perm_loop.simps [simp del]

text \<open>
  \<^verbatim>\<open>perm(size, first)\<close> for a size of type \<open>T\<close> and elements of type \<open>E\<close>. \<^verbatim>\<open>current++\<close> is executed after the
  last element too.
\<close>

definition perm :: "itype \<Rightarrow> itype \<Rightarrow> int \<Rightarrow> int \<Rightarrow> (random_t, int list) prog" where
  "perm T E sz first r =
     (if sz < 0 then testlib_fail ''random_t::perm(T size, E first = 0): size must non-negative'' r
      else if sz = 0 then Ret [] r
      else if first + sz > t_max E then Crash
      else let p = map (\<lambda>i. first + int i) [0..<nat sz]
           in if sz > 1 then perm_loop T sz 1 p r else Ret p r)"

text \<open>
  \<^verbatim>\<open>shuffle(first, last)\<close> on the elements of the range; the distance of two iterators is cast to \<^verbatim>\<open>int\<close> before
  1 is added.
\<close>

definition shuffle :: "'a list \<Rightarrow> (random_t, 'a list) prog" where
  "shuffle c r =
     (if c = [] then Ret c r else if int (length c) > INT_MAX then Crash else perm_loop T_int (int (length c)) 1 c r)"

definition perm_zero :: "itype \<Rightarrow> int \<Rightarrow> (random_t, int list) prog" where
  "perm_zero T sz r = perm T T sz 0 r"

text \<open>\<^verbatim>\<open>while (int(vals.size()) < size)\<close>: \<^verbatim>\<open>vals\<close> is the set of the elements of \<^verbatim>\<open>result\<close>.\<close>

partial_function (option) distinct_loop ::
    "itype \<Rightarrow> int \<Rightarrow> int \<Rightarrow> int \<Rightarrow> int list \<Rightarrow> random_t \<Rightarrow> (random_t, int list) outcome option" where
  "distinct_loop T sz from to result r =
     (if int (length result) < sz then
        case range_of T from to r of
          Ret x r \<Rightarrow> distinct_loop T sz from to (if x \<in> set result then result else result @ [x]) r
        | Quit q r \<Rightarrow> Some (Quit q r)
        | Crash \<Rightarrow> Some Crash
      else Some (Ret result r))"

declare distinct_loop.simps [code]

text \<open>
  \<open>sparse size n\<close> is the test \<^verbatim>\<open>expected < double(n)\<close>, where \<^verbatim>\<open>expected\<close> is a sum of \<^verbatim>\<open>double\<close>s that depends on
  the two numbers.
\<close>

definition distinct_values :: "(int \<Rightarrow> int \<Rightarrow> bool) \<Rightarrow> itype \<Rightarrow> int \<Rightarrow> int \<Rightarrow> int \<Rightarrow> (random_t, int list) prog" where
  "distinct_values sparse T sz from to r =
     (if sz = 0 then Ret [] r
      else if from > to then testlib_fail ''random_t::distinct expected from <= to'' r
      else if sz < 0 then testlib_fail ''random_t::distinct expected size >= 0'' r
      else if \<not> t_fits T (to - from) \<or> \<not> t_fits T (to - from + 1) then Crash
      else let n = to - from + 1 in
        if sz > n then testlib_fail ''random_t::distinct expected size <= to - from + 1'' r
        else if sparse sz n then ended (distinct_loop T sz from to [] r)
        else if n > 1000000000 then testlib_fail ''random_t::distinct here expected to - from + 1 <= 1000000000'' r
        else andThen (perm T_int T n from r) (\<lambda>p r. Ret (take (nat sz) p) r))"

definition distinct_below :: "(int \<Rightarrow> int \<Rightarrow> bool) \<Rightarrow> itype \<Rightarrow> int \<Rightarrow> int \<Rightarrow> (random_t, int list) prog" where
  "distinct_below sparse T sz upper r =
     (if sz < 0 then testlib_fail ''random_t::distinct expected size >= 0'' r
      else if sz = 0 then Ret [] r
      else if upper \<le> 0 then testlib_fail ''random_t::distinct expected upper > 0'' r
      else if sz > upper then testlib_fail ''random_t::distinct expected size <= upper'' r
      else distinct_values sparse T sz 0 (upper - 1) r)"

text \<open>The gaps between the sorted separators, and behind the last one up to \<open>back\<close>.\<close>

definition septum_gaps :: "int \<Rightarrow> int list \<Rightarrow> int list" where
  "septum_gaps back septums =
     map (\<lambda>i. septums ! (i + 1) - septums ! i - 1) [0..<length septums - 1] @ [back - last septums]"

definition partition_sum ::
    "(int \<Rightarrow> int \<Rightarrow> bool) \<Rightarrow> itype \<Rightarrow> int \<Rightarrow> int \<Rightarrow> int \<Rightarrow> (random_t, int list) prog" where
  "partition_sum sparse T sz total_sum min_part r =
     (if sz < 0 then testlib_fail ''random_t::partition: size < 0'' r
      else if sz = 0 \<and> total_sum \<noteq> 0 then testlib_fail ''random_t::partition: size == 0 && sum != 0'' r
      else if \<not> t_fits T (min_part * sz) then Crash
      else if min_part * sz > total_sum then testlib_fail ''random_t::partition: min_part * size > sum'' r
      else if sz = 0 \<and> total_sum = 0 then Ret [] r
      else let rest = total_sum - min_part * sz in
        if \<not> t_fits T rest \<or> \<not> t_fits T (rest + sz) then Crash
        else andThen (distinct_values sparse T (sz - 1) 1 (rest + sz - 1) r) (\<lambda>d r.
          let septums = sort (0 # d);
              result = map (\<lambda>x. x + min_part) (septum_gaps (rest + sz - 1) septums)
          in if sum_list result \<noteq> total_sum
             then testlib_fail ''random_t::partition: partition sum is expected to be the given sum'' r
             else if Min (set result) < min_part
             then testlib_fail ''random_t::partition: partition min is expected to be no less than the given min_part'' r
             else if int (length result) \<noteq> sz
             then testlib_fail ''random_t::partition: partition size is expected to be equal to the given size'' r
             else Ret result r))"

definition partition_positive :: "(int \<Rightarrow> int \<Rightarrow> bool) \<Rightarrow> itype \<Rightarrow> int \<Rightarrow> int \<Rightarrow> (random_t, int list) prog" where
  "partition_positive sparse T sz total_sum r = partition_sum sparse T sz total_sum 1 r"

section \<open>Strings of a pattern\<close>

primrec next_chars :: "string \<Rightarrow> nat \<Rightarrow> (random_t, string) prog" where
  "next_chars chars 0 r = Ret [] r"
| "next_chars chars (Suc n) r =
     andThen (next_int (to_int32 (int (length chars))) r) (\<lambda>i r.
     andThen (next_chars chars n r) (\<lambda>w r. Ret (chars ! nat i # w) r))"

function pattern_next :: "pattern \<Rightarrow> (random_t, string) prog" where
  "pattern_next (Pattern s children chars from to) r =
     (if to = INT_MAX
      then testlib_fail ''pattern::next(random_t& rnd): can't process character '*' for generation'' r
      else andThen
        (if to > 0 then
           if to - from + 1 > INT_MAX then Crash
           else andThen (next_int (to - from + 1) r) (\<lambda>x r. next_chars chars (nat (x + from)) r)
         else Ret [] r)
        (\<lambda>result r.
          if length children > 0 then
            andThen (next_int (to_int32 (int (length children))) r) (\<lambda>child r.
              if nat child < length children
              then andThen (pattern_next (children ! nat child) r) (\<lambda>w r. Ret (result @ w) r)
              else Crash)
          else Ret result r))"
  by pat_completeness auto
termination
  by (relation "measure (size \<circ> fst)") (auto simp: less_Suc_eq_le intro!: size_list_estimation' [OF nth_mem])

declare pattern_next.simps [simp del]

definition rnd_string :: "string \<Rightarrow> (random_t, string) prog" where
  "rnd_string ptrn r = andThen (pattern_new ptrn r) (\<lambda>p r. pattern_next p r)"

section \<open>The generator as a recurrence\<close>

definition lcg_state :: "random_t \<Rightarrow> int" where
  "lcg_state r = uint (rt_seed r) mod 2 ^ 48"

definition draw_next :: "random_t \<Rightarrow> random_t" where
  "draw_next r = r\<lparr>rt_seed := word_of_int (lcg_step (lcg_state r))\<rparr>"

lemma lcg_state_range: "0 \<le> lcg_state r" "lcg_state r < 2 ^ 48"
  by (simp_all add: lcg_state_def)

lemma lcg_step_range: "0 \<le> lcg_step x" "lcg_step x < 2 ^ 48"
  by (simp_all add: lcg_step_def)

lemma lcg_state_next [simp]: "lcg_state (draw_next r) = lcg_step (lcg_state r)"
proof -
  have "lcg_step (lcg_state r) mod 2 ^ 64 = lcg_step (lcg_state r)"
    using lcg_step_range [of "lcg_state r"] by (intro mod_pos_pos_trivial) simp_all
  then show ?thesis
    using lcg_step_range [of "lcg_state r"] by (simp add: lcg_state_def draw_next_def uint_word_of_int)
qed

lemma lcg_state_funpow: "lcg_state ((draw_next ^^ n) r) = (lcg_step ^^ n) (lcg_state r)"
  by (induction n) simp_all

lemma rt_version_next [simp]: "rt_version (draw_next r) = rt_version r"
  by (simp add: draw_next_def)

lemma seed_step: "uint ((rt_seed r * rt_multiplier + rt_addend) AND rt_mask) = lcg_step (lcg_state r)"
proof -
  have m: "rt_mask = mask 48" by (simp add: rt_mask_def mask_eq_exp_minus_1 push_bit_eq_mult)
  have "uint ((rt_seed r * rt_multiplier + rt_addend) AND rt_mask) = take_bit 48 (uint (rt_seed r * rt_multiplier + rt_addend))"
    unfolding m take_bit_eq_mask [symmetric] by (simp add: unsigned_take_bit_eq)
  also have "\<dots> = (uint (rt_seed r) * lcg_a + lcg_c) mod 2 ^ 48"
    by (simp add: rt_multiplier_def rt_addend_def lcg_a_def lcg_c_def uint_word_ariths take_bit_eq_mod mod_mod_cancel mod_simps)
  also have "\<dots> = (lcg_a * lcg_state r + lcg_c) mod 2 ^ 48"
    unfolding lcg_state_def mult.commute [of _ lcg_a] by (metis mod_add_left_eq mod_mult_right_eq)
  finally show ?thesis by (simp add: lcg_step_def)
qed

lemma draw_bits_eq: "draw_bits bits r = Ret (lcg_state (draw_next r) div 2 ^ (48 - bits)) (draw_next r)"
proof -
  define w where "w = (rt_seed r * rt_multiplier + rt_addend) AND rt_mask"
  have w: "uint w = lcg_step (lcg_state r)" unfolding w_def by (rule seed_step)
  have "uint (drop_bit k w) = uint w div 2 ^ k" for k
    using take_bit_int_eq_self [OF uint_ge_0, of w 64] uint_bounded [of w] by (simp add: unsigned_drop_bit_eq drop_bit_eq_div [where ?'a = int])
  moreover have "r\<lparr>rt_seed := w\<rparr> = draw_next r" unfolding draw_next_def w [symmetric] by simp
  ultimately show ?thesis by (simp add: draw_bits_def w_def [symmetric] w)
qed

lemma nextBits_low: "bits \<le> 48 \<Longrightarrow> nextBits bits r = Ret (lcg_state (draw_next r) div 2 ^ (48 - bits)) (draw_next r)"
  by (simp add: nextBits.simps [of bits] draw_bits_eq)

lemma xor_disjoint: "push_bit k a XOR b = 2 ^ k * a + b" if "0 \<le> b" "b < 2 ^ k" for a b :: int
proof -
  have "push_bit k a AND take_bit k b = 0" by (rule bit_eqI) (auto simp: bit_simps)
  moreover have "take_bit k b = b" using that by (simp add: take_bit_int_eq_self)
  ultimately have "push_bit k a AND b = 0" by simp
  then have "push_bit k a XOR b = push_bit k a + b" by (simp add: disjunctive_xor_eq_or disjunctive_add_eq_or)
  then show ?thesis by (simp add: push_bit_eq_mult)
qed

section \<open>The loops end\<close>

text \<open>The value of \<^verbatim>\<open>nextBits(63)\<close> and the two steps it makes.\<close>

definition long_bits :: "random_t \<Rightarrow> int" where
  "long_bits r = 2 ^ 32 * (lcg_state (draw_next r) div 2 ^ 17) +
     lcg_state (draw_next (draw_next r)) div 2 ^ (if rt_version r = 0 then 17 else 16)"

lemma state_bits: "0 \<le> lcg_state r div 2 ^ k" "k \<le> 48 \<Longrightarrow> lcg_state r div 2 ^ k < 2 ^ (48 - k)"
proof -
  show "0 \<le> lcg_state r div 2 ^ k" using lcg_state_range [of r] by (simp add: pos_imp_zdiv_nonneg_iff)
  assume "k \<le> 48"
  then have "lcg_state r < 2 ^ (48 - k) * 2 ^ k"
    using lcg_state_range(2) [of r] by (simp only: power_add [symmetric] le_add_diff_inverse2)
  moreover have "0 \<le> lcg_state r mod 2 ^ k" by simp
  then have "lcg_state r div 2 ^ k * 2 ^ k \<le> lcg_state r" using div_mult_mod_eq [of "lcg_state r" "2 ^ k"] by linarith
  ultimately have "lcg_state r div 2 ^ k * 2 ^ k < 2 ^ (48 - k) * 2 ^ k" by (rule le_less_trans [rotated])
  then show "lcg_state r div 2 ^ k < 2 ^ (48 - k)" by simp
qed

lemma nextBits_long: "nextBits 63 r = Ret (long_bits r) (draw_next (draw_next r))"
proof -
  have lo: "lcg_state (draw_next (draw_next r)) div 2 ^ (if rt_version r = 0 then 17 else 16) < 2 ^ 32"
    using state_bits(2) [of 17 "draw_next (draw_next r)"] state_bits(2) [of 16 "draw_next (draw_next r)"] by simp
  show ?thesis
    using xor_disjoint [OF state_bits(1) lo]
    by (cases "rt_version r = 0") (simp_all add: nextBits.simps [of 63] nextBits_low long_bits_def)
qed

lemma long_bits_ge_0: "0 \<le> long_bits r"
  using state_bits(1) [of "draw_next r" 17] state_bits(1) [of "draw_next (draw_next r)"] by (simp add: long_bits_def)

lemma draw_below_ends:
  assumes draw: "\<And>r. nextBits b r = Ret (val r) (step r)" and small: "val ((step ^^ n) r) < limit"
  shows "\<exists>r'. draw_below b limit r = Some (Ret (val r') (step r')) \<and> val r' < limit"
  using small
proof (induction n arbitrary: r)
  case 0
  then show ?case by (intro exI [of _ r]) (simp add: draw_below.simps [of b limit r] draw)
next
  case (Suc n)
  show ?case
  proof (cases "val r < limit")
    case True
    then show ?thesis by (intro exI [of _ r]) (simp add: draw_below.simps [of b limit r] draw)
  next
    case False
    then have "draw_below b limit r = draw_below b limit (step r)" by (simp add: draw_below.simps [of b limit r] draw)
    then show ?thesis using Suc.IH [of "step r"] Suc.prems by (simp add: funpow_swap1)
  qed
qed

lemma bits31_ends:
  assumes "0 < limit"
  shows "\<exists>r' r''. draw_below 31 limit r = Some (Ret (lcg_state r' div 2 ^ 17) r'') \<and> lcg_state r' div 2 ^ 17 < limit"
proof -
  obtain n where "(lcg_step ^^ n) (lcg_state (draw_next r)) = 0"
    using lcg_full_period [OF lcg_state_range, of 0 "draw_next r"] by auto
  then have "lcg_state (draw_next ((draw_next ^^ n) r)) = 0"
    by (simp add: lcg_state_funpow funpow_swap1 del: funpow.simps)
  then show ?thesis
    using draw_below_ends [of 31 "\<lambda>r. lcg_state (draw_next r) div 2 ^ 17" draw_next n r limit] assms
    by (auto simp: nextBits_low simp del: lcg_state_next)
qed

lemma bits63_ends:
  assumes "2 ^ 32 \<le> limit"
  shows "\<exists>r' r''. draw_below 63 limit r = Some (Ret (long_bits r') r'') \<and> long_bits r' < limit"
proof -
  let ?x = "lcg_state (draw_next r)"
  have "?x mod 2 < 2 ^ 48" using pos_mod_bound [of 2 ?x] by simp
  then obtain n where n: "(lcg_step ^^ (2 * n)) ?x = ?x mod 2"
    using lcg_even_period [OF lcg_state_range, of "?x mod 2" "draw_next r"] by auto
  let ?r = "((draw_next \<circ> draw_next) ^^ n) r"
  have "draw_next \<circ> draw_next = draw_next ^^ 2" by (simp add: numeral_2_eq_2)
  then have r: "?r = (draw_next ^^ (2 * n)) r" by (simp add: funpow_mult mult.commute)
  have "lcg_state (draw_next ?r) = ?x mod 2"
    unfolding r using n by (simp add: lcg_state_funpow funpow_swap1 del: funpow.simps)
  then have "lcg_state (draw_next ?r) div 2 ^ 17 = 0" by simp
  then have "long_bits ?r < limit"
    using state_bits(2) [of 17 "draw_next (draw_next ?r)"] state_bits(2) [of 16 "draw_next (draw_next ?r)"] assms
    by (simp add: long_bits_def)
  then show ?thesis
    using draw_below_ends [of 63 long_bits "draw_next \<circ> draw_next" n r limit] by (auto simp: nextBits_long)
qed

section \<open>Numbers below a bound, shown\<close>

lemma multiple_limit: "0 < n \<Longrightarrow> n \<le> m \<Longrightarrow> m - n < m div n * n \<and> n \<le> m div n * n" for m n :: int
proof -
  assume n: "0 < n" "n \<le> m"
  have "m div n * n = m - m mod n" by (simp add: minus_mod_eq_div_mult)
  moreover have "m mod n < n" using n by simp
  moreover have "1 \<le> m div n" using n by (simp add: pos_imp_zdiv_pos_iff int_one_le_iff_zero_less)
  then have "1 * n \<le> m div n * n" using n by (intro mult_right_mono) simp_all
  ultimately show ?thesis by linarith
qed

lemma next_int_ok:
  assumes "0 < n" "n \<le> INT_MAX"
  shows "\<exists>v r'. next_int n r = Ret v r' \<and> 0 \<le> v \<and> v < n"
proof (cases "n AND - n = n")
  case True
  let ?b = "lcg_state (draw_next r) div 2 ^ 17"
  have b: "0 \<le> ?b" "?b < 2 ^ 31" using state_bits(1) [of "draw_next r" 17] state_bits(2) [of 17 "draw_next r"] by (simp_all del: lcg_state_next)
  have "0 \<le> n * ?b" "n * ?b < n * 2 ^ 31" using assms b by (simp_all del: lcg_state_next)
  then have "0 \<le> drop_bit 31 (n * ?b)" "drop_bit 31 (n * ?b) < n"
    by (simp_all add: drop_bit_eq_div pos_imp_zdiv_nonneg_iff div_pos_geq del: lcg_state_next)
  then show ?thesis using True assms by (simp add: next_int_def nextBits_low)
next
  case False
  have "0 < INT_MAX div n * n" using multiple_limit [OF assms] assms by linarith
  then obtain r' r'' where "draw_below 31 (INT_MAX div n * n) r = Some (Ret (lcg_state r' div 2 ^ 17) r'')"
    using bits31_ends by blast
  then show ?thesis using False assms by (simp add: next_int_def ended_def)
qed

lemma next_long_ok:
  assumes "0 < n" "n \<le> LLONG_MAX"
  shows "\<exists>v r'. next_long n r = Ret v r' \<and> 0 \<le> v \<and> v < n"
proof -
  have "2 ^ 32 \<le> LLONG_MAX div n * n" using multiple_limit [OF assms] by (simp add: LLONG_MAX_def)
  then obtain r' r'' where "draw_below 63 (LLONG_MAX div n * n) r = Some (Ret (long_bits r') r'')"
    using bits63_ends by blast
  then show ?thesis using assms by (simp add: next_long_def ended_def)
qed

section \<open>The contract of a source of numbers\<close>

text \<open>
  Every overload of \<^verbatim>\<open>next\<close> and \<^verbatim>\<open>wnext\<close> for one argument promises the same: it returns, with a number
  from 0 below its argument. The ranges and the choice of an element rest on nothing else.
\<close>

locale number_source =
  fixes draw :: "int \<Rightarrow> (random_t, int) prog" and top :: int
  assumes draw_ok: "0 < n \<Longrightarrow> n \<le> top \<Longrightarrow> \<exists>v r'. draw n r = Ret v r' \<and> 0 \<le> v \<and> v < n"
begin

lemma shifted:
  assumes "lo \<le> hi" "hi - lo + 1 \<le> top" "\<And>v. lo \<le> v \<Longrightarrow> v \<le> hi \<Longrightarrow> wrap v = v"
  shows "\<exists>v r'. andThen (draw (hi - lo + 1) r) (\<lambda>x r. Ret (wrap (x + lo)) r) = Ret v r' \<and> lo \<le> v \<and> v \<le> hi"
proof -
  obtain v r' where "draw (hi - lo + 1) r = Ret v r'" "0 \<le> v" "v < hi - lo + 1"
    using draw_ok [of "hi - lo + 1" r] assms(1,2) by auto
  then show ?thesis using assms(3) [of "v + lo"] by simp
qed

lemma picked:
  assumes "c \<noteq> []" "int (length c) \<le> top"
  shows "\<exists>x r'. andThen (draw (int (length c)) r) (\<lambda>i r. Ret (c ! nat i) r) = Ret x r' \<and> x \<in> set c"
proof -
  obtain v r' where v: "draw (int (length c)) r = Ret v r'" "0 \<le> v" "v < int (length c)"
    using draw_ok [of "int (length c)" r] assms by auto
  then have "nat v < length c" by linarith
  then show ?thesis using v(1) by simp
qed

end

interpretation ints: number_source next_int INT_MAX
  by unfold_locales (rule next_int_ok)

interpretation longs: number_source next_long LLONG_MAX
  by unfold_locales (rule next_long_ok)

interpretation uints: number_source next_uint "INT_MAX - 1"
  using ints.draw_ok by unfold_locales (simp add: next_uint_def)

interpretation ulonglongs: number_source next_ulonglong "LLONG_MAX - 1"
  using longs.draw_ok by unfold_locales (simp add: next_ulonglong_def)

interpretation ulongs: number_source next_ulong "LLONG_MAX - 1"
  using ulonglongs.draw_ok by unfold_locales (simp add: next_ulong_def)

interpretation typed: number_source "next_of T" "t_max T" for T
  using ints.draw_ok longs.draw_ok by unfold_locales (cases T; simp add: next_of_def t_max_def)

lemma to_int32_id: "INT_MIN \<le> x \<Longrightarrow> x \<le> INT_MAX \<Longrightarrow> to_int32 x = x"
  by (simp add: to_int32_def limit_defs)

lemma next_int_range_ok:
  "INT_MIN \<le> lo \<Longrightarrow> lo \<le> hi \<Longrightarrow> hi \<le> INT_MAX \<Longrightarrow> \<exists>v r'. next_int_range lo hi r = Ret v r' \<and> lo \<le> v \<and> v \<le> hi"
  unfolding next_int_range_def by (rule longs.shifted [where wrap = "\<lambda>x. x"]) (simp_all add: limit_defs)

lemma next_uint_range_ok:
  "0 \<le> lo \<Longrightarrow> lo \<le> hi \<Longrightarrow> hi < 2 ^ 32 \<Longrightarrow> \<exists>v r'. next_uint_range lo hi r = Ret v r' \<and> lo \<le> v \<and> v \<le> hi"
  unfolding next_uint_range_def by (rule longs.shifted) (simp_all add: limit_defs)

lemma next_long_range_ok:
  assumes "lo \<le> hi" "hi - lo + 1 \<le> LLONG_MAX"
  shows "\<exists>v r'. next_long_range lo hi r = Ret v r' \<and> lo \<le> v \<and> v \<le> hi"
proof -
  have "llong_fits (hi - lo)" "llong_fits (hi - lo + 1)" using assms by (simp_all add: llong_fits_def limit_defs)
  then show ?thesis unfolding next_long_range_def using longs.shifted [OF assms, of "\<lambda>x. x"] by simp
qed

text \<open>A range of unsigned numbers is refused when its size is \<^verbatim>\<open>LLONG_MAX\<close> or more.\<close>

lemma next_ulonglong_range_ok:
  assumes "0 \<le> lo" "lo \<le> hi" "hi \<le> ULLONG_MAX" "hi - lo + 1 < LLONG_MAX"
  shows "\<exists>v r'. next_ulonglong_range lo hi r = Ret v r' \<and> lo \<le> v \<and> v \<le> hi"
proof -
  have "(hi - lo + 1) mod 2 ^ 64 = hi - lo + 1" using assms by (simp add: limit_defs)
  then show ?thesis unfolding next_ulonglong_range_def
    using ulonglongs.shifted [of lo hi "\<lambda>x. x mod 2 ^ 64" r] assms by (simp add: limit_defs)
qed

lemma range_of_ok:
  assumes "t_min T \<le> lo" "lo \<le> hi" "hi \<le> t_max T" "hi - lo + 1 \<le> t_max T"
  shows "\<exists>v r'. range_of T lo hi r = Ret v r' \<and> lo \<le> v \<and> v \<le> hi"
  using assms next_int_range_ok [of lo hi r] next_long_range_ok [of lo hi r]
  by (cases T) (simp_all add: range_of_def t_min_def t_max_def)

lemma rnd_any_ok:
  assumes "c \<noteq> []" "int (length c) \<le> INT_MAX"
  shows "\<exists>x r'. rnd_any c r = Ret x r' \<and> x \<in> set c"
  using ints.picked [OF assms, of r] assms to_int32_id [of "int (length c)"] by (simp add: rnd_any_def limit_defs)

lemma rnd_any_empty: "\<exists>msg. rnd_any [] r = Quit (QuitReq None TR_fail msg) r"
  by (simp add: rnd_any_def to_int32_def testlib_fail_def)

section \<open>Weighted numbers, shown\<close>

lemma wnext_loop_ok:
  assumes "0 < n" "n \<le> t_max T" "0 \<le> x" "x < n"
    and better: "\<And>a b. better a b = a \<or> better a b = b"
  shows "\<exists>v r'. wnext_loop better T n k x r = Ret v r' \<and> 0 \<le> v \<and> v < n"
  using assms(3,4)
proof (induction k arbitrary: x r)
  case (Suc k)
  obtain v r' where v: "next_of T n r = Ret v r'" "0 \<le> v" "v < n" using typed.draw_ok [OF assms(1,2)] by blast
  have "0 \<le> better x v \<and> better x v < n" using better [of x v] v Suc.prems by auto
  then show ?case using Suc.IH v(1) by simp
qed simp

lemma max_min_choose: "testlib_max a b = a \<or> testlib_max a b = b" "testlib_min a b = a \<or> testlib_min a b = b"
  by (simp_all add: testlib_max_def testlib_min_def)

lemma next_double_ok: "\<exists>x r'. next_double r = Ret x r' \<and> 0 \<le> x \<and> x < 1"
proof -
  let ?a = "lcg_state (draw_next r) div 2 ^ 22" and ?b = "lcg_state (draw_next (draw_next r)) div 2 ^ 21"
  have "0 \<le> ?a" "?a < 2 ^ 26" "0 \<le> ?b" "?b < 2 ^ 27"
    using state_bits(1) [of "draw_next r" 22] state_bits(1) [of "draw_next (draw_next r)" 21] state_bits(2) [of 22 "draw_next r"]
       state_bits(2) [of 21 "draw_next (draw_next r)"]
    by (simp_all del: lcg_state_next)
  then have "0 \<le> 2 ^ 27 * ?a + ?b" "2 ^ 27 * ?a + ?b < 2 ^ 53" by simp_all
  then have "0 \<le> real_of_int (2 ^ 27 * ?a + ?b)" "real_of_int (2 ^ 27 * ?a + ?b) < real_of_int (2 ^ 53)"
    by (simp_all only: of_int_0_le_iff of_int_less_iff)
  then have "0 \<le> of_int (2 ^ 27 * ?a + ?b) / (2 ^ 53 :: real) \<and> of_int (2 ^ 27 * ?a + ?b) / (2 ^ 53 :: real) < 1" by simp
  moreover have "next_double r = Ret (of_int (2 ^ 27 * ?a + ?b) / 2 ^ 53) (draw_next (draw_next r))"
    by (simp add: next_double_def nextBits_low push_bit_eq_mult mult.commute)
  ultimately show ?thesis by blast
qed

lemma wnext_ok:
  assumes "INT_MIN < type" "0 < n" "n \<le> t_max T"
  shows "\<exists>v r'. wnext weighted T n type r = Ret v r' \<and> 0 \<le> v \<and> v < n"
proof (cases "\<bar>type\<bar> < rt_lim")
  case True
  obtain x r1 where x: "next_of T n r = Ret x r1" "0 \<le> x" "x < n" using typed.draw_ok [OF assms(2,3)] by blast
  obtain y r2 where y: "wnext_loop testlib_max T n (nat type) x r1 = Ret y r2" "0 \<le> y" "y < n"
    using wnext_loop_ok [OF assms(2,3) x(2,3)] max_min_choose(1) by blast
  obtain z r3 where z: "wnext_loop testlib_min T n (nat (- type)) y r2 = Ret z r3" "0 \<le> z" "z < n"
    using wnext_loop_ok [OF assms(2,3) y(2,3)] max_min_choose(2) by blast
  show ?thesis using assms True x(1) y(1) z by (simp add: wnext_def)
next
  case False
  obtain x r' where "next_double r = Ret x r'" using next_double_ok by blast
  then show ?thesis using assms False by (simp add: wnext_def testlib_crop_def testlib_min_def testlib_max_def)
qed

lemma wnext_source: "INT_MIN < type \<Longrightarrow> number_source (\<lambda>n. wnext weighted T n type) (t_max T)"
  by unfold_locales (rule wnext_ok)

lemma wnext_range_ok:
  assumes "INT_MIN < type" "lo \<le> hi" "hi - lo + 1 \<le> t_max T"
  shows "\<exists>v r'. wnext_range weighted T lo hi type r = Ret v r' \<and> lo \<le> v \<and> v \<le> hi"
proof -
  have "t_fits T (hi - lo)" "t_fits T (hi - lo + 1)"
    using assms by (cases T; simp add: t_fits_def t_max_def t_min_def limit_defs)+
  then show ?thesis
    using number_source.shifted [OF wnext_source [OF assms(1)] assms(2,3), of "\<lambda>x. x"] assms(2) by (simp add: wnext_range_def)
qed

lemma wany_ok:
  assumes "INT_MIN < type" "c \<noteq> []" "int (length c) \<le> INT_MAX"
  shows "\<exists>x r'. wany weighted c type r = Ret x r' \<and> x \<in> set c"
  using number_source.picked [OF wnext_source [OF assms(1)] assms(2), of T_int weighted r] assms to_int32_id [of "int (length c)"]
  by (simp add: wany_def limit_defs t_max_def)

section \<open>Permutations and sets, shown\<close>

lemma swap_at_props:
  assumes "i < length p" "j < length p"
  shows "length (swap_at i j p) = length p" "mset (swap_at i j p) = mset p"
  using assms by (simp_all add: swap_at_def mset_swap)

lemma perm_loop_ok:
  assumes "0 < i" "int (length p) = sz" "sz \<le> t_max T"
  shows "\<exists>p' r'. perm_loop T sz i p r = Ret p' r' \<and> mset p' = mset p"
  using assms
proof (induction T sz i p r rule: perm_loop.induct)
  case (1 T sz i p r)
  show ?case
  proof (cases "i < sz")
    case True
    obtain j r' where j: "next_of T (i + 1) r = Ret j r'" "0 \<le> j" "j < i + 1"
      using typed.draw_ok [of "i + 1" T r] "1.prems" True by auto
    have "nat i < length p" "nat j < length p" using "1.prems" True j by linarith+
    note s = swap_at_props [OF this]
    show ?thesis using "1.IH" [OF True j(1)] "1.prems" j(1) True s by (simp add: perm_loop.simps [of T sz i p r])
  next
    case False
    then show ?thesis by (simp add: perm_loop.simps [of T sz i p r])
  qed
qed

lemma perm_ok:
  assumes "0 \<le> sz" "sz \<le> t_max T" "first + sz \<le> t_max E"
  shows "\<exists>p r'. perm T E sz first r = Ret p r' \<and> mset p = mset [first..first + sz - 1]"
proof -
  let ?p = "map (\<lambda>i. first + int i) [0..<nat sz]"
  have p: "[first..first + sz - 1] = ?p"
    using assms(1) by (intro nth_equalityI) (simp_all add: nth_upto)
  show ?thesis
  proof (cases "sz > 1")
    case True
    then obtain p' r' where "perm_loop T sz 1 ?p r = Ret p' r'" "mset p' = mset ?p"
      using perm_loop_ok [of 1 ?p sz T r] assms by auto
    then show ?thesis using True assms by (simp add: perm_def p del: mset_map)
  next
    case False
    then show ?thesis using assms by (auto simp: perm_def p)
  qed
qed

lemma shuffle_ok:
  assumes "int (length c) \<le> INT_MAX"
  shows "\<exists>c' r'. shuffle c r = Ret c' r' \<and> mset c' = mset c"
  using perm_loop_ok [of 1 c "int (length c)" T_int r] assms by (simp add: shuffle_def t_max_def)

text \<open>The result of \<^verbatim>\<open>distinct\<close>: when it draws a permutation it always returns; when it draws numbers until it
  has enough, the elements are right if it returns.\<close>

definition distinct_in :: "int \<Rightarrow> int \<Rightarrow> int \<Rightarrow> int list \<Rightarrow> bool" where
  "distinct_in sz lo hi d \<longleftrightarrow> distinct d \<and> set d \<subseteq> {lo..hi} \<and> int (length d) = sz"

lemma perm_take:
  assumes "mset p = mset [lo..hi]" "0 \<le> sz" "sz \<le> hi - lo + 1"
  shows "distinct_in sz lo hi (take (nat sz) p)"
proof -
  have "distinct p" "set p = {lo..hi}" "length p = nat (hi - lo + 1)"
    using mset_eq_imp_distinct_iff [OF assms(1)] mset_eq_setD [OF assms(1)] mset_eq_length [OF assms(1)] by simp_all
  then show ?thesis using assms(2,3) set_take_subset [of "nat sz" p] by (simp add: distinct_in_def)
qed

lemma distinct_dense_ok:
  assumes "\<not> sparse sz (hi - lo + 1)" "0 \<le> sz" "sz \<le> hi - lo + 1" "hi - lo + 1 \<le> 1000000000" "hi < t_max T"
  shows "\<exists>d r'. distinct_values sparse T sz lo hi r = Ret d r' \<and> distinct_in sz lo hi d"
proof (cases "sz = 0")
  case True
  then show ?thesis by (simp add: distinct_values_def distinct_in_def)
next
  case False
  have f: "t_fits T (hi - lo)" "t_fits T (hi - lo + 1)"
    using assms(2-4) False by (cases T; simp add: t_fits_def t_max_def t_min_def limit_defs)+
  obtain p r' where p: "perm T_int T (hi - lo + 1) lo r = Ret p r'" "mset p = mset [lo..hi]"
    using perm_ok [of "hi - lo + 1" T_int lo T r] assms by (auto simp: t_max_def limit_defs)
  show ?thesis using False f p(1) assms perm_take [OF p(2) assms(2,3)] by (simp add: distinct_values_def)
qed

lemma range_of_bounds:
  assumes "range_of T lo hi r = Ret x r'"
  shows "lo \<le> x \<and> x \<le> hi"
proof -
  have "\<exists>y r''. next_long (hi - lo + 1) r = Ret y r'' \<and> x = y + lo"
    using assms by (cases T) (auto simp: range_of_def next_int_range_def next_long_range_def andThen_Ret_iff split: if_splits)
  then obtain y r'' where y: "next_long (hi - lo + 1) r = Ret y r''" "x = y + lo" by blast
  then have "0 < hi - lo + 1" by (auto simp: next_long_def testlib_fail_def split: if_splits)
  then have "0 \<le> y \<and> y < hi - lo + 1"
    using y(1) pos_mod_bound [of "hi - lo + 1"] by (auto simp: next_long_def andThen_Ret_iff)
  then show ?thesis using y(2) by simp
qed

definition distinct_inv :: "int \<Rightarrow> int \<Rightarrow> int \<Rightarrow> int list \<Rightarrow> (random_t, int list) outcome \<Rightarrow> bool" where
  "distinct_inv sz lo hi d out \<longleftrightarrow> (\<forall>d' r'. out = Ret d' r' \<longrightarrow> distinct d \<longrightarrow> set d \<subseteq> {lo..hi} \<longrightarrow> int (length d) \<le> sz \<longrightarrow>
     distinct_in sz lo hi d')"

lemma distinct_loop_inv:
  assumes "distinct_loop T sz lo hi d r = Some out"
  shows "distinct_inv sz lo hi d out"
proof (rule distinct_loop.raw_induct [OF _ assms, where P = "\<lambda>T sz lo hi d r out. distinct_inv sz lo hi d out"])
  fix loop :: "itype \<Rightarrow> int \<Rightarrow> int \<Rightarrow> int \<Rightarrow> int list \<Rightarrow> random_t \<Rightarrow> (random_t, int list) outcome option"
  fix T sz lo hi d r out
  assume IH: "\<And>T sz lo hi d r out. loop T sz lo hi d r = Some out \<Longrightarrow> distinct_inv sz lo hi d out"
    and body: "(if int (length d) < sz then
        case range_of T lo hi r of Ret x r \<Rightarrow> loop T sz lo hi (if x \<in> set d then d else d @ [x]) r
        | Quit q r \<Rightarrow> Some (Quit q r) | Crash \<Rightarrow> Some Crash
      else Some (Ret d r)) = Some out"
  show "distinct_inv sz lo hi d out"
  proof (cases "int (length d) < sz")
    case True
    show ?thesis
    proof (cases "range_of T lo hi r")
      case (Ret x r1)
      have "distinct_inv sz lo hi (if x \<in> set d then d else d @ [x]) out" using IH body True Ret by simp
      then show ?thesis using True range_of_bounds [OF Ret] by (auto simp: distinct_inv_def split: if_splits)
    qed (use body True in \<open>auto simp: distinct_inv_def\<close>)
  next
    case False
    then show ?thesis using body by (auto simp: distinct_inv_def distinct_in_def)
  qed
qed

lemma distinct_values_ok:
  assumes "distinct_values sparse T sz lo hi r = Ret d r'"
  shows "distinct_in sz lo hi d"
proof (cases "sz = 0")
  case True
  then show ?thesis using assms by (simp add: distinct_values_def distinct_in_def)
next
  case False
  let ?n = "hi - lo + 1"
  have sz: "0 < sz" "sz \<le> ?n" using False assms by (auto simp: distinct_values_def testlib_fail_def Let_def split: if_splits)
  show ?thesis
  proof (cases "sparse sz ?n")
    case True
    then have "ended (distinct_loop T sz lo hi [] r) = Ret d r'"
      using False assms sz by (simp add: distinct_values_def testlib_fail_def split: if_splits)
    then have "distinct_loop T sz lo hi [] r = Some (Ret d r')" by (simp add: ended_def split: option.splits)
    then show ?thesis using distinct_loop_inv sz(1) by (fastforce simp: distinct_inv_def)
  next
    case dense: False
    then obtain p r1 where p: "perm T_int T ?n lo r = Ret p r1" "d = take (nat sz) p" "?n \<le> 1000000000"
      using False assms sz by (auto simp: distinct_values_def testlib_fail_def andThen_Ret_iff Let_def split: if_splits)
    then have "lo + ?n \<le> t_max T" using sz by (auto simp: perm_def split: if_splits)
    then have "mset p = mset [lo..hi]" using perm_ok [of ?n T_int lo T r] p sz by (auto simp: t_max_def limit_defs)
    then show ?thesis unfolding p(2) using perm_take sz by simp
  qed
qed

section \<open>Partitions, shown\<close>

lemma septum_gaps_simps:
  "septum_gaps b [x] = [b - x]"
  "septum_gaps b (x # y # ys) = (y - x - 1) # septum_gaps b (y # ys)"
proof -
  show "septum_gaps b [x] = [b - x]" by (simp add: septum_gaps_def)
  have "[0..<length (x # y # ys) - 1] = 0 # map Suc [0..<length (y # ys) - 1]" by (simp add: upt_conv_Cons map_Suc_upt del: upt_Suc)
  then show "septum_gaps b (x # y # ys) = (y - x - 1) # septum_gaps b (y # ys)" by (simp add: septum_gaps_def comp_def del: upt_Suc)
qed

lemma septum_gaps_spec:
  assumes "sorted (x # xs)" "distinct (x # xs)" "set (x # xs) \<subseteq> {..b}"
  shows "sum_list (septum_gaps b (x # xs)) = b - x - int (length xs) \<and>
    length (septum_gaps b (x # xs)) = Suc (length xs) \<and> (\<forall>g\<in>set (septum_gaps b (x # xs)). 0 \<le> g)"
  using assms
proof (induction xs arbitrary: x)
  case (Cons y ys)
  then have "x < y" by (auto simp: less_le)
  then show ?case using Cons by (auto simp: septum_gaps_simps)
qed (simp add: septum_gaps_simps)

lemma septums_gaps:
  assumes "distinct_in (sz - 1) 1 (rest + sz - 1) d" "0 < sz" "0 \<le> rest"
  defines "gaps \<equiv> septum_gaps (rest + sz - 1) (sort (0 # d))"
  shows "sum_list gaps = rest \<and> int (length gaps) = sz \<and> (\<forall>g\<in>set gaps. 0 \<le> g)"
proof -
  have d: "distinct d" "set d \<subseteq> {1..rest + sz - 1}" "int (length d) = sz - 1" using assms(1) by (simp_all add: distinct_in_def)
  have s: "sort (0 # d) = 0 # sort d" using d(2) by (auto intro!: insort_is_Cons)
  have "sorted (0 # sort d)" unfolding s [symmetric] by (rule sorted_sort)
  moreover have "distinct (0 # sort d)" "set (0 # sort d) \<subseteq> {..rest + sz - 1}" using d assms(2,3) by auto
  ultimately show ?thesis unfolding gaps_def s using septum_gaps_spec [of 0 "sort d" "rest + sz - 1"] d(3) by simp
qed

lemma partition_sum_ok:
  assumes "0 < sz" "t_fits T (min_part * sz)" "min_part * sz \<le> tot"
    and "t_fits T (tot - min_part * sz)" "t_fits T (tot - min_part * sz + sz)"
    and d: "distinct_values sparse T (sz - 1) 1 (tot - min_part * sz + sz - 1) r = Ret d r'"
  shows "\<exists>parts. partition_sum sparse T sz tot min_part r = Ret parts r' \<and>
    sum_list parts = tot \<and> int (length parts) = sz \<and> (\<forall>x\<in>set parts. min_part \<le> x)"
proof -
  let ?rest = "tot - min_part * sz"
  let ?gaps = "septum_gaps (?rest + sz - 1) (sort (0 # d))"
  let ?parts = "map (\<lambda>x. x + min_part) ?gaps"
  have g: "sum_list ?gaps = ?rest" "int (length ?gaps) = sz" "\<forall>g\<in>set ?gaps. 0 \<le> g"
    using septums_gaps [OF distinct_values_ok [OF d] assms(1)] assms(3) by simp_all
  have s: "sum_list ?parts = tot"
    using g(1,2) by (simp add: sum_list_addf sum_list_triv algebra_simps flip: map_map)
  have m: "\<forall>x\<in>set ?parts. min_part \<le> x" using g(3) by auto
  have "?parts \<noteq> []" using g(2) assms(1) by auto
  then have "\<not> Min (set ?parts) < min_part" using m by (simp only: Min_less_iff set_empty List.finite_set not_False_eq_True) auto
  then have "partition_sum sparse T sz tot min_part r = Ret ?parts r'"
    using assms g(2) s by (simp add: partition_sum_def Let_def)
  then show ?thesis using s m g(2) by (intro exI [of _ ?parts]) simp
qed

section \<open>Strings of a pattern, shown\<close>

lemma int_length_id: "int (length xs) \<le> INT_MAX \<Longrightarrow> to_int32 (int (length xs)) = int (length xs)"
  by (rule to_int32_id) (simp_all add: limit_defs)

lemma next_chars_ok:
  assumes "chars \<noteq> []" "int (length chars) \<le> INT_MAX"
  shows "\<exists>w r'. next_chars chars n r = Ret w r' \<and> length w = n \<and> set w \<subseteq> set chars"
proof (induction n arbitrary: r)
  case (Suc n)
  obtain i r1 where i: "next_int (int (length chars)) r = Ret i r1" "0 \<le> i" "i < int (length chars)"
    using ints.draw_ok [of "int (length chars)" r] assms by auto
  obtain w r2 where w: "next_chars chars n r1 = Ret w r2" "length w = n" "set w \<subseteq> set chars" using Suc by blast
  have "chars ! nat i \<in> set chars" using i by (intro nth_mem) linarith
  then show ?case using i(1) w by (simp add: int_length_id [OF assms(2)])
qed simp

text \<open>The patterns that \<^verbatim>\<open>next\<close> can draw from: no \<open>*\<close> or \<open>+\<close>, no empty set of characters.\<close>

fun generable :: "pattern \<Rightarrow> bool" where
  "generable (Pattern src children chars from to) \<longleftrightarrow>
     to < INT_MAX \<and> to - from + 1 \<le> INT_MAX \<and> from \<le> to \<and> int (length children) \<le> INT_MAX \<and>
     (to > 0 \<longrightarrow> chars \<noteq> [] \<and> int (length chars) \<le> INT_MAX) \<and> list_all generable children"

lemma next_block_ok:
  assumes "generable (Pattern src children chars lo to)"
  shows "\<exists>u r'. (if to > 0 then
           if to - lo + 1 > INT_MAX then Crash
           else andThen (next_int (to - lo + 1) r) (\<lambda>x r. next_chars chars (nat (x + lo)) r)
         else Ret [] r) = Ret u r' \<and> in_block chars lo to u"
proof (cases "to > 0")
  case True
  obtain x r1 where x: "next_int (to - lo + 1) r = Ret x r1" "0 \<le> x" "x < to - lo + 1"
    using ints.draw_ok [of "to - lo + 1" r] assms by auto
  obtain u r2 where u: "next_chars chars (nat (x + lo)) r1 = Ret u r2" "length u = nat (x + lo)" "set u \<subseteq> set chars"
    using next_chars_ok [of chars "nat (x + lo)" r1] assms True by auto
  have "in_block chars lo to u" using u(2,3) x True by (simp add: in_block_def)
  then show ?thesis using True x(1) u(1) assms by simp
next
  case False
  then show ?thesis by (simp add: in_block_def)
qed

lemma pattern_next_ok: "generable p \<Longrightarrow> \<exists>w r'. pattern_next p r = Ret w r' \<and> in_lang p w"
proof (induction p r rule: pattern_next.induct)
  case (1 s children chars lo to r)
  obtain u r1 where u: "(if to > 0 then
           if to - lo + 1 > INT_MAX then Crash
           else andThen (next_int (to - lo + 1) r) (\<lambda>x r. next_chars chars (nat (x + lo)) r)
         else Ret [] r) = Ret u r1" "in_block chars lo to u"
    using next_block_ok [OF "1.prems"] by blast
  have to: "to \<noteq> INT_MAX" using "1.prems" by simp
  show ?case
  proof (cases "children = []")
    case True
    then show ?thesis using u(1) to in_lang.leaf [OF u(2)] by (simp add: pattern_next.simps)
  next
    case False
    have l: "0 < int (length children)" "int (length children) \<le> INT_MAX" using False "1.prems" by simp_all
    obtain i r2 where i: "next_int (int (length children)) r1 = Ret i r2" "0 \<le> i" "i < int (length children)"
      using ints.draw_ok [OF l, of r1] by blast
    let ?c = "children ! nat i"
    have n: "nat i < length children" using i by linarith
    then have c: "?c \<in> set children" by simp
    then have "generable ?c" using "1.prems" by (simp add: list_all_iff)
    then obtain w r3 where w: "pattern_next ?c r2 = Ret w r3" "in_lang ?c w"
      using "1.IH" [OF to u(1) _ _ n] i(1) False by (auto simp: int_length_id [OF l(2)])
    have "pattern_next (Pattern s children chars lo to) r = Ret (u @ w) r3"
      using u(1) to False i(1) n w(1) by (simp add: pattern_next.simps int_length_id [OF l(2)])
    then show ?thesis using in_lang.node [OF u(2) c w(2)] by blast
  qed
qed

end
