(* ===== verification/TL_Opts.thy ===== *)
theory TL_Opts
  imports TL_Validator TL_Integers TL_Random
begin

text \<open>
  The command line options of a generator: how \<^verbatim>\<open>registerGen\<close> parses \<^verbatim>\<open>argv\<close> into a dictionary, the
  functions \<^verbatim>\<open>opt\<close> that read it as texts, booleans and integers, and the check that every option was
  used.

  The number of an option may carry an exponent, as in \<^verbatim>\<open>1e5\<close>. The integer is computed twice, in its own
  type and as a \<^verbatim>\<open>long double\<close>, and refused when the two differ. A \<^verbatim>\<open>long double\<close> of the target has 64 bits
  of precision, so on whole numbers it is an integer rounded to 64 bits after every operation. The value
  of an option that is read as a floating-point number is not modelled, only the check of its syntax.
\<close>

section \<open>Parsing the command line\<close>

record TestlibOpt =
  opt_value :: string
  opt_used :: bool

record testlib_opts =
  os_argv :: "string list"
  os_opts :: "(string \<times> TestlibOpt) list"
  os_ensureFlag :: bool
  os_suppressed :: bool

definition c_isalpha :: "char \<Rightarrow> bool" where
  "c_isalpha c \<longleftrightarrow> (65 \<le> schar c \<and> schar c \<le> 90) \<or> (97 \<le> schar c \<and> schar c \<le> 122)"

definition getOptType :: "string \<Rightarrow> nat" where
  "getOptType s =
     (if length s \<le> 1 then 0
      else if s ! 0 = CHR ''-'' then
        if c_isalpha (s ! 1) then 1
        else if s ! 1 = CHR ''-'' then (if c_isalpha (char_at s 2) then 2 else 0) else 0
      else 0)"

definition set_opt :: "string \<Rightarrow> string \<Rightarrow> (string \<times> TestlibOpt) list \<Rightarrow> (string \<times> TestlibOpt) list" where
  "set_opt key val opts =
     AList.update key ((at_key \<lparr>opt_value = [], opt_used = False\<rparr> opts key)\<lparr>opt_value := val\<rparr>) opts"

text \<open>\<^verbatim>\<open>parseOpt\<close>: the number of arguments it takes, and the dictionary.\<close>

definition parseOpt :: "string list \<Rightarrow> nat \<Rightarrow> (string \<times> TestlibOpt) list \<Rightarrow> nat \<times> (string \<times> TestlibOpt) list" where
  "parseOpt argv index opts =
     (if index \<ge> length argv then (0, opts)
      else let type = getOptType (argv ! index) in
        if type > 0 then
          let key = drop type (argv ! index) in
          if CHR ''='' \<in> set key then
            (1, set_opt (takeWhile (\<lambda>c. c \<noteq> CHR ''='') key) (drop 1 (dropWhile (\<lambda>c. c \<noteq> CHR ''='') key)) opts)
          else if index + 1 < length argv \<and> getOptType (argv ! (index + 1)) = 0 then (2, set_opt key (argv ! (index + 1)) opts)
          else if length key > 1 \<and> is_digit (key ! 1) then (1, set_opt (take 1 key) (drop 1 key) opts)
          else (1, set_opt key ''true'' opts)
        else (1, opts))"

function parse_opts :: "string list \<Rightarrow> nat \<Rightarrow> (string \<times> TestlibOpt) list \<Rightarrow> (string \<times> TestlibOpt) list" where
  "parse_opts argv index opts =
     (if index < length argv then let (inc, opts) = parseOpt argv index opts in parse_opts argv (index + inc) opts
      else opts)"
  by pat_completeness auto
termination
  by (relation "measure (\<lambda>(argv, index, opts). length argv - index)")
    (auto simp: parseOpt_def Let_def split: if_splits)

declare parse_opts.simps [simp del]

definition prepareOpts :: "string list \<Rightarrow> (testlib_opts, unit) prog" where
  "prepareOpts argv os =
     (if argv = [] then testlib_fail (''Opts: expected argc>=0 but found '' @ vtos 0) os
      else Ret () (os\<lparr>os_opts := parse_opts argv 1 [], os_argv := argv\<rparr>))"

definition indexToArgv :: "int \<Rightarrow> (testlib_opts, string) prog" where
  "indexToArgv index os =
     (if index < 0 \<or> index \<ge> int (length (os_argv os))
      then testlib_fail (''Opts: index '' @ [CHR 0x27] @ vtos index @ [CHR 0x27] @ '' is out of range [0,'' @
             vtos (int (length (os_argv os))) @ '')'') os
      else Ret (os_argv os ! nat index) os)"

definition keyToOpts :: "string \<Rightarrow> (testlib_opts, string) prog" where
  "keyToOpts key os =
     (case map_of (os_opts os) key of
        None \<Rightarrow> testlib_fail (''Opts: unknown key '' @ [CHR 0x27] @ compress key @ [CHR 0x27]) os
      | Some opt \<Rightarrow> Ret (opt_value opt) (os\<lparr>os_opts := AList.update key (opt\<lparr>opt_used := True\<rparr>) (os_opts os)\<rparr>))"

section \<open>Numbers\<close>

text \<open>The unit of the last of 64 bits of a whole number, and rounding to the nearest number with 64 bits, to the
  even one of two.\<close>

function ld_unit :: "int \<Rightarrow> int" where
  "ld_unit x = (if x < 2 ^ 64 then 1 else 2 * ld_unit (x div 2))"
  by pat_completeness auto
termination
  by (relation "measure nat") auto

declare ld_unit.simps [simp del]

definition ld_round :: "int \<Rightarrow> int" where
  "ld_round x =
     (let u = ld_unit \<bar>x\<bar>; q = \<bar>x\<bar> div u; r = \<bar>x\<bar> mod u
      in sgn x * u * (if 2 * r < u then q else if 2 * r > u then q + 1 else if even q then q else q + 1))"

datatype otype = O_int | O_uint | O_long | O_ulong

definition o_max :: "otype \<Rightarrow> int" where
  "o_max T = (case T of O_int \<Rightarrow> INT_MAX | O_uint \<Rightarrow> 2 ^ 32 - 1 | O_long \<Rightarrow> LLONG_MAX | O_ulong \<Rightarrow> ULLONG_MAX)"

definition o_unsigned :: "otype \<Rightarrow> bool" where
  "o_unsigned T \<longleftrightarrow> T = O_uint \<or> T = O_ulong"

text \<open>
  \<^verbatim>\<open>T(value * 10 + s[i] - '0')\<close> from left to right: unsigned numbers wrap around; a signed overflow is
  undefined, \<open>None\<close>.
\<close>

definition o_step :: "otype \<Rightarrow> int \<Rightarrow> char \<Rightarrow> int option" where
  "o_step T value c =
     (if o_unsigned T then Some ((value * 10 + schar c - 48) mod (o_max T + 1))
      else if value * 10 > o_max T \<or> value * 10 + schar c > o_max T then None
      else Some (value * 10 + schar c - 48))"

definition about_step :: "int \<Rightarrow> char \<Rightarrow> int" where
  "about_step about c = ld_round (ld_round (ld_round (about * 10) + schar c) - 48)"

definition opts_fail :: "string \<Rightarrow> string \<Rightarrow> ('s, 'a) prog" where
  "opts_fail expected s = testlib_fail (''Opts: expected '' @ expected @ '' but '' @ [CHR 0x27] @ compress s @ [CHR 0x27] @ '' found'')"

primrec integral_loop :: "otype \<Rightarrow> string \<Rightarrow> int \<Rightarrow> int \<Rightarrow> string \<Rightarrow> ('s, int \<times> int) prog" where
  "integral_loop T orig value about [] g = Ret (value, about) g"
| "integral_loop T orig value about (c # cs) g =
     (if \<not> is_digit c then opts_fail ''integer'' orig g
      else case o_step T value c of
        None \<Rightarrow> Crash
      | Some v \<Rightarrow> integral_loop T orig v (about_step about c) cs g)"

primrec float_loop :: "string \<Rightarrow> bool \<Rightarrow> string \<Rightarrow> ('s, unit) prog" where
  "float_loop orig period [] g = Ret () g"
| "float_loop orig period (c # cs) g =
     (if c = CHR ''.'' then if period then opts_fail ''float number'' orig g else float_loop orig True cs g
      else if \<not> is_digit c then opts_fail ''float number'' orig g
      else float_loop orig period cs g)"

definition find_char :: "char \<Rightarrow> string \<Rightarrow> nat option" where
  "find_char c s = (if c \<in> set s then Some (length (takeWhile (\<lambda>x. x \<noteq> c) s)) else None)"

text \<open>One round of the loop that moves the point to the right, and of the loop that moves it to the left.\<close>

definition point_right :: "string \<Rightarrow> string" where
  "point_right num = (case find_char CHR ''.'' num of
     None \<Rightarrow> num @ ''0''
   | Some sep \<Rightarrow> if sep + 1 = length num then num[sep := CHR ''0''] else swap_at sep (sep + 1) num)"

definition point_left :: "string \<Rightarrow> string option" where
  "point_left num = (case find_char CHR ''.'' num of
     None \<Rightarrow> if num = [] then None else Some (butlast num @ ''.'' @ [last num])
   | Some sep \<Rightarrow> Some (if sep = 0 then take 1 num @ ''0'' @ drop 1 num else swap_at (sep - 1) sep num))"

primrec points_left :: "nat \<Rightarrow> string \<Rightarrow> string option" where
  "points_left 0 num = Some num"
| "points_left (Suc n) num = (case point_left num of None \<Rightarrow> None | Some num \<Rightarrow> points_left n num)"

definition strip_number :: "string \<Rightarrow> string" where
  "strip_number num =
     (let num = dropWhile (\<lambda>c. c = CHR ''0'') num;
          num = (if CHR ''.'' \<in> set num then rev (dropWhile (\<lambda>c. c = CHR ''0'') (rev num)) else num);
          num = (if num \<noteq> [] \<and> last num = CHR ''.'' then butlast num else num)
      in if num = [] \<or> hd num = CHR ''.'' then CHR ''0'' # num else num)"

definition is_exp :: "char \<Rightarrow> bool" where
  "is_exp c \<longleftrightarrow> c = CHR ''e'' \<or> c = CHR ''E''"

definition drop_plus :: "string \<Rightarrow> string" where
  "drop_plus s = (if s \<noteq> [] \<and> hd s = CHR ''+'' then drop 1 s else s)"

lemma exp_pos_less: "filter is_exp s \<noteq> [] \<Longrightarrow> length (takeWhile (\<lambda>c. \<not> is_exp c) s) < length s"
  by (induction s) auto

lemma drop_plus_length: "length (drop_plus s) \<le> length s"
  by (simp add: drop_plus_def)

text \<open>
  \<^verbatim>\<open>parseExponentialOptValue\<close> calls the other two on the parts before and after the exponent sign, and they
  call it on their whole argument; the parts contain no exponent sign, so the calls end.
\<close>

function parseExponentialOptValue :: "string \<Rightarrow> ('s, string) prog"
  and optValueToIntegral :: "otype \<Rightarrow> string \<Rightarrow> bool \<Rightarrow> ('s, int) prog"
  and optValueToLongDouble :: "string \<Rightarrow> ('s, unit) prog"
where
  "parseExponentialOptValue s g =
     (if length (filter is_exp s) > 1 then opts_fail ''typical exponential notation'' s g
      else if filter is_exp s = [] then Ret s g
      else
        let pos = length (takeWhile (\<lambda>c. \<not> is_exp c) s); e = drop_plus (drop (pos + 1) s) in
        if e = [] \<or> length e > 20 then opts_fail ''typical exponential notation'' s g
        else andThen (optValueToIntegral O_int e False g) (\<lambda>ne g.
          let num = take pos s in
          if length num > 20 then opts_fail ''typical exponential notation'' s g
          else let num = drop_plus num in
            andThen (optValueToLongDouble num g) (\<lambda>_ g.
              let minus = (hd num = CHR ''-''); num = (if minus then drop 1 num else num);
                  num = (point_right ^^ nat ne) num
              in case points_left (nat (- ne)) num of
                   None \<Rightarrow> Crash
                 | Some num \<Rightarrow> Ret ((if minus then ''-'' else '''') @ strip_number num) g)))"
| "optValueToIntegral T orig nonnegative g =
     andThen (parseExponentialOptValue orig g) (\<lambda>s g.
       if s = [] then opts_fail ''integer'' orig g
       else if hd s = CHR ''-'' \<and> nonnegative then opts_fail ''non-negative integer'' orig g
       else let negative = (hd s = CHR ''-'') in
         andThen (integral_loop T orig 0 0 (if negative then drop 1 s else s) g) (\<lambda>(value, about) g.
           let value = (if negative then (if o_unsigned T then (- value) mod (o_max T + 1) else - value) else value);
               about = (if negative then - about else about)
           in if value \<noteq> about
              then testlib_fail (''Opts: integer overflow: expected integer but '' @ [CHR 0x27] @ compress orig @
                     [CHR 0x27] @ '' found'') g
              else Ret value g))"
| "optValueToLongDouble orig g =
     andThen (parseExponentialOptValue orig g) (\<lambda>s g.
       if s = [] then opts_fail ''float number'' orig g
       else float_loop orig False (if hd s = CHR ''-'' then drop 1 s else s) g)"
  by pat_completeness auto

termination
proof (relation "measure (\<lambda>x. case x of Inl (s, g) \<Rightarrow> 2 * length s
    | Inr (Inl (T, s, nn, g)) \<Rightarrow> 2 * length s + 1 | Inr (Inr (s, g)) \<Rightarrow> 2 * length s + 1)", goal_cases)
  case (2 s g pos e)
  then show ?case using exp_pos_less [of s] drop_plus_length [of "drop (pos + 1) s"] by simp
next
  case (3 s g pos e ne h num num')
  then show ?case using exp_pos_less [of s] drop_plus_length [of num] by simp
qed auto

declare parseExponentialOptValue.simps [simp del] optValueToIntegral.simps [simp del] optValueToLongDouble.simps [simp del]

section \<open>Reading options\<close>

definition has_opt :: "string \<Rightarrow> (testlib_opts, bool) prog" where
  "has_opt key os = Ret (map_of (os_opts os) key \<noteq> None) (os\<lparr>os_ensureFlag := True\<rparr>)"

definition to_bool :: "string \<Rightarrow> string \<Rightarrow> ('s, bool) prog" where
  "to_bool what value g =
     (if value = ''true'' \<or> value = ''1'' then Ret True g
      else if value = ''false'' \<or> value = ''0'' then Ret False g
      else testlib_fail (''Opts: '' @ what @ '': expected bool true/false or 0/1 but '' @ [CHR 0x27] @ compress value @
             [CHR 0x27] @ '' found'') g)"

text \<open>The types an option is read as, and the overloads of \<^verbatim>\<open>opt\<close> for them, by index and by key.\<close>

datatype opt_type = OT_string | OT_bool | OT_integral otype

datatype opt_val = OV_string string | OV_bool bool | OV_integral int

definition opt_index :: "opt_type \<Rightarrow> int \<Rightarrow> (testlib_opts, opt_val) prog" where
  "opt_index T index os = andThen (indexToArgv index os) (\<lambda>value os.
     case T of
       OT_string \<Rightarrow> Ret (OV_string value) os
     | OT_integral T \<Rightarrow> andThen (optValueToIntegral T value (o_unsigned T) os) (\<lambda>v os. Ret (OV_integral v) os)
     | OT_bool \<Rightarrow> andThen (to_bool (''opt by index '' @ [CHR 0x27] @ vtos index @ [CHR 0x27]) value os) (\<lambda>b os. Ret (OV_bool b) os))"

definition opt_index_default :: "opt_type \<Rightarrow> int \<Rightarrow> opt_val \<Rightarrow> (testlib_opts, opt_val) prog" where
  "opt_index_default T index default_value os =
     (if index \<ge> int (length (os_argv os)) then Ret default_value os else opt_index T index os)"

definition opt_bool_key :: "string \<Rightarrow> (testlib_opts, opt_val) prog" where
  "opt_bool_key key os = andThen (has_opt key os) (\<lambda>b os.
     if \<not> b then Ret (OV_bool False) os
     else andThen (keyToOpts key os) (\<lambda>value os.
       andThen (to_bool (''key '' @ [CHR 0x27] @ compress key @ [CHR 0x27]) value os) (\<lambda>b os. Ret (OV_bool b) os)))"

definition opt_key :: "opt_type \<Rightarrow> string \<Rightarrow> (testlib_opts, opt_val) prog" where
  "opt_key T key os =
     (case T of
        OT_string \<Rightarrow> andThen (keyToOpts key os) (\<lambda>value os. Ret (OV_string value) os)
      | OT_integral T \<Rightarrow> andThen (keyToOpts key os) (\<lambda>value os.
          andThen (optValueToIntegral T value (o_unsigned T) os) (\<lambda>v os. Ret (OV_integral v) os))
      | OT_bool \<Rightarrow> opt_bool_key key os)"

definition opt_key_default :: "opt_type \<Rightarrow> string \<Rightarrow> opt_val \<Rightarrow> (testlib_opts, opt_val) prog" where
  "opt_key_default T key default_value os = andThen (has_opt key os) (\<lambda>b os.
     if \<not> b then Ret default_value os else opt_key T key os)"

section \<open>Unused options\<close>

definition ensureNoUnusedOpts :: "(testlib_opts, unit) prog" where
  "ensureNoUnusedOpts os =
     (case filter (\<lambda>(key, opt). \<not> opt_used opt) (sort_key fst (os_opts os)) of
        [] \<Rightarrow> Ret () os
      | (key, opt) # _ \<Rightarrow> testlib_fail (''Opts: unused key '' @ [CHR 0x27] @ compress key @ [CHR 0x27]) os)"

definition suppressEnsureNoUnusedOpts :: "(testlib_opts, unit) prog" where
  "suppressEnsureNoUnusedOpts os = Ret () (os\<lparr>os_suppressed := True\<rparr>)"

definition autoEnsureNoUnusedOpts :: "(testlib_opts, unit) prog" where
  "autoEnsureNoUnusedOpts os = (if os_ensureFlag os \<and> \<not> os_suppressed os then ensureNoUnusedOpts os else Ret () os)"

section \<open>Registration of a generator\<close>

type_synonym gen_state = "testlib \<times> random_t \<times> testlib_opts"

definition registerGen :: "string list \<Rightarrow> int \<Rightarrow> (gen_state, unit) prog" where
  "registerGen argv version st =
     (case st of (g, r, os) \<Rightarrow>
        if version < 0 \<or> version > 1 then
          case quit_free TR_fail ''Random generator version is expected to be 0 or 1.'' g of
            Ret x g \<Rightarrow> Ret x (g, r, os) | Quit q g \<Rightarrow> Quit q (g, r, os) | Crash \<Rightarrow> Crash
        else
          let r = r\<lparr>rt_version := version\<rparr>; g = g\<lparr>tl_registered := True, tl_mode := TM_generator\<rparr> in
          case setSeed_argv argv r of
            Ret _ r \<Rightarrow> (case prepareOpts argv os of
                Ret _ os \<Rightarrow> Ret () (g, r, os) | Quit q os \<Rightarrow> Quit q (g, r, os) | Crash \<Rightarrow> Crash)
          | Quit q r \<Rightarrow> Quit q (g, r, os)
          | Crash \<Rightarrow> Crash)"

section \<open>Integers, shown\<close>

lemma ld_round_id: "\<bar>x\<bar> < 2 ^ 64 \<Longrightarrow> ld_round x = x"
  by (simp add: ld_round_def ld_unit.simps sgn_mult_abs)

abbreviation acc_digit :: "int \<Rightarrow> char \<Rightarrow> int" where
  "acc_digit v c \<equiv> v * 10 + (schar c - 48)"

lemma acc_mono: "list_all is_digit ds \<Longrightarrow> 0 \<le> v \<Longrightarrow> v \<le> foldl acc_digit v ds"
proof (induction ds arbitrary: v)
  case (Cons c ds)
  then have "v \<le> acc_digit v c" by (simp add: is_digit_def)
  also have "\<dots> \<le> foldl acc_digit (acc_digit v c) ds" using Cons calculation by simp
  finally show ?case by simp
qed simp

lemma o_max_range: "0 < o_max T" "o_max T < 2 ^ 64"
  by (cases T; simp add: o_max_def limit_defs)+

text \<open>As long as the value stays 48 below the maximum, both computations are exact.\<close>

lemma integral_loop_ok:
  assumes "list_all is_digit ds" "0 \<le> v" "foldl acc_digit v ds + 48 \<le> o_max T"
  shows "integral_loop T orig v v ds g = Ret (foldl acc_digit v ds, foldl acc_digit v ds) g"
  using assms
proof (induction ds arbitrary: v)
  case (Cons c ds)
  let ?w = "acc_digit v c"
  have c: "is_digit c" "48 \<le> schar c" "schar c \<le> 57" using Cons.prems by (simp_all add: is_digit_def)
  have w: "0 \<le> ?w" using Cons.prems(2) c by simp
  then have le: "?w + 48 \<le> o_max T" using acc_mono [of ds ?w] Cons.prems by simp
  have "o_step T v c = Some ?w" using le w c by (simp add: o_step_def)
  moreover have "about_step v c = ?w"
    using le w c Cons.prems(2) o_max_range [of T] by (simp add: about_step_def ld_round_id)
  ultimately show ?case using Cons.IH [OF _ w] Cons.prems c(1) by simp
qed simp

lemma digit_not_exp: "is_digit c \<Longrightarrow> \<not> is_exp c"
  by (auto simp: is_digit_def is_exp_def schar_def)

lemma digits_no_exp: "list_all is_digit s \<Longrightarrow> filter is_exp s = []"
  by (auto simp: filter_empty_conv list_all_iff dest: digit_not_exp)

lemma exponent_free: "filter is_exp s = [] \<Longrightarrow> parseExponentialOptValue s g = Ret s g"
  by (simp add: parseExponentialOptValue.simps)

lemma vtos_shape: "0 \<le> n \<Longrightarrow> list_all is_digit (vtos n) \<and> vtos n \<noteq> [] \<and> hd (vtos n) \<noteq> CHR ''-''"
  by (simp add: vtos_digits vtos_hd_nonneg)

lemma integral_digits:
  assumes "parseExponentialOptValue s g = Ret (vtos n) g" "0 \<le> n" "n + 48 \<le> o_max T"
  shows "optValueToIntegral T s nonnegative g = Ret n g"
proof -
  have f: "foldl acc_digit 0 (vtos n) = n" using digits_val_vtos [OF assms(2)] by (simp add: digits_val_def)
  then show ?thesis
    using vtos_shape [OF assms(2)] integral_loop_ok [of "vtos n" 0 T s g] assms by (simp add: optValueToIntegral.simps)
qed

lemma integral_vtos: "0 \<le> n \<Longrightarrow> n + 48 \<le> o_max T \<Longrightarrow> optValueToIntegral T (vtos n) nonnegative g = Ret n g"
  using vtos_shape [of n] by (intro integral_digits exponent_free digits_no_exp) simp_all

lemma integral_vtos_neg:
  assumes "n < 0" "- n + 48 \<le> o_max T" "\<not> o_unsigned T"
  shows "optValueToIntegral T (vtos n) False g = Ret n g"
proof -
  have d: "list_all is_digit (vtos (- n))" using vtos_shape [of "- n"] assms(1) by simp
  have f: "foldl acc_digit 0 (vtos (- n)) = - n" using digits_val_vtos [of "- n"] assms(1) by (simp add: digits_val_def)
  have "parseExponentialOptValue (vtos n) g = Ret (CHR ''-'' # vtos (- n)) g"
    using assms(1) digits_no_exp [OF d] by (simp add: vtos_neg exponent_free is_exp_def)
  then show ?thesis using integral_loop_ok [OF d, of 0 T "vtos n" g] f assms by (simp add: optValueToIntegral.simps)
qed

section \<open>Exponents\<close>

lemma point_right_digits: "list_all is_digit s \<Longrightarrow> point_right s = s @ ''0''"
  by (auto simp: point_right_def find_char_def list_all_iff is_digit_def schar_def)

lemma points_right_vtos:
  assumes "0 < m"
  shows "(point_right ^^ k) (vtos m) = vtos (m * 10 ^ k)"
proof (induction k)
  case (Suc k)
  let ?n = "m * 10 ^ k"
  have n: "0 < ?n" using assms by simp
  have "(point_right ^^ Suc k) (vtos m) = vtos ?n @ ''0''"
    using Suc vtos_shape [of ?n] n by (simp add: point_right_digits)
  also have "\<dots> = vtos (?n * 10)" using vtos_snoc [of ?n 0] n by (simp add: to_char_def char_of_def)
  finally show ?case by (simp add: algebra_simps)
qed simp

lemma strip_number_vtos: "0 < n \<Longrightarrow> strip_number (vtos n) = vtos n"
proof -
  assume "0 < n"
  then have v: "canonical_nat (vtos n)" "vtos n \<noteq> ''0''"
    using vtos_canonical [of n] digits_val_vtos [of n] by (auto simp: digits_val_def schar_def)
  then have h: "vtos n \<noteq> []" "hd (vtos n) \<noteq> CHR ''0''" "list_all is_digit (vtos n)" by (auto simp: canonical_nat_def)
  then have "CHR ''.'' \<notin> set (vtos n)" by (auto simp: list_all_iff is_digit_def schar_def)
  moreover have "dropWhile (\<lambda>c. c = CHR ''0'') (vtos n) = vtos n" using h by (cases "vtos n") simp_all
  ultimately show ?thesis using h(1) by (auto simp: strip_number_def Let_def) (metis hd_in_set last_in_set)+
qed

lemma float_loop_digits: "list_all is_digit s \<Longrightarrow> float_loop orig period s g = Ret () g"
  by (induction s) (auto simp: is_digit_def schar_def)

lemma longDouble_vtos: "0 \<le> m \<Longrightarrow> optValueToLongDouble (vtos m) g = Ret () g"
  using vtos_shape [of m] by (simp add: optValueToLongDouble.simps exponent_free digits_no_exp float_loop_digits)

lemma drop_plus_vtos: "0 \<le> n \<Longrightarrow> drop_plus (vtos n) = vtos n"
  using vtos_shape [of n] by (cases "vtos n") (auto simp: drop_plus_def is_digit_def schar_def)

lemma exponent_vtos:
  assumes "0 < m" "length (vtos m) \<le> 20" "0 \<le> k" "k + 48 \<le> INT_MAX"
  shows "parseExponentialOptValue (vtos m @ ''e'' @ vtos k) g = Ret (vtos (m * 10 ^ nat k)) g"
proof -
  let ?s = "vtos m @ ''e'' @ vtos k"
  have m: "list_all is_digit (vtos m)" "hd (vtos m) \<noteq> CHR ''-''" "vtos m \<noteq> []" using vtos_shape [of m] assms(1) by auto
  have k: "list_all is_digit (vtos k)" "vtos k \<noteq> []" using vtos_shape [of k] assms(3) by auto
  have f: "filter is_exp ?s = ''e''" using m(1) k(1) by (simp add: digits_no_exp is_exp_def)
  have p: "takeWhile (\<lambda>c. \<not> is_exp c) ?s = vtos m"
    using m(1) digit_not_exp by (subst takeWhile_append2) (simp_all add: list_all_iff, simp add: is_exp_def)
  have "length (vtos k) \<le> 20" using assms(3,4) by (intro length_vtos_long) (simp_all add: limit_defs)
  moreover have "optValueToIntegral O_int (vtos k) False g = Ret k g" using assms(3,4) by (intro integral_vtos) (simp_all add: o_max_def)
  moreover have "0 < m * 10 ^ nat k" using assms(1) by simp
  ultimately show ?thesis
    unfolding parseExponentialOptValue.simps [of ?s g] Let_def f p using assms m k
    by (simp add: drop_plus_vtos longDouble_vtos points_right_vtos strip_number_vtos)
qed

lemma integral_exponent:
  assumes "0 < m" "length (vtos m) \<le> 20" "0 \<le> k" "m * 10 ^ nat k + 48 \<le> o_max T" "k + 48 \<le> INT_MAX"
  shows "optValueToIntegral T (vtos m @ ''e'' @ vtos k) nonnegative g = Ret (m * 10 ^ nat k) g"
  using assms by (intro integral_digits exponent_vtos) simp_all

section \<open>The dictionary\<close>

text \<open>A command line of arguments \<^verbatim>\<open>--key=value\<close>.\<close>

definition opt_args :: "(string \<times> string) list \<Rightarrow> string list" where
  "opt_args kvs = map (\<lambda>(k, v). ''--'' @ k @ ''='' @ v) kvs"

definition good_key :: "string \<Rightarrow> bool" where
  "good_key k \<longleftrightarrow> k \<noteq> [] \<and> c_isalpha (hd k) \<and> CHR ''='' \<notin> set k"

definition set_opts :: "(string \<times> string) list \<Rightarrow> (string \<times> TestlibOpt) list \<Rightarrow> (string \<times> TestlibOpt) list" where
  "set_opts kvs opts = fold (\<lambda>(k, v). set_opt k v) kvs opts"

lemma parseOpt_pair:
  assumes "good_key k" "argv ! index = ''--'' @ k @ ''='' @ v" "index < length argv"
  shows "parseOpt argv index opts = (1, set_opt k v opts)"
proof -
  obtain c cs where k: "k = c # cs" using assms(1) by (cases k) (auto simp: good_key_def)
  have "\<not> c_isalpha CHR ''-''" by (simp add: c_isalpha_def schar_def)
  then have "getOptType (argv ! index) = 2"
    using assms k by (simp add: getOptType_def good_key_def char_at_def)
  moreover have "takeWhile (\<lambda>c. c \<noteq> CHR ''='') (k @ ''='' @ v) = k" "dropWhile (\<lambda>c. c \<noteq> CHR ''='') (k @ ''='' @ v) = ''='' @ v"
    using assms(1) by (subst takeWhile_append2 dropWhile_append2; auto simp: good_key_def)+
  ultimately show ?thesis using assms(2,3) by (simp add: parseOpt_def)
qed

lemma parse_opts_pairs:
  assumes "list_all (\<lambda>(k, v). good_key k) kvs"
  shows "parse_opts (pre @ opt_args kvs) (length pre) opts = set_opts kvs opts"
  using assms
proof (induction kvs arbitrary: pre opts)
  case Nil
  then show ?case by (simp add: parse_opts.simps opt_args_def set_opts_def)
next
  case (Cons kv kvs)
  obtain k v where kv: "kv = (k, v)" by force
  let ?argv = "pre @ opt_args (kv # kvs)"
  have a: "?argv = (pre @ [''--'' @ k @ ''='' @ v]) @ opt_args kvs" by (simp add: opt_args_def kv)
  have "parseOpt ?argv (length pre) opts = (1, set_opt k v opts)"
    using Cons.prems kv by (intro parseOpt_pair) (simp_all add: opt_args_def)
  then have "parse_opts ?argv (length pre) opts = parse_opts ?argv (length pre + 1) (set_opt k v opts)"
    by (subst parse_opts.simps) (simp add: opt_args_def)
  also have "\<dots> = set_opts kvs (set_opt k v opts)"
    unfolding a using Cons.IH [of "pre @ [''--'' @ k @ ''='' @ v]"] Cons.prems by simp
  finally show ?case by (simp add: set_opts_def kv)
qed

lemma map_of_set_opt: "map_option opt_value (map_of (set_opt k v opts) x) = (if x = k then Some v else map_option opt_value (map_of opts x))"
  by (simp add: set_opt_def update_conv')

lemma map_of_set_opts:
  "map_option opt_value (map_of (set_opts kvs opts) x) = (case map_of (rev kvs) x of None \<Rightarrow> map_option opt_value (map_of opts x) | Some v \<Rightarrow> Some v)"
proof (induction kvs arbitrary: opts)
  case (Cons kv kvs)
  then show ?case by (cases kv) (simp add: set_opts_def map_of_set_opt map_add_def split: option.splits)
qed (simp add: set_opts_def)

lemma keyToOpts_iff: "(\<exists>os'. keyToOpts k os = Ret v os') \<longleftrightarrow> map_option opt_value (map_of (os_opts os) k) = Some v"
  by (auto simp: keyToOpts_def testlib_fail_def split: option.splits)

lemma prepareOpts_pairs:
  assumes "list_all (\<lambda>(k, v). good_key k) kvs"
  shows "\<exists>os'. prepareOpts (prog # opt_args kvs) os = Ret () os' \<and>
    (\<forall>k v. (\<exists>os''. keyToOpts k os' = Ret v os'') \<longleftrightarrow> map_of (rev kvs) k = Some v)"
proof -
  let ?os = "os\<lparr>os_opts := set_opts kvs [], os_argv := prog # opt_args kvs\<rparr>"
  have "prepareOpts (prog # opt_args kvs) os = Ret () ?os"
    using parse_opts_pairs [OF assms, of "[prog]" "[]"] by (simp add: prepareOpts_def)
  moreover have "(\<exists>os''. keyToOpts k ?os = Ret v os'') \<longleftrightarrow> map_of (rev kvs) k = Some v" for k v
    unfolding keyToOpts_iff by (simp add: map_of_set_opts split: option.splits)
  ultimately show ?thesis by blast
qed

section \<open>The check for unused options\<close>

lemma ensureNoUnusedOpts_iff: "ensureNoUnusedOpts os = Ret () os \<longleftrightarrow> (\<forall>(k, opt)\<in>set (os_opts os). opt_used opt)"
proof -
  have "ensureNoUnusedOpts os = Ret () os \<longleftrightarrow> filter (\<lambda>(key, opt). \<not> opt_used opt) (sort_key fst (os_opts os)) = []"
    by (auto simp: ensureNoUnusedOpts_def testlib_fail_def split: list.splits)
  also have "\<dots> \<longleftrightarrow> (\<forall>(k, opt)\<in>set (os_opts os). opt_used opt)" by (auto simp: filter_empty_conv)
  finally show ?thesis .
qed

definition used_keys :: "testlib_opts \<Rightarrow> string set" where
  "used_keys os = {k. \<exists>opt. map_of (os_opts os) k = Some opt \<and> opt_used opt}"

definition opt_keys :: "testlib_opts \<Rightarrow> string set" where
  "opt_keys os = dom (map_of (os_opts os))"

lemma keyToOpts_uses:
  assumes "k \<in> opt_keys os"
  shows "\<exists>v os'. keyToOpts k os = Ret v os' \<and> opt_keys os' = opt_keys os \<and> used_keys os' = insert k (used_keys os) \<and>
    (distinct (map fst (os_opts os)) \<longrightarrow> distinct (map fst (os_opts os')))"
proof -
  obtain opt where "map_of (os_opts os) k = Some opt" using assms by (auto simp: opt_keys_def)
  then show ?thesis
    by (auto simp: keyToOpts_def opt_keys_def used_keys_def update_conv' distinct_update split: if_splits)
qed

text \<open>Once every option has been read, the check passes.\<close>

lemma read_all_options:
  assumes "set ks \<subseteq> opt_keys os" "distinct (map fst (os_opts os))" "opt_keys os \<subseteq> set ks \<union> used_keys os"
  shows "\<exists>vs os'. for_each keyToOpts ks os = Ret vs os' \<and> ensureNoUnusedOpts os' = Ret () os'"
  using assms
proof (induction ks arbitrary: os)
  case Nil
  have "opt_used opt" if "(k, opt) \<in> set (os_opts os)" for k opt
  proof -
    have m: "map_of (os_opts os) k = Some opt" using map_of_is_SomeI [OF Nil.prems(2) that] .
    then have "k \<in> used_keys os" using Nil.prems(3) by (auto simp only: opt_keys_def dom_def mem_Collect_eq list.set Un_empty_left)
    then show ?thesis using m by (auto simp only: used_keys_def mem_Collect_eq option.inject)
  qed
  then show ?case by (auto simp: ensureNoUnusedOpts_iff)
next
  case (Cons k ks)
  obtain v os' where k: "keyToOpts k os = Ret v os'" "opt_keys os' = opt_keys os" "used_keys os' = insert k (used_keys os)"
      "distinct (map fst (os_opts os'))"
    using keyToOpts_uses [of k os] Cons.prems by auto
  have "set ks \<subseteq> opt_keys os'" "opt_keys os' \<subseteq> set ks \<union> used_keys os'" using Cons.prems k(2,3) by auto
  then obtain vs os'' where "for_each keyToOpts ks os' = Ret vs os''" "ensureNoUnusedOpts os'' = Ret () os''"
    using Cons.IH k(4) by blast
  then show ?case using k(1) by simp
qed

lemma set_opts_distinct: "distinct (map fst opts) \<Longrightarrow> distinct (map fst (set_opts kvs opts))"
proof (induction kvs arbitrary: opts)
  case (Cons kv kvs)
  then show ?case by (cases kv) (simp add: set_opts_def set_opt_def distinct_update)
qed (simp add: set_opts_def)

end
