(* ===== verification/TL_Scorer.thy ===== *)
theory TL_Scorer
  imports TL_Lines TL_Integers TL_Register
begin

text \<open>
  Scorers: the results of the tests of a problem are written one to a line and read back by a program
  that computes the points. The theory models the serialisation of \<^verbatim>\<open>struct TestResult\<close>, the reading of a
  file of results, and the guard that runs the scorer when the program ends.

  The points are \<^verbatim>\<open>double\<close>s. Their type \<open>'d\<close> (without the NaN, which is \<open>None\<close>) and the conversions by
  \<^verbatim>\<open>snprintf\<close> and \<^verbatim>\<open>sscanf\<close> are parameters.
\<close>

section \<open>Verdicts\<close>

datatype TestResultVerdict =
  SKIPPED | OK | WRONG_ANSWER | RUNTIME_ERROR | TIME_LIMIT_EXCEEDED | IDLENESS_LIMIT_EXCEEDED |
  MEMORY_LIMIT_EXCEEDED | COMPILATION_ERROR | CRASHED | FAILED

fun serializeVerdict :: "TestResultVerdict \<Rightarrow> string" where
  "serializeVerdict SKIPPED = ''SKIPPED''"
| "serializeVerdict OK = ''OK''"
| "serializeVerdict WRONG_ANSWER = ''WRONG_ANSWER''"
| "serializeVerdict RUNTIME_ERROR = ''RUNTIME_ERROR''"
| "serializeVerdict TIME_LIMIT_EXCEEDED = ''TIME_LIMIT_EXCEEDED''"
| "serializeVerdict IDLENESS_LIMIT_EXCEEDED = ''IDLENESS_LIMIT_EXCEEDED''"
| "serializeVerdict MEMORY_LIMIT_EXCEEDED = ''MEMORY_LIMIT_EXCEEDED''"
| "serializeVerdict COMPILATION_ERROR = ''COMPILATION_ERROR''"
| "serializeVerdict CRASHED = ''CRASHED''"
| "serializeVerdict FAILED = ''FAILED''"

definition ensuref :: "bool \<Rightarrow> string \<Rightarrow> ('s, unit) prog" where
  "ensuref cond msg g = (if cond then Ret () g else Quit (QuitReq None TR_fail msg) g)"

definition deserializeTestResultVerdict :: "string \<Rightarrow> ('s, TestResultVerdict) prog" where
  "deserializeTestResultVerdict s g =
     (if s = ''SKIPPED'' then Ret SKIPPED g
      else if s = ''OK'' then Ret OK g
      else if s = ''WRONG_ANSWER'' then Ret WRONG_ANSWER g
      else if s = ''RUNTIME_ERROR'' then Ret RUNTIME_ERROR g
      else if s = ''TIME_LIMIT_EXCEEDED'' then Ret TIME_LIMIT_EXCEEDED g
      else if s = ''IDLENESS_LIMIT_EXCEEDED'' then Ret IDLENESS_LIMIT_EXCEEDED g
      else if s = ''MEMORY_LIMIT_EXCEEDED'' then Ret MEMORY_LIMIT_EXCEEDED g
      else if s = ''COMPILATION_ERROR'' then Ret COMPILATION_ERROR g
      else if s = ''CRASHED'' then Ret CRASHED g
      else if s = ''FAILED'' then Ret FAILED g
      else andThen (ensuref False ''Unexpected serialized TestResultVerdict'' g) (\<lambda>_ g. Ret FAILED g))"

section \<open>Test results\<close>

record 'd TestResult =
  tr_testIndex :: int
  tr_testset :: string
  tr_group :: string
  tr_verdict :: TestResultVerdict
  tr_points :: "'d option"
  tr_timeConsumed :: int
  tr_memoryConsumed :: int
  tr_input :: string
  tr_output :: string
  tr_answer :: string
  tr_exitCode :: int
  tr_checkerComment :: string

text \<open>\<^verbatim>\<open>fmt\<close> is the conversion \<^verbatim>\<open>%.03lf\<close>; the buffer has room for 63 characters.\<close>

definition serializePoints :: "('d \<Rightarrow> string) \<Rightarrow> 'd option \<Rightarrow> string" where
  "serializePoints fmt points = (case points of None \<Rightarrow> '''' | Some x \<Rightarrow> take 63 (fmt x))"

definition deserializePoints :: "(string \<Rightarrow> 'd option option) \<Rightarrow> string \<Rightarrow> ('s, 'd option) prog" where
  "deserializePoints scan s g =
     (if s = [] then Ret None g
      else case scan s of
        None \<Rightarrow> andThen (ensuref False ''Invalid serialized points'' g) (\<lambda>_ g. Ret None g)
      | Some points \<Rightarrow> Ret points g)"

primrec escapeTestResultString :: "string \<Rightarrow> string" where
  "escapeTestResultString [] = []"
| "escapeTestResultString (c # cs) =
     (if c = CHR 0x0D then escapeTestResultString cs
      else if c = CHR 0x0A then [CHR 0x5C, CHR ''n''] @ escapeTestResultString cs
      else (if c = CHR 0x5C \<or> c = CHR '';'' then [CHR 0x5C] else []) @ c # escapeTestResultString cs)"

fun unescapeTestResultString :: "string \<Rightarrow> string" where
  "unescapeTestResultString [] = []"
| "unescapeTestResultString [c] = [c]"
| "unescapeTestResultString (c # d # cs) =
     (if c = CHR 0x5C then
        if d = CHR ''n'' then CHR 0x0A # unescapeTestResultString cs
        else if d = CHR '';'' \<or> d = CHR 0x5C then d # unescapeTestResultString cs
        else c # unescapeTestResultString (d # cs)
      else c # unescapeTestResultString (d # cs))"

definition serializeTestResult :: "('d \<Rightarrow> string) \<Rightarrow> 'd TestResult \<Rightarrow> string" where
  "serializeTestResult fmt tr =
     vtos (tr_testIndex tr) @ '';'' @ escapeTestResultString (tr_testset tr) @ '';'' @
     escapeTestResultString (tr_group tr) @ '';'' @ serializeVerdict (tr_verdict tr) @ '';'' @
     serializePoints fmt (tr_points tr) @ '';'' @ vtos (tr_timeConsumed tr) @ '';'' @
     vtos (tr_memoryConsumed tr) @ '';'' @ escapeTestResultString (tr_input tr) @ '';'' @
     escapeTestResultString (tr_output tr) @ '';'' @ escapeTestResultString (tr_answer tr) @ '';'' @
     vtos (tr_exitCode tr) @ '';'' @ escapeTestResultString (tr_checkerComment tr)"

text \<open>The loop of \<^verbatim>\<open>deserializeTestResult\<close>: the items between separators that are not escaped.\<close>

fun split_items :: "string \<Rightarrow> string \<Rightarrow> string list" where
  "split_items t [] = [t]"
| "split_items t [c] = (if c = CHR 0x5C then [t @ [c]] else if c = CHR '';'' then [t, []] else [t @ [c]])"
| "split_items t (c # d # cs) =
     (if c = CHR 0x5C then split_items (t @ [c, d]) cs
      else if c = CHR '';'' then t # split_items [] (d # cs)
      else split_items (t @ [c]) (d # cs))"

text \<open>\<^verbatim>\<open>stoi\<close> and \<^verbatim>\<open>stoll\<close> throw an exception, which nothing catches, when there is no number in range.\<close>

definition stoi :: "string \<Rightarrow> int option" where
  "stoi s = (case stoll s of None \<Rightarrow> None | Some v \<Rightarrow> if INT_MIN \<le> v \<and> v \<le> INT_MAX then Some v else None)"

definition number_item :: "(string \<Rightarrow> int option) \<Rightarrow> string \<Rightarrow> ('s, int) prog" where
  "number_item conv s g = (case conv s of None \<Rightarrow> Crash | Some v \<Rightarrow> Ret v g)"

definition deserializeTestResult :: "(string \<Rightarrow> 'd option option) \<Rightarrow> string \<Rightarrow> ('s, 'd TestResult) prog" where
  "deserializeTestResult scan s g =
     (let items = split_items [] s in
      andThen (ensuref (length items = 12) ''Invalid TestResult serialization: expected exactly 12 items'' g) (\<lambda>_ g.
      andThen (number_item stoi (items ! 0) g) (\<lambda>testIndex g.
      andThen (deserializeTestResultVerdict (items ! 3) g) (\<lambda>verdict g.
      andThen (deserializePoints scan (items ! 4) g) (\<lambda>points g.
      andThen (number_item stoll (items ! 5) g) (\<lambda>timeConsumed g.
      andThen (number_item stoll (items ! 6) g) (\<lambda>memoryConsumed g.
      andThen (number_item stoi (items ! 10) g) (\<lambda>exitCode g.
        Ret \<lparr>tr_testIndex = testIndex, tr_testset = unescapeTestResultString (items ! 1),
             tr_group = unescapeTestResultString (items ! 2), tr_verdict = verdict, tr_points = points,
             tr_timeConsumed = timeConsumed, tr_memoryConsumed = memoryConsumed,
             tr_input = unescapeTestResultString (items ! 7), tr_output = unescapeTestResultString (items ! 8),
             tr_answer = unescapeTestResultString (items ! 9), tr_exitCode = exitCode,
             tr_checkerComment = unescapeTestResultString (items ! 11)\<rparr> g))))))))"

primrec deserialize_lines :: "(string \<Rightarrow> 'd option option) \<Rightarrow> string list \<Rightarrow> ('s, 'd TestResult list) prog" where
  "deserialize_lines scan [] g = Ret [] g"
| "deserialize_lines scan (line # lines) g =
     (if line = [] then deserialize_lines scan lines g
      else andThen (deserializeTestResult scan line g) (\<lambda>tr g.
           andThen (deserialize_lines scan lines g) (\<lambda>trs g. Ret (tr # trs) g)))"

text \<open>\<^verbatim>\<open>readTestResults\<close>: \<^verbatim>\<open>getline\<close> cuts the file at LF; the empty part after a final LF is no line, and an empty
  line is skipped anyway.\<close>

definition readTestResults :: "env \<Rightarrow> (string \<Rightarrow> 'd option option) \<Rightarrow> string \<Rightarrow> ('s, 'd TestResult list) prog" where
  "readTestResults env scan fileName g =
     (case env_fs env fileName of
        None \<Rightarrow> andThen (ensuref False (''Can't read test results file '' @ [CHR 0x27] @ fileName @ [CHR 0x27]) g) (\<lambda>_ g. Ret [] g)
      | Some content \<Rightarrow> deserialize_lines scan (split_char content CHR 0x0A) g)"

section \<open>Running a scorer\<close>

definition registerScorer :: "env \<Rightarrow> string \<Rightarrow> (testlib, unit) prog" where
  "registerScorer env stdin g =
     andThen (on_inf (init_file (env_mem env) (env_memEof env) (env_fs env) H_stdin (open_file stdin) M_input)
       (g\<lparr>tl_mode := TM_scorer\<rparr>)) (\<lambda>_ g. Ret () (g\<lparr>tl_inf := (tl_inf g)\<lparr>is_strict := False\<rparr>\<rparr>))"

text \<open>The loop of the guard; \<open>fuel\<close> bounds its rounds, whose end counts as \<open>Crash\<close>.\<close>

primrec scorer_loop :: "(string \<Rightarrow> 'd option option) \<Rightarrow> nat \<Rightarrow> 'd TestResult list \<Rightarrow> (testlib, 'd TestResult list) prog" where
  "scorer_loop scan 0 results g = Crash"
| "scorer_loop scan (Suc fuel) results g = andThen (on_inf eof g) (\<lambda>b g.
     if b then Ret results g
     else andThen (on_inf readLine g) (\<lambda>line g.
       if line \<noteq> [] then andThen (deserializeTestResult scan line g) (\<lambda>tr g. scorer_loop scan fuel (results @ [tr]) g)
       else scorer_loop scan fuel results g))"

text \<open>The destructor of \<^verbatim>\<open>TestlibScorerGuard\<close>; the value is what it prints.\<close>

definition scorer_guard ::
    "(string \<Rightarrow> 'd option option) \<Rightarrow> ('d option \<Rightarrow> string) \<Rightarrow> nat \<Rightarrow> ('d TestResult list \<Rightarrow> 'd option) \<Rightarrow> (testlib, string) prog" where
  "scorer_guard scan fmt3 fuel scorer g =
     (if tl_mode g = TM_scorer then
        andThen (scorer_loop scan fuel [] g) (\<lambda>results g.
        andThen (inf_readEof g) (\<lambda>_ g. Ret (fmt3 (scorer results) @ [CHR 0x0A]) g))
      else Ret [] g)"

section \<open>Escaping\<close>

lemma unescape_plain: "c \<noteq> CHR 0x5C \<Longrightarrow> unescapeTestResultString (c # cs) = c # unescapeTestResultString cs"
  by (cases cs) simp_all

lemma unescape_escape: "unescapeTestResultString (escapeTestResultString s) = filter (\<lambda>c. c \<noteq> CHR 0x0D) s"
  by (induction s) (auto simp: unescape_plain)

text \<open>The texts that the loop of \<^verbatim>\<open>deserializeTestResult\<close> keeps together as one item.\<close>

fun item :: "string \<Rightarrow> bool" where
  "item [] = True"
| "item [c] = (c \<noteq> CHR 0x5C \<and> c \<noteq> CHR '';'')"
| "item (c # d # cs) = (if c = CHR 0x5C then item cs else c \<noteq> CHR '';'' \<and> item (d # cs))"

lemma item_plain: "c \<noteq> CHR 0x5C \<Longrightarrow> item (c # cs) \<longleftrightarrow> c \<noteq> CHR '';'' \<and> item cs"
  by (cases cs) simp_all

lemma split_items_step:
  "split_items t (CHR '';'' # cs) = t # split_items [] cs"
  "c \<noteq> CHR 0x5C \<Longrightarrow> c \<noteq> CHR '';'' \<Longrightarrow> split_items t (c # cs) = split_items (t @ [c]) cs"
  by (cases cs; simp)+

lemma split_item: "item u \<Longrightarrow> split_items t (u @ CHR '';'' # r) = (t @ u) # split_items [] r"
proof (induction u arbitrary: t rule: item.induct)
  case (3 c d cs)
  then show ?case by (cases "c = CHR 0x5C") (simp_all add: split_items_step)
qed (simp_all add: split_items_step)

lemma split_last_item: "item u \<Longrightarrow> split_items t u = [t @ u]"
  by (induction u arbitrary: t rule: item.induct) (simp_all split: if_splits)

lemma item_escape: "item (escapeTestResultString s)"
  by (induction s) (auto simp: item_plain)

lemma item_no_special: "CHR 0x5C \<notin> set s \<Longrightarrow> CHR '';'' \<notin> set s \<Longrightarrow> item s"
  by (induction s) (auto simp: item_plain)

lemma item_verdict: "item (serializeVerdict v)"
  by (cases v) simp_all

lemma vtos_chars: "c \<in> set (vtos n) \<Longrightarrow> is_digit c \<or> c = CHR ''-''"
  by (cases "n < 0") (auto simp: vtos_neg list_all_iff dest: bspec [OF vtos_digits [unfolded list_all_iff], rotated])

lemma item_vtos: "item (vtos n)"
  by (rule item_no_special) (auto dest: vtos_chars simp: is_digit_def schar_def)

section \<open>The round trip of a test result\<close>

lemma stoll_vtos: "LLONG_MIN \<le> n \<Longrightarrow> n \<le> LLONG_MAX \<Longrightarrow> stoll (vtos n) = Some n"
proof (cases "n < 0")
  case True
  assume "LLONG_MIN \<le> n"
  then show ?thesis using True stoll_minus [of "vtos (- n)"] by (simp add: vtos_neg vtos_digits digits_val_vtos)
next
  case False
  assume "n \<le> LLONG_MAX"
  then show ?thesis using False stoll_digits [of "vtos n"] by (simp add: vtos_digits digits_val_vtos)
qed

lemma stoi_vtos: "INT_MIN \<le> n \<Longrightarrow> n \<le> INT_MAX \<Longrightarrow> stoi (vtos n) = Some n"
  using stoll_vtos [of n] by (simp add: stoi_def limit_defs)

lemma verdict_round_trip: "deserializeTestResultVerdict (serializeVerdict v) g = Ret v g"
  by (cases v) (simp_all add: deserializeTestResultVerdict_def)

text \<open>The fields that fit their C++ type, and points whose text reads back.\<close>

definition fits_result :: "'d TestResult \<Rightarrow> bool" where
  "fits_result tr \<longleftrightarrow> INT_MIN \<le> tr_testIndex tr \<and> tr_testIndex tr \<le> INT_MAX \<and> INT_MIN \<le> tr_exitCode tr \<and> tr_exitCode tr \<le> INT_MAX \<and>
     LLONG_MIN \<le> tr_timeConsumed tr \<and> tr_timeConsumed tr \<le> LLONG_MAX \<and>
     LLONG_MIN \<le> tr_memoryConsumed tr \<and> tr_memoryConsumed tr \<le> LLONG_MAX"

definition plain_char :: "char \<Rightarrow> bool" where
  "plain_char c \<longleftrightarrow> c \<noteq> CHR 0x5C \<and> c \<noteq> CHR '';'' \<and> c \<noteq> CHR 0x0A \<and> c \<noteq> CHR 0x0D"

definition points_read_back :: "('d \<Rightarrow> string) \<Rightarrow> (string \<Rightarrow> 'd option option) \<Rightarrow> 'd option \<Rightarrow> bool" where
  "points_read_back fmt scan points \<longleftrightarrow> (case points of None \<Rightarrow> True
     | Some x \<Rightarrow> fmt x \<noteq> [] \<and> list_all plain_char (fmt x) \<and> scan (take 63 (fmt x)) = Some (Some x))"

definition drop_CR :: "string \<Rightarrow> string" where
  "drop_CR s = filter (\<lambda>c. c \<noteq> CHR 0x0D) s"

definition without_CR :: "'d TestResult \<Rightarrow> 'd TestResult" where
  "without_CR tr = tr\<lparr>tr_testset := drop_CR (tr_testset tr), tr_group := drop_CR (tr_group tr), tr_input := drop_CR (tr_input tr),
     tr_output := drop_CR (tr_output tr), tr_answer := drop_CR (tr_answer tr), tr_checkerComment := drop_CR (tr_checkerComment tr)\<rparr>"

lemma points_round_trip: "points_read_back fmt scan p \<Longrightarrow> deserializePoints scan (serializePoints fmt p) g = Ret p g"
  by (auto simp: points_read_back_def serializePoints_def deserializePoints_def split: option.splits)

lemma points_plain: "points_read_back fmt scan p \<Longrightarrow> list_all plain_char (serializePoints fmt p)"
  by (auto simp: points_read_back_def serializePoints_def list_all_iff split: option.splits dest: in_set_takeD)

lemma item_points: "points_read_back fmt scan p \<Longrightarrow> item (serializePoints fmt p)"
  using points_plain [of fmt scan p] by (intro item_no_special) (auto simp: list_all_iff plain_char_def)

lemma split_serialized:
  assumes "points_read_back fmt scan (tr_points tr)"
  shows "split_items [] (serializeTestResult fmt tr) =
    [vtos (tr_testIndex tr), escapeTestResultString (tr_testset tr), escapeTestResultString (tr_group tr),
     serializeVerdict (tr_verdict tr), serializePoints fmt (tr_points tr), vtos (tr_timeConsumed tr),
     vtos (tr_memoryConsumed tr), escapeTestResultString (tr_input tr), escapeTestResultString (tr_output tr),
     escapeTestResultString (tr_answer tr), vtos (tr_exitCode tr), escapeTestResultString (tr_checkerComment tr)]"
  using item_points [OF assms]
  by (simp add: serializeTestResult_def split_item split_last_item item_vtos item_escape item_verdict)

lemma test_result_round_trip:
  assumes "fits_result tr" "points_read_back fmt scan (tr_points tr)"
  shows "deserializeTestResult scan (serializeTestResult fmt tr) g = Ret (without_CR tr) g"
  using assms(1) split_serialized [OF assms(2)]
  by (simp add: points_round_trip [OF assms(2)] deserializeTestResult_def ensuref_def number_item_def stoi_vtos stoll_vtos verdict_round_trip fits_result_def
      unescape_escape without_CR_def drop_CR_def)

section \<open>Reading a file of results\<close>

definition line_char :: "char \<Rightarrow> bool" where
  "line_char c \<longleftrightarrow> c \<noteq> CHR 0x0A \<and> c \<noteq> CHR 0x0D"

lemma one_line_parts:
  "list_all line_char (escapeTestResultString s)"
  "list_all line_char (vtos n)"
  "list_all line_char (serializeVerdict v)"
  "points_read_back fmt scan p \<Longrightarrow> list_all line_char (serializePoints fmt p)"
proof -
  show "list_all line_char (escapeTestResultString s)" by (induction s) (simp_all add: line_char_def)
  show "list_all line_char (vtos n)"
    unfolding list_all_iff by (rule ballI, drule vtos_chars) (auto simp: line_char_def is_digit_def schar_def)
  show "list_all line_char (serializeVerdict v)" by (cases v) (simp_all add: line_char_def)
  show "points_read_back fmt scan p \<Longrightarrow> list_all line_char (serializePoints fmt p)"
    using points_plain [of fmt scan p] by (auto simp: list_all_iff plain_char_def line_char_def)
qed

lemma serialized_one_line: "points_read_back fmt scan (tr_points tr) \<Longrightarrow> list_all line_char (serializeTestResult fmt tr)"
  by (simp add: serializeTestResult_def one_line_parts) (simp add: line_char_def)

lemma line_of_text:
  assumes "list_all line_char s"
  shows "line_codes (map schar s @ LF # r) = map schar s" "after_line (map schar s @ LF # r) = r"
proof -
  have e: "schar c = LF \<longleftrightarrow> c = CHR 0x0A" "schar c = CR \<longleftrightarrow> c = CHR 0x0D" for c
    using schar_eq_iff [of c "CHR 0x0A"] schar_eq_iff [of c "CHR 0x0D"] by (simp_all add: control_defs schar_def)
  show "line_codes (map schar s @ LF # r) = map schar s" using assms by (induction s) (simp_all add: e line_char_def)
  have "line_rest (map schar s @ LF # r) = LF # r" using assms by (induction s) (simp_all add: e line_char_def)
  then show "after_line (map schar s @ LF # r) = r" by (simp add: after_line_def)
qed

definition result_codes :: "('d \<Rightarrow> string) \<Rightarrow> 'd TestResult list \<Rightarrow> int list" where
  "result_codes fmt trs = concat (map (\<lambda>tr. map schar (serializeTestResult fmt tr) @ [LF]) trs)"

definition good_results :: "('d \<Rightarrow> string) \<Rightarrow> (string \<Rightarrow> 'd option option) \<Rightarrow> 'd TestResult list \<Rightarrow> bool" where
  "good_results fmt scan trs \<longleftrightarrow> (\<forall>tr\<in>set trs. fits_result tr \<and> points_read_back fmt scan (tr_points tr))"

lemma serialized_nonempty: "serializeTestResult fmt tr \<noteq> []"
  by (simp add: serializeTestResult_def)

lemma scorer_loop_reads:
  assumes "holds k (result_codes fmt trs) (tl_inf g)" "\<not> is_strict k" "length trs < fuel" "good_results fmt scan trs"
  shows "\<exists>g'. scorer_loop scan fuel results g = Ret (results @ map without_CR trs) g' \<and> holds k [] (tl_inf g') \<and>
    tl_alive g' = tl_alive g"
  using assms(1,3,4)
proof (induction trs arbitrary: fuel results g)
  case Nil
  obtain s1 where "eof (tl_inf g) = Ret True s1" "holds k [] s1" using eof_spec [OF Nil.prems(1)] by (auto simp: result_codes_def)
  then show ?case using Nil.prems(2) by (cases fuel) (auto simp: on_inf_def)
next
  case (Cons tr trs)
  obtain f where f: "fuel = Suc f" "length trs < f" using Cons.prems(2) by (cases fuel) auto
  have tr: "fits_result tr" "points_read_back fmt scan (tr_points tr)" "good_results fmt scan trs"
    using Cons.prems(3) by (auto simp: good_results_def)
  let ?s = "serializeTestResult fmt tr"
  have v: "result_codes fmt (tr # trs) = map schar ?s @ LF # result_codes fmt trs" by (simp add: result_codes_def)
  note line = line_of_text [of ?s "result_codes fmt trs", folded v]
  note one = serialized_one_line [OF tr(2)]
  obtain s1 where s1: "eof (tl_inf g) = Ret False s1" "holds k (result_codes fmt (tr # trs)) s1"
    using eof_spec [OF Cons.prems(1)] by (auto simp: v)
  obtain s2 where s2: "readString s1 = Ret ?s s2" "holds k (result_codes fmt trs) s2"
    using readString_spec [OF s1(2) assms(2)] unfolding line(1) [OF one] line(2) [OF one] by (auto simp: comp_def)
  let ?g = "g\<lparr>tl_inf := s2\<rparr>"
  have step: "scorer_loop scan fuel results g = scorer_loop scan f (results @ [without_CR tr]) ?g"
    using s1(1) s2(1) by (simp add: f(1) on_inf_def readLine_def serialized_nonempty test_result_round_trip [OF tr(1,2)])
  have "holds k (result_codes fmt trs) (tl_inf ?g)" using s2(2) by simp
  from Cons.IH [OF this f(2) tr(3), of "results @ [without_CR tr]"] show ?case unfolding step by auto
qed

lemma scorer_guard_reads:
  assumes "holds k (result_codes fmt trs) (tl_inf g)" "\<not> is_strict k" "length trs < fuel" "good_results fmt scan trs" "tl_mode g = TM_scorer"
  shows "\<exists>g'. scorer_guard scan fmt3 fuel scorer g = Ret (fmt3 (scorer (map without_CR trs)) @ [CHR 0x0A]) g'"
proof -
  obtain g1 where g1: "scorer_loop scan fuel [] g = Ret (map without_CR trs) g1" "holds k [] (tl_inf g1)"
    using scorer_loop_reads [OF assms(1-4), of "[]"] by auto
  obtain l where l: "note_line (tl_inf g1) = Ret () ((tl_inf g1)\<lparr>is_lastLine := l\<rparr>)" using holds_note_line [OF g1(2)] by blast
  have "holds k [] ((tl_inf g1)\<lparr>is_lastLine := l\<rparr>)" using g1(2) by simp
  then obtain s2 where "eof ((tl_inf g1)\<lparr>is_lastLine := l\<rparr>) = Ret True s2" using eof_spec by fastforce
  then have "\<exists>g2. inf_readEof g1 = Ret () g2" using l by (simp add: inf_readEof_def on_inf_def readEof_check_def)
  then show ?thesis using g1(1) assms(5) by (auto simp: scorer_guard_def)
qed

end
