(* ===== verification/TL_Print.thy ===== *)
theory TL_Print
  imports TL_Quit
begin

text \<open>
  Output of a generator and messages of a checker: the overloads of \<^verbatim>\<open>println\<close>, which write their
  arguments separated by spaces, and \<^verbatim>\<open>expectedButFound\<close>, which ends a checker with a message on two
  values. The state of \<^verbatim>\<open>println\<close> is what has been written to \<^verbatim>\<open>std::cout\<close>.
\<close>

section \<open>Printing\<close>

text \<open>
  An argument is a value with the text \<^verbatim>\<open>std::cout\<close> writes for it, or a container (other than a string)
  with the texts of its elements.
\<close>

datatype printable = Value string | Container "string list"

definition put :: "string \<Rightarrow> (string, unit) prog" where
  "put s out = Ret () (out @ s)"

text \<open>The loop over a container: \<^verbatim>\<open>first\<close> tells whether a space is due.\<close>

primrec put_items :: "('x \<Rightarrow> (string, unit) prog) \<Rightarrow> bool \<Rightarrow> 'x list \<Rightarrow> (string, unit) prog" where
  "put_items pr first [] out = Ret () out"
| "put_items pr first (x # xs) out =
     andThen (if first then Ret () out else put '' '' out) (\<lambda>_ out. andThen (pr x out) (\<lambda>_ out. put_items pr False xs out))"

definition print_one :: "printable \<Rightarrow> (string, unit) prog" where
  "print_one t out = (case t of Value s \<Rightarrow> put s out | Container ts \<Rightarrow> put_items put True ts out)"

definition endl :: "(string, unit) prog" where
  "endl = put [CHR 0x0A]"

definition println_range :: "printable list \<Rightarrow> (string, unit) prog" where
  "println_range xs out = andThen (put_items print_one True xs out) (\<lambda>_ out. endl out)"

text \<open>An argument and the space behind it.\<close>

definition print_space :: "printable \<Rightarrow> (string, unit) prog" where
  "print_space a out = andThen (print_one a out) (\<lambda>_ out. put '' '' out)"

definition println_1 :: "printable \<Rightarrow> (string, unit) prog" where
  "println_1 x out = andThen (print_one x out) (\<lambda>_ out. endl out)"

definition println_2 :: "printable \<Rightarrow> printable \<Rightarrow> (string, unit) prog" where
  "println_2 a b out = andThen (print_space a out) (\<lambda>_ out. andThen (print_one b out) (\<lambda>_ out. endl out))"

definition println_chars :: "string \<Rightarrow> string \<Rightarrow> (string, unit) prog" where
  "println_chars a b out = andThen (print_space (Value a) out) (\<lambda>_ out. andThen (print_one (Value b) out) (\<lambda>_ out. endl out))"

definition println_3 :: "printable \<Rightarrow> printable \<Rightarrow> printable \<Rightarrow> (string, unit) prog" where
  "println_3 a b c out = andThen (print_space a out) (\<lambda>_ out. andThen (print_space b out) (\<lambda>_ out.
     andThen (print_one c out) (\<lambda>_ out. endl out)))"

definition println_4 :: "printable \<Rightarrow> printable \<Rightarrow> printable \<Rightarrow> printable \<Rightarrow> (string, unit) prog" where
  "println_4 a b c d out = andThen (print_space a out) (\<lambda>_ out. andThen (print_space b out) (\<lambda>_ out.
     andThen (print_space c out) (\<lambda>_ out. andThen (print_one d out) (\<lambda>_ out. endl out))))"

definition println_5 :: "printable \<Rightarrow> printable \<Rightarrow> printable \<Rightarrow> printable \<Rightarrow> printable \<Rightarrow> (string, unit) prog" where
  "println_5 a b c d e out = andThen (print_space a out) (\<lambda>_ out. andThen (print_space b out) (\<lambda>_ out.
     andThen (print_space c out) (\<lambda>_ out. andThen (print_space d out) (\<lambda>_ out.
     andThen (print_one e out) (\<lambda>_ out. endl out)))))"

definition println_6 ::
    "printable \<Rightarrow> printable \<Rightarrow> printable \<Rightarrow> printable \<Rightarrow> printable \<Rightarrow> printable \<Rightarrow> (string, unit) prog" where
  "println_6 a b c d e f out = andThen (print_space a out) (\<lambda>_ out. andThen (print_space b out) (\<lambda>_ out.
     andThen (print_space c out) (\<lambda>_ out. andThen (print_space d out) (\<lambda>_ out. andThen (print_space e out) (\<lambda>_ out.
     andThen (print_one f out) (\<lambda>_ out. endl out))))))"

definition println_7 ::
    "printable \<Rightarrow> printable \<Rightarrow> printable \<Rightarrow> printable \<Rightarrow> printable \<Rightarrow> printable \<Rightarrow> printable \<Rightarrow> (string, unit) prog" where
  "println_7 a b c d e f g out = andThen (print_space a out) (\<lambda>_ out. andThen (print_space b out) (\<lambda>_ out.
     andThen (print_space c out) (\<lambda>_ out. andThen (print_space d out) (\<lambda>_ out. andThen (print_space e out) (\<lambda>_ out.
     andThen (print_space f out) (\<lambda>_ out. andThen (print_one g out) (\<lambda>_ out. endl out)))))))"

section \<open>Expected but found\<close>

definition expectedButFound_text :: "TResult \<Rightarrow> string \<Rightarrow> string \<Rightarrow> string \<Rightarrow> (testlib, 'a) prog" where
  "expectedButFound_text result expected found prepend g =
     (let message = ''expected '' @ [CHR 0x27] @ compress expected @ [CHR 0x27] @ '', but found '' @ [CHR 0x27] @ compress found @ [CHR 0x27]
      in quit_free result (if prepend \<noteq> [] then compress prepend @ '': '' @ message else message) g)"

definition expectedButFound_int :: "TResult \<Rightarrow> int \<Rightarrow> int \<Rightarrow> string \<Rightarrow> (testlib, 'a) prog" where
  "expectedButFound_int result expected found prepend = expectedButFound_text result (vtos expected) (vtos found) prepend"

definition expectedButFound_string :: "TResult \<Rightarrow> string \<Rightarrow> string \<Rightarrow> string \<Rightarrow> (testlib, 'a) prog" where
  "expectedButFound_string result expected found prepend = expectedButFound_text result expected found prepend"

text \<open>The overload for \<^verbatim>\<open>const char *\<close>; the texts are those of the C strings.\<close>

definition expectedButFound_cstr :: "TResult \<Rightarrow> string \<Rightarrow> string \<Rightarrow> string \<Rightarrow> (testlib, 'a) prog" where
  "expectedButFound_cstr result expected found prepend = expectedButFound_text result expected found prepend"

section \<open>What is printed\<close>

definition shown :: "printable \<Rightarrow> string" where
  "shown t = (case t of Value s \<Rightarrow> s | Container ts \<Rightarrow> join ts '' '')"

lemma join_loop_put:
  "(\<And>x out. pr x out = Ret () (out @ sh x)) \<Longrightarrow> put_items pr first xs out = Ret () (join_loop (map sh xs) '' '' (\<not> first) out)"
  by (induction xs arbitrary: first out) (simp_all add: put_def)

lemma join_loop_append: "join_loop xs sep repeated ss = ss @ join_loop xs sep repeated []"
proof (induction xs arbitrary: repeated ss)
  case (Cons x xs)
  note IH = Cons.IH [of True "(if repeated then ss @ sep else ss) @ x"] Cons.IH [of True "(if repeated then [] @ sep else []) @ x"]
  show ?case unfolding join_loop.simps IH by simp
qed simp

lemma put_items_spec:
  assumes "\<And>x out. pr x out = Ret () (out @ sh x)"
  shows "put_items pr True xs out = Ret () (out @ join (map sh xs) '' '')"
  unfolding join_loop_put [OF assms] join_def by (simp add: join_loop_append [of _ _ _ out])

lemma print_one_spec: "print_one t out = Ret () (out @ shown t)"
  using put_items_spec [of put "\<lambda>s. s"] by (cases t) (simp_all add: print_one_def shown_def put_def)

text \<open>Every overload writes its arguments separated by single spaces, and the end of the line.\<close>

lemma println_range_spec: "println_range xs out = Ret () (out @ join (map shown xs) '' '' @ [CHR 0x0A])"
  by (simp add: println_range_def put_items_spec [OF print_one_spec] endl_def put_def)

lemmas println_defs = println_1_def println_2_def println_3_def println_4_def println_5_def println_6_def println_7_def println_chars_def

lemma println_overloads:
  "println_1 a = println_range [a]"
  "println_2 a b = println_range [a, b]"
  "println_chars s t = println_range [Value s, Value t]"
  "println_3 a b c = println_range [a, b, c]"
  "println_4 a b c d = println_range [a, b, c, d]"
  "println_5 a b c d e = println_range [a, b, c, d, e]"
  "println_6 a b c d e f = println_range [a, b, c, d, e, f]"
  "println_7 a b c d e f g = println_range [a, b, c, d, e, f, g]"
  by (rule ext; simp add: println_defs print_space_def println_range_def print_one_spec put_def endl_def)+

end
