(* ===== verification/TL_Double.thy ===== *)
theory TL_Double
  imports TL_Text
begin

text \<open>
  Binary floating-point numbers: the values of \<^verbatim>\<open>double\<close> as rational numbers, rounding to the nearest
  number with 53 bits (to the even one of two), the operations of C++ on them, and the comparison of
  real numbers in \<^verbatim>\<open>testlib.h\<close>. A zero has no sign here; the difference can only be seen in the text of
  a message.
\<close>

section \<open>Rounding\<close>

text \<open>To the nearest integer, to the even one of two.\<close>

definition rne :: "rat \<Rightarrow> int" where
  "rne x = (let f = \<lfloor>x\<rfloor>; d = x - of_int f in
     if d < 1 / 2 then f else if d > 1 / 2 then f + 1 else if even f then f else f + 1)"

text \<open>The unit of the last of 53 bits: no smaller than the smallest positive number.\<close>

definition min_unit :: rat where "min_unit = 1 / 2 ^ 1074"

function unit_up :: "rat \<Rightarrow> rat \<Rightarrow> rat" where
  "unit_up u x = (if u \<le> 0 \<or> x < 2 ^ 53 * u then u else unit_up (2 * u) x)"
  by pat_completeness auto
termination
proof (relation "measure (\<lambda>(u, x). nat \<lceil>x / u\<rceil>)")
  fix u x :: rat
  assume "\<not> (u \<le> 0 \<or> x < 2 ^ 53 * u)"
  then have "0 < u" "2 ^ 53 \<le> x / u" by (simp_all add: field_simps)
  moreover have "x / (2 * u) = x / u / 2" by simp
  ultimately show "((2 * u, x), u, x) \<in> measure (\<lambda>(u, x). nat \<lceil>x / u\<rceil>)" by simp linarith
qed simp

function unit_down :: "rat \<Rightarrow> rat \<Rightarrow> rat" where
  "unit_down u x = (if x < 2 ^ 52 * u \<and> min_unit < u then unit_down (u / 2) x else u)"
  by pat_completeness auto
termination
proof (relation "measure (\<lambda>(u, x). nat \<lceil>u / min_unit\<rceil>)")
  fix u x :: rat
  assume u: "x < 2 ^ 52 * u \<and> min_unit < u"
  define y where "y = u / min_unit"
  have "0 < min_unit" by (simp add: min_unit_def)
  then have "1 < y" using u by (simp add: y_def less_divide_eq)
  then have c: "2 \<le> \<lceil>y\<rceil>" by linarith
  have "y \<le> of_int \<lceil>y\<rceil>" "(2 :: rat) \<le> of_int \<lceil>y\<rceil>" using c by linarith+
  then have "y / 2 \<le> of_int (\<lceil>y\<rceil> - 1)" by (simp only: of_int_diff of_int_1)
  then have "\<lceil>y / 2\<rceil> \<le> \<lceil>y\<rceil> - 1" by (rule ceiling_le)
  moreover have "u / 2 / min_unit = y / 2" by (simp add: y_def)
  ultimately show "((u / 2, x), u, x) \<in> measure (\<lambda>(u, x). nat \<lceil>u / min_unit\<rceil>)"
    using c by (simp only: in_measure case_prod_conv y_def [symmetric])
qed simp

declare unit_up.simps [simp del] unit_down.simps [simp del]

definition unit_of :: "rat \<Rightarrow> rat" where
  "unit_of x = unit_down (unit_up 1 x) x"

definition round_pos :: "rat \<Rightarrow> rat" where
  "round_pos x = of_int (rne (x / unit_of x)) * unit_of x"

definition round_rat :: "rat \<Rightarrow> rat" where
  "round_rat x = (if x = 0 then 0 else if x < 0 then - round_pos (- x) else round_pos x)"

section \<open>Facts on rounding\<close>

lemma rne_bounds: "of_int (rne x) - x \<le> 1 / 2" "x - of_int (rne x) \<le> 1 / 2"
proof -
  show "of_int (rne x) - x \<le> 1 / 2" "x - of_int (rne x) \<le> 1 / 2"
    using of_int_floor_le [of x] floor_correct [of x] by (auto simp: rne_def Let_def) linarith+
qed

lemma rne_of_int [simp]: "rne (of_int n) = n"
  by (simp add: rne_def)

lemma rne_mono: "x \<le> y \<Longrightarrow> rne x \<le> rne y"
proof (cases "\<lfloor>x\<rfloor> = \<lfloor>y\<rfloor>")
  case True
  assume "x \<le> y"
  then show ?thesis using True by (auto simp: rne_def Let_def)
next
  case False
  assume "x \<le> y"
  then have "\<lfloor>x\<rfloor> + 1 \<le> \<lfloor>y\<rfloor>" using False floor_mono [of x y] by linarith
  moreover have "rne x \<le> \<lfloor>x\<rfloor> + 1" "\<lfloor>y\<rfloor> \<le> rne y" by (auto simp: rne_def Let_def)
  ultimately show ?thesis by linarith
qed

lemma rne_ge: "of_int n \<le> x \<Longrightarrow> n \<le> rne x"
  using rne_mono [of "of_int n" x] by simp

lemma rne_le: "x \<le> of_int n \<Longrightarrow> rne x \<le> n"
  using rne_mono [of x "of_int n"] by simp

definition pow_unit :: "rat \<Rightarrow> bool" where
  "pow_unit u \<longleftrightarrow> (\<exists>j. u = 2 ^ j * min_unit)"

lemma min_unit_pos: "0 < min_unit"
  by (simp add: min_unit_def)

lemma pow_unit_pos: "pow_unit u \<Longrightarrow> 0 < u"
  using min_unit_pos by (auto simp: pow_unit_def)

lemma pow_unit_one: "pow_unit 1"
  unfolding pow_unit_def min_unit_def by (rule exI [of _ 1074]) simp

lemma pow_unit_double: "pow_unit u \<Longrightarrow> pow_unit (2 * u)"
  unfolding pow_unit_def by (metis mult.assoc power_Suc)

lemma pow_unit_half: "pow_unit u \<Longrightarrow> min_unit < u \<Longrightarrow> pow_unit (u / 2)"
proof -
  assume "pow_unit u" "min_unit < u"
  then obtain j where "u = 2 ^ j * min_unit" by (auto simp: pow_unit_def)
  moreover from this \<open>min_unit < u\<close> have "j \<noteq> 0" by (intro notI) simp
  ultimately show ?thesis unfolding pow_unit_def by (intro exI [of _ "j - 1"]) (cases j; simp)
qed

lemma pow_unit_less: "pow_unit u \<Longrightarrow> pow_unit v \<Longrightarrow> u < v \<Longrightarrow> 2 * u \<le> v"
proof -
  assume "pow_unit u" "pow_unit v" "u < v"
  then obtain i j where ij: "u = 2 ^ i * min_unit" "v = 2 ^ j * min_unit" by (auto simp: pow_unit_def)
  then have "(2::rat) ^ i < 2 ^ j" using \<open>u < v\<close> min_unit_pos by simp
  then have "Suc i \<le> j" by (simp add: Suc_le_eq)
  then have "(2::rat) ^ Suc i \<le> 2 ^ j" by (rule power_increasing) simp
  then show ?thesis using ij min_unit_pos by simp
qed

lemma pow_unit_min: "pow_unit u \<Longrightarrow> min_unit \<le> u"
proof -
  assume "pow_unit u"
  then obtain j where j: "u = 2 ^ j * min_unit" by (auto simp: pow_unit_def)
  have "1 * min_unit \<le> 2 ^ j * min_unit" using min_unit_pos by (intro mult_right_mono one_le_power) simp_all
  then show ?thesis by (simp add: j)
qed

lemma twice_not_min: "pow_unit u \<Longrightarrow> 2 * u \<le> v \<Longrightarrow> v \<noteq> min_unit"
  using pow_unit_min [of u] min_unit_pos by auto

lemma unit_up_spec: "pow_unit u \<Longrightarrow> pow_unit (unit_up u x) \<and> x < 2 ^ 53 * unit_up u x \<and> (unit_up u x = u \<or> 2 ^ 52 * unit_up u x \<le> x)"
proof (induction u x rule: unit_up.induct)
  case (1 u x)
  then show ?case
    using pow_unit_pos [OF "1.prems"] pow_unit_double [OF "1.prems"]
    by (cases "x < 2 ^ 53 * u") (auto simp: unit_up.simps [of u x] unit_up.simps [of "2 * u" x])
qed

lemma unit_down_spec:
  "pow_unit u \<Longrightarrow> x < 2 ^ 53 * u \<Longrightarrow>
   pow_unit (unit_down u x) \<and> x < 2 ^ 53 * unit_down u x \<and> (unit_down u x = min_unit \<or> 2 ^ 52 * unit_down u x \<le> x)"
proof (induction u x rule: unit_down.induct)
  case (1 u x)
  show ?case
  proof (cases "x < 2 ^ 52 * u \<and> min_unit < u")
    case True
    then have "pow_unit (u / 2)" "x < 2 ^ 53 * (u / 2)" using 1 pow_unit_half by auto
    then show ?thesis using "1.IH" True by (simp add: unit_down.simps [of u x])
  next
    case False
    have "u = min_unit \<or> min_unit < u" using pow_unit_min [OF "1.prems"(1)] by auto
    then show ?thesis using False "1.prems" by (auto simp: unit_down.simps [of u x])
  qed
qed

lemma unit_of_spec: "pow_unit (unit_of x)" "x < 2 ^ 53 * unit_of x" "unit_of x = min_unit \<or> 2 ^ 52 * unit_of x \<le> x"
  using unit_down_spec [of "unit_up 1 x" x] unit_up_spec [OF pow_unit_one, of x] by (simp_all add: unit_of_def)

lemma unit_of_pos: "0 < unit_of x"
  using pow_unit_pos unit_of_spec(1) by blast

lemma unit_of_mono: "x \<le> y \<Longrightarrow> unit_of x \<le> unit_of y"
proof (rule ccontr)
  assume "x \<le> y" "\<not> unit_of x \<le> unit_of y"
  then have l: "2 * unit_of y \<le> unit_of x" using pow_unit_less unit_of_spec(1) by simp
  then have "2 ^ 52 * unit_of x \<le> x" using unit_of_spec(3) [of x] twice_not_min [OF unit_of_spec(1)] by blast
  then show False using l \<open>x \<le> y\<close> unit_of_spec(2) [of y] by simp
qed

text \<open>A rounded number lies between the powers of two around it.\<close>

lemma round_pos_upper: "round_pos x \<le> 2 ^ 53 * unit_of x"
proof -
  have "x / unit_of x \<le> of_int (2 ^ 53)" using unit_of_spec(2) [of x] unit_of_pos [of x] by (simp add: divide_le_eq)
  then have "rne (x / unit_of x) \<le> 2 ^ 53" by (rule rne_le)
  then have "of_int (rne (x / unit_of x)) \<le> (of_int (2 ^ 53) :: rat)" by (simp only: of_int_le_iff)
  then show ?thesis using unit_of_pos [of x] by (simp add: round_pos_def)
qed

lemma round_pos_lower: "2 ^ 52 * unit_of x \<le> x \<Longrightarrow> 2 ^ 52 * unit_of x \<le> round_pos x"
proof -
  assume "2 ^ 52 * unit_of x \<le> x"
  then have "of_int (2 ^ 52) \<le> x / unit_of x" using unit_of_pos [of x] by (simp add: le_divide_eq)
  then have "2 ^ 52 \<le> rne (x / unit_of x)" by (rule rne_ge)
  then have "(of_int (2 ^ 52) :: rat) \<le> of_int (rne (x / unit_of x))" by (simp only: of_int_le_iff)
  then show ?thesis using unit_of_pos [of x] by (simp add: round_pos_def)
qed

lemma round_pos_mono: "x \<le> y \<Longrightarrow> round_pos x \<le> round_pos y"
proof (cases "unit_of x = unit_of y")
  case True
  assume "x \<le> y"
  then have "x / unit_of y \<le> y / unit_of y" using unit_of_pos [of y] by (simp add: divide_right_mono)
  then have "rne (x / unit_of y) \<le> rne (y / unit_of y)" by (rule rne_mono)
  then show ?thesis unfolding round_pos_def True using unit_of_pos [of y] by (simp add: mult_right_mono)
next
  case False
  assume xy: "x \<le> y"
  then have "unit_of x < unit_of y" using False unit_of_mono by force
  then have l: "2 * unit_of x \<le> unit_of y" using pow_unit_less unit_of_spec(1) by blast
  then have "unit_of y \<noteq> min_unit" using twice_not_min [OF unit_of_spec(1)] by blast
  then have "2 ^ 52 * unit_of y \<le> round_pos y" using round_pos_lower unit_of_spec(3) by blast
  then show ?thesis using round_pos_upper [of x] l by simp
qed

lemma round_pos_error: "\<bar>round_pos x - x\<bar> \<le> unit_of x / 2"
proof -
  let ?q = "x / unit_of x"
  have "\<bar>of_int (rne ?q) - ?q\<bar> \<le> 1 / 2" using rne_bounds [of ?q] by linarith
  then have "\<bar>of_int (rne ?q) - ?q\<bar> * unit_of x \<le> 1 / 2 * unit_of x" using unit_of_pos [of x] by (intro mult_right_mono) simp_all
  moreover have "\<bar>of_int (rne ?q) - ?q\<bar> * unit_of x = \<bar>(of_int (rne ?q) - ?q) * unit_of x\<bar>" using unit_of_pos [of x] by (simp add: abs_mult)
  moreover have "(of_int (rne ?q) - ?q) * unit_of x = round_pos x - x" using unit_of_pos [of x] by (simp add: round_pos_def left_diff_distrib)
  ultimately show ?thesis by simp
qed

lemma round_pos_nonneg: "0 \<le> x \<Longrightarrow> 0 \<le> round_pos x"
proof -
  assume "0 \<le> x"
  then have "0 \<le> rne (x / unit_of x)" using unit_of_pos [of x] by (intro rne_ge) simp
  then show ?thesis using unit_of_pos [of x] by (simp add: round_pos_def)
qed

lemma unit_unique:
  assumes "pow_unit u" "r < 2 ^ 53 * u" "u = min_unit \<or> 2 ^ 52 * u \<le> r"
  shows "unit_of r = u"
proof (rule ccontr)
  assume "unit_of r \<noteq> u"
  then consider "2 * unit_of r \<le> u" | "2 * u \<le> unit_of r"
    using pow_unit_less [OF assms(1) unit_of_spec(1) [of r]] pow_unit_less [OF unit_of_spec(1) [of r] assms(1)] by linarith
  then show False
  proof cases
    case 1
    then have "2 ^ 52 * u \<le> r" using twice_not_min [OF unit_of_spec(1)] assms(3) by blast
    then show False using 1 unit_of_spec(2) [of r] by simp
  next
    case 2
    then have "2 ^ 52 * unit_of r \<le> r" using twice_not_min [OF assms(1)] unit_of_spec(3) by blast
    then show False using 2 assms(2) by simp
  qed
qed

lemma round_pos_idem: "round_pos (round_pos x) = round_pos x"
proof -
  let ?u = "unit_of x" and ?m = "rne (x / unit_of x)"
  have u: "0 < ?u" by (rule unit_of_pos)
  have r: "round_pos x = of_int ?m * ?u" by (simp add: round_pos_def)
  consider "round_pos x < 2 ^ 53 * ?u" | "round_pos x = 2 ^ 53 * ?u" using round_pos_upper [of x] by linarith
  then show ?thesis
  proof cases
    case 1
    then have "unit_of (round_pos x) = ?u" using unit_of_spec [of x] round_pos_lower [of x] by (intro unit_unique) auto
    then have "round_pos (round_pos x) = of_int (rne (of_int ?m)) * ?u" using u by (simp add: round_pos_def)
    then show ?thesis by (simp add: r)
  next
    case 2
    have w: "unit_of (round_pos x) = 2 * ?u"
      using unit_of_spec(1) [of x] u 2 by (intro unit_unique pow_unit_double) auto
    have "round_pos x / (2 * ?u) = of_int (2 ^ 52)" using 2 u by simp
    then have "round_pos (round_pos x) = of_int (2 ^ 52) * (2 * ?u)" by (simp only: round_pos_def [of "round_pos x"] w rne_of_int)
    then show ?thesis using 2 by simp
  qed
qed

lemma round_rat_minus: "round_rat (- x) = - round_rat x"
  by (simp add: round_rat_def)

lemma round_rat_nonneg: "0 \<le> x \<Longrightarrow> 0 \<le> round_rat x"
  by (simp add: round_rat_def round_pos_nonneg)

lemma round_rat_mono: "x \<le> y \<Longrightarrow> round_rat x \<le> round_rat y"
proof -
  assume xy: "x \<le> y"
  consider "0 \<le> x" | "y \<le> 0" | "x < 0" "0 < y" by linarith
  then show ?thesis
  proof cases
    case 1
    then show ?thesis using xy round_pos_mono [OF xy] round_pos_nonneg [of y] by (auto simp: round_rat_def)
  next
    case 2
    then show ?thesis using xy round_pos_mono [of "- y" "- x"] round_pos_nonneg [of "- x"] by (auto simp: round_rat_def)
  next
    case 3
    then show ?thesis using round_rat_nonneg [of "- x"] round_rat_nonneg [of y] by (simp add: round_rat_minus)
  qed
qed

lemma round_pos_zero: "round_pos 0 = 0"
  by (simp add: round_pos_def rne_def)

lemma round_rat_idem: "round_rat (round_rat x) = round_rat x"
proof -
  have "round_rat (round_rat x) = round_rat x" if "0 < x" for x
    using that round_pos_nonneg [of x] by (auto simp: round_rat_def round_pos_idem)
  then show ?thesis using round_rat_minus [of x] round_rat_minus [of "round_rat (- x)"]
    by (metis add.inverse_inverse linorder_neqE_linordered_idom neg_less_0_iff_less round_rat_def)
qed

lemma round_rat_abs: "\<bar>round_rat x\<bar> = round_rat \<bar>x\<bar>"
  using round_rat_nonneg [of x] round_rat_nonneg [of "- x"] round_rat_minus [of x] by (auto simp: abs_if)

text \<open>The relative error of rounding, and the absolute error next to zero.\<close>

lemma unit_of_bound: "unit_of x / 2 \<le> \<bar>x\<bar> / 2 ^ 53 + min_unit / 2"
proof (cases "unit_of x = min_unit")
  case False
  then have "2 ^ 52 * unit_of x \<le> x" using unit_of_spec(3) by blast
  then show ?thesis using min_unit_pos by simp
qed simp

lemma round_rat_error: "\<bar>round_rat x - x\<bar> \<le> \<bar>x\<bar> / 2 ^ 53 + min_unit / 2"
proof -
  have "\<bar>round_rat x - x\<bar> \<le> \<bar>x\<bar> / 2 ^ 53 + min_unit / 2" if "0 < x" for x
    using that round_pos_error [of x] unit_of_bound [of x] by (simp add: round_rat_def)
  from this [of x] this [of "- x"] show ?thesis
    using min_unit_pos by (cases x "0 :: rat" rule: linorder_cases) (auto simp: round_rat_minus round_rat_def [of 0])
qed

section \<open>The type double\<close>

datatype double = NaN | PInf | NInf | Fin rat

definition to_double :: "rat \<Rightarrow> double" where
  "to_double x = (let r = round_rat x in if r \<ge> 2 ^ 1024 then PInf else if r \<le> - (2 ^ 1024) then NInf else Fin r)"

fun fneg :: "double \<Rightarrow> double" where
  "fneg NaN = NaN" | "fneg PInf = NInf" | "fneg NInf = PInf" | "fneg (Fin x) = Fin (- x)"

fun fadd :: "double \<Rightarrow> double \<Rightarrow> double" where
  "fadd (Fin x) (Fin y) = to_double (x + y)"
| "fadd NaN b = NaN" | "fadd a NaN = NaN"
| "fadd PInf b = (if b = NInf then NaN else PInf)"
| "fadd NInf b = (if b = PInf then NaN else NInf)"
| "fadd a b = b"

definition fsub :: "double \<Rightarrow> double \<Rightarrow> double" where
  "fsub a b = fadd a (fneg b)"

definition fsign :: "double \<Rightarrow> rat" where
  "fsign a = (case a of NaN \<Rightarrow> 0 | PInf \<Rightarrow> 1 | NInf \<Rightarrow> - 1 | Fin x \<Rightarrow> sgn x)"

fun fmul :: "double \<Rightarrow> double \<Rightarrow> double" where
  "fmul (Fin x) (Fin y) = to_double (x * y)"
| "fmul NaN b = NaN" | "fmul a NaN = NaN"
| "fmul a b = (let s = fsign a * fsign b in if s = 0 then NaN else if s > 0 then PInf else NInf)"

text \<open>Division by a number other than zero.\<close>

fun fdiv :: "double \<Rightarrow> double \<Rightarrow> double" where
  "fdiv (Fin x) (Fin y) = to_double (x / y)"
| "fdiv NaN b = NaN" | "fdiv a NaN = NaN"
| "fdiv (Fin x) b = Fin 0"
| "fdiv a (Fin y) = (if y \<ge> 0 then a else fneg a)"
| "fdiv a b = NaN"

fun fle :: "double \<Rightarrow> double \<Rightarrow> bool" where
  "fle NaN b \<longleftrightarrow> False" | "fle a NaN \<longleftrightarrow> False"
| "fle NInf b \<longleftrightarrow> True" | "fle a PInf \<longleftrightarrow> True"
| "fle (Fin x) (Fin y) \<longleftrightarrow> x \<le> y"
| "fle a b \<longleftrightarrow> False"

definition flt :: "double \<Rightarrow> double \<Rightarrow> bool" where
  "flt a b \<longleftrightarrow> fle a b \<and> \<not> fle b a"

definition fabs :: "double \<Rightarrow> double" where
  "fabs x = (if flt (Fin 0) x then x else fneg x)"

definition fmin :: "double \<Rightarrow> double \<Rightarrow> double" where
  "fmin a b = (if flt a b then a else b)"

definition fmax :: "double \<Rightarrow> double \<Rightarrow> double" where
  "fmax a b = (if flt b a then a else b)"

section \<open>Comparison of real numbers\<close>

text \<open>\<^verbatim>\<open>__testlib_isNaN\<close> also compares bit patterns of NaN, which no other number has.\<close>

definition isNaN :: "double \<Rightarrow> bool" where
  "isNaN r \<longleftrightarrow> r = NaN"

definition isInfinite :: "double \<Rightarrow> bool" where
  "isInfinite r \<longleftrightarrow> flt (to_double (10 ^ 300)) r \<or> flt r (fneg (to_double (10 ^ 300)))"

definition doubleCompare :: "double \<Rightarrow> double \<Rightarrow> double \<Rightarrow> bool" where
  "doubleCompare expected result MAX_DOUBLE_ERROR =
     (let err = fadd MAX_DOUBLE_ERROR (to_double (1 / 10 ^ 15)) in
      if isNaN expected then isNaN result
      else if isInfinite expected then
        if flt (Fin 0) expected then flt (Fin 0) result \<and> isInfinite result
        else flt result (Fin 0) \<and> isInfinite result
      else if isNaN result \<or> isInfinite result then False
      else if fle (fabs (fsub result expected)) err then True
      else
        let a = fmul expected (fsub (Fin 1) err); b = fmul expected (fadd (Fin 1) err);
            minv = fmin a b; maxv = fmax a b
        in fle minv result \<and> fle result maxv)"

definition doubleDelta :: "double \<Rightarrow> double \<Rightarrow> double" where
  "doubleDelta expected result =
     (let absolute = fabs (fsub result expected) in
      if flt (to_double (1 / 10 ^ 9)) (fabs expected)
      then let relative = fabs (fdiv absolute expected) in fmin absolute relative
      else absolute)"

section \<open>What the comparison accepts\<close>

definition representable :: "rat \<Rightarrow> bool" where
  "representable x \<longleftrightarrow> round_rat x = x"

lemma representable_round [simp]: "representable (round_rat x)"
  by (simp add: representable_def round_rat_idem)

lemma min_unit_tiny: "min_unit / 2 \<le> 1 / 2 ^ 70"
proof -
  have "(2 :: rat) ^ 70 \<le> 2 ^ 1074" by (rule power_increasing) simp_all
  then have "min_unit \<le> 1 / 2 ^ 70" unfolding min_unit_def by (intro divide_left_mono) simp_all
  then show ?thesis using min_unit_pos by linarith
qed

lemma round_err: "\<bar>round_rat x - x\<bar> \<le> \<bar>x\<bar> / 9007199254740992 + 1 / 1180591620717411303424"
  using round_rat_error [of x] min_unit_tiny by simp

lemma round_err_small:
  assumes "\<bar>x\<bar> \<le> 2"
  shows "round_rat x \<le> x + 23 / 10 ^ 17" "x - 23 / 10 ^ 17 \<le> round_rat x"
proof -
  have "\<bar>round_rat x - x\<bar> \<le> 23 / 10 ^ 17" using round_err [of x] assms by (simp add: field_simps)
  from abs_le_D1 [OF this] abs_le_D2 [OF this]
  show "round_rat x \<le> x + 23 / 10 ^ 17" "x - 23 / 10 ^ 17 \<le> round_rat x" by linarith+
qed

lemma round_twice: "\<bar>round_rat x\<bar> \<le> 2 * \<bar>x\<bar> + 1"
  using round_err [of x] by linarith

lemma round_le_rep: "x \<le> y \<Longrightarrow> representable y \<Longrightarrow> round_rat x \<le> y"
  using round_rat_mono [of x y] by (simp add: representable_def)

lemma rep_le_round: "x \<le> y \<Longrightarrow> representable x \<Longrightarrow> x \<le> round_rat y"
  using round_rat_mono [of x y] by (simp add: representable_def)

lemma to_double_small: "\<bar>x\<bar> \<le> 10 ^ 303 \<Longrightarrow> to_double x = Fin (round_rat x)"
proof -
  assume x: "\<bar>x\<bar> \<le> 10 ^ 303"
  have "2 * 10 ^ 303 + 1 < (2 ^ 1024 :: rat)" by simp
  then have "\<bar>round_rat x\<bar> < 2 ^ 1024" using x round_twice [of x] by linarith
  then show ?thesis by (simp add: to_double_def Let_def abs_less_iff)
qed

text \<open>The bound beyond which a number counts as infinite.\<close>

definition huge :: rat where
  "huge = round_rat (10 ^ 300)"

lemma huge_bound: "huge \<le> 10 ^ 301"
proof -
  have "\<bar>huge\<bar> \<le> 2 * \<bar>10 ^ 300\<bar> + 1" unfolding huge_def by (rule round_twice)
  moreover have "2 * \<bar>10 ^ 300\<bar> + 1 \<le> (10 ^ 301 :: rat)" by simp
  ultimately show ?thesis by linarith
qed

lemma isInfinite_Fin: "isInfinite (Fin x) \<longleftrightarrow> huge < \<bar>x\<bar>"
proof -
  have "to_double (10 ^ 300) = Fin huge" unfolding huge_def by (rule to_double_small) simp
  then show ?thesis by (auto simp: isInfinite_def flt_def)
qed

text \<open>The three constants that the comparison computes from the tolerance.\<close>

definition max_err :: "rat \<Rightarrow> rat" where
  "max_err eps = round_rat (round_rat eps + round_rat (1 / 10 ^ 15))"

definition low_factor :: "rat \<Rightarrow> rat" where
  "low_factor eps = round_rat (1 - max_err eps)"

definition high_factor :: "rat \<Rightarrow> rat" where
  "high_factor eps = round_rat (1 + max_err eps)"

lemma fmin_Fin: "fmin (Fin a) (Fin b) = Fin (min a b)" "fmax (Fin a) (Fin b) = Fin (max a b)" "fabs (Fin a) = Fin \<bar>a\<bar>"
  by (auto simp: fmin_def fmax_def fabs_def flt_def)

locale tolerance =
  fixes eps :: rat
  assumes eps_pos: "0 \<le> eps" and eps_small: "eps \<le> 1 / 2"
begin

lemma max_err_bounds: "eps + 31 / 10 ^ 17 \<le> max_err eps" "max_err eps \<le> eps + 17 / 10 ^ 16"
proof -
  define a where "a = round_rat eps"
  define b where "b = round_rat (1 / 10 ^ 15)"
  have a: "a \<le> eps + 23 / 10 ^ 17" "eps - 23 / 10 ^ 17 \<le> a" using round_err_small [of eps] eps_pos eps_small by (simp_all add: a_def)
  have b: "b \<le> 1 / 10 ^ 15 + 23 / 10 ^ 17" "1 / 10 ^ 15 - 23 / 10 ^ 17 \<le> b"
    using round_err_small [of "1 / 10 ^ 15"] by (simp_all add: b_def)
  have "\<bar>a + b\<bar> \<le> 2" using a b eps_pos eps_small by (simp add: abs_le_iff)
  from round_err_small [OF this] have "max_err eps \<le> a + b + 23 / 10 ^ 17" "a + b - 23 / 10 ^ 17 \<le> max_err eps"
    by (simp_all add: max_err_def a_def b_def)
  then show "eps + 31 / 10 ^ 17 \<le> max_err eps" "max_err eps \<le> eps + 17 / 10 ^ 16" using a b by simp_all
qed

lemma factor_bounds:
  "low_factor eps \<le> 1 - eps" "1 - eps - 2 / 10 ^ 15 \<le> low_factor eps"
  "1 + eps \<le> high_factor eps" "high_factor eps \<le> 1 + eps + 2 / 10 ^ 15"
proof -
  note m = max_err_bounds
  have "\<bar>1 - max_err eps\<bar> \<le> 2" "\<bar>1 + max_err eps\<bar> \<le> 2" using m eps_pos eps_small by (simp_all add: abs_le_iff)
  from this [THEN round_err_small(1)] this [THEN round_err_small(2)]
  show "low_factor eps \<le> 1 - eps" "1 - eps - 2 / 10 ^ 15 \<le> low_factor eps"
    "1 + eps \<le> high_factor eps" "high_factor eps \<le> 1 + eps + 2 / 10 ^ 15"
    using m unfolding low_factor_def high_factor_def by simp_all
qed

end

context tolerance
begin

lemma compare_Fin:
  assumes "\<bar>e\<bar> \<le> huge" "\<bar>r\<bar> \<le> huge"
  shows "doubleCompare (Fin e) (Fin r) (to_double eps) \<longleftrightarrow>
    round_rat \<bar>r - e\<bar> \<le> max_err eps \<or>
    (min (round_rat (e * low_factor eps)) (round_rat (e * high_factor eps)) \<le> r \<and>
     r \<le> max (round_rat (e * low_factor eps)) (round_rat (e * high_factor eps)))"
proof -
  have big: "(2 :: rat) \<le> 10 ^ 303" "(10 ^ 301 :: rat) * 2 \<le> 10 ^ 303" by simp_all
  have small: "to_double x = Fin (round_rat x)" if "\<bar>x\<bar> \<le> 2" for x using that big by (intro to_double_small) linarith
  have f: "\<bar>1 - max_err eps\<bar> \<le> 2" "\<bar>1 + max_err eps\<bar> \<le> 2" "\<bar>low_factor eps\<bar> \<le> 2" "\<bar>high_factor eps\<bar> \<le> 2"
    using max_err_bounds factor_bounds eps_pos eps_small by (simp_all add: abs_le_iff)
  have a: "\<bar>round_rat eps + round_rat (1 / 10 ^ 15)\<bar> \<le> 2"
    using round_err_small [of eps] round_err_small [of "1 / 10 ^ 15"] eps_pos eps_small by (simp add: abs_le_iff)
  have err: "fadd (to_double eps) (to_double (1 / 10 ^ 15)) = Fin (max_err eps)"
    using small [of eps] small [of "1 / 10 ^ 15"] small [OF a] eps_pos eps_small by (simp add: max_err_def)
  have e: "\<bar>e * c\<bar> \<le> 10 ^ 303" if "\<bar>c\<bar> \<le> 2" for c
    using mult_mono [of "\<bar>e\<bar>" "10 ^ 301" "\<bar>c\<bar>" 2] that assms(1) huge_bound big by (simp add: abs_mult)
  have "\<bar>r - e\<bar> \<le> 10 ^ 303" using assms huge_bound big by (simp add: abs_le_iff)
  then have d: "fsub (Fin r) (Fin e) = Fin (round_rat (r - e))" by (simp add: fsub_def to_double_small)
  have "fsub (Fin 1) (Fin (max_err eps)) = Fin (low_factor eps)" "fadd (Fin 1) (Fin (max_err eps)) = Fin (high_factor eps)"
    using small [OF f(1)] small [OF f(2)] by (simp_all add: fsub_def low_factor_def high_factor_def)
  then show ?thesis
    using assms err d e [OF f(3)] e [OF f(4)]
    by (simp add: doubleCompare_def isNaN_def isInfinite_Fin fmin_Fin round_rat_abs to_double_small) blast
qed

text \<open>Numbers within the tolerance, absolute or relative, are accepted.\<close>

lemma compare_complete:
  assumes "representable r" "\<bar>e\<bar> \<le> huge" "\<bar>r\<bar> \<le> huge" "\<bar>r - e\<bar> \<le> eps * max 1 \<bar>e\<bar>"
  shows "doubleCompare (Fin e) (Fin r) (to_double eps)"
proof (cases "\<bar>r - e\<bar> \<le> eps")
  case True
  then have "\<bar>r - e\<bar> \<le> max_err eps" using max_err_bounds by simp
  then have "round_rat \<bar>r - e\<bar> \<le> max_err eps" by (rule round_le_rep) (simp add: max_err_def)
  then show ?thesis using compare_Fin [OF assms(2,3)] by blast
next
  case False
  then have "max 1 \<bar>e\<bar> \<noteq> 1" using assms(4) by auto
  then have r: "\<bar>r - e\<bar> \<le> eps * \<bar>e\<bar>" using assms(4) by (simp add: max_def split: if_splits)
  show ?thesis
  proof (cases "0 \<le> e")
    case True
    have "e * low_factor eps \<le> e * (1 - eps)" "e * (1 + eps) \<le> e * high_factor eps"
      using factor_bounds True by (intro mult_left_mono; simp)+
    moreover have "e * (1 - eps) \<le> r" "r \<le> e * (1 + eps)" using r True by (simp_all add: abs_le_iff algebra_simps)
    ultimately have "round_rat (e * low_factor eps) \<le> r" "r \<le> round_rat (e * high_factor eps)"
      using round_le_rep rep_le_round assms(1) by (meson order_trans)+
    then show ?thesis using compare_Fin [OF assms(2,3)] by auto
  next
    case False
    have "e * high_factor eps \<le> e * (1 + eps)" "e * (1 - eps) \<le> e * low_factor eps"
      using factor_bounds False by (intro mult_left_mono_neg; simp)+
    moreover have "e * (1 + eps) \<le> r" "r \<le> e * (1 - eps)" using r False by (simp_all add: abs_le_iff algebra_simps)
    ultimately have "round_rat (e * high_factor eps) \<le> r" "r \<le> round_rat (e * low_factor eps)"
      using round_le_rep rep_le_round assms(1) by (meson order_trans)+
    then show ?thesis using compare_Fin [OF assms(2,3)] by auto
  qed
qed

end

context tolerance
begin

lemma absolute_sound: "round_rat d \<le> max_err eps \<Longrightarrow> d \<le> eps + 3 / 10 ^ 15"
proof (rule ccontr)
  assume r: "round_rat d \<le> max_err eps" and "\<not> d \<le> eps + 3 / 10 ^ 15"
  then have "round_rat (eps + 3 / 10 ^ 15) \<le> max_err eps" using round_rat_mono [of "eps + 3 / 10 ^ 15" d] by simp
  moreover have "\<bar>eps + 3 / 10 ^ 15\<bar> \<le> 2" using eps_pos eps_small by (simp add: abs_le_iff)
  ultimately show False using round_err_small(2) [of "eps + 3 / 10 ^ 15"] max_err_bounds by simp
qed

lemma round_product:
  assumes "0 \<le> e" "\<bar>c\<bar> \<le> 2"
  shows "\<bar>round_rat (e * c) - e * c\<bar> \<le> max 1 e * (3 / 10 ^ 16)"
proof -
  have "\<bar>e * c\<bar> \<le> e * 2" using assms by (simp add: abs_mult mult_left_mono)
  then have "\<bar>round_rat (e * c) - e * c\<bar> \<le> e * 2 / 9007199254740992 + 1 / 1180591620717411303424"
    using round_err [of "e * c"] by (simp add: field_simps)
  also have "\<dots> \<le> max 1 e * 2 / 9007199254740992 + max 1 e / 1180591620717411303424"
    by (intro add_mono divide_right_mono mult_right_mono) simp_all
  also have "\<dots> \<le> max 1 e * (3 / 10 ^ 16)" by (simp add: field_simps max_def)
  finally show ?thesis .
qed

lemma relative_sound:
  assumes "0 \<le> e" "round_rat (e * low_factor eps) \<le> r" "r \<le> round_rat (e * high_factor eps)"
  shows "\<bar>r - e\<bar> \<le> (eps + 3 / 10 ^ 15) * max 1 e"
proof -
  let ?M = "max 1 e"
  have f: "\<bar>low_factor eps\<bar> \<le> 2" "\<bar>high_factor eps\<bar> \<le> 2" using factor_bounds eps_pos eps_small by (simp_all add: abs_le_iff)
  have l: "e * (1 - eps - 2 / 10 ^ 15) \<le> e * low_factor eps" and h: "e * high_factor eps \<le> e * (1 + eps + 2 / 10 ^ 15)"
    using factor_bounds assms(1) by (intro mult_left_mono; simp)+
  have s: "e * (eps + 2 / 10 ^ 15) \<le> ?M * (eps + 2 / 10 ^ 15)" using eps_pos by (intro mult_right_mono) simp_all
  have "e * low_factor eps - ?M * (3 / 10 ^ 16) \<le> r" using round_product [OF assms(1) f(1)] assms(2) by (simp only: abs_le_iff) linarith
  then have low: "e - r \<le> ?M * (eps + 2 / 10 ^ 15) + ?M * (3 / 10 ^ 16)" using l s by (simp only: right_diff_distrib distrib_left mult_1_right)
  have "r \<le> e * high_factor eps + ?M * (3 / 10 ^ 16)" using round_product [OF assms(1) f(2)] assms(3) by (simp only: abs_le_iff) linarith
  then have high: "r - e \<le> ?M * (eps + 2 / 10 ^ 15) + ?M * (3 / 10 ^ 16)" using h s by (simp only: distrib_left mult_1_right)
  have "?M * (eps + 2 / 10 ^ 15) + ?M * (3 / 10 ^ 16) = ?M * (eps + 23 / 10 ^ 16)" by (simp add: field_simps)
  also have "\<dots> \<le> ?M * (eps + 3 / 10 ^ 15)" by (intro mult_left_mono) simp_all
  finally show ?thesis using low high by (simp add: abs_le_iff mult.commute)
qed

text \<open>An accepted number is within the tolerance and \<open>3 / 10 ^ 15\<close>.\<close>

lemma compare_sound:
  assumes "\<bar>e\<bar> \<le> huge" "\<bar>r\<bar> \<le> huge" "doubleCompare (Fin e) (Fin r) (to_double eps)"
  shows "\<bar>r - e\<bar> \<le> (eps + 3 / 10 ^ 15) * max 1 \<bar>e\<bar>"
proof -
  let ?l = "round_rat (e * low_factor eps)" and ?h = "round_rat (e * high_factor eps)"
  have lh: "low_factor eps \<le> high_factor eps" using factor_bounds eps_pos by linarith
  consider "round_rat \<bar>r - e\<bar> \<le> max_err eps" | "min ?l ?h \<le> r" "r \<le> max ?l ?h" using compare_Fin [OF assms(1,2)] assms(3) by blast
  then show ?thesis
  proof cases
    case 1
    then have "\<bar>r - e\<bar> \<le> (eps + 3 / 10 ^ 15) * 1" using absolute_sound by simp
    also have "\<dots> \<le> (eps + 3 / 10 ^ 15) * max 1 \<bar>e\<bar>" using eps_pos by (intro mult_left_mono) simp_all
    finally show ?thesis .
  next
    case 2
    show ?thesis
    proof (cases "0 \<le> e")
      case True
      have "?l \<le> ?h" using round_rat_mono lh True by (simp add: mult_left_mono)
      then show ?thesis using relative_sound [OF True] 2 True by simp
    next
      case False
      have "?h \<le> ?l" using round_rat_mono lh False by (simp add: mult_left_mono_neg)
      then have "round_rat (- e * low_factor eps) \<le> - r" "- r \<le> round_rat (- e * high_factor eps)"
        using 2 by (simp_all add: round_rat_minus)
      then show ?thesis using relative_sound [of "- e" "- r"] False by (simp add: abs_minus_commute)
    qed
  qed
qed

end

end
