(* ===== verification/TL_Reals.thy ===== *)
theory TL_Reals
  imports TL_Double TL_Token_Checkers
begin

text \<open>
  Real numbers in files: the parsers \<^verbatim>\<open>stringToDouble\<close> and \<^verbatim>\<open>stringToStrictDouble\<close>, \<^verbatim>\<open>readReal\<close>, and the
  checkers \<^verbatim>\<open>rcmp4\<close>, \<^verbatim>\<open>rcmp6\<close> and \<^verbatim>\<open>rcmp9\<close>. The call \<^verbatim>\<open>sscanf(buffer, "%lf%s", ...)\<close> follows the C standard on
  the characters the parsers let through: digits, a point, a sign and an exponent; the value is the
  nearest double of the number that is written. The text of a message does not show the sign of a zero.
\<close>

section \<open>Scanning a number\<close>

text \<open>The exponent after its letter: an optional sign and at least one digit.\<close>

definition scan_exponent :: "string \<Rightarrow> (int \<times> string) option" where
  "scan_exponent s =
     (let (neg, t) = scan_sign s; ds = takeWhile is_digit t
      in if ds = [] then None
         else Some (if neg then - digits_val ds else digits_val ds, dropWhile is_digit t))"

definition power10 :: "int \<Rightarrow> rat" where
  "power10 e = (if 0 \<le> e then 10 ^ nat e else 1 / 10 ^ nat (- e))"

text \<open>
  The conversion \<^verbatim>\<open>%lf\<close>: the number that is written and what follows it. A letter \<^verbatim>\<open>e\<close> with no digits
  behind it belongs to the input item, which then is no number.
\<close>

definition scan_fraction :: "string \<Rightarrow> string \<times> string" where
  "scan_fraction s = (case s of
     [] \<Rightarrow> ([], [])
   | c # cs \<Rightarrow> if c = CHR ''.'' then (takeWhile is_digit cs, dropWhile is_digit cs) else ([], s))"

definition scan_lf :: "string \<Rightarrow> (rat \<times> string) option" where
  "scan_lf s =
     (let (neg, t) = scan_sign s;
          ip = takeWhile is_digit t;
          (fp, rest) = scan_fraction (dropWhile is_digit t);
          m = of_int (digits_val (ip @ fp)) / 10 ^ length fp;
          m = (if neg then - m else m)
      in if ip @ fp = [] then None
         else case rest of
           [] \<Rightarrow> Some (m, [])
         | c # cs \<Rightarrow>
             if c = CHR ''e'' \<or> c = CHR ''E''
             then (case scan_exponent cs of None \<Rightarrow> None | Some (e, rest) \<Rightarrow> Some (m * power10 e, rest))
             else Some (m, rest))"

text \<open>\<^verbatim>\<open>sscanf(buffer, "%lf%s", &result, suffix)\<close>: the number of conversions, the result and the suffix.\<close>

definition sscanf_lf_s :: "string \<Rightarrow> nat \<times> double \<times> string" where
  "sscanf_lf_s buffer = (case scan_lf buffer of
     None \<Rightarrow> (0, Fin 0, '''')
   | Some (x, rest) \<Rightarrow> (if rest = [] then 1 else 2, to_double x, rest))"

section \<open>The parsers\<close>

definition expected_double :: "string \<Rightarrow> (instream, 'a) prog" where
  "expected_double buffer = in_quit TR_pe (''Expected double, but \"'' @ testlib_part buffer @ ''\" found'')"

record double_counts =
  minusCount :: nat
  plusCount :: nat
  decimalPointCount :: nat
  digitCount :: nat
  eCount :: nat

definition no_counts :: double_counts where
  "no_counts = \<lparr>minusCount = 0, plusCount = 0, decimalPointCount = 0, digitCount = 0, eCount = 0\<rparr>"

text \<open>The loop over the characters; \<open>None\<close> is the call of \<^verbatim>\<open>quit\<close> at a character that is not allowed.\<close>

fun count_double :: "string \<Rightarrow> double_counts \<Rightarrow> double_counts option" where
  "count_double [] k = Some k"
| "count_double (c # cs) k =
     (if is_digit c \<or> c = CHR ''.'' \<or> c = CHR ''e'' \<or> c = CHR ''E'' \<or> c = CHR ''-'' \<or> c = CHR ''+'' then
        let k = (if is_digit c then k\<lparr>digitCount := digitCount k + 1\<rparr> else k);
            k = (if c = CHR ''e'' \<or> c = CHR ''E'' then k\<lparr>eCount := eCount k + 1\<rparr> else k);
            k = (if c = CHR ''-'' then k\<lparr>minusCount := minusCount k + 1\<rparr> else k);
            k = (if c = CHR ''+'' then k\<lparr>plusCount := plusCount k + 1\<rparr> else k);
            k = (if c = CHR ''.'' then k\<lparr>decimalPointCount := decimalPointCount k + 1\<rparr> else k)
        in count_double cs k
      else None)"

definition stringToDouble_c :: "string \<Rightarrow> (instream, double) prog" where
  "stringToDouble_c buffer s = (case count_double buffer no_counts of
     None \<Rightarrow> expected_double buffer s
   | Some k \<Rightarrow>
       if digitCount k = 0 \<or> minusCount k > 2 \<or> plusCount k > 2 \<or> decimalPointCount k > 1 \<or> eCount k > 1
       then expected_double buffer s
       else let (scanned, result, suffix) = sscanf_lf_s buffer; empty = (length suffix = 0) in
         if scanned = 1 \<or> (scanned = 2 \<and> empty) then
           if isNaN result then expected_double buffer s else Ret result s
         else expected_double buffer s)"

definition contains_NUL :: "string \<Rightarrow> (instream, 'a) prog" where
  "contains_NUL buffer =
     in_quit TR_pe (''Expected double, but \"'' @ testlib_part buffer @ ''\" found (it contains '' @ [CHR 0x5C] @ ''0)'')"

definition stringToDouble :: "string \<Rightarrow> (instream, double) prog" where
  "stringToDouble buffer s =
     (if CHR 0x00 \<in> set buffer then contains_NUL buffer s else stringToDouble_c buffer s)"

subsection \<open>The strict notation\<close>

definition expected_strict :: "string \<Rightarrow> (instream, 'a) prog" where
  "expected_strict buffer = in_quit TR_pe (''Expected strict double, but \"'' @ testlib_part buffer @ ''\" found'')"

text \<open>
  The loop over the characters between the first and the last, from position \<open>i\<close>; \<open>None\<close> is the call of
  \<^verbatim>\<open>quit\<close>, \<open>Some\<close> the position of the point, or \<open>-1\<close>.
\<close>

fun find_point :: "string \<Rightarrow> int \<Rightarrow> int \<Rightarrow> int option" where
  "find_point [] i pointPos = Some pointPos"
| "find_point (c # cs) i pointPos =
     (if c = CHR ''.'' \<and> pointPos > -1 then None
      else if c \<noteq> CHR ''.'' \<and> \<not> is_digit c then None
      else find_point cs (i + 1) (if c = CHR ''.'' then i else pointPos))"

text \<open>The position of the first digit, or \<open>-1\<close>.\<close>

fun first_digit :: "string \<Rightarrow> int \<Rightarrow> int" where
  "first_digit [] i = - 1"
| "first_digit (c # cs) i = (if is_digit c then i else first_digit cs (i + 1))"

definition stringToStrictDouble_c :: "string \<Rightarrow> int \<Rightarrow> int \<Rightarrow> (instream, double) prog" where
  "stringToStrictDouble_c buffer minAfterPointDigitCount maxAfterPointDigitCount s =
     (let length = length buffer in
      if minAfterPointDigitCount < 0
      then in_quit TR_fail ''stringToStrictDouble: minAfterPointDigitCount should be non-negative.'' s
      else if minAfterPointDigitCount > maxAfterPointDigitCount
      then in_quit TR_fail ''stringToStrictDouble: minAfterPointDigitCount should be less or equal to maxAfterPointDigitCount.'' s
      else if length = 0 \<or> length > 1000 then expected_strict buffer s
      else if buffer ! 0 \<noteq> CHR ''-'' \<and> \<not> is_digit (buffer ! 0) then expected_strict buffer s
      else case find_point (drop 1 (take (length - 1) buffer)) 1 (- 1) of
        None \<Rightarrow> expected_strict buffer s
      | Some pointPos \<Rightarrow>
          if \<not> is_digit (buffer ! (length - 1)) then expected_strict buffer s
          else let afterDigitsCount = (if pointPos = - 1 then 0 else int length - pointPos - 1) in
            if afterDigitsCount < minAfterPointDigitCount \<or> afterDigitsCount > maxAfterPointDigitCount
            then in_quit TR_pe (''Expected strict double with number of digits after point in range ['' @
                   vtos minAfterPointDigitCount @ '','' @ vtos maxAfterPointDigitCount @ ''], but \"'' @
                   testlib_part buffer @ ''\" found'') s
            else let firstDigitPos = first_digit buffer 0 in
              if firstDigitPos > 1 \<or> firstDigitPos = - 1 then expected_strict buffer s
              else if buffer ! nat firstDigitPos = CHR ''0'' \<and> firstDigitPos + 1 < int length \<and>
                      is_digit (buffer ! nat (firstDigitPos + 1))
              then expected_strict buffer s
              else let (scanned, result, suffix) = sscanf_lf_s buffer; empty = (List.length suffix = 0) in
                if scanned = 1 \<or> (scanned = 2 \<and> empty) then
                  if isNaN result \<or> isInfinite result then expected_double buffer s
                  else if buffer ! 0 = CHR ''-'' \<and> fle (Fin 0) result
                  then in_quit TR_pe (''Redundant minus in \"'' @ testlib_part buffer @ ''\" found'') s
                  else Ret result s
                else expected_double buffer s)"

definition stringToStrictDouble :: "string \<Rightarrow> int \<Rightarrow> int \<Rightarrow> (instream, double) prog" where
  "stringToStrictDouble buffer minAfterPointDigitCount maxAfterPointDigitCount s =
     (if CHR 0x00 \<in> set buffer then contains_NUL buffer s
      else stringToStrictDouble_c buffer minAfterPointDigitCount maxAfterPointDigitCount s)"

section \<open>Reading\<close>

definition readReal :: "(instream, double) prog" where
  "readReal s =
     andThen (if \<not> is_strict s then seekEof s else Ret False s) (\<lambda>ended s.
       if ended then in_quit TR_unexpected_eof ''Unexpected end of file - double expected'' s
       else andThen (readWord s) (\<lambda>w s. stringToDouble w s))"

definition readDouble :: "(instream, double) prog" where
  "readDouble = readReal"

lemma stringToDouble_keep: "stringToDouble w s = Ret v s' \<Longrightarrow> s' = s"
  by (auto simp: stringToDouble_def stringToDouble_c_def expected_double_def contains_NUL_def in_quit_def Let_def
      split: if_splits option.splits prod.splits)

lemma readDouble_size: "readDouble s = Ret v s' \<Longrightarrow> is_size s' < is_size s"
proof -
  assume "readDouble s = Ret v s'"
  then obtain b s1 w s2 where *: "(if \<not> is_strict s then seekEof s else Ret False s) = Ret b s1"
    "readWord s1 = Ret w s2" "stringToDouble w s2 = Ret v s'"
    by (auto simp: readDouble_def readReal_def andThen_Ret_iff in_quit_def split: if_splits)
  have "is_size s1 \<le> is_size s" using *(1) seekEof_size by (auto split: if_splits)
  with readWord_size [OF *(2)] stringToDouble_keep [OF *(3)] show ?thesis by simp
qed

section \<open>The checkers of real numbers\<close>

text \<open>The conversion \<^verbatim>\<open>%.kf\<close>: the exact value, rounded to \<open>k\<close> decimals, half to even.\<close>

definition pad_zeroes :: "nat \<Rightarrow> string \<Rightarrow> string" where
  "pad_zeroes k s = replicate (k - length s) (CHR ''0'') @ s"

definition format_f :: "nat \<Rightarrow> double \<Rightarrow> string" where
  "format_f k x = (case x of
     NaN \<Rightarrow> ''nan'' | PInf \<Rightarrow> ''inf'' | NInf \<Rightarrow> ''-inf''
   | Fin r \<Rightarrow> (let n = rne (\<bar>r\<bar> * 10 ^ k)
       in (if r < 0 then ''-'' else '''') @ vtos (n div 10 ^ k) @ ''.'' @ pad_zeroes k (vtos (n mod 10 ^ k))))"

text \<open>The loop, with the number of decimals of the messages and the tolerance of the checker.\<close>

function rcmp_loop :: "nat \<Rightarrow> double \<Rightarrow> int \<Rightarrow> double \<Rightarrow> double \<Rightarrow> (testlib, int \<times> double \<times> double) prog" where
  "rcmp_loop k EPS n j p g =
     andThen (on_ans seekEof g) (\<lambda>ansEnd g.
       if ansEnd then Ret (n, j, p) g
       else andThen (on_ans readDouble g) (\<lambda>j g.
            andThen (on_ouf readDouble g) (\<lambda>p g.
              if \<not> doubleCompare j p EPS
              then quit_free TR_wa (vtos (n + 1) @ englishEnding (n + 1) @ '' numbers differ - expected: '' @
                     sq (format_f k j) @ '', found: '' @ sq (format_f k p) @ '', error = '' @
                     sq (format_f k (doubleDelta j p))) g
              else rcmp_loop k EPS (n + 1) j p g)))"
  by pat_completeness auto
termination
  by (relation "measure (\<lambda>(k, e, n, j, p, g). is_size (tl_ans g))")
     (auto simp: on_Ret_iffs dest!: seekEof_size readDouble_size)

declare rcmp_loop.simps [simp del]

definition rcmp_body :: "nat \<Rightarrow> double \<Rightarrow> (testlib, int) prog" where
  "rcmp_body k EPS g =
     andThen (rcmp_loop k EPS 0 (Fin 0) (Fin 0) g) (\<lambda>(n, j, p) g.
       if n = 1 then quit_free TR_ok (''found '' @ sq (format_f k p) @ '', expected '' @ sq (format_f k j) @
                       '', error '' @ sq (format_f k (doubleDelta j p))) g
       else quit_free TR_ok (vtos n @ '' numbers'') g)"

definition rcmp4_main :: "env \<Rightarrow> string option list \<Rightarrow> (testlib, int) outcome" where
  "rcmp4_main = (let EPS = to_double (1 / 10 ^ 4) in
     checker_main (''compare two sequences of doubles, max absolute or relative error = '' @ format_f 5 EPS) (rcmp_body 5 EPS))"

definition rcmp6_main :: "env \<Rightarrow> string option list \<Rightarrow> (testlib, int) outcome" where
  "rcmp6_main = (let EPS = to_double (1 / 10 ^ 6) in
     checker_main (''compare two sequences of doubles, max absolute or relative  error = '' @ format_f 7 EPS) (rcmp_body 7 EPS))"

definition rcmp9_main :: "env \<Rightarrow> string option list \<Rightarrow> (testlib, int) outcome" where
  "rcmp9_main = (let EPS = to_double (1 / 10 ^ 9) in
     checker_main (''compare two sequences of doubles, max absolute or relative error = '' @ format_f 10 EPS) (rcmp_body 10 EPS))"

section \<open>The notation of a number\<close>

text \<open>The grammar of the numbers that \<^verbatim>\<open>stringToDouble\<close> reads, with the number each of them writes.\<close>

inductive sign_text :: "string \<Rightarrow> bool \<Rightarrow> bool" where
  no_sign: "sign_text '''' False"
| plus: "sign_text ''+'' False"
| minus: "sign_text ''-'' True"

inductive mantissa_text :: "string \<Rightarrow> rat \<Rightarrow> bool" where
  whole: "ip \<noteq> [] \<Longrightarrow> list_all is_digit ip \<Longrightarrow> mantissa_text ip (of_int (digits_val ip))"
| point: "ip @ fp \<noteq> [] \<Longrightarrow> list_all is_digit (ip @ fp) \<Longrightarrow>
    mantissa_text (ip @ ''.'' @ fp) (of_int (digits_val (ip @ fp)) / 10 ^ length fp)"

inductive exponent_text :: "string \<Rightarrow> int \<Rightarrow> bool" where
  no_exponent: "exponent_text '''' 0"
| exponent: "c \<in> {CHR ''e'', CHR ''E''} \<Longrightarrow> sign_text sg neg \<Longrightarrow> ds \<noteq> [] \<Longrightarrow> list_all is_digit ds \<Longrightarrow>
    exponent_text (c # sg @ ds) (if neg then - digits_val ds else digits_val ds)"

inductive float_notation :: "string \<Rightarrow> rat \<Rightarrow> bool" where
  float: "sign_text sg neg \<Longrightarrow> mantissa_text m v \<Longrightarrow> exponent_text e x \<Longrightarrow>
    float_notation (sg @ m @ e) ((if neg then - v else v) * power10 x)"

lemma digit_chars: "is_digit c \<Longrightarrow> c \<noteq> CHR ''.'' \<and> c \<noteq> CHR ''e'' \<and> c \<noteq> CHR ''E'' \<and> c \<noteq> CHR ''-'' \<and> c \<noteq> CHR ''+'' \<and> c \<noteq> CHR 0x00"
  by (auto simp: is_digit_def schar_def)

lemma non_digits [simp]: "\<not> is_digit (CHR ''.'')" "\<not> is_digit (CHR ''e'')" "\<not> is_digit (CHR ''E'')"
  "\<not> is_digit (CHR ''-'')" "\<not> is_digit (CHR ''+'')"
  by (simp_all add: is_digit_def schar_def)

lemma scan_sign_text: "scan_sign s = (neg, t) \<Longrightarrow> \<exists>sg. s = sg @ t \<and> sign_text sg neg"
  by (cases s) (force simp: scan_sign_def intro: sign_text.intros split: if_splits)+

lemma scan_sign_sound: "sign_text sg neg \<Longrightarrow> (t = [] \<or> hd t \<noteq> CHR ''-'' \<and> hd t \<noteq> CHR ''+'') \<Longrightarrow> scan_sign (sg @ t) = (neg, t)"
  by (cases t) (auto simp: scan_sign_def elim: sign_text.cases)

lemma span_digits: "list_all is_digit ds \<Longrightarrow> t = [] \<or> \<not> is_digit (hd t) \<Longrightarrow>
    takeWhile is_digit (ds @ t) = ds \<and> dropWhile is_digit (ds @ t) = t"
  by (induction ds) (cases t; auto)+

lemma span_split: "s = takeWhile is_digit s @ dropWhile is_digit s" "list_all is_digit (takeWhile is_digit s)"
  by (simp_all add: list_all_iff) (metis set_takeWhileD)

lemma scan_exponent_text: "scan_exponent s = Some (x, rest) \<Longrightarrow> c \<in> {CHR ''e'', CHR ''E''} \<Longrightarrow> \<exists>e. c # s = e @ rest \<and> exponent_text e x"
proof -
  assume a: "scan_exponent s = Some (x, rest)" and c: "c \<in> {CHR ''e'', CHR ''E''}"
  obtain neg t where t: "scan_sign s = (neg, t)" by fastforce
  then obtain sg where sg: "s = sg @ t" "sign_text sg neg" using scan_sign_text by blast
  have "takeWhile is_digit t \<noteq> []" "x = (if neg then - digits_val (takeWhile is_digit t) else digits_val (takeWhile is_digit t))"
    "rest = dropWhile is_digit t"
    using a t by (auto simp: scan_exponent_def Let_def split: if_splits)
  with exponent [OF c sg(2), of "takeWhile is_digit t"] sg(1) span_split [of t]
  show ?thesis by (intro exI [of _ "c # sg @ takeWhile is_digit t"]) simp
qed

lemma scan_exponent_sound:
  assumes "sign_text sg neg" "ds \<noteq> []" "list_all is_digit ds"
  shows "scan_exponent (sg @ ds) = Some (if neg then - digits_val ds else digits_val ds, [])"
proof -
  have "hd ds \<noteq> CHR ''-'' \<and> hd ds \<noteq> CHR ''+''" using assms(2,3) digit_chars by (cases ds) auto
  then have "scan_sign (sg @ ds) = (neg, ds)" using scan_sign_sound [OF assms(1)] by blast
  moreover have "takeWhile is_digit ds = ds" "dropWhile is_digit ds = []"
    using assms(3) by (simp_all add: list_all_iff takeWhile_eq_all_conv)
  ultimately show ?thesis using assms(2) unfolding scan_exponent_def by (simp only: prod.case Let_def if_False)
qed

lemma scan_mantissa_text:
  assumes "ip = takeWhile is_digit t" "scan_fraction (dropWhile is_digit t) = (fp, rest)" "ip @ fp \<noteq> []"
  shows "\<exists>m. t = m @ rest \<and> mantissa_text m (of_int (digits_val (ip @ fp)) / 10 ^ length fp)"
proof (cases "dropWhile is_digit t")
  case Nil
  with assms whole [of ip] span_split [of t] show ?thesis by (intro exI [of _ ip]) (auto simp: scan_fraction_def)
next
  case (Cons c cs)
  show ?thesis
  proof (cases "c = CHR ''.''")
    case True
    then have "fp = takeWhile is_digit cs" "rest = dropWhile is_digit cs" using assms(2) Cons by (auto simp: scan_fraction_def)
    with point [of ip fp] assms(1,3) span_split [of t] span_split [of cs] Cons True show ?thesis
      by (intro exI [of _ "ip @ ''.'' @ fp"]) auto
  next
    case False
    then have "fp = []" "rest = c # cs" using assms(2) Cons by (auto simp: scan_fraction_def)
    with whole [of ip] assms(1,3) span_split [of t] Cons show ?thesis by (intro exI [of _ ip]) auto
  qed
qed

lemma power10_0 [simp]: "power10 0 = 1"
  by (simp add: power10_def)

lemma scan_lf_text: "scan_lf w = Some (x, rest) \<Longrightarrow> \<exists>w0. w = w0 @ rest \<and> float_notation w0 x"
proof -
  assume a: "scan_lf w = Some (x, rest)"
  obtain neg t where t: "scan_sign w = (neg, t)" by fastforce
  then obtain sg where sg: "w = sg @ t" "sign_text sg neg" using scan_sign_text by blast
  define ip where "ip = takeWhile is_digit t"
  obtain fp r where fr: "scan_fraction (dropWhile is_digit t) = (fp, r)" by fastforce
  have ne: "ip @ fp \<noteq> []" using a t fr by (auto simp: scan_lf_def ip_def Let_def)
  let ?v = "of_int (digits_val (ip @ fp)) / 10 ^ length fp :: rat"
  obtain m where m: "t = m @ r" "mantissa_text m ?v" using scan_mantissa_text [OF ip_def fr ne] by blast
  have run: "scan_lf w = (case r of [] \<Rightarrow> Some (if neg then - ?v else ?v, []) | c # cs \<Rightarrow>
      if c = CHR ''e'' \<or> c = CHR ''E''
      then (case scan_exponent cs of None \<Rightarrow> None | Some (e, rest) \<Rightarrow> Some ((if neg then - ?v else ?v) * power10 e, rest))
      else Some (if neg then - ?v else ?v, r))"
    using ne unfolding scan_lf_def t fr prod.case Let_def ip_def [symmetric] by (simp only: if_False)
  consider "r = rest" "x = (if neg then - ?v else ?v)"
    | c cs e where "r = c # cs" "c \<in> {CHR ''e'', CHR ''E''}" "scan_exponent cs = Some (e, rest)" "x = (if neg then - ?v else ?v) * power10 e"
    using a unfolding run by (auto split: list.splits if_splits option.splits)
  then show ?thesis
  proof cases
    case 1
    with float [OF sg(2) m(2) no_exponent] sg(1) m(1) show ?thesis by (intro exI [of _ "sg @ m"]) simp
  next
    case 2
    then obtain et where "c # cs = et @ rest" "exponent_text et e" using scan_exponent_text by blast
    with float [OF sg(2) m(2)] sg(1) m(1) 2 show ?thesis by (intro exI [of _ "sg @ m @ et"]) simp
  qed
qed

lemma exponent_text_hd: "exponent_text e x \<Longrightarrow> e = [] \<or> hd e \<in> {CHR ''e'', CHR ''E''}"
  by (auto elim: exponent_text.cases)

lemma scan_mantissa_sound:
  assumes "mantissa_text m v" "e = [] \<or> hd e \<in> {CHR ''e'', CHR ''E''}"
  shows "\<exists>ip fp. takeWhile is_digit (m @ e) = ip \<and> scan_fraction (dropWhile is_digit (m @ e)) = (fp, e) \<and>
    ip @ fp \<noteq> [] \<and> v = of_int (digits_val (ip @ fp)) / 10 ^ length fp"
  using assms(1)
proof cases
  case whole
  have "scan_fraction e = ([], e)" using assms(2) by (cases e) (auto simp: scan_fraction_def)
  moreover have "e = [] \<or> \<not> is_digit (hd e)" using assms(2) by auto
  ultimately show ?thesis using span_digits [OF whole(3), of e] whole by auto
next
  case (point ip fp)
  then have d: "list_all is_digit ip" "list_all is_digit fp" by auto
  have "e = [] \<or> \<not> is_digit (hd e)" using assms(2) by auto
  then have "scan_fraction (CHR ''.'' # fp @ e) = (fp, e)" using span_digits [OF d(2), of e] by (simp add: scan_fraction_def)
  moreover have "takeWhile is_digit (ip @ CHR ''.'' # fp @ e) = ip \<and> dropWhile is_digit (ip @ CHR ''.'' # fp @ e) = CHR ''.'' # fp @ e"
    using span_digits [OF d(1)] by simp
  ultimately show ?thesis using point by auto
qed

lemma mantissa_text_hd: "mantissa_text m v \<Longrightarrow> m \<noteq> [] \<and> hd m \<noteq> CHR ''-'' \<and> hd m \<noteq> CHR ''+''"
proof (induction rule: mantissa_text.induct)
  case (whole ip)
  then show ?case using digit_chars by (cases ip) auto
next
  case (point ip fp)
  then show ?case using digit_chars by (cases ip) auto
qed

lemma scan_lf_sound: "float_notation w x \<Longrightarrow> scan_lf w = Some (x, [])"
proof (induction rule: float_notation.induct)
  case (float sg neg m v e x)
  have e: "e = [] \<or> hd e \<in> {CHR ''e'', CHR ''E''}" using exponent_text_hd [OF float(3)] .
  obtain ip fp where m: "takeWhile is_digit (m @ e) = ip" "scan_fraction (dropWhile is_digit (m @ e)) = (fp, e)"
    "ip @ fp \<noteq> []" "v = of_int (digits_val (ip @ fp)) / 10 ^ length fp" using scan_mantissa_sound [OF float(2) e] by blast
  have s: "scan_sign (sg @ m @ e) = (neg, m @ e)"
    using scan_sign_sound [OF float(1), of "m @ e"] mantissa_text_hd [OF float(2)] by simp
  have "scan_lf (sg @ m @ e) = (case e of [] \<Rightarrow> Some (if neg then - v else v, []) | c # cs \<Rightarrow>
      if c = CHR ''e'' \<or> c = CHR ''E''
      then (case scan_exponent cs of None \<Rightarrow> None | Some (e, rest) \<Rightarrow> Some ((if neg then - v else v) * power10 e, rest))
      else Some (if neg then - v else v, e))"
    using m(3) unfolding scan_lf_def s m(1,2) prod.case Let_def m(4) by (simp only: if_False)
  also from float(3) have "\<dots> = Some ((if neg then - v else v) * power10 x, [])"
  proof cases
    case (exponent c sg' neg' ds)
    then show ?thesis using scan_exponent_sound [of sg' neg' ds] by auto
  qed simp
  finally show ?case .
qed

lemma scan_lf_iff: "scan_lf w = Some (x, []) \<longleftrightarrow> float_notation w x"
  using scan_lf_sound scan_lf_text [of w x "[]"] by auto

text \<open>The counts let every number through.\<close>

abbreviation (input) float_char :: "char \<Rightarrow> bool" where
  "float_char c \<equiv> is_digit c \<or> c = CHR ''.'' \<or> c = CHR ''e'' \<or> c = CHR ''E'' \<or> c = CHR ''-'' \<or> c = CHR ''+''"

lemma count_double_eq:
  "count_double w k = (if list_all (\<lambda>c. float_char c) w then Some (k
     \<lparr>digitCount := digitCount k + length (filter is_digit w), eCount := eCount k + length (filter (\<lambda>c. c = CHR ''e'' \<or> c = CHR ''E'') w),
      minusCount := minusCount k + length (filter ((=) (CHR ''-'')) w), plusCount := plusCount k + length (filter ((=) (CHR ''+'')) w),
      decimalPointCount := decimalPointCount k + length (filter ((=) (CHR ''.'')) w)\<rparr>) else None)"
proof (induction w arbitrary: k)
  case (Cons c w)
  show ?case
  proof (cases "float_char c")
    case True
    then consider "is_digit c" | "c = CHR ''.''" | "c = CHR ''e'' \<or> c = CHR ''E''" | "c = CHR ''-''" | "c = CHR ''+''" by blast
    then show ?thesis using digit_chars [of c] by cases (auto simp: Cons)
  qed simp
qed simp

lemma count_float:
  assumes "float_notation w x"
  shows "list_all (\<lambda>c. float_char c) w" "filter is_digit w \<noteq> []" "length (filter (\<lambda>c. c = CHR ''e'' \<or> c = CHR ''E'') w) \<le> 1"
    "length (filter ((=) (CHR ''-'')) w) \<le> 2" "length (filter ((=) (CHR ''+'')) w) \<le> 2" "length (filter ((=) (CHR ''.'')) w) \<le> 1"
proof -
  have s: "length (filter ((=) (CHR ''-'')) sg) \<le> 1 \<and> length (filter ((=) (CHR ''+'')) sg) \<le> 1 \<and>
      filter ((=) (CHR ''.'')) sg = [] \<and> filter (\<lambda>c. c = CHR ''e'' \<or> c = CHR ''E'') sg = [] \<and> list_all (\<lambda>c. float_char c) sg"
    if "sign_text sg neg" for sg neg using that by cases simp_all
  have d: "filter ((=) (CHR ''-'')) ds = [] \<and> filter ((=) (CHR ''+'')) ds = [] \<and> filter ((=) (CHR ''.'')) ds = [] \<and>
      filter (\<lambda>c. c = CHR ''e'' \<or> c = CHR ''E'') ds = [] \<and> list_all (\<lambda>c. float_char c) ds \<and> filter is_digit ds = ds"
    if "list_all is_digit ds" for ds using that digit_chars by (fastforce simp: list_all_iff filter_empty_conv)
  have m: "filter ((=) (CHR ''-'')) m = [] \<and> filter ((=) (CHR ''+'')) m = [] \<and> length (filter ((=) (CHR ''.'')) m) \<le> 1 \<and>
      filter (\<lambda>c. c = CHR ''e'' \<or> c = CHR ''E'') m = [] \<and> list_all (\<lambda>c. float_char c) m \<and> filter is_digit m \<noteq> []"
    if "mantissa_text m v" for m v using that
  proof cases
    case whole
    then show ?thesis using d by force
  next
    case (point ip fp)
    then show ?thesis using d [of ip] d [of fp] by auto
  qed
  have e: "length (filter ((=) (CHR ''-'')) e) \<le> 1 \<and> length (filter ((=) (CHR ''+'')) e) \<le> 1 \<and> filter ((=) (CHR ''.'')) e = [] \<and>
      length (filter (\<lambda>c. c = CHR ''e'' \<or> c = CHR ''E'') e) \<le> 1 \<and> list_all (\<lambda>c. float_char c) e"
    if "exponent_text e x" for e x using that
  proof cases
    case (exponent c sg neg ds)
    then show ?thesis using s [of sg neg] d [of ds] by auto
  qed simp
  from assms show "list_all (\<lambda>c. float_char c) w" "filter is_digit w \<noteq> []" "length (filter (\<lambda>c. c = CHR ''e'' \<or> c = CHR ''E'') w) \<le> 1"
    "length (filter ((=) (CHR ''-'')) w) \<le> 2" "length (filter ((=) (CHR ''+'')) w) \<le> 2" "length (filter ((=) (CHR ''.'')) w) \<le> 1"
    by (cases; use s m e in fastforce)+
qed

lemma stringToDouble_accepts: "float_notation w x \<Longrightarrow> stringToDouble w s = Ret (to_double x) s"
proof -
  assume w: "float_notation w x"
  note k = count_float [OF w]
  have "CHR 0x00 \<notin> set w" using k(1) digit_chars by (auto simp: list_all_iff)
  moreover have "\<not> isNaN (to_double x)" by (simp add: isNaN_def to_double_def Let_def)
  ultimately show ?thesis using k scan_lf_sound [OF w]
    by (simp add: stringToDouble_def stringToDouble_c_def count_double_eq no_counts_def sscanf_lf_s_def not_less)
qed

lemma stringToDouble_rejects: "(\<nexists>x. float_notation w x) \<Longrightarrow> \<exists>m. stringToDouble w s = in_quit TR_pe m s"
proof -
  assume w: "\<nexists>x. float_notation w x"
  consider "scan_lf w = None" | x rest where "scan_lf w = Some (x, rest)" "rest \<noteq> []"
    using w scan_lf_iff [of w] by (cases "scan_lf w") (simp, metis surj_pair)
  then have "\<exists>n r suffix. sscanf_lf_s w = (n, r, suffix) \<and> n \<noteq> 1 \<and> (n = 2 \<longrightarrow> suffix \<noteq> [])"
    by cases (auto simp: sscanf_lf_s_def)
  then show ?thesis
    by (auto simp: stringToDouble_def stringToDouble_c_def contains_NUL_def expected_double_def Let_def split: option.split)
qed

text \<open>The double that a word writes.\<close>

definition word_value :: "string \<Rightarrow> double option" where
  "word_value w = (case scan_lf w of Some (x, []) \<Rightarrow> Some (to_double x) | _ \<Rightarrow> None)"

lemma word_value_Some: "word_value w = Some d \<longleftrightarrow> (\<exists>x. float_notation w x \<and> d = to_double x)"
  unfolding scan_lf_iff [symmetric] by (auto simp: word_value_def split: option.splits list.splits)

lemma word_value_parse:
  "word_value w = Some d \<Longrightarrow> stringToDouble w s = Ret d s"
  "word_value w = None \<Longrightarrow> \<exists>m. stringToDouble w s = in_quit TR_pe m s"
proof -
  show "word_value w = Some d \<Longrightarrow> stringToDouble w s = Ret d s" using word_value_Some [of w d] by (auto simp: stringToDouble_accepts)
  show "word_value w = None \<Longrightarrow> \<exists>m. stringToDouble w s = in_quit TR_pe m s"
    using stringToDouble_rejects word_value_Some by (metis option.distinct(1))
qed

lemma word_value_not_NaN: "word_value w \<noteq> Some NaN"
  by (auto simp: word_value_Some to_double_def Let_def split: if_splits)

section \<open>What the checkers of real numbers answer\<close>

lemma readDouble_no_token:
  assumes "holds k v s" "\<not> is_strict k" "tokens v = []"
  shows "\<exists>m s'. readDouble s = in_quit TR_unexpected_eof m s' \<and> stream_core s' = k"
  using seekEof_spec [OF assms(1)] assms(2,3) holds_strict [OF assms(1)] holds_core(1)
  by (fastforce simp: readDouble_def readReal_def tokens_Nil)

lemma readDouble_tokens:
  assumes "holds k v s" "\<not> is_strict k" "is_maxTokenLength k = 32 * 1024 * 1024" "tokens v = t # ts" "length t \<le> 32 * 1024 * 1024"
  shows "word_value (map to_char t) = Some d \<Longrightarrow> \<exists>s'. readDouble s = Ret d s' \<and> holds k (after_token v) s'"
    and "word_value (map to_char t) = None \<Longrightarrow> \<exists>m s'. readDouble s = in_quit TR_pe m s' \<and> stream_core s' = k"
proof -
  obtain s1 where s1: "seekEof s = Ret False s1" "holds k (dropWhile isBlanks v) s1"
    using seekEof_spec [OF assms(1)] assms(4) unfolding tokens_Nil [symmetric] by auto
  have "tokens (dropWhile isBlanks v) = t # ts" using assms(4) by (simp add: tokens_skip)
  from readWord_tokens [OF s1(2) assms(2,3) this assms(5)] obtain s2 where
    s2: "readWord s1 = Ret (map to_char t) s2" "holds k (after_token v) s2" by auto
  have run: "readDouble s = stringToDouble (map to_char t) s2"
    using s1(1) s2(1) assms(2) holds_strict [OF assms(1)] by (simp add: readDouble_def readReal_def)
  show "word_value (map to_char t) = Some d \<Longrightarrow> \<exists>s'. readDouble s = Ret d s' \<and> holds k (after_token v) s'"
    using run s2(2) word_value_parse(1) by simp
  show "word_value (map to_char t) = None \<Longrightarrow> \<exists>m s'. readDouble s = in_quit TR_pe m s' \<and> stream_core s' = k"
    using run holds_core(1) [OF s2(2)] word_value_parse(2) by metis
qed

lemma judging_double_ans:
  assumes "judging ko ka vo va g" "checker_streams ko ka" "tokens va = t # ts" "short_tokens va"
  shows "word_value (map to_char t) = Some d \<Longrightarrow> \<exists>g'. on_ans readDouble g = Ret d g' \<and> judging ko ka vo (after_token va) g'"
    and "word_value (map to_char t) = None \<Longrightarrow> exits env (andThen (on_ans readDouble g) h) 3"
proof -
  note k = assms(2) [unfolded checker_streams_def] and t = short_tokens_step(1) [OF assms(4,3)]
  show "\<exists>g'. on_ans readDouble g = Ret d g' \<and> judging ko ka vo (after_token va) g'" if "word_value (map to_char t) = Some d"
    by (rule judging_ans [OF assms(1)]) (use that k t assms(3) readDouble_tokens(1) in blast)
  show "exits env (andThen (on_ans readDouble g) h) 3" if "word_value (map to_char t) = None"
    using exits_ans [OF assms(1,2), of readDouble TR_pe] readDouble_tokens(2) [of ka va "tl_ans g" t ts] that k t assms(1,3)
    by (auto simp: judging_def)
qed

lemma judging_double_ouf:
  assumes "judging ko ka vo va g" "checker_streams ko ka" "tokens vo = t # ts" "short_tokens vo"
  shows "word_value (map to_char t) = Some d \<Longrightarrow> \<exists>g'. on_ouf readDouble g = Ret d g' \<and> judging ko ka (after_token vo) va g'"
    and "word_value (map to_char t) = None \<Longrightarrow> exits env (andThen (on_ouf readDouble g) h) 2"
proof -
  note k = assms(2) [unfolded checker_streams_def] and t = short_tokens_step(1) [OF assms(4,3)]
  show "\<exists>g'. on_ouf readDouble g = Ret d g' \<and> judging ko ka (after_token vo) va g'" if "word_value (map to_char t) = Some d"
    by (rule judging_ouf [OF assms(1)]) (use that k t assms(3) readDouble_tokens(1) in blast)
  show "exits env (andThen (on_ouf readDouble g) h) 2" if "word_value (map to_char t) = None"
    using exits_ouf [OF assms(1,2), of readDouble TR_pe] readDouble_tokens(2) [of ko vo "tl_ouf g" t ts] that k t assms(1,3)
    by (auto simp: judging_def)
qed

lemma judging_double_ouf_end:
  assumes "judging ko ka vo va g" "checker_streams ko ka" "tokens vo = []"
  shows "exits env (andThen (on_ouf readDouble g) h) 2"
  using exits_ouf [OF assms(1,2), of readDouble TR_unexpected_eof] readDouble_no_token [of ko vo "tl_ouf g"] assms
  by (auto simp: judging_def checker_streams_def)

text \<open>The verdict on the words of the answer and of the output; the loop follows the answer.\<close>

fun rcmp_verdict :: "double \<Rightarrow> string list \<Rightarrow> string list \<Rightarrow> int" where
  "rcmp_verdict EPS [] ps = (if ps = [] then 0 else 2)"
| "rcmp_verdict EPS (j # js) [] = (if word_value j = None then 3 else 2)"
| "rcmp_verdict EPS (j # js) (p # ps) = (case word_value j of None \<Rightarrow> 3 | Some x \<Rightarrow>
     (case word_value p of None \<Rightarrow> 2 | Some y \<Rightarrow> if doubleCompare x y EPS then rcmp_verdict EPS js ps else 1))"

definition rcmp_finish :: "nat \<Rightarrow> int \<times> double \<times> double \<Rightarrow> (testlib, int) prog" where
  "rcmp_finish k = (\<lambda>(n, j, p) g.
     if n = 1 then quit_free TR_ok (''found '' @ sq (format_f k p) @ '', expected '' @ sq (format_f k j) @
                     '', error '' @ sq (format_f k (doubleDelta j p))) g
     else quit_free TR_ok (vtos n @ '' numbers'') g)"

lemma rcmp_loop_exits:
  assumes "judging ko ka vo va g" "checker_streams ko ka" "short_tokens vo" "short_tokens va"
  shows "exits env (andThen (rcmp_loop k EPS n j p g) (rcmp_finish k)) (rcmp_verdict EPS (words va) (words vo))"
  using assms
proof (induction "tokens va" arbitrary: vo va g n j p)
  case Nil
  then obtain g1 where g1: "on_ans seekEof g = Ret True g1" "judging ko ka vo (dropWhile isBlanks va) g1"
    using judging_seek_ans_end by metis
  have "words va = []" "words vo = [] \<longleftrightarrow> tokens vo = []" using Nil.hyps by (simp_all add: words_def)
  then have "rcmp_verdict EPS (words va) (words vo) = (if tokens vo = [] then 0 else 2)" by simp
  moreover have "exits env (quit_free TR_ok m g1) (if tokens vo = [] then 0 else 2)" for m
    using exits_ok [OF g1(2) Nil.prems(2), of env] unfolding tokens_Nil .
  then have "exits env (rcmp_finish k (n, j, p) g1) (if tokens vo = [] then 0 else 2)"
    unfolding rcmp_finish_def prod.case by (cases "n = 1") (simp_all only: simp_thms if_True if_False)
  ultimately show ?case using g1(1) by (simp add: rcmp_loop.simps [of k EPS n j p g])
next
  case (Cons t ts)
  have ta: "tokens va = t # ts" using Cons.hyps(2) by simp
  obtain g1 where g1: "on_ans seekEof g = Ret False g1" "judging ko ka vo (dropWhile isBlanks va) g1"
    using judging_seekEof_ans [OF Cons.prems(1)] ta by fastforce
  have ta1: "tokens (dropWhile isBlanks va) = t # ts" using ta by (simp add: tokens_skip)
  have sa: "short_tokens (dropWhile isBlanks va)" using Cons.prems(4) by simp
  let ?w = "map to_char t"
  have wa: "words va = ?w # words (after_token va)" using words_simps(3) [OF ta] .
  have run: "rcmp_loop k EPS n j p g = andThen (on_ans readDouble g1) (\<lambda>j g. andThen (on_ouf readDouble g) (\<lambda>p g.
      if \<not> doubleCompare j p EPS
      then quit_free TR_wa (vtos (n + 1) @ englishEnding (n + 1) @ '' numbers differ - expected: '' @
             sq (format_f k j) @ '', found: '' @ sq (format_f k p) @ '', error = '' @ sq (format_f k (doubleDelta j p))) g
      else rcmp_loop k EPS (n + 1) j p g))"
    using g1(1) by (simp add: rcmp_loop.simps [of k EPS n j p g])
  show ?case
  proof (cases "word_value ?w")
    case None
    then show ?thesis using judging_double_ans(2) [OF g1(2) Cons.prems(2) ta1 sa None] run wa
      by (cases "words vo") (simp_all add: andThen_assoc)
  next
    case x: (Some x)
    obtain g2 where g2: "on_ans readDouble g1 = Ret x g2" "judging ko ka vo (after_token va) g2"
      using judging_double_ans(1) [OF g1(2) Cons.prems(2) ta1 sa x] by auto
    show ?thesis
    proof (cases "tokens vo")
      case Nil
      then show ?thesis using judging_double_ouf_end [OF g2(2) Cons.prems(2) Nil] run g2(1) wa x
        by (simp add: andThen_assoc words_def)
    next
      case to: (Cons u us)
      have wo: "words vo = map to_char u # words (after_token vo)" using words_simps(3) [OF to] .
      show ?thesis
      proof (cases "word_value (map to_char u)")
        case None
        then show ?thesis using judging_double_ouf(2) [OF g2(2) Cons.prems(2) to Cons.prems(3) None] run g2(1) wa wo x
          by (simp add: andThen_assoc)
      next
        case y: (Some y)
        obtain g3 where g3: "on_ouf readDouble g2 = Ret y g3" "judging ko ka (after_token vo) (after_token va) g3"
          using judging_double_ouf(1) [OF g2(2) Cons.prems(2) to Cons.prems(3) y] by auto
        have "ts = tokens (after_token va)" using ta by (simp add: tokens_Cons)
        from Cons.hyps(1) [OF this g3(2) Cons.prems(2) short_tokens_step(2) [OF Cons.prems(3) to] short_tokens_step(2) [OF Cons.prems(4) ta]]
          exits_wa [OF g3(2) Cons.prems(2), of env]
        show ?thesis using run g2(1) g3(1) wa wo x y by (simp add: quit_free_def)
      qed
    qed
  qed
qed

lemma rcmp_body_exits:
  assumes "judging ko ka vo va g" "checker_streams ko ka" "short_tokens vo" "short_tokens va"
  shows "exits env (rcmp_body k EPS g) (rcmp_verdict EPS (words va) (words vo))"
  using rcmp_loop_exits [OF assms, of env k EPS 0 "Fin 0" "Fin 0"] by (simp add: rcmp_body_def rcmp_finish_def)

section \<open>Tolerance\<close>

interpretation eps4: tolerance "1 / 10 ^ 4" by unfold_locales simp_all
interpretation eps6: tolerance "1 / 10 ^ 6" by unfold_locales simp_all
interpretation eps9: tolerance "1 / 10 ^ 9" by unfold_locales simp_all

text \<open>The word writes a number whose double is \<open>x\<close>, and \<open>x\<close> does not count as infinite.\<close>

definition reads_as :: "string \<Rightarrow> rat \<Rightarrow> bool" where
  "reads_as w x \<longleftrightarrow> word_value w = Some (Fin x) \<and> \<bar>x\<bar> \<le> huge"

text \<open>Two sequences agree within \<open>tol\<close>: as many numbers, and each within the absolute or relative error.\<close>

definition agree :: "rat \<Rightarrow> rat list \<Rightarrow> rat list \<Rightarrow> bool" where
  "agree tol es rs \<longleftrightarrow> list_all2 (\<lambda>e r. \<bar>r - e\<bar> \<le> tol * max 1 \<bar>e\<bar>) es rs"

lemma reads_as_representable: "reads_as w x \<Longrightarrow> representable x"
  by (auto simp: reads_as_def word_value_Some to_double_def Let_def split: if_splits)

lemma reads_as_round:
  assumes "float_notation w x" "\<bar>x\<bar> \<le> 10 ^ 300"
  shows "reads_as w (round_rat x)"
proof -
  have "(10 ^ 300 :: rat) \<le> 10 ^ 303" by simp
  then have "to_double x = Fin (round_rat x)" using assms(2) by (intro to_double_small) linarith
  moreover have "\<bar>round_rat x\<bar> \<le> huge" unfolding huge_def round_rat_abs by (rule round_rat_mono [OF assms(2)])
  ultimately show ?thesis using assms(1) unfolding reads_as_def word_value_Some by metis
qed

context tolerance
begin

lemma verdict_complete:
  assumes "list_all2 reads_as js es" "list_all2 reads_as ps rs" "agree eps es rs"
  shows "rcmp_verdict (to_double eps) js ps = 0"
  using assms(3,1,2) unfolding agree_def
proof (induction arbitrary: js ps rule: list_all2_induct)
  case (Cons e es r rs)
  then obtain j js' p ps' where *: "js = j # js'" "ps = p # ps'" "reads_as j e" "reads_as p r"
    "list_all2 reads_as js' es" "list_all2 reads_as ps' rs" by (auto simp: list_all2_Cons2)
  have "representable r" using reads_as_representable [OF *(4)] .
  then have "doubleCompare (Fin e) (Fin r) (to_double eps)"
    using compare_complete [of r e] Cons.hyps(1) *(3,4) by (simp add: reads_as_def)
  moreover have "word_value j = Some (Fin e)" "word_value p = Some (Fin r)" using *(3,4) by (simp_all add: reads_as_def)
  ultimately show ?case using *(1,2) Cons.IH [OF *(5,6)] by simp
qed simp

lemma verdict_sound:
  assumes "list_all2 reads_as js es" "list_all2 reads_as ps rs" "rcmp_verdict (to_double eps) js ps = 0"
  shows "agree (eps + 3 / 10 ^ 15) es rs"
  using assms
proof (induction "to_double eps" js ps arbitrary: es rs rule: rcmp_verdict.induct)
  case (3 j js p ps)
  then obtain e es' r rs' where *: "es = e # es'" "rs = r # rs'" "reads_as j e" "reads_as p r"
    "list_all2 reads_as js es'" "list_all2 reads_as ps rs'" by (auto simp: list_all2_Cons1)
  then have v: "word_value j = Some (Fin e)" "word_value p = Some (Fin r)" "\<bar>e\<bar> \<le> huge" "\<bar>r\<bar> \<le> huge" by (auto simp: reads_as_def)
  then have c: "doubleCompare (Fin e) (Fin r) (to_double eps)" "rcmp_verdict (to_double eps) js ps = 0"
    using "3.prems"(3) by (auto split: if_splits)
  have "agree (eps + 3 / 10 ^ 15) es' rs'" using "3.hyps" [OF v(1,2) c(1) *(5,6) c(2)] .
  with compare_sound [OF v(3,4) c(1)] * show ?case by (simp add: agree_def)
qed (auto simp: agree_def split: if_splits)

lemma body_verdict:
  assumes "test_files env names output answer" "short_tokens (output_codes output)" "short_tokens (answer_codes answer)"
    "list_all2 reads_as (words (answer_codes answer)) es" "list_all2 reads_as (words (output_codes output)) rs"
  shows "\<exists>code. exits env (checker_main name (rcmp_body k (to_double eps)) env (Some prog # map Some names)) code \<and>
    (agree eps es rs \<longrightarrow> code = 0) \<and> (code = 0 \<longrightarrow> agree (eps + 3 / 10 ^ 15) es rs)"
proof -
  let ?code = "rcmp_verdict (to_double eps) (words (answer_codes answer)) (words (output_codes output))"
  have "exits env (checker_main name (rcmp_body k (to_double eps)) env (Some prog # map Some names)) ?code"
    by (rule checker_main_exits [OF assms(1)]) (rule rcmp_body_exits [OF _ _ assms(2,3)])
  then show ?thesis using verdict_complete [OF assms(4,5)] verdict_sound [OF assms(4,5)] by blast
qed

end

text \<open>The three checkers with their tolerances.\<close>

definition rcmp_checkers :: "((env \<Rightarrow> string option list \<Rightarrow> (testlib, int) outcome) \<times> rat) list" where
  "rcmp_checkers = [(rcmp4_main, 1 / 10 ^ 4), (rcmp6_main, 1 / 10 ^ 6), (rcmp9_main, 1 / 10 ^ 9)]"

end
