(* ===== verification/TL_Real_Ranges.thy ===== *)
theory TL_Real_Ranges
  imports TL_Reals TL_Bounded TL_Print
begin

text \<open>
  Real numbers with a range, and real numbers in messages: \<^verbatim>\<open>vtos\<close> of a double, the overloads of \<^verbatim>\<open>readReal\<close>,
  \<^verbatim>\<open>readDouble\<close>, \<^verbatim>\<open>readStrictReal\<close> and \<^verbatim>\<open>readStrictDouble\<close>, the points of \<^verbatim>\<open>quitp\<close> and \<^verbatim>\<open>expectedButFound\<close> for
  doubles. The lemmas show which words the strict parser accepts and what a read in a range returns.
\<close>

section \<open>The text of a double\<close>

text \<open>
  The default format of a stream, \<^verbatim>\<open>%g\<close> with six digits: the exponent of the first digit (no double is as
  small as \<open>10\<^sup>-\<^sup>4\<^sup>0\<^sup>0\<close>), the six digits, rounded to nearest and ties to even, and no zeroes at the end of the
  fraction.
\<close>

definition dec_exponent :: "rat \<Rightarrow> int" where
  "dec_exponent x = int (length (vtos \<lfloor>x * 10 ^ 400\<rfloor>)) - 401"

definition six_digits :: "rat \<Rightarrow> int \<times> int" where
  "six_digits x = (let e = dec_exponent x; d = rne (x / power10 (e - 5)) in if d = 1000000 then (100000, e + 1) else (d, e))"

definition with_fraction :: "int \<Rightarrow> nat \<Rightarrow> string" where
  "with_fraction d k = (let fp = rev (dropWhile ((=) (CHR ''0'')) (rev (pad_zeroes k (vtos (d mod 10 ^ k)))))
     in vtos (d div 10 ^ k) @ (if k = 0 \<or> fp = [] then [] else ''.'' @ fp))"

definition vtos_double :: "double \<Rightarrow> string" where
  "vtos_double x = (case x of
     NaN \<Rightarrow> ''nan'' | PInf \<Rightarrow> ''inf'' | NInf \<Rightarrow> ''-inf''
   | Fin r \<Rightarrow> if r = 0 then ''0''
       else let (d, e) = six_digits \<bar>r\<bar> in (if r < 0 then ''-'' else []) @
         (if - 4 \<le> e \<and> e < 6 then with_fraction d (nat (5 - e))
          else with_fraction d 5 @ ''e'' @ (if e < 0 then ''-'' else ''+'') @ pad_zeroes 2 (vtos \<bar>e\<bar>)))"

section \<open>Reads in a range\<close>

definition VALIDATOR_EPS :: double where
  "VALIDATOR_EPS = to_double (1 / 10 ^ 12)"

definition note_real_bounds :: "string \<Rightarrow> double \<Rightarrow> double \<Rightarrow> double \<Rightarrow> vstream \<Rightarrow> vstream" where
  "note_real_bounds name minv maxv result sv =
     (if is_strict (fst sv) \<and> name \<noteq> []
      then (fst sv, addVariable name (adjustConstantBounds name (format_f 6 minv) (format_f 6 maxv)
             (addBoundsHit name \<lparr>minHit = flt (doubleDelta minv result) VALIDATOR_EPS, maxHit = flt (doubleDelta maxv result) VALIDATOR_EPS\<rparr> (snd sv))))
      else sv)"

text \<open>What follows the read in \<^verbatim>\<open>readReal\<close> and \<^verbatim>\<open>readStrictReal\<close>: the range and the validator.\<close>

definition in_real_range :: "string \<Rightarrow> double \<Rightarrow> double \<Rightarrow> string \<Rightarrow> double \<Rightarrow> (vstream, double) prog" where
  "in_real_range what minv maxv variableName result sv =
     (if flt result minv \<or> flt maxv result
      then on_stream (in_quit TR_wa (range_text what (is_readManyIteration (fst sv)) variableName (vtos_double result) (vtos_double minv) (vtos_double maxv))) sv
      else Ret result (note_real_bounds variableName minv maxv result sv))"

definition readReal_in :: "double \<Rightarrow> double \<Rightarrow> string \<Rightarrow> (vstream, double) prog" where
  "readReal_in minv maxv variableName sv = andThen (on_stream readReal sv) (in_real_range ''Double'' minv maxv variableName)"

definition readReals_in :: "int \<Rightarrow> double \<Rightarrow> double \<Rightarrow> string \<Rightarrow> int \<Rightarrow> (vstream, double list) prog" where
  "readReals_in sz minv maxv variablesName indexBase sv =
     readMany ''readReals'' (readReal_in minv maxv variablesName) True sz indexBase (note_variable variablesName sv)"

definition readReals :: "int \<Rightarrow> int \<Rightarrow> (vstream, double list) prog" where
  "readReals sz indexBase = readMany ''readReals'' (on_stream readReal) True sz indexBase"

definition readDouble_in :: "double \<Rightarrow> double \<Rightarrow> string \<Rightarrow> (vstream, double) prog" where
  "readDouble_in = readReal_in"

definition readDoubles_in :: "int \<Rightarrow> double \<Rightarrow> double \<Rightarrow> string \<Rightarrow> int \<Rightarrow> (vstream, double list) prog" where
  "readDoubles_in sz minv maxv variablesName indexBase sv =
     readMany ''readDoubles'' (readDouble_in minv maxv variablesName) True sz indexBase (note_variable variablesName sv)"

definition readDoubles :: "int \<Rightarrow> int \<Rightarrow> (vstream, double list) prog" where
  "readDoubles sz indexBase = readMany ''readDoubles'' (on_stream readDouble) True sz indexBase"

definition strict_word :: "int \<Rightarrow> int \<Rightarrow> (instream, double) prog" where
  "strict_word minAfterPointDigitCount maxAfterPointDigitCount s =
     andThen (if \<not> is_strict s then seekEof s else Ret False s) (\<lambda>ended s.
       if ended then in_quit TR_unexpected_eof ''Unexpected end of file - strict double expected'' s
       else andThen (readWord s) (\<lambda>w s. stringToStrictDouble w minAfterPointDigitCount maxAfterPointDigitCount s))"

definition readStrictReal :: "double \<Rightarrow> double \<Rightarrow> int \<Rightarrow> int \<Rightarrow> string \<Rightarrow> (vstream, double) prog" where
  "readStrictReal minv maxv minAfterPointDigitCount maxAfterPointDigitCount variableName sv =
     andThen (on_stream (strict_word minAfterPointDigitCount maxAfterPointDigitCount) sv) (in_real_range ''Strict double'' minv maxv variableName)"

definition readStrictReals :: "int \<Rightarrow> double \<Rightarrow> double \<Rightarrow> int \<Rightarrow> int \<Rightarrow> string \<Rightarrow> int \<Rightarrow> (vstream, double list) prog" where
  "readStrictReals sz minv maxv minAfterPointDigitCount maxAfterPointDigitCount variablesName indexBase sv =
     readMany ''readStrictReals'' (readStrictReal minv maxv minAfterPointDigitCount maxAfterPointDigitCount variablesName) True sz indexBase
       (note_variable variablesName sv)"

definition readStrictDouble :: "double \<Rightarrow> double \<Rightarrow> int \<Rightarrow> int \<Rightarrow> string \<Rightarrow> (vstream, double) prog" where
  "readStrictDouble = readStrictReal"

definition readStrictDoubles :: "int \<Rightarrow> double \<Rightarrow> double \<Rightarrow> int \<Rightarrow> int \<Rightarrow> string \<Rightarrow> int \<Rightarrow> (vstream, double list) prog" where
  "readStrictDoubles sz minv maxv minAfterPointDigitCount maxAfterPointDigitCount variablesName indexBase sv =
     readMany ''readStrictDoubles'' (readStrictDouble minv maxv minAfterPointDigitCount maxAfterPointDigitCount variablesName) True sz indexBase
       (note_variable variablesName sv)"

section \<open>Points and messages\<close>

text \<open>\<open>None\<close> of the points is infinity, the initial value of \<^verbatim>\<open>__testlib_points\<close>, which \<^verbatim>\<open>__testlib_preparePoints\<close> refuses.\<close>

definition preparePoints :: "double \<Rightarrow> (testlib, double) prog" where
  "preparePoints points g =
     (if isNaN points then quit_free TR_fail ''Parameter 'points' can't be nan'' g
      else if isInfinite points then quit_free TR_fail ''Parameter 'points' can't be infinite'' g
      else if flt points (fneg (to_double (1 / 10 ^ 8))) then quit_free TR_fail ''Parameter 'points' can't be negative'' g
      else let points = (if fle points (Fin 0) then Fin 0 else points) in
        if flt (fadd (to_double (10 ^ 6)) (to_double (1 / 10 ^ 8))) points
        then quit_free TR_fail ''Parameter 'points' can't be greater than 1E6'' g
        else Ret (if fle (to_double (10 ^ 6)) points then to_double (10 ^ 6) else points) g)"

definition quitp :: "double \<Rightarrow> string \<Rightarrow> (testlib, 'a) prog" where
  "quitp points message g =
     andThen (preparePoints points g) (\<lambda>points g.
       let g = g\<lparr>tl_points := Some (format_f 10 points)\<rparr>;
           stringPoints = removeDoubleTrailingZeroes (format_f 10 points)
       in quit_free TR_points (if message = [] then stringPoints else stringPoints @ '' '' @ message) g)"

definition expectedButFound_double :: "TResult \<Rightarrow> double \<Rightarrow> double \<Rightarrow> string \<Rightarrow> (testlib, 'a) prog" where
  "expectedButFound_double result expected found prepend =
     expectedButFound_text result (removeDoubleTrailingZeroes (format_f 12 expected)) (removeDoubleTrailingZeroes (format_f 12 found)) prepend"

section \<open>The strict notation\<close>

text \<open>
  A minus sign or none, digits without a redundant zero in front, and a point with digits behind it or none;
  \<open>lo\<close> and \<open>hi\<close> bound the digits behind the point.
\<close>

definition strict_text :: "bool \<Rightarrow> string \<Rightarrow> string \<Rightarrow> string" where
  "strict_text neg ip fp = (if neg then ''-'' else []) @ ip @ (if fp = [] then [] else CHR ''.'' # fp)"

definition strict_value :: "bool \<Rightarrow> string \<Rightarrow> string \<Rightarrow> rat" where
  "strict_value neg ip fp = (if neg then -1 else 1) * (of_int (digits_val (ip @ fp)) / 10 ^ length fp)"

inductive strict_notation :: "int \<Rightarrow> int \<Rightarrow> string \<Rightarrow> rat \<Rightarrow> bool" for lo hi where
  strict: "ip \<noteq> [] \<Longrightarrow> list_all is_digit (ip @ fp) \<Longrightarrow> hd ip = CHR ''0'' \<longrightarrow> tl ip = [] \<Longrightarrow> lo \<le> int (length fp) \<Longrightarrow> int (length fp) \<le> hi \<Longrightarrow>
    strict_notation lo hi (strict_text neg ip fp) (strict_value neg ip fp)"

lemma strict_is_float:
  assumes "ip \<noteq> []" "list_all is_digit (ip @ fp)"
  shows "float_notation (strict_text neg ip fp) (strict_value neg ip fp)"
proof -
  have s: "sign_text (if neg then ''-'' else []) neg" by (simp add: sign_text.intros)
  have "mantissa_text (ip @ (if fp = [] then [] else CHR ''.'' # fp)) (of_int (digits_val (ip @ fp)) / 10 ^ length fp)"
  proof (cases "fp = []")
    case True
    then show ?thesis using mantissa_text.whole [OF assms(1)] assms(2) by simp
  next
    case False
    then show ?thesis using mantissa_text.point [of ip fp] assms by simp
  qed
  from float_notation.float [OF s this no_exponent] show ?thesis by (simp add: strict_text_def strict_value_def split: if_splits)
qed

lemma find_point_seen: "p > - 1 \<Longrightarrow> find_point cs i p = Some q \<longleftrightarrow> list_all is_digit cs \<and> q = p"
proof (induction cs arbitrary: i)
  case (Cons c cs)
  then show ?case by (cases "c = CHR ''.''") auto
qed auto

lemma find_point_Some:
  "0 \<le> i \<Longrightarrow> find_point cs i (- 1) = Some q \<longleftrightarrow> list_all is_digit cs \<and> q = - 1 \<or>
    (\<exists>a b. cs = a @ CHR ''.'' # b \<and> list_all is_digit (a @ b) \<and> q = i + int (length a))"
proof (induction cs arbitrary: i)
  case (Cons c cs)
  consider "c = CHR ''.''" | "c \<noteq> CHR ''.''" "is_digit c" | "c \<noteq> CHR ''.''" "\<not> is_digit c" by blast
  then show ?case
  proof cases
    case 1
    have "find_point (c # cs) i (- 1) = Some q \<longleftrightarrow> list_all is_digit cs \<and> q = i" using 1 Cons.prems by (simp add: find_point_seen)
    moreover have "(\<exists>a b. c # cs = a @ CHR ''.'' # b \<and> list_all is_digit (a @ b) \<and> q = i + int (length a)) \<longleftrightarrow> list_all is_digit cs \<and> q = i"
      using 1 by (auto simp: Cons_eq_append_conv)
    ultimately show ?thesis using 1 by simp
  next
    case 2
    have "(\<exists>a b. c # cs = a @ CHR ''.'' # b \<and> list_all is_digit (a @ b) \<and> q = i + int (length a)) \<longleftrightarrow>
        (\<exists>a b. cs = a @ CHR ''.'' # b \<and> list_all is_digit (a @ b) \<and> q = i + 1 + int (length a))"
      (is "?l = ?r")
    proof
      assume ?l
      then obtain a b where ab: "c # cs = a @ CHR ''.'' # b" "list_all is_digit (a @ b)" "q = i + int (length a)" by blast
      then obtain a' where "a = c # a'" using 2 by (cases a) auto
      with ab show ?r by (intro exI [of _ a'] exI [of _ b]) simp
    next
      assume ?r
      then obtain a b where ab: "cs = a @ CHR ''.'' # b" "list_all is_digit (a @ b)" "q = i + 1 + int (length a)" by blast
      with 2 show ?l by (intro exI [of _ "c # a"] exI [of _ b]) simp
    qed
    then show ?thesis using 2 Cons.IH [of "i + 1"] Cons.prems by simp
  next
    case 3
    then show ?thesis by (auto simp: Cons_eq_append_conv)
  qed
qed auto

lemma first_digit_skip: "list_all (\<lambda>c. \<not> is_digit c) a \<Longrightarrow> is_digit d \<Longrightarrow> first_digit (a @ d # b) i = i + int (length a)"
  by (induction a arbitrary: i) auto

text \<open>The parser on a text of this form.\<close>

lemma strict_text_ends:
  assumes "list_all is_digit (ip @ fp)" "fp = [] \<longrightarrow> ip \<noteq> []" "neg \<or> ip \<noteq> []"
  shows "strict_text neg ip fp \<noteq> []" "strict_text neg ip fp ! 0 = (if neg then CHR ''-'' else hd ip)"
    "is_digit (strict_text neg ip fp ! (length (strict_text neg ip fp) - 1))"
    "find_point (drop 1 (take (length (strict_text neg ip fp) - 1) (strict_text neg ip fp))) 1 (- 1) =
      Some (if fp = [] then - 1 else int (length (strict_text neg ip fp)) - int (length fp) - 1)"
proof -
  let ?w = "strict_text neg ip fp"
  show w: "?w \<noteq> []" using assms(2) by (auto simp: strict_text_def)
  show "?w ! 0 = (if neg then CHR ''-'' else hd ip)" using assms(3) by (cases ip) (auto simp: strict_text_def)
  have "last ?w = (if fp = [] then last ip else last fp)" using assms(2) by (auto simp: strict_text_def)
  moreover have "is_digit (if fp = [] then last ip else last fp)" using assms(1,2) by (auto simp: list_all_iff)
  ultimately show "is_digit (?w ! (length ?w - 1))" using last_conv_nth [OF w] by simp
  have b: "drop 1 (take (length ?w - 1) ?w) = butlast (tl ?w)" by (simp add: butlast_conv_take drop_Suc drop_take tl_take)
  show "find_point (drop 1 (take (length ?w - 1) ?w)) 1 (- 1) = Some (if fp = [] then - 1 else int (length ?w) - int (length fp) - 1)"
  proof (cases "fp = []")
    case True
    then have "list_all is_digit (butlast (tl ?w))" using assms(1,2)
      by (cases ip) (auto simp: strict_text_def list_all_iff dest: in_set_butlastD)
    then show ?thesis unfolding b using True find_point_Some [of 1] by simp
  next
    case False
    define a where "a = (if neg then ip else tl ip)"
    have "butlast (tl ?w) = a @ CHR ''.'' # butlast fp" using False assms(3) by (cases ip) (auto simp: strict_text_def a_def butlast_append)
    moreover have "list_all is_digit (a @ butlast fp)" using assms(1,3) by (cases ip) (auto simp: a_def list_all_iff dest: in_set_butlastD)
    moreover have "int (length ?w) - int (length fp) - 1 = 1 + int (length a)" using False assms(3) by (cases ip) (auto simp: strict_text_def a_def)
    ultimately show ?thesis unfolding b using False find_point_Some [of 1 "butlast (tl ?w)"] by auto
  qed
qed

text \<open>Every text that passes the tests on its characters has this form.\<close>

lemma strict_text_form:
  assumes "w \<noteq> []" "w ! 0 = CHR ''-'' \<or> is_digit (w ! 0)" "find_point (drop 1 (take (length w - 1) w)) 1 (- 1) = Some q"
    "is_digit (w ! (length w - 1))"
  shows "\<exists>neg ip fp. w = strict_text neg ip fp \<and> list_all is_digit (ip @ fp) \<and> (fp = [] \<longrightarrow> ip \<noteq> []) \<and> (neg \<or> ip \<noteq> [])"
proof (cases "tl w = []")
  case True
  then obtain c where "w = [c]" using assms(1) by (cases w) auto
  with assms(4) show ?thesis by (intro exI [of _ False] exI [of _ "[c]"] exI [of _ "[]"]) (simp add: strict_text_def)
next
  case False
  then obtain c mid z where w: "w = c # mid @ [z]" using assms(1) by (cases w) (auto simp: neq_Nil_conv intro: rev_exhaust [of "tl w"])
  have z: "is_digit z" using assms(4) w by (simp add: nth_append)
  have c: "c = CHR ''-'' \<or> is_digit c" using assms(2) w by simp
  have "drop 1 (take (length w - 1) w) = mid" using w by simp
  then consider "list_all is_digit mid" | a b where "mid = a @ CHR ''.'' # b" "list_all is_digit (a @ b)"
    using assms(3) find_point_Some [of 1 mid q] by auto
  then show ?thesis
  proof cases
    case 1
    show ?thesis
    proof (cases "c = CHR ''-''")
      case True
      then show ?thesis using w z 1 by (intro exI [of _ True] exI [of _ "mid @ [z]"] exI [of _ "[]"]) (simp add: strict_text_def)
    next
      case False
      then show ?thesis using w z c 1 by (intro exI [of _ False] exI [of _ w] exI [of _ "[]"]) (simp add: strict_text_def)
    qed
  next
    case 2
    show ?thesis
    proof (cases "c = CHR ''-''")
      case True
      then show ?thesis using w z 2 by (intro exI [of _ True] exI [of _ a] exI [of _ "b @ [z]"]) (simp add: strict_text_def)
    next
      case False
      then show ?thesis using w z c 2 by (intro exI [of _ False] exI [of _ "c # a"] exI [of _ "b @ [z]"]) (simp add: strict_text_def)
    qed
  qed
qed

lemma strict_first_digit:
  assumes "list_all is_digit (ip @ fp)" "fp = [] \<longrightarrow> ip \<noteq> []"
  shows "ip \<noteq> [] \<Longrightarrow> first_digit (strict_text neg ip fp) 0 = (if neg then 1 else 0)"
    "ip = [] \<Longrightarrow> neg \<Longrightarrow> first_digit (strict_text neg ip fp) 0 = 2"
proof -
  show "first_digit (strict_text neg ip fp) 0 = (if neg then 1 else 0)" if "ip \<noteq> []"
    using that assms(1) first_digit_skip [of "if neg then ''-'' else []" "hd ip"] by (cases ip) (auto simp: strict_text_def)
  show "first_digit (strict_text neg ip fp) 0 = 2" if "ip = []" "neg"
    using that assms by (cases fp) (simp_all add: strict_text_def)
qed

text \<open>The test for a redundant zero in front.\<close>

lemma strict_zero:
  assumes "list_all is_digit (ip @ fp)" "ip \<noteq> []"
  shows "strict_text neg ip fp ! nat (if neg then 1 else 0) = CHR ''0'' \<and> (if neg then 1 else 0) + 1 < int (length (strict_text neg ip fp)) \<and>
      is_digit (strict_text neg ip fp ! nat ((if neg then 1 else 0) + 1)) \<longleftrightarrow> hd ip = CHR ''0'' \<and> tl ip \<noteq> []"
proof -
  obtain c cs where ip: "ip = c # cs" using assms(2) by (cases ip) auto
  have "is_digit ((cs @ (if fp = [] then [] else CHR ''.'' # fp)) ! 0) \<longleftrightarrow> cs \<noteq> []" if "cs @ (if fp = [] then [] else CHR ''.'' # fp) \<noteq> []"
    using that assms(1) ip by (cases cs) (auto split: if_splits)
  then show ?thesis using ip by (cases neg) (auto simp: strict_text_def)
qed

lemma strict_run:
  assumes f: "list_all is_digit (ip @ fp)" "fp = [] \<longrightarrow> ip \<noteq> []" "neg \<or> ip \<noteq> []"
    and lim: "0 \<le> lo" "lo \<le> hi" and w: "w = strict_text neg ip fp" "length w \<le> 1000"
  shows "stringToStrictDouble_c w lo hi s =
    (if int (length fp) < lo \<or> hi < int (length fp)
     then in_quit TR_pe (''Expected strict double with number of digits after point in range ['' @ vtos lo @ '','' @ vtos hi @ ''], but \"'' @
       testlib_part w @ ''\" found'') s
     else if ip = [] \<or> hd ip = CHR ''0'' \<and> tl ip \<noteq> [] then expected_strict w s
     else if isInfinite (to_double (strict_value neg ip fp)) then expected_double w s
     else if w ! 0 = CHR ''-'' \<and> fle (Fin 0) (to_double (strict_value neg ip fp))
     then in_quit TR_pe (''Redundant minus in \"'' @ testlib_part w @ ''\" found'') s
     else Ret (to_double (strict_value neg ip fp)) s)"
proof -
  note e = strict_text_ends [OF f, folded w(1)]
  have start: "w ! 0 = CHR ''-'' \<or> is_digit (w ! 0)" using e(2) f(1,3) by (cases ip) auto
  have after: "(if (if fp = [] then - 1 else int (length w) - int (length fp) - 1) = - 1 then 0
      else int (length w) - (if fp = [] then - 1 else int (length w) - int (length fp) - 1) - 1) = int (length fp)"
    using w(1) by (auto simp: strict_text_def)
  have tests: "length w \<noteq> 0" "\<not> length w > 1000" "\<not> (w ! 0 \<noteq> CHR ''-'' \<and> \<not> is_digit (w ! 0))" "\<not> lo < 0" "\<not> lo > hi"
    using e(1) w(2) start lim by auto
  show ?thesis
  proof (cases "ip = []")
    case True
    with f(3) have "first_digit w 0 = 2" using strict_first_digit(2) [OF f(1,2)] w(1) by simp
    then show ?thesis unfolding stringToStrictDouble_c_def Let_def e(4)
      by (simp only: tests e(3) True after option.case if_False if_True not_False_eq_True \<open>first_digit w 0 = 2\<close>) simp
  next
    case False
    note fd = strict_first_digit(1) [OF f(1,2) False, of neg, folded w(1)] and z = strict_zero [OF f(1) False, of neg, folded w(1)]
    have sc: "sscanf_lf_s w = (1, to_double (strict_value neg ip fp), [])"
      using scan_lf_sound [OF strict_is_float [OF False f(1), of neg]] w(1) by (simp add: sscanf_lf_s_def)
    have "\<not> isNaN (to_double (strict_value neg ip fp))" by (simp add: isNaN_def to_double_def Let_def)
    moreover have "\<not> ((if neg then 1 else 0) > (1::int) \<or> (if neg then 1 else 0) = (- 1 :: int))" by simp
    moreover have "(1 = 1 \<or> 1 = (2::nat) \<and> length [] = 0) = True" by simp
    ultimately show ?thesis unfolding stringToStrictDouble_c_def Let_def e(4) fd sc prod.case
      by (simp only: tests e(3) False after z option.case if_False if_True not_False_eq_True simp_thms)
  qed
qed

lemma quit_chain:
  "c1 \<or> c2 \<or> c3 \<or> c4 \<Longrightarrow>
    \<exists>m. (if c1 then in_quit r m1 s else if c2 then in_quit r m2 s else if c3 then in_quit r m3 s else if c4 then in_quit r m4 s else e) = in_quit r m s"
  by auto

text \<open>The doubles that the strict parser returns for a word.\<close>

definition strict_double :: "int \<Rightarrow> int \<Rightarrow> string \<Rightarrow> double \<Rightarrow> bool" where
  "strict_double lo hi w d \<longleftrightarrow> length w \<le> 1000 \<and> (\<exists>x. strict_notation lo hi w x \<and> d = to_double x) \<and> \<not> isInfinite d \<and>
     (hd w = CHR ''-'' \<longrightarrow> \<not> fle (Fin 0) d)"

lemma strict_text_hd: "neg \<or> ip \<noteq> [] \<Longrightarrow> hd (strict_text neg ip fp) = (if neg then CHR ''-'' else hd ip)"
  by (auto simp: strict_text_def)

lemma strict_no_NUL: "list_all is_digit (ip @ fp) \<Longrightarrow> CHR 0x00 \<notin> set (strict_text neg ip fp)"
  using digit_chars by (auto simp: strict_text_def list_all_iff)

lemma strict_double_unique: "strict_double lo hi w d \<Longrightarrow> strict_double lo hi w d' \<Longrightarrow> d = d'"
proof -
  have v: "float_notation w x" if "strict_notation lo hi w x" for x using that by cases (simp add: strict_is_float)
  assume "strict_double lo hi w d" "strict_double lo hi w d'"
  then obtain x y where "float_notation w x" "d = to_double x" "float_notation w y" "d' = to_double y"
    using v unfolding strict_double_def by blast
  then show "d = d'" using scan_lf_sound [of w x] scan_lf_sound [of w y] by simp
qed

lemma stringToStrictDouble_accepts:
  assumes "strict_double lo hi w d" "0 \<le> lo" "lo \<le> hi"
  shows "stringToStrictDouble w lo hi s = Ret d s"
proof -
  obtain x where x: "strict_notation lo hi w x" "d = to_double x" using assms(1) by (auto simp: strict_double_def)
  from x(1) show ?thesis
  proof cases
    case (strict ip fp neg)
    have f: "fp = [] \<longrightarrow> ip \<noteq> []" "neg \<or> ip \<noteq> []" using strict(3) by simp_all
    have "CHR 0x00 \<notin> set w" using strict_no_NUL [OF strict(4)] strict(1) by simp
    moreover have "w ! 0 = hd w" using strict_text_ends(1) [OF strict(4) f] strict(1) by (simp add: hd_conv_nth)
    moreover have "length w \<le> 1000" "\<not> isInfinite d" "hd w = CHR ''-'' \<longrightarrow> \<not> fle (Fin 0) d" using assms(1) by (simp_all add: strict_double_def)
    ultimately have c: "\<not> (int (length fp) < lo \<or> hi < int (length fp))" "\<not> (ip = [] \<or> hd ip = CHR ''0'' \<and> tl ip \<noteq> [])"
      "\<not> isInfinite (to_double (strict_value neg ip fp))" "\<not> (w ! 0 = CHR ''-'' \<and> fle (Fin 0) (to_double (strict_value neg ip fp)))"
      "length w \<le> 1000" "CHR 0x00 \<notin> set w"
      using strict x(2) by auto
    have "stringToStrictDouble_c w lo hi s = Ret d s"
      unfolding strict_run [OF strict(4) f assms(2,3) strict(1) c(5)] if_not_P [OF c(1)] if_not_P [OF c(2)] if_not_P [OF c(3)] if_not_P [OF c(4)]
      using strict(2) x(2) by simp
    then show ?thesis using c(6) by (simp add: stringToStrictDouble_def)
  qed
qed

lemma stringToStrictDouble_rejects:
  assumes "\<nexists>d. strict_double lo hi w d" "0 \<le> lo" "lo \<le> hi"
  shows "\<exists>m. stringToStrictDouble w lo hi s = in_quit TR_pe m s"
proof (cases "CHR 0x00 \<in> set w")
  case True
  then show ?thesis by (simp add: stringToStrictDouble_def contains_NUL_def) blast
next
  case False
  have run: "stringToStrictDouble w lo hi s = stringToStrictDouble_c w lo hi s" using False by (simp add: stringToStrictDouble_def)
  show ?thesis
  proof (cases "w \<noteq> [] \<and> length w \<le> 1000 \<and> (w ! 0 = CHR ''-'' \<or> is_digit (w ! 0)) \<and> is_digit (w ! (length w - 1)) \<and>
      (\<exists>q. find_point (drop 1 (take (length w - 1) w)) 1 (- 1) = Some q)")
    case True
    then obtain neg ip fp where f: "w = strict_text neg ip fp" "list_all is_digit (ip @ fp)" "fp = [] \<longrightarrow> ip \<noteq> []" "neg \<or> ip \<noteq> []"
      using strict_text_form [of w] by blast
    have "w ! 0 = hd w" using True by (simp add: hd_conv_nth)
    then have "\<not> (lo \<le> int (length fp) \<and> int (length fp) \<le> hi \<and> ip \<noteq> [] \<and> (hd ip = CHR ''0'' \<longrightarrow> tl ip = []) \<and>
        \<not> isInfinite (to_double (strict_value neg ip fp)) \<and> (w ! 0 = CHR ''-'' \<longrightarrow> \<not> fle (Fin 0) (to_double (strict_value neg ip fp))))"
      using assms(1) strict_notation.strict [of ip fp lo hi neg] f True by (auto simp: strict_double_def)
    then have bad: "(int (length fp) < lo \<or> hi < int (length fp)) \<or> (ip = [] \<or> hd ip = CHR ''0'' \<and> tl ip \<noteq> []) \<or>
        isInfinite (to_double (strict_value neg ip fp)) \<or> w ! 0 = CHR ''-'' \<and> fle (Fin 0) (to_double (strict_value neg ip fp))"
      by (simp only: not_less [symmetric]) blast
    have "\<exists>m. stringToStrictDouble_c w lo hi s = in_quit TR_pe m s"
      unfolding strict_run [OF f(2,3,4) assms(2,3) f(1) conjunct1 [OF conjunct2 [OF True]]] expected_strict_def expected_double_def
      by (rule quit_chain [OF bad])
    then show ?thesis unfolding run .
  next
    case no: False
    have lim: "\<not> lo < 0" "\<not> lo > hi" using assms(2,3) by simp_all
    consider "length w = 0 \<or> length w > 1000" | "\<not> (length w = 0 \<or> length w > 1000)" "w ! 0 \<noteq> CHR ''-'' \<and> \<not> is_digit (w ! 0)"
      | "\<not> (length w = 0 \<or> length w > 1000)" "\<not> (w ! 0 \<noteq> CHR ''-'' \<and> \<not> is_digit (w ! 0))"
        "find_point (drop 1 (take (length w - 1) w)) 1 (- 1) = None \<or> \<not> is_digit (w ! (length w - 1))"
      using no by fastforce
    then have "stringToStrictDouble_c w lo hi s = expected_strict w s"
    proof cases
      case 1
      then show ?thesis by (simp only: stringToStrictDouble_c_def Let_def lim if_False if_True)
    next
      case 2
      then show ?thesis by (simp only: stringToStrictDouble_c_def Let_def lim if_False if_True simp_thms)
    next
      case 3
      then show ?thesis
        by (cases "find_point (drop 1 (take (length w - 1) w)) 1 (- 1)")
          (simp_all only: stringToStrictDouble_c_def Let_def lim if_False if_True option.case not_False_eq_True simp_thms option.distinct)
    qed
    then show ?thesis unfolding run by (simp add: expected_strict_def) blast
  qed
qed

section \<open>What a read in a range returns\<close>

text \<open>A number is read as the next word, in both modes of a stream.\<close>

lemma number_word:
  assumes "holds k v s" "token_start k v = c # cs" "\<not> isBlanks c" "length (takeWhile nonblank (token_start k v)) \<le> is_maxTokenLength k"
  shows "\<exists>s'. andThen (if \<not> is_strict s then seekEof s else Ret False s) (\<lambda>ended s. if ended then in_quit TR_unexpected_eof m s
      else andThen (readWord s) parse) = parse (map to_char (takeWhile nonblank (token_start k v))) s' \<and>
    holds k (dropWhile nonblank (token_start k v)) s'"
proof -
  obtain s1 where s1: "(if \<not> is_strict s then seekEof s else Ret False s) = Ret False s1" "holds k (if is_strict k then v else dropWhile isBlanks v) s1"
  proof (cases "is_strict k")
    case True
    then show ?thesis using that [of s] assms(1) holds_strict [OF assms(1)] by simp
  next
    case False
    then have "dropWhile isBlanks v \<noteq> []" using assms(2) by (simp add: token_start_def)
    moreover obtain s' where "seekEof s = Ret (dropWhile isBlanks v = []) s'" "holds k (dropWhile isBlanks v) s'"
      using seekEof_spec [OF assms(1)] by blast
    ultimately show ?thesis using that [of s'] False holds_strict [OF assms(1)] by simp
  qed
  have t: "token_start k (if is_strict k then v else dropWhile isBlanks v) = token_start k v" by (simp add: token_start_def)
  obtain s2 where "readWord s1 = Ret (map to_char (takeWhile nonblank (token_start k v))) s2" "holds k (dropWhile nonblank (token_start k v)) s2"
    using readWordTo_token [OF s1(2), unfolded t, OF assms(2,3,4)] by (auto simp: readWord_def)
  then show ?thesis using s1(1) by auto
qed

lemma readStrictReal_spec:
  assumes "holds k v s" "token_start k v = c # cs" "\<not> isBlanks c" "length (takeWhile nonblank (token_start k v)) \<le> is_maxTokenLength k"
    and "0 \<le> lo" "lo \<le> hi" "w = map to_char (takeWhile nonblank (token_start k v))"
  shows "\<exists>s'. holds k (dropWhile nonblank (token_start k v)) s' \<and>
    (\<forall>d. strict_double lo hi w d \<longrightarrow> readStrictReal minv maxv lo hi name (s, V) = in_real_range ''Strict double'' minv maxv name d (s', V)) \<and>
    ((\<nexists>d. strict_double lo hi w d) \<longrightarrow> (\<exists>m. readStrictReal minv maxv lo hi name (s, V) = on_stream (in_quit TR_pe m) (s', V)))"
proof -
  obtain s' where s': "strict_word lo hi s = stringToStrictDouble w lo hi s'" "holds k (dropWhile nonblank (token_start k v)) s'"
    using number_word [OF assms(1-4), of "''Unexpected end of file - strict double expected''" "\<lambda>w. stringToStrictDouble w lo hi"] assms(7)
    unfolding strict_word_def by blast
  have "readStrictReal minv maxv lo hi name (s, V) = in_real_range ''Strict double'' minv maxv name d (s', V)" if "strict_double lo hi w d" for d
    using stringToStrictDouble_accepts [OF that assms(5,6)] s'(1) by (simp add: readStrictReal_def on_stream_def)
  moreover have "\<exists>m. readStrictReal minv maxv lo hi name (s, V) = on_stream (in_quit TR_pe m) (s', V)" if no: "\<nexists>d. strict_double lo hi w d"
  proof -
    obtain m where "stringToStrictDouble w lo hi s' = in_quit TR_pe m s'" using stringToStrictDouble_rejects [OF no assms(5,6)] by blast
    then have "readStrictReal minv maxv lo hi name (s, V) = on_stream (in_quit TR_pe m) (s', V)"
      using s'(1) by (simp add: readStrictReal_def on_stream_def in_quit_def)
    then show ?thesis by blast
  qed
  ultimately show ?thesis using s'(2) by blast
qed

lemma readReal_in_spec:
  assumes "holds k v s" "token_start k v = c # cs" "\<not> isBlanks c" "length (takeWhile nonblank (token_start k v)) \<le> is_maxTokenLength k"
    and "w = map to_char (takeWhile nonblank (token_start k v))"
  shows "\<exists>s'. holds k (dropWhile nonblank (token_start k v)) s' \<and>
    (\<forall>d. word_value w = Some d \<longrightarrow> readReal_in minv maxv name (s, V) = in_real_range ''Double'' minv maxv name d (s', V)) \<and>
    (word_value w = None \<longrightarrow> (\<exists>m. readReal_in minv maxv name (s, V) = on_stream (in_quit TR_pe m) (s', V)))"
proof -
  obtain s' where s': "readReal s = stringToDouble w s'" "holds k (dropWhile nonblank (token_start k v)) s'"
    using number_word [OF assms(1-4), of "''Unexpected end of file - double expected''" stringToDouble] assms(5) unfolding readReal_def by blast
  have "readReal_in minv maxv name (s, V) = in_real_range ''Double'' minv maxv name d (s', V)" if "word_value w = Some d" for d
    using word_value_parse(1) [OF that] s'(1) by (simp add: readReal_in_def on_stream_def)
  moreover have "\<exists>m. readReal_in minv maxv name (s, V) = on_stream (in_quit TR_pe m) (s', V)" if no: "word_value w = None"
  proof -
    obtain m where "stringToDouble w s' = in_quit TR_pe m s'" using word_value_parse(2) [OF no] by blast
    then have "readReal_in minv maxv name (s, V) = on_stream (in_quit TR_pe m) (s', V)"
      using s'(1) by (simp add: readReal_in_def on_stream_def in_quit_def)
    then show ?thesis by blast
  qed
  ultimately show ?thesis using s'(2) by (intro exI [of _ s']) simp
qed

section \<open>Printed numbers read back\<close>

lemma digits_val_append: "digits_val (a @ b) = digits_val a * 10 ^ length b + digits_val b"
proof (induction b rule: rev_induct)
  case (snoc c b)
  have "digits_val (a @ b @ [c]) = digits_val (a @ b) * 10 + (schar c - 48)" using digits_val_snoc [of "a @ b" c] by simp
  then show ?case using snoc by (simp add: algebra_simps)
qed simp

lemma digits_val_zeroes [simp]: "digits_val (replicate n (CHR ''0'')) = 0"
  by (induction n) (simp_all add: digits_val_zero_Cons)

lemma zero_digit [simp]: "is_digit (CHR ''0'')"
  by (simp add: is_digit_def schar_def)

text \<open>The text of \<^verbatim>\<open>%.kf\<close>: its digits are the number with \<open>k\<close> decimals, rounded.\<close>

lemma format_f_text:
  assumes "0 < k"
  shows "\<exists>ip fp. format_f k (Fin r) = (if r < 0 then ''-'' else []) @ ip @ ''.'' @ fp \<and> ip \<noteq> [] \<and> length fp = k \<and> list_all is_digit (ip @ fp) \<and>
    digits_val (ip @ fp) = rne (\<bar>r\<bar> * 10 ^ k)"
proof -
  define n where "n = rne (\<bar>r\<bar> * 10 ^ k)"
  define ip where "ip = vtos (n div 10 ^ k)"
  define fp where "fp = pad_zeroes k (vtos (n mod 10 ^ k))"
  have n: "0 \<le> n" unfolding n_def by (rule rne_ge) simp
  then have d: "0 \<le> n div 10 ^ k" "0 \<le> n mod 10 ^ k" "n mod 10 ^ k < 10 ^ k" by (simp_all add: pos_imp_zdiv_nonneg_iff)
  have l: "length (vtos (n mod 10 ^ k)) \<le> k" using length_vtos_bound [of "n mod 10 ^ k" "k - 1"] d assms by simp
  then have fp: "length fp = k" "digits_val fp = n mod 10 ^ k" "list_all is_digit fp"
    using digits_val_vtos [OF d(2)] vtos_digits [OF d(2)] by (auto simp: fp_def pad_zeroes_def digits_val_append list_all_iff)
  have "digits_val (ip @ fp) = n" unfolding digits_val_append fp ip_def digits_val_vtos [OF d(1)] by (rule div_mult_mod_eq)
  moreover have "ip \<noteq> []" "list_all is_digit ip" using d(1) vtos_digits [OF d(1)] by (simp_all add: ip_def)
  moreover have "format_f k (Fin r) = (if r < 0 then ''-'' else []) @ ip @ ''.'' @ fp"
    by (simp add: format_f_def Let_def ip_def fp_def n_def)
  ultimately show ?thesis using fp n_def by auto
qed

lemma removeZeroes_fraction:
  "list_all is_digit fp \<Longrightarrow> \<exists>z s. fp = s @ replicate z (CHR ''0'') \<and> removeZeroes_loop (p @ CHR ''.'' # fp) = p @ CHR ''.'' # s \<and>
    (s = [] \<or> last s \<noteq> CHR ''0'')"
proof (induction fp rule: rev_induct)
  case Nil
  have "removeZeroes_loop (p @ ''.'') = p @ ''.''" by (simp add: removeZeroes_loop.simps)
  then show ?case by simp
next
  case (snoc c fp)
  show ?case
  proof (cases "c = CHR ''0''")
    case True
    obtain z s where zs: "fp = s @ replicate z (CHR ''0'')" "removeZeroes_loop (p @ CHR ''.'' # fp) = p @ CHR ''.'' # s" "s = [] \<or> last s \<noteq> CHR ''0''"
      using snoc by auto
    have "removeZeroes_loop (p @ CHR ''.'' # fp @ [c]) = removeZeroes_loop (p @ CHR ''.'' # fp)"
      unfolding removeZeroes_loop.simps [of "p @ CHR ''.'' # fp @ [c]"] using True by (simp add: butlast_append)
    then show ?thesis using zs True by (intro exI [of _ "Suc z"] exI [of _ s]) (simp add: replicate_append_same)
  next
    case False
    then have "removeZeroes_loop (p @ CHR ''.'' # fp @ [c]) = p @ CHR ''.'' # fp @ [c]" by (simp add: removeZeroes_loop.simps)
    then show ?thesis using False by (intro exI [of _ 0] exI [of _ "fp @ [c]"]) simp
  qed
qed

text \<open>A number printed with \<open>k\<close> decimals, with or without the zeroes at its end, is within half a unit of the last decimal.\<close>

lemma printed_notation:
  assumes "0 < k"
  shows "\<exists>x. float_notation (removeDoubleTrailingZeroes (format_f k (Fin r))) x \<and> float_notation (format_f k (Fin r)) x \<and> \<bar>x - r\<bar> \<le> 1 / (2 * 10 ^ k)"
proof -
  obtain ip fp where t: "format_f k (Fin r) = (if r < 0 then ''-'' else []) @ ip @ ''.'' @ fp" "ip \<noteq> []" "length fp = k" "list_all is_digit (ip @ fp)"
    "digits_val (ip @ fp) = rne (\<bar>r\<bar> * 10 ^ k)" using format_f_text [OF assms] by blast
  obtain z s where zs: "fp = s @ replicate z (CHR ''0'')" "removeZeroes_loop (format_f k (Fin r)) = (if r < 0 then ''-'' else []) @ ip @ ''.'' @ s"
    "s = [] \<or> last s \<noteq> CHR ''0''"
    using removeZeroes_fraction [of fp "(if r < 0 then ''-'' else []) @ ip"] t(1,4) by auto
  define fp' where "fp' = (if s = [] then ''0'' else s)"
  have "last ((if r < 0 then ''-'' else []) @ ip @ ''.'' @ s) = CHR ''.'' \<longleftrightarrow> s = []"
    using t(4) zs(1) digit_chars by (cases s rule: rev_cases) (auto simp: list_all_iff)
  then have short: "removeDoubleTrailingZeroes (format_f k (Fin r)) = (if r < 0 then ''-'' else []) @ ip @ ''.'' @ fp'"
    unfolding removeDoubleTrailingZeroes_def Let_def zs(2) fp'_def by simp
  have sg: "sign_text (if r < 0 then ''-'' else []) (r < 0)" by (simp add: sign_text.intros)
  define v where "v = (of_int (digits_val (ip @ fp)) / 10 ^ length fp :: rat)"
  have "of_int (digits_val (ip @ fp')) / 10 ^ length fp' = v"
  proof -
    have "digits_val (ip @ fp) = digits_val (ip @ s) * 10 ^ z" unfolding zs(1) append_assoc [symmetric] digits_val_append [of "ip @ s"] by simp
    then have "v = of_int (digits_val (ip @ s)) / 10 ^ length s" unfolding v_def zs(1) by (simp add: power_add)
    moreover have "digits_val (ip @ ''0'') = digits_val ip * 10" using digits_val_append [of ip "''0''"] digits_val_zeroes [of 1] by simp
    ultimately show ?thesis by (simp add: fp'_def)
  qed
  moreover have "list_all is_digit (ip @ fp')" using t(4) zs(1) by (auto simp: fp'_def)
  ultimately have m: "mantissa_text (ip @ ''.'' @ fp') v" "mantissa_text (ip @ ''.'' @ fp) v"
    using mantissa_text.point [of ip fp'] mantissa_text.point [of ip fp] t(2,4) by (simp_all add: v_def)
  have "float_notation (removeDoubleTrailingZeroes (format_f k (Fin r))) (if r < 0 then - v else v)"
    unfolding short using float_notation.float [OF sg m(1) no_exponent] by simp
  moreover have "float_notation (format_f k (Fin r)) (if r < 0 then - v else v)"
    unfolding t(1) using float_notation.float [OF sg m(2) no_exponent] by simp
  moreover have "\<bar>v - \<bar>r\<bar>\<bar> \<le> 1 / (2 * 10 ^ k)"
  proof -
    have "v * 10 ^ k = of_int (rne (\<bar>r\<bar> * 10 ^ k))" by (simp add: v_def t(3,5))
    then have "\<bar>v * 10 ^ k - \<bar>r\<bar> * 10 ^ k\<bar> \<le> 1 / 2" using rne_bounds [of "\<bar>r\<bar> * 10 ^ k"] by (intro abs_leI) simp_all
    then have "\<bar>v - \<bar>r\<bar>\<bar> * 10 ^ k \<le> 1 / 2" by (simp add: left_diff_distrib [symmetric] abs_mult)
    then show ?thesis by (simp add: field_simps)
  qed
  then have "\<bar>(if r < 0 then - v else v) - r\<bar> \<le> 1 / (2 * 10 ^ k)" by (cases "r < 0") (simp_all add: abs_le_iff)
  ultimately show ?thesis by blast
qed

section \<open>Numbers that are exact\<close>

lemma representable_scaled:
  assumes "0 \<le> n" "n < 2 ^ 53" "pow_unit u"
  shows "representable (of_int n * u)"
proof (cases "n = 0")
  case True
  then show ?thesis by (simp add: representable_def round_rat_def)
next
  case False
  define x where "x = of_int n * u"
  have x: "0 < x" using assms(1) False pow_unit_pos [OF assms(3)] by (simp add: x_def)
  have "unit_of x \<le> u"
  proof (rule ccontr)
    assume "\<not> unit_of x \<le> u"
    then have "2 * u \<le> unit_of x" using pow_unit_less [OF assms(3) unit_of_spec(1)] by simp
    moreover from this have "2 ^ 52 * unit_of x \<le> x" using unit_of_spec(3) twice_not_min [OF assms(3)] by blast
    moreover have "(of_int n :: rat) < 2 ^ 53" using assms(2) by (metis of_int_less_iff of_int_numeral of_int_power)
    then have "x < 2 ^ 53 * u" using pow_unit_pos [OF assms(3)] by (simp add: x_def)
    ultimately show False by simp
  qed
  moreover obtain i j where ij: "unit_of x = 2 ^ i * min_unit" "u = 2 ^ j * min_unit"
    using unit_of_spec(1) [of x] assms(3) unfolding pow_unit_def by blast
  ultimately have "(2::rat) ^ i \<le> 2 ^ j" using min_unit_pos by simp
  then obtain e where "j = i + e" using le_Suc_ex by (metis one_less_numeral_iff power_increasing_iff semiring_norm(76))
  then have "x = of_int (n * 2 ^ e) * unit_of x" using ij by (simp add: x_def power_add)
  then have "x / unit_of x = of_int (n * 2 ^ e)" using unit_of_pos [of x] by (metis nonzero_eq_divide_eq order_less_irrefl)
  then have "round_pos x = x" unfolding round_pos_def using unit_of_pos [of x] by (metis nonzero_divide_eq_eq order_less_irrefl rne_of_int)
  then show ?thesis unfolding x_def [symmetric] using x by (simp add: representable_def round_rat_def)
qed

lemma representable_dyadic:
  assumes "0 \<le> n" "n < 2 ^ 53" "j \<le> 1074"
  shows "representable (of_int n / 2 ^ j)"
proof -
  obtain e where e: "1074 = j + e" using le_Suc_ex [OF assms(3)] by blast
  have "2 ^ e * min_unit = 1 / 2 ^ j" unfolding min_unit_def e power_add by simp
  then have "pow_unit (1 / 2 ^ j)" unfolding pow_unit_def by metis
  from representable_scaled [OF assms(1,2) this] show ?thesis by simp
qed

text \<open>A representable number is a multiple of a unit, with a multiplier of at most 53 bits.\<close>

lemma representable_multiple:
  assumes "representable x" "0 < x"
  shows "\<exists>m. x = of_int m * unit_of x \<and> 0 < m \<and> m < 2 ^ 53"
proof -
  have x: "x = of_int (rne (x / unit_of x)) * unit_of x" using assms by (simp add: representable_def round_rat_def round_pos_def)
  moreover have "0 < rne (x / unit_of x)" using x assms(2) unit_of_pos [of x] by (metis of_int_0_less_iff zero_less_mult_pos2)
  moreover have "of_int (rne (x / unit_of x)) * unit_of x < 2 ^ 53 * unit_of x" using unit_of_spec(2) [of x] x by simp
  then have "(of_int (rne (x / unit_of x)) :: rat) < of_int (2 ^ 53)" using unit_of_pos [of x] by simp
  then have "rne (x / unit_of x) < 2 ^ 53" by (simp only: of_int_less_iff)
  ultimately show ?thesis by blast
qed

lemma to_double_dyadic: "0 \<le> n \<Longrightarrow> n < 2 ^ 53 \<Longrightarrow> j \<le> 1074 \<Longrightarrow> to_double (of_int n / 2 ^ j) = Fin (of_int n / 2 ^ j)"
proof -
  assume a: "0 \<le> n" "n < 2 ^ 53" "j \<le> 1074"
  have "(of_int n :: rat) \<le> 2 ^ 53" using a(2) by (metis of_int_le_iff of_int_numeral of_int_power order_less_imp_le)
  moreover have "of_int n / 2 ^ j \<le> (of_int n / 1 :: rat)" using a(1) by (intro divide_left_mono) simp_all
  ultimately have "\<bar>of_int n / 2 ^ j\<bar> \<le> (10 ^ 303 :: rat)" using a(1) by (simp add: abs_le_iff)
  from to_double_small [OF this] representable_dyadic [OF a] show ?thesis by (simp add: representable_def)
qed

section \<open>Ranges and points\<close>

lemma fle_total: "a \<noteq> NaN \<Longrightarrow> b \<noteq> NaN \<Longrightarrow> fle a b \<or> fle b a"
  by (cases a; cases b) auto

lemma flt_not_fle: "a \<noteq> NaN \<Longrightarrow> b \<noteq> NaN \<Longrightarrow> flt a b \<longleftrightarrow> \<not> fle b a"
  using fle_total [of a b] by (auto simp: flt_def)

lemma to_double_not_NaN: "to_double x \<noteq> NaN"
  by (simp add: to_double_def Let_def)

lemma in_real_range_eq:
  assumes "d \<noteq> NaN" "minv \<noteq> NaN" "maxv \<noteq> NaN"
  shows "in_real_range what minv maxv name d sv =
    (if fle minv d \<and> fle d maxv then Ret d (note_real_bounds name minv maxv d sv)
     else on_stream (in_quit TR_wa (range_text what (is_readManyIteration (fst sv)) name (vtos_double d) (vtos_double minv) (vtos_double maxv))) sv)"
  using assms by (simp add: in_real_range_def flt_not_fle)

lemma million: "to_double (10 ^ 6) = Fin (10 ^ 6)"
  using to_double_dyadic [of "10 ^ 6" 0] by simp

text \<open>The smallest negative number that still counts as 0, and the largest that counts as a million.\<close>

definition points_slack :: rat where
  "points_slack = round_rat (1 / 10 ^ 8)"

definition points_limit :: rat where
  "points_limit = round_rat (10 ^ 6 + points_slack)"

lemma slack_small: "\<bar>points_slack\<bar> \<le> 3"
  unfolding points_slack_def using round_twice [of "1 / 10 ^ 8"] by simp

lemma slack_double: "to_double (1 / 10 ^ 8) = Fin points_slack" "fadd (Fin (10 ^ 6)) (Fin points_slack) = Fin points_limit"
proof -
  show "to_double (1 / 10 ^ 8) = Fin points_slack" unfolding points_slack_def by (rule to_double_small) simp
  have "\<bar>10 ^ 6 + points_slack\<bar> \<le> 10 ^ 6 + 3" using abs_le_D1 [OF slack_small] abs_le_D2 [OF slack_small] by (intro abs_leI) simp_all
  also have "\<dots> \<le> 10 ^ 303" by simp
  finally show "fadd (Fin (10 ^ 6)) (Fin points_slack) = Fin points_limit"
    unfolding points_limit_def fadd.simps by (rule to_double_small)
qed

lemma slack_bounds: "0 \<le> points_slack" "10 ^ 6 \<le> points_limit" "points_limit \<le> 10 ^ 7"
proof -
  show s: "0 \<le> points_slack" unfolding points_slack_def by (rule round_rat_nonneg) simp
  have "representable (10 ^ 6)" using representable_dyadic [of "10 ^ 6" 0] by simp
  then show "10 ^ 6 \<le> points_limit" unfolding points_limit_def using s by (intro rep_le_round) simp_all
  have "representable (10 ^ 7)" using representable_dyadic [of "10 ^ 7" 0] by simp
  moreover have "10 ^ 6 + points_slack \<le> 10 ^ 7" using abs_le_D1 [OF slack_small] by simp
  ultimately show "points_limit \<le> 10 ^ 7" unfolding points_limit_def by (intro round_le_rep)
qed

lemma huge_large: "10 ^ 7 \<le> huge"
proof -
  have "representable (10 ^ 7)" using representable_dyadic [of "10 ^ 7" 0] by simp
  moreover have "(10 ^ 7 :: rat) \<le> 10 ^ 300" by (rule power_increasing) simp_all
  ultimately show ?thesis unfolding huge_def by (rule rep_le_round [rotated])
qed

lemma preparePoints_spec:
  "preparePoints (Fin r) g =
    (if huge < \<bar>r\<bar> then quit_free TR_fail ''Parameter 'points' can't be infinite'' g
     else if r < - points_slack then quit_free TR_fail ''Parameter 'points' can't be negative'' g
     else if points_limit < r then quit_free TR_fail ''Parameter 'points' can't be greater than 1E6'' g
     else Ret (Fin (max 0 (min r (10 ^ 6)))) g)"
proof -
  have "\<not> isNaN (Fin r)" "flt (Fin a) (Fin b) \<longleftrightarrow> a < b" "fneg (Fin points_slack) = Fin (- points_slack)"
    "(if fle (Fin r) (Fin 0) then Fin 0 else Fin r) = Fin (max 0 r)" for a b by (auto simp: isNaN_def flt_def max_def)
  then have *: "preparePoints (Fin r) g =
    (if huge < \<bar>r\<bar> then quit_free TR_fail ''Parameter 'points' can't be infinite'' g
     else if r < - points_slack then quit_free TR_fail ''Parameter 'points' can't be negative'' g
     else if points_limit < max 0 r then quit_free TR_fail ''Parameter 'points' can't be greater than 1E6'' g
     else Ret (if fle (Fin (10 ^ 6)) (Fin (max 0 r)) then Fin (10 ^ 6) else Fin (max 0 r)) g)"
    unfolding preparePoints_def million slack_double isInfinite_Fin Let_def by (simp only: if_False)
  have "points_limit < max 0 r \<longleftrightarrow> points_limit < r" using slack_bounds(2) by auto
  moreover have "(if fle (Fin (10 ^ 6)) (Fin (max 0 r)) then Fin (10 ^ 6) else Fin (max 0 r)) = Fin (max 0 (min r (10 ^ 6)))"
    by (auto simp: max_def min_def)
  ultimately show ?thesis unfolding * by (simp only:)
qed

lemma isInfinite_inf: "isInfinite PInf" "isInfinite NInf"
proof -
  have "(10 ^ 300 :: rat) \<le> 10 ^ 303" by (rule power_increasing) simp_all
  then have "to_double (10 ^ 300) = Fin huge" unfolding huge_def by (intro to_double_small) simp
  then show "isInfinite PInf" "isInfinite NInf" by (simp_all add: isInfinite_def flt_def)
qed

lemma quitp_points:
  assumes "0 \<le> r" "r \<le> 10 ^ 6"
  shows "quitp (Fin r) message g =
    quit_free TR_points (removeDoubleTrailingZeroes (format_f 10 (Fin r)) @ (if message = [] then [] else '' '' @ message))
      (g\<lparr>tl_points := Some (format_f 10 (Fin r))\<rparr>)"
proof -
  have "\<not> huge < \<bar>r\<bar>" "\<not> r < - points_slack" "\<not> points_limit < r" "max 0 (min r (10 ^ 6)) = r"
    using assms huge_large slack_bounds by linarith+
  then have "preparePoints (Fin r) g = Ret (Fin r) g" unfolding preparePoints_spec by (simp only: if_False)
  then show ?thesis unfolding quitp_def by (cases "message = []") (simp_all only: andThen_simps Let_def if_True if_False append_Nil2 simp_thms)
qed

lemma quitp_fails:
  assumes "d \<in> {NaN, PInf, NInf} \<or> (\<exists>r. d = Fin r \<and> (r < - points_slack \<or> points_limit < r))"
  shows "\<exists>m. quitp d message g = quit_free TR_fail m g"
proof -
  have "\<exists>m. preparePoints d g = quit_free TR_fail m g"
  proof (cases d)
    case (Fin r)
    have chain: "c1 \<or> c2 \<or> c3 \<Longrightarrow> \<exists>m. (if c1 then quit_free TR_fail m1 g else if c2 then quit_free TR_fail m2 g
        else if c3 then quit_free TR_fail m3 g else e) = quit_free TR_fail m g" for c1 c2 c3 m1 m2 m3 and e :: "(testlib, double) outcome" by auto
    have "r < - points_slack \<or> points_limit < r" using assms Fin by simp
    then show ?thesis unfolding Fin preparePoints_spec by (intro chain) blast
  qed (use isInfinite_inf in \<open>auto simp: preparePoints_def isNaN_def\<close>)
  then show ?thesis by (auto simp: quitp_def quit_free_def)
qed

end
