(* ===== verification/TL_Random_Reals.thy ===== *)
theory TL_Random_Reals
  imports TL_Random TL_Real_Ranges
begin

text \<open>
  The doubles of \<^verbatim>\<open>class random_t\<close>: \<^verbatim>\<open>next()\<close>, \<^verbatim>\<open>next(double)\<close>, \<^verbatim>\<open>next(double, double)\<close> and the weighted variants, over
  binary64 arithmetic. \<^verbatim>\<open>std::pow\<close>, whose accuracy is not fixed by the language, is an argument.
\<close>

section \<open>Definitions\<close>

text \<open>The next double below a double other than NaN, and \<^verbatim>\<open>std::nexttoward\<close>.\<close>

definition next_below :: "double \<Rightarrow> double" where
  "next_below b = (case b of
     NaN \<Rightarrow> NaN | NInf \<Rightarrow> NInf | PInf \<Rightarrow> Fin (2 ^ 1024 - 2 ^ 971)
   | Fin x \<Rightarrow> if x \<le> 0 then to_double (x - unit_of (- x))
       else let u = unit_of x in Fin (if x = 2 ^ 52 * u \<and> min_unit < u then x - u / 2 else x - u))"

definition nexttoward :: "double \<Rightarrow> double \<Rightarrow> double" where
  "nexttoward b a = (if isNaN a \<or> isNaN b then NaN else if flt a b then next_below b
     else if flt b a then fneg (next_below (fneg b)) else a)"

definition crop_double :: "double \<Rightarrow> double \<Rightarrow> double \<Rightarrow> double" where
  "crop_double value a b =
     (let value = fmin (fmax value a) b in if fle b value then nexttoward b a else value)"

definition next_real :: "(random_t, double) prog" where
  "next_real r =
     andThen (nextBits 26 r) (\<lambda>x r. let left = push_bit 27 x in
     andThen (nextBits 27 r) (\<lambda>right r.
       Ret (crop_double (fdiv (to_double (of_int (left + right))) (to_double (of_int (push_bit 53 1)))) (Fin 0) (Fin 1)) r))"

definition next_real_n :: "double \<Rightarrow> (random_t, double) prog" where
  "next_real_n n r =
     (if fle n (Fin 0) then testlib_fail ''random_t::next(double): n should be positive'' r
      else andThen (next_real r) (\<lambda>x r. Ret (crop_double (fmul n x) (Fin 0) n) r))"

definition next_real_range :: "double \<Rightarrow> double \<Rightarrow> (random_t, double) prog" where
  "next_real_range from to r =
     (if fle to from then testlib_fail ''random_t::next(double from, double to): from should be strictly less than to'' r
      else andThen (next_real_n (fsub to from) r) (\<lambda>x r. Ret (fadd x from) r))"

primrec wnext_real_loop :: "(double \<Rightarrow> double \<Rightarrow> double) \<Rightarrow> nat \<Rightarrow> double \<Rightarrow> (random_t, double) prog" where
  "wnext_real_loop better 0 result r = Ret result r"
| "wnext_real_loop better (Suc i) result r =
     andThen (next_real r) (\<lambda>x r. wnext_real_loop better i (better result x) r)"

text \<open>The absolute value of the smallest \<^verbatim>\<open>int\<close> and the increments of the largest one are undefined.\<close>

definition wnext_real :: "(double \<Rightarrow> double \<Rightarrow> double) \<Rightarrow> double \<Rightarrow> int \<Rightarrow> (random_t, double) prog" where
  "wnext_real pow n type r =
     (if fle n (Fin 0) then testlib_fail ''random_t::wnext(double n, int type): n must be positive'' r
      else if type = INT_MIN then Crash
      else if \<bar>type\<bar> < rt_lim then
        andThen (next_real r) (\<lambda>result r.
        andThen (wnext_real_loop fmax (nat type) result r) (\<lambda>result r.
        andThen (wnext_real_loop fmin (nat (- type)) result r) (\<lambda>result r.
        Ret (fmul n result) r)))
      else if \<bar>type\<bar> = INT_MAX then Crash
      else andThen (next_real r) (\<lambda>x r.
        let p = (if type > 0 then pow (fadd x (Fin 0)) (fdiv (Fin 1) (to_double (of_int (type + 1))))
                 else fsub (Fin 1) (pow (fadd x (Fin 0)) (fdiv (Fin 1) (to_double (of_int (- type + 1))))))
        in Ret (crop_double (fmul n p) (Fin 0) n) r))"

definition wnext_real_unit :: "(double \<Rightarrow> double \<Rightarrow> double) \<Rightarrow> int \<Rightarrow> (random_t, double) prog" where
  "wnext_real_unit pow type = wnext_real pow (Fin 1) type"

definition wnext_real_range :: "(double \<Rightarrow> double \<Rightarrow> double) \<Rightarrow> double \<Rightarrow> double \<Rightarrow> int \<Rightarrow> (random_t, double) prog" where
  "wnext_real_range pow from to type r =
     (if fle to from then testlib_fail ''random_t::wnext(double from, double to, int type): from should be strictly less than to'' r
      else andThen (wnext_real pow (fsub to from) type r) (\<lambda>x r. Ret (fadd x from) r))"

section \<open>The next double below\<close>

text \<open>The positive finite doubles.\<close>

definition pos_double :: "rat \<Rightarrow> bool" where
  "pos_double b \<longleftrightarrow> representable b \<and> 0 < b \<and> b < 2 ^ 1024"

lemma next_below_pos:
  assumes "representable b" "0 < b"
  shows "\<exists>c. next_below (Fin b) = Fin c \<and> 0 \<le> c \<and> c < b \<and> representable c"
proof -
  define u where "u = unit_of b"
  obtain m where m: "b = of_int m * u" "0 < m" "m < 2 ^ 53" using representable_multiple [OF assms] by (auto simp: u_def)
  have u: "0 < u" "pow_unit u" unfolding u_def by (rule unit_of_pos, rule unit_of_spec(1))
  show ?thesis
  proof (cases "b = 2 ^ 52 * u \<and> min_unit < u")
    case True
    then have "b - u / 2 = of_int (2 ^ 53 - 1) * (u / 2)" by simp
    moreover have "representable (of_int (2 ^ 53 - 1) * (u / 2))" using True u pow_unit_half by (intro representable_scaled) simp_all
    ultimately have "representable (b - u / 2)" by (simp only:)
    moreover have "\<not> b \<le> 0" using assms(2) by simp
    then have "next_below (Fin b) = Fin (b - u / 2)"
      unfolding next_below_def double.case Let_def u_def [symmetric] if_P [OF True] by (simp only: if_False)
    moreover have "0 \<le> b - u / 2" using True u(1) by simp
    ultimately show ?thesis using u(1) by (intro exI [of _ "b - u / 2"]) simp
  next
    case False
    have "b - u = of_int (m - 1) * u" by (simp add: m(1) left_diff_distrib)
    moreover have "representable (of_int (m - 1) * u)" using m u by (intro representable_scaled) simp_all
    moreover have "0 \<le> of_int (m - 1) * u" using m(2) u(1) by simp
    moreover have "next_below (Fin b) = Fin (b - u)" unfolding next_below_def using False assms(2) by (simp add: u_def [symmetric] Let_def)
    ultimately show ?thesis using u(1) by (intro exI [of _ "b - u"]) simp
  qed
qed

lemma crop_double_ok:
  assumes "representable b" "0 < b" "representable x"
  shows "\<exists>c. crop_double (Fin x) (Fin 0) (Fin b) = Fin c \<and> 0 \<le> c \<and> c < b \<and> representable c \<and> (0 \<le> x \<and> x < b \<longrightarrow> c = x)"
proof (cases "b \<le> max x 0")
  case True
  then have "crop_double (Fin x) (Fin 0) (Fin b) = next_below (Fin b)"
    using assms(2) by (simp add: crop_double_def Let_def fmin_Fin nexttoward_def isNaN_def flt_def)
  then show ?thesis using next_below_pos [OF assms(1,2)] True assms(2) by auto
next
  case False
  then have "crop_double (Fin x) (Fin 0) (Fin b) = Fin (max x 0)" by (simp add: crop_double_def Let_def fmin_Fin)
  moreover have "representable (max x 0)" using assms(3) representable_dyadic [of 0 0] by (simp add: max_def)
  ultimately show ?thesis using False by auto
qed

section \<open>Ranges\<close>

lemma representable_minus: "representable x \<Longrightarrow> representable (- x)"
  by (simp add: representable_def round_rat_minus)

text \<open>\<^verbatim>\<open>next()\<close> draws a multiple of \<open>2\<^sup>-\<^sup>5\<^sup>3\<close> below 1, without rounding.\<close>

lemma next_real_draw:
  "\<exists>n. 0 \<le> n \<and> n < 2 ^ 53 \<and> next_real r = Ret (Fin (of_int n / 2 ^ 53)) (draw_next (draw_next r)) \<and>
    n = 2 ^ 27 * (lcg_state (draw_next r) div 2 ^ 22) + lcg_state (draw_next (draw_next r)) div 2 ^ 21"
proof -
  let ?a = "lcg_state (draw_next r) div 2 ^ 22" and ?b = "lcg_state (draw_next (draw_next r)) div 2 ^ 21"
  have "0 \<le> ?a" "?a < 2 ^ 26" "0 \<le> ?b" "?b < 2 ^ 27"
    using state_bits(1) [of "draw_next r" 22] state_bits(1) [of "draw_next (draw_next r)" 21] state_bits(2) [of 22 "draw_next r"]
       state_bits(2) [of 21 "draw_next (draw_next r)"]
    by (simp_all del: lcg_state_next)
  then have n: "0 \<le> 2 ^ 27 * ?a + ?b" "2 ^ 27 * ?a + ?b < 2 ^ 53" by simp_all
  define n where "n = 2 ^ 27 * ?a + ?b"
  have b: "0 \<le> n" "n < 2 ^ 53" using n by (simp_all only: n_def)
  have "pow_unit 1" by (rule pow_unit_one)
  then have "pow_unit 2" using pow_unit_double [of 1] by simp
  from representable_scaled [of "2 ^ 52" 2, OF _ _ this] have "representable (2 ^ 53)" by simp
  then have p: "to_double (2 ^ 53) = Fin (2 ^ 53)" using to_double_small [of "2 ^ 53"] by (simp add: representable_def)
  have "to_double (of_int n) = Fin (of_int n)" using to_double_dyadic [OF b, of 0] by simp
  then have d: "fdiv (to_double (of_int n)) (to_double (of_int (push_bit 53 1))) = Fin (of_int n / 2 ^ 53)"
    using to_double_dyadic [OF b, of 53] p by (simp add: push_bit_eq_mult)
  have "(of_int n :: rat) < of_int (2 ^ 53)" using b(2) by (simp only: of_int_less_iff)
  then have "0 \<le> (of_int n / 2 ^ 53 :: rat)" "of_int n / 2 ^ 53 < (1 :: rat)" using b(1) by simp_all
  moreover have "representable 1" using representable_dyadic [of 1 0] by simp
  ultimately have "crop_double (Fin (of_int n / 2 ^ 53)) (Fin 0) (Fin 1) = Fin (of_int n / 2 ^ 53)"
    using crop_double_ok [of 1 "of_int n / 2 ^ 53"] representable_dyadic [OF b, of 53] by auto
  then have "next_real r = Ret (Fin (of_int n / 2 ^ 53)) (draw_next (draw_next r))"
    using d by (simp add: next_real_def nextBits_low push_bit_eq_mult n_def mult.commute)
  then show ?thesis using b n_def by blast
qed

lemma next_real_ok: "\<exists>x r'. next_real r = Ret (Fin x) r' \<and> 0 \<le> x \<and> x < 1 \<and> representable x"
proof -
  obtain n where n: "0 \<le> n" "n < 2 ^ 53" "next_real r = Ret (Fin (of_int n / 2 ^ 53)) (draw_next (draw_next r))" using next_real_draw [of r] by blast
  have "(of_int n :: rat) < of_int (2 ^ 53)" using n(2) by (simp only: of_int_less_iff)
  then show ?thesis using n representable_dyadic [OF n(1,2), of 53] by (intro exI [of _ "of_int n / 2 ^ 53"] exI [of _ "draw_next (draw_next r)"]) simp
qed

lemma product_double:
  assumes "pos_double b" "0 \<le> x" "x \<le> 1"
  shows "\<exists>y. fmul (Fin b) (Fin x) = Fin y \<and> representable y \<and> 0 \<le> y \<and> y \<le> b"
proof -
  have "b * x \<le> b * 1" using assms by (intro mult_left_mono) (simp_all add: pos_double_def)
  then have "round_rat (b * x) \<le> b" using assms(1) by (intro round_le_rep) (simp_all add: pos_double_def)
  moreover have "0 \<le> round_rat (b * x)" using assms by (intro round_rat_nonneg) (simp add: pos_double_def)
  ultimately show ?thesis using assms(1) by (intro exI [of _ "round_rat (b * x)"]) (auto simp: to_double_def Let_def pos_double_def)
qed

lemma next_real_n_ok:
  assumes "pos_double b"
  shows "\<exists>v r'. next_real_n (Fin b) r = Ret (Fin v) r' \<and> 0 \<le> v \<and> v < b \<and> representable v"
proof -
  obtain x r' where x: "next_real r = Ret (Fin x) r'" "0 \<le> x" "x < 1" using next_real_ok by blast
  obtain y where y: "fmul (Fin b) (Fin x) = Fin y" "representable y" using product_double [OF assms x(2)] x(3) by auto
  obtain c where "crop_double (Fin y) (Fin 0) (Fin b) = Fin c" "0 \<le> c" "c < b" "representable c"
    using crop_double_ok [of b y] assms y(2) by (auto simp: pos_double_def)
  then show ?thesis using x(1) y(1) assms by (simp add: next_real_n_def pos_double_def)
qed

text \<open>Doubles are multiples of the smallest one, so two different ones never have the difference zero.\<close>

lemma representable_units: "representable x \<Longrightarrow> \<exists>k. x = of_int k * min_unit"
proof -
  have pos: "\<exists>k. y = of_int k * min_unit" if y: "representable y" "0 < y" for y
  proof -
    obtain m where m: "y = of_int m * unit_of y" using representable_multiple [OF y] by blast
    obtain i where "unit_of y = 2 ^ i * min_unit" using unit_of_spec(1) [of y] unfolding pow_unit_def by blast
    then have "y = of_int (m * 2 ^ i) * min_unit" using m by simp
    then show ?thesis by blast
  qed
  assume x: "representable x"
  consider "x = 0" | "0 < x" | "0 < - x" by linarith
  then show ?thesis
  proof cases
    case 1
    then show ?thesis by (intro exI [of _ 0]) simp
  next
    case 2
    then show ?thesis using pos x by blast
  next
    case 3
    then obtain k where "- x = of_int k * min_unit" using pos [OF representable_minus [OF x]] by blast
    then show ?thesis by (intro exI [of _ "- k"]) simp
  qed
qed

lemma difference_pos:
  assumes "representable a" "representable b" "a < b"
  shows "min_unit \<le> b - a" "0 < round_rat (b - a)"
proof -
  obtain i j where ij: "a = of_int i * min_unit" "b = of_int j * min_unit" using representable_units assms(1,2) by meson
  then have "of_int i < (of_int j :: rat)" using assms(3) min_unit_pos by simp
  then have "(1 :: rat) \<le> of_int (j - i)" by (simp only: of_int_less_iff of_int_1_le_iff)
  then have "1 * min_unit \<le> of_int (j - i) * min_unit" using min_unit_pos by (intro mult_right_mono) simp_all
  then show d: "min_unit \<le> b - a" by (simp add: ij left_diff_distrib)
  have "pow_unit min_unit" unfolding pow_unit_def by (rule exI [of _ 0]) simp
  from representable_scaled [of 1, OF _ _ this] have "representable min_unit" by simp
  then show "0 < round_rat (b - a)" using rep_le_round [OF d] min_unit_pos by simp
qed

definition finite_double :: "rat \<Rightarrow> bool" where
  "finite_double x \<longleftrightarrow> representable x \<and> \<bar>x\<bar> < 2 ^ 1024"

text \<open>The width of a range, and a value below it added to the lower end.\<close>

lemma width_double:
  assumes "finite_double a" "finite_double b" "a < b" "round_rat (b - a) < 2 ^ 1024"
  shows "fsub (Fin b) (Fin a) = Fin (round_rat (b - a))" "pos_double (round_rat (b - a))"
proof -
  have p: "0 < round_rat (b - a)" using difference_pos(2) assms(1-3) by (simp add: finite_double_def)
  then show "pos_double (round_rat (b - a))" using assms(4) by (simp add: pos_double_def)
  have "- (2 ^ 1024) < round_rat (b - a)" using p by (rule less_trans [rotated]) simp
  then show "fsub (Fin b) (Fin a) = Fin (round_rat (b - a))" using assms(4) by (simp add: fsub_def to_double_def Let_def)
qed

lemma shifted_double:
  assumes "finite_double a" "finite_double b" "representable v" "0 \<le> v" "v < round_rat (b - a)"
  shows "\<exists>y. fadd (Fin v) (Fin a) = Fin y \<and> a \<le> y \<and> y \<le> b"
proof -
  have "v \<le> b - a" using assms(3,5) round_rat_mono [of "b - a" v] by (force simp: representable_def)
  then have "round_rat (v + a) \<le> b" using assms(2) by (intro round_le_rep) (simp_all add: finite_double_def)
  moreover have "a \<le> round_rat (v + a)" using assms(1,4) by (intro rep_le_round) (simp_all add: finite_double_def)
  moreover have "b < 2 ^ 1024" "- (2 ^ 1024) < a" using assms(1,2) unfolding finite_double_def by linarith+
  ultimately have "to_double (v + a) = Fin (round_rat (v + a))" by (simp add: to_double_def Let_def)
  then show ?thesis using \<open>round_rat (v + a) \<le> b\<close> \<open>a \<le> round_rat (v + a)\<close> by simp
qed

lemma next_real_range_ok:
  assumes "finite_double a" "finite_double b" "a < b" "round_rat (b - a) < 2 ^ 1024"
  shows "\<exists>v r'. next_real_range (Fin a) (Fin b) r = Ret (Fin v) r' \<and> a \<le> v \<and> v \<le> b"
proof -
  note w = width_double [OF assms]
  obtain v r' where v: "next_real_n (Fin (round_rat (b - a))) r = Ret (Fin v) r'" "0 \<le> v" "v < round_rat (b - a)" "representable v"
    using next_real_n_ok [OF w(2)] by blast
  obtain y where "fadd (Fin v) (Fin a) = Fin y" "a \<le> y" "y \<le> b" using shifted_double [OF assms(1,2) v(4,2,3)] by blast
  then show ?thesis using v(1) w(1) assms(3) by (simp add: next_real_range_def)
qed

section \<open>Weighted values\<close>

lemma wnext_real_loop_ok:
  assumes "\<And>x y. better (Fin x) (Fin y) \<in> {Fin x, Fin y}" "0 \<le> x" "x < 1"
  shows "\<exists>v r'. wnext_real_loop better i (Fin x) r = Ret (Fin v) r' \<and> 0 \<le> v \<and> v < 1"
  using assms(2,3)
proof (induction i arbitrary: x r)
  case (Suc i)
  obtain y r1 where y: "next_real r = Ret (Fin y) r1" "0 \<le> y" "y < 1" using next_real_ok by blast
  have "better (Fin x) (Fin y) = Fin x \<or> better (Fin x) (Fin y) = Fin y" using assms(1) by blast
  then show ?case using Suc y by auto
qed simp

text \<open>What the code needs of \<^verbatim>\<open>std::pow\<close>: a power of a number below 1 with an exponent up to 1 is between 0 and 1.\<close>

definition unit_pow :: "(double \<Rightarrow> double \<Rightarrow> double) \<Rightarrow> bool" where
  "unit_pow pow \<longleftrightarrow> (\<forall>x y. 0 \<le> x \<and> x < 1 \<and> 0 < y \<and> y \<le> 1 \<longrightarrow> (\<exists>z. pow (Fin x) (Fin y) = Fin z \<and> 0 \<le> z \<and> z \<le> 1))"

lemma inverse_type:
  assumes "1 \<le> m" "m < 2 ^ 31"
  shows "\<exists>y. fdiv (Fin 1) (to_double (of_int m)) = Fin y \<and> 0 < y \<and> y \<le> 1"
proof -
  have "to_double (of_int m) = Fin (of_int m)" using to_double_dyadic [of m 0] assms by simp
  moreover have "(of_int m :: rat) \<le> of_int (2 ^ 31)" using assms(2) by (simp only: of_int_le_iff)
  then have l: "1 / 2 ^ 31 \<le> (1 / of_int m :: rat)" using assms(1) by (intro divide_left_mono) simp_all
  have "round_rat (1 / of_int m) \<le> 1" using assms(1) representable_dyadic [of 1 0] by (intro round_le_rep) simp_all
  moreover have "1 / 2 ^ 31 \<le> round_rat (1 / of_int m)" using representable_dyadic [of 1 31] by (intro rep_le_round [OF l]) simp
  moreover from this have "0 < round_rat (1 / of_int m)" by (rule less_le_trans [rotated]) simp
  ultimately show ?thesis by (auto simp: to_double_def Let_def)
qed

lemma wnext_real_ok:
  assumes "pos_double b" "INT_MIN < type" "\<bar>type\<bar> < INT_MAX"
    and "unit_pow pow"
  shows "\<exists>v r'. wnext_real pow (Fin b) type r = Ret (Fin v) r' \<and> 0 \<le> v \<and> v \<le> b"
proof (cases "\<bar>type\<bar> < rt_lim")
  case True
  have choose: "fmax (Fin c) (Fin d) \<in> {Fin c, Fin d}" "fmin (Fin c) (Fin d) \<in> {Fin c, Fin d}" for c d by (simp_all add: fmin_Fin max_def min_def)
  obtain x r1 where x: "next_real r = Ret (Fin x) r1" "0 \<le> x" "x < 1" using next_real_ok by blast
  obtain y r2 where y: "wnext_real_loop fmax (nat type) (Fin x) r1 = Ret (Fin y) r2" "0 \<le> y" "y < 1"
    using wnext_real_loop_ok [of fmax, OF choose(1) x(2,3)] by blast
  obtain z r3 where z: "wnext_real_loop fmin (nat (- type)) (Fin y) r2 = Ret (Fin z) r3" "0 \<le> z" "z < 1"
    using wnext_real_loop_ok [of fmin, OF choose(2) y(2,3)] by blast
  obtain v where "fmul (Fin b) (Fin z) = Fin v" "0 \<le> v" "v \<le> b" using product_double [OF assms(1) z(2)] z(3) by auto
  then show ?thesis using True x(1) y(1) z(1) assms(1,2) by (simp add: wnext_real_def pos_double_def)
next
  case False
  obtain x r1 where x: "next_real r = Ret (Fin x) r1" "0 \<le> x" "x < 1" "representable x" using next_real_ok by blast
  have x0: "to_double x = Fin x" using x(2-4) by (simp add: to_double_def Let_def representable_def)
  define p where "p = (if type > 0 then pow (Fin x) (fdiv (Fin 1) (to_double (of_int (type + 1))))
                 else fsub (Fin 1) (pow (Fin x) (fdiv (Fin 1) (to_double (of_int (- type + 1))))))"
  have "\<exists>q. p = Fin q \<and> 0 \<le> q \<and> q \<le> 1"
  proof -
    have e: "\<exists>z. pow (Fin x) (fdiv (Fin 1) (to_double (of_int m))) = Fin z \<and> 0 \<le> z \<and> z \<le> 1" if "1 \<le> m" "m < 2 ^ 31" for m
      using inverse_type [OF that] assms(4) x(2,3) unfolding unit_pow_def by metis
    show ?thesis
    proof (cases "type > 0")
      case True
      then show ?thesis using e [of "type + 1"] assms(3) by (simp add: p_def INT_MAX_def)
    next
      case neg: False
      obtain z where z: "pow (Fin x) (fdiv (Fin 1) (to_double (of_int (- type + 1)))) = Fin z" "0 \<le> z" "z \<le> 1"
        using e [of "- type + 1"] neg assms(3) by (auto simp: INT_MAX_def)
      have "0 \<le> round_rat (1 - z)" "round_rat (1 - z) \<le> 1"
        using z(2,3) round_rat_nonneg [of "1 - z"] round_le_rep [of "1 - z" 1] representable_dyadic [of 1 0] by simp_all
      then show ?thesis using z(1) neg by (simp add: p_def fsub_def to_double_def Let_def)
    qed
  qed
  then obtain q where q: "p = Fin q" "0 \<le> q" "q \<le> 1" by blast
  obtain y where y: "fmul (Fin b) (Fin q) = Fin y" "representable y" using product_double [OF assms(1) q(2,3)] by blast
  obtain c where c: "crop_double (Fin y) (Fin 0) (Fin b) = Fin c" "0 \<le> c" "c < b"
    using crop_double_ok [of b y] assms(1) y(2) by (auto simp: pos_double_def)
  have "wnext_real pow (Fin b) type r = Ret (crop_double (fmul (Fin b) p) (Fin 0) (Fin b)) r1"
    using False x(1) assms(1-3) by (simp add: wnext_real_def x0 p_def pos_double_def Let_def)
  then show ?thesis using q(1) y(1) c by auto
qed

section \<open>The upper end can be reached\<close>

text \<open>
  The comment in the source promises values below \<^verbatim>\<open>to\<close>, but the sum \<^verbatim>\<open>next(to - from) + from\<close> is rounded: between
  \<open>2\<^sup>5\<^sup>3\<close> and the next double \<open>2\<^sup>5\<^sup>3 + 2\<close> every draw above one half gives the upper end.
\<close>

lemma upper_end:
  assumes "1 < v" "v \<le> 2"
  shows "round_rat (v + 2 ^ 53) = 2 ^ 53 + 2"
proof -
  let ?x = "v + 2 ^ 53"
  have u: "unit_of ?x = 2"
  proof -
    obtain i where i: "unit_of ?x = 2 ^ i * min_unit" using unit_of_spec(1) [of ?x] unfolding pow_unit_def by blast
    have p: "pow_unit 1" "pow_unit 2" using pow_unit_one pow_unit_double [of 1] by simp_all
    have "1 < unit_of ?x" using unit_of_spec(2) [of ?x] assms(1) by simp
    then have lo: "2 \<le> unit_of ?x" using pow_unit_less [OF p(1) unit_of_spec(1)] by simp
    have "unit_of ?x < 4"
    proof (rule ccontr)
      assume big: "\<not> unit_of ?x < 4"
      then have "unit_of ?x \<noteq> min_unit" using pow_unit_min [OF pow_unit_one] by auto
      then have "2 ^ 52 * unit_of ?x \<le> ?x" using unit_of_spec(3) by blast
      then show False using big assms(2) by simp
    qed
    then show ?thesis using lo pow_unit_less [OF p(2) unit_of_spec(1), of ?x] by linarith
  qed
  have "rne (?x / 2) = 2 ^ 52 + 1"
  proof -
    have "?x / 2 = of_int (2 ^ 52 + 1) - (1 - v / 2)" by simp
    then have "of_int (2 ^ 52) + 1 / 2 < ?x / 2" "?x / 2 \<le> of_int (2 ^ 52 + 1)" using assms by simp_all
    moreover from this have "\<lfloor>?x / 2\<rfloor> = 2 ^ 52 \<or> ?x / 2 = of_int (2 ^ 52 + 1)" by linarith
    ultimately show ?thesis by (auto simp: rne_def Let_def)
  qed
  then have "round_pos ?x = 2 ^ 53 + 2" unfolding round_pos_def u by simp
  then show ?thesis using assms(1) by (simp add: round_rat_def)
qed

lemma upper_end_reached:
  assumes "2 ^ 52 < n" "n < 2 ^ 53" "next_real r = Ret (Fin (of_int n / 2 ^ 53)) r'"
  shows "next_real_range (Fin (2 ^ 53)) (Fin (2 ^ 53 + 2)) r = Ret (Fin (2 ^ 53 + 2)) r'"
proof -
  have d: "to_double 2 = Fin 2" using to_double_dyadic [of 2 0] by simp
  have n: "of_int (2 ^ 52) < (of_int n :: rat)" "of_int n < (of_int (2 ^ 53) :: rat)" using assms(1,2) by (simp_all only: of_int_less_iff)
  have m: "2 * (of_int n / 2 ^ 53) = (of_int n / 2 ^ 52 :: rat)" by simp
  have v: "1 < (of_int n / 2 ^ 52 :: rat)" "of_int n / 2 ^ 52 < (2 :: rat)" using n by simp_all
  have f: "fmul (Fin 2) (Fin (of_int n / 2 ^ 53)) = Fin (of_int n / 2 ^ 52)"
    unfolding fmul.simps m using to_double_dyadic [of n 52] assms(1,2) by simp
  have rep: "representable 2" "representable (of_int n / 2 ^ 52)" using representable_dyadic [of 2 0] representable_dyadic [of n 52] assms(1,2) by simp_all
  have "crop_double (Fin (of_int n / 2 ^ 52)) (Fin 0) (Fin 2) = Fin (of_int n / 2 ^ 52)"
    using crop_double_ok [OF rep(1) _ rep(2)] v by auto
  then have x: "next_real_n (Fin 2) r = Ret (Fin (of_int n / 2 ^ 52)) r'" using assms(3) f by (simp add: next_real_n_def)
  have "fadd (Fin (of_int n / 2 ^ 52)) (Fin (2 ^ 53)) = Fin (2 ^ 53 + 2)"
    using upper_end [OF v(1)] v(2) by (simp add: to_double_def Let_def)
  moreover have "fsub (Fin (2 ^ 53 + 2)) (Fin (2 ^ 53)) = Fin 2" using d by (simp add: fsub_def)
  ultimately show ?thesis using x by (simp add: next_real_range_def)
qed

end
