(* ===== verification/TL_Points.thy ===== *)
theory TL_Points
  imports TL_Scorer TL_Real_Ranges
begin

text \<open>
  The points of a scorer as doubles: \<^verbatim>\<open>serializePoints\<close> writes three decimals, so points that have three
  decimals survive the way to the scorer and back. Of \<^verbatim>\<open>sscanf\<close> only its documented behaviour on decimal
  numbers is used.
\<close>

definition decimal_scan :: "(string \<Rightarrow> double option option) \<Rightarrow> bool" where
  "decimal_scan scan \<longleftrightarrow> (\<forall>w x. float_notation w x \<longrightarrow> scan w = Some (Some (to_double x)))"

text \<open>The double next to a number with three decimals, up to a billion; \<open>None\<close> is NaN.\<close>

definition three_decimals :: "double option \<Rightarrow> bool" where
  "three_decimals points \<longleftrightarrow> (case points of None \<Rightarrow> True | Some d \<Rightarrow> \<exists>n. \<bar>n\<bar> \<le> 10 ^ 12 \<and> d = to_double (of_int n / 1000))"

text \<open>\<^verbatim>\<open>printf("%.3f")\<close> on the points, and the guard with the conversions of doubles.\<close>

definition points_text :: "double option \<Rightarrow> string" where
  "points_text points = (case points of None \<Rightarrow> format_f 3 NaN | Some d \<Rightarrow> format_f 3 d)"

section \<open>Three decimals are kept\<close>

lemma format_f_notation:
  assumes "0 < k"
  shows "float_notation (format_f k (Fin r)) ((if r < 0 then - 1 else 1) * of_int (rne (\<bar>r\<bar> * 10 ^ k)) / 10 ^ k)"
proof -
  obtain ip fp where t: "format_f k (Fin r) = (if r < 0 then ''-'' else []) @ ip @ ''.'' @ fp" "ip \<noteq> []" "length fp = k" "list_all is_digit (ip @ fp)"
    "digits_val (ip @ fp) = rne (\<bar>r\<bar> * 10 ^ k)" using format_f_text [OF assms] by blast
  have "sign_text (if r < 0 then ''-'' else []) (r < 0)" by (simp add: sign_text.intros)
  moreover have "mantissa_text (ip @ ''.'' @ fp) (of_int (digits_val (ip @ fp)) / 10 ^ length fp)"
    using mantissa_text.point [of ip fp] t(2,4) by simp
  ultimately show ?thesis unfolding t(1) using float_notation.float [OF _ _ no_exponent] t(3,5) by (cases "r < 0") (fastforce simp: power10_def)+
qed

lemma rne_near: "\<bar>x - of_int n\<bar> < 1 / 2 \<Longrightarrow> rne x = n"
proof -
  assume "\<bar>x - of_int n\<bar> < 1 / 2"
  then have "of_int (rne x) - of_int n < (1 :: rat)" "of_int n - of_int (rne x) < (1 :: rat)" using rne_bounds [of x] by linarith+
  then have "of_int (rne x - n) < (of_int 1 :: rat)" "of_int (n - rne x) < (of_int 1 :: rat)" by simp_all
  then show ?thesis unfolding of_int_less_iff by simp
qed

lemma three_decimals_rounded:
  assumes "\<bar>n\<bar> \<le> 10 ^ 12" "r = round_rat (of_int n / 1000)"
  shows "rne (\<bar>r\<bar> * 10 ^ 3) = \<bar>n\<bar>" "r < 0 \<longleftrightarrow> n < 0"
proof -
  let ?x = "of_int n / 1000 :: rat"
  have "(of_int \<bar>n\<bar> :: rat) \<le> of_int (10 ^ 12)" using assms(1) by (simp only: of_int_le_iff)
  then have x: "\<bar>?x\<bar> \<le> 1000000000" by simp
  have e: "\<bar>r - ?x\<bar> < 1 / 4000" using round_err [of ?x] x unfolding assms(2) by linarith
  then have "\<bar>\<bar>r\<bar> - \<bar>?x\<bar>\<bar> < 1 / 4000" by linarith
  moreover have "\<bar>r\<bar> * 10 ^ 3 - of_int \<bar>n\<bar> = (\<bar>r\<bar> - \<bar>?x\<bar>) * 1000" by simp
  ultimately have "\<bar>\<bar>r\<bar> * 10 ^ 3 - of_int \<bar>n\<bar>\<bar> < 1 / 2" by (simp only: abs_mult) simp
  then show "rne (\<bar>r\<bar> * 10 ^ 3) = \<bar>n\<bar>" by (rule rne_near)
  show "r < 0 \<longleftrightarrow> n < 0"
  proof
    assume "n < 0"
    then have "(of_int n :: rat) \<le> of_int (- 1)" by (simp only: of_int_le_iff)
    then have "?x \<le> - 1 / 1000" by simp
    then show "r < 0" using e by linarith
  next
    assume "r < 0"
    then show "n < 0" using round_rat_nonneg [of ?x] unfolding assms(2) by (cases "0 \<le> n") simp_all
  qed
qed

lemma three_decimals_read_back:
  assumes "decimal_scan scan" "three_decimals points"
  shows "points_read_back (format_f 3) scan points"
proof (cases points)
  case (Some d)
  obtain n where n: "\<bar>n\<bar> \<le> 10 ^ 12" "d = to_double (of_int n / 1000)" using assms(2) by (auto simp: three_decimals_def Some)
  define r where "r = round_rat (of_int n / 1000)"
  have "(of_int \<bar>n\<bar> :: rat) \<le> of_int (10 ^ 12)" using n(1) by (simp only: of_int_le_iff)
  then have "\<bar>of_int n / 1000 :: rat\<bar> \<le> 10 ^ 303" by simp
  then have d: "d = Fin r" using n(2) to_double_small by (simp add: r_def)
  note t = three_decimals_rounded [OF n(1) r_def]
  have f: "float_notation (format_f 3 (Fin r)) (of_int n / 1000)"
    using format_f_notation [of 3 r] t by (cases "n < 0") simp_all
  have shape: "format_f 3 (Fin r) = (if n < 0 then ''-'' else []) @ vtos (\<bar>n\<bar> div 1000) @ ''.'' @ pad_zeroes 3 (vtos (\<bar>n\<bar> mod 1000))"
    using t by (simp add: format_f_def Let_def)
  have "\<bar>n\<bar> div 1000 < 10 ^ 10" using n(1) by simp
  then have "length (vtos (\<bar>n\<bar> div 1000)) \<le> 10" using length_vtos_bound [of "\<bar>n\<bar> div 1000" 9] by simp
  moreover have "length (vtos (\<bar>n\<bar> mod 1000)) \<le> 3" using length_vtos_bound [of "\<bar>n\<bar> mod 1000" 2] by simp
  then have "length (pad_zeroes 3 (vtos (\<bar>n\<bar> mod 1000))) = 3" by (simp add: pad_zeroes_def)
  moreover have "length ((if n < 0 then ''-'' else []) @ u @ ''.'' @ v) \<le> 63" if "length u \<le> 10" "length v = 3" for u v :: string
    using that by simp
  ultimately have "length (format_f 3 (Fin r)) \<le> 63" unfolding shape by blast
  then have short: "take 63 (format_f 3 (Fin r)) = format_f 3 (Fin r)" by simp
  have "list_all is_digit (vtos (\<bar>n\<bar> div 1000))" "list_all is_digit (vtos (\<bar>n\<bar> mod 1000))" by (intro vtos_digits; simp)+
  moreover have "plain_char c" if "is_digit c \<or> c = CHR ''-'' \<or> c = CHR ''.''" for c
    using that by (auto simp: plain_char_def is_digit_def schar_def)
  ultimately have "list_all plain_char (format_f 3 (Fin r))" unfolding shape by (auto simp: list_all_iff pad_zeroes_def)
  moreover have "format_f 3 (Fin r) \<noteq> []" by (simp add: shape)
  moreover have "scan (format_f 3 (Fin r)) = Some (Some d)" using assms(1) f n(2) by (auto simp: decimal_scan_def)
  ultimately show ?thesis using short by (simp add: points_read_back_def Some d)
qed (simp add: points_read_back_def)

end
