(* ===== verification/TL_Program.thy ===== *)
theory TL_Program
  imports TL_Verdict TL_Validator TL_Opts TL_Print TL_Points TL_Random
begin

text \<open>
  The end of a program with all that the finalize guard looks at (the verdict, the options, the logs of the
  validator), and the small entry points that pass their work on: overloads for other types, functions that
  must not be called, and the accessors of the validator.
\<close>

section \<open>The finalize guard\<close>

text \<open>
  The destructor of \<^verbatim>\<open>TestlibFinalizeGuard\<close> with its calls of \<^verbatim>\<open>autoEnsureNoUnusedOpts\<close> and of the validator;
  \<open>code\<close> is \<^verbatim>\<open>__testlib_exitCode\<close>.
\<close>

definition guard_logs :: "env \<Rightarrow> (vstate, unit) prog" where
  "guard_logs env gv = andThen (writeTestOverviewLog env gv) (\<lambda>_ gv. andThen (writeTestMarkup env gv) (\<lambda>_ gv. writeTestCase env gv))"

definition whole_guard :: "env \<Rightarrow> int \<Rightarrow> testlib \<Rightarrow> Validator \<Rightarrow> testlib_opts \<Rightarrow> ending \<times> Validator" where
  "whole_guard env code g0 v os =
     (let was_alive = tl_alive g0;
          g = g0\<lparr>tl_alive := False\<rparr>;
          fail = (\<lambda>msg g v. (quit env (stream_info_of (tl_ouf g)) TR_fail msg g, v))
      in if was_alive \<and> tl_mode g = TM_checker \<and> tl_quitCount g = 0 then fail ''Checker must end with quit or quitf call.'' g v
         else if was_alive \<and> tl_mode g = TM_validator \<and> tl_readEofCount g = 0 \<and> tl_quitCount g = 0
         then fail ''Validator must end with readEof call.'' g v
         else case (if was_alive then autoEnsureNoUnusedOpts os else Ret () os) of
           Quit q _ \<Rightarrow> fail (q_msg q) g v
         | Crash \<Rightarrow> (Aborted, v)
         | Ret _ _ \<Rightarrow>
             if was_alive \<and> \<not> tl_registered g
             then fail ''Call register-function in the first line of the main (registerTestlibCmd or other similar)'' g v
             else if code = 0 then
               (case guard_logs env (g, v) of
                  Ret _ gv \<Rightarrow> (Exited code (fst gv), snd gv)
                | Quit q gv \<Rightarrow> fail (q_msg q) (fst gv) (snd gv)
                | Crash \<Rightarrow> (Aborted, v))
             else (Exited code g, v))"

definition disableFinalizeGuard :: "(testlib, unit) prog" where
  "disableFinalizeGuard g = Ret () (g\<lparr>tl_alive := False\<rparr>)"

text \<open>A program that reads no options and has no files to write for a validator ends as the guard of a checker says.\<close>

definition no_logs :: "Validator \<Rightarrow> bool" where
  "no_logs v \<longleftrightarrow> v_testOverviewLogFileName v = [] \<and> v_testMarkupFileName v = [] \<and> v_testCase v \<le> 0"

lemma guard_logs_none: "no_logs v \<Longrightarrow> guard_logs env (g, v) = Ret () (g, v)"
  by (simp add: guard_logs_def no_logs_def writeTestOverviewLog_def writeTestMarkup_def writeTestCase_def)

theorem whole_guard_checker:
  assumes "no_logs v" "\<not> os_ensureFlag os"
  shows "whole_guard env code g v os = (finalize_guard env code g, v)"
  using assms guard_logs_none [OF assms(1)] by (simp add: whole_guard_def finalize_guard_def autoEnsureNoUnusedOpts_def Let_def)

text \<open>A generator that was given an option that it did not read fails.\<close>

theorem unused_option_fails:
  assumes "tl_alive g" "os_ensureFlag os" "\<not> os_suppressed os" "(key, opt) \<in> set (os_opts os)" "\<not> opt_used opt"
  shows "\<exists>g'. fst (whole_guard env code g v os) = Exited 3 g'"
proof -
  have "ensureNoUnusedOpts os \<noteq> Ret () os" using assms(4,5) by (auto simp: ensureNoUnusedOpts_iff)
  then obtain q where "autoEnsureNoUnusedOpts os = Quit q os"
    using assms(2,3) by (auto simp: autoEnsureNoUnusedOpts_def ensureNoUnusedOpts_def testlib_fail_def split: list.splits)
  then show ?thesis using assms(1) quit_fail by (auto simp: whole_guard_def Let_def)
qed

text \<open>The files that a validator has written are never forgotten.\<close>

lemma write_file_written: "write_file env f c m1 m2 gv = Ret () gv' \<Longrightarrow> v_written (snd gv') = v_written (snd gv) @ [(f, c)]"
  by (auto simp: write_file_def Let_def testlib_fail_def split: if_splits)

lemma on_testlib_same: "on_testlib f gv = Ret a gv' \<Longrightarrow> snd gv' = snd gv"
  by (auto simp: on_testlib_def split: outcome.splits)

lemma later_logs_keep:
  assumes "andThen (writeTestMarkup env gv) (\<lambda>_ gv. writeTestCase env gv) = Ret () gv'"
  shows "set (v_written (snd gv)) \<subseteq> set (v_written (snd gv'))"
proof -
  obtain gv1 where w: "writeTestMarkup env gv = Ret () gv1" "writeTestCase env gv1 = Ret () gv'" using assms by (auto simp: andThen_Ret_iff)
  have "set (v_written (snd gv)) \<subseteq> set (v_written (snd gv1))"
    using w(1) by (auto simp: writeTestMarkup_def andThen_Ret_iff dest!: on_testlib_same write_file_written split: if_splits)
  moreover have "set (v_written (snd gv1)) \<subseteq> set (v_written (snd gv'))"
    using w(2) by (auto simp: writeTestCase_def andThen_Ret_iff Let_def dest!: on_testlib_same write_file_written split: if_splits)
  ultimately show ?thesis by blast
qed

text \<open>
  The log of the bounds, features and variables is written exactly when the test was valid: if the program
  ends with code 0 the file holds the tables of the validator, and a program that quit with another code writes nothing.
\<close>

definition overview_text :: "Validator \<Rightarrow> string" where
  "overview_text v = c_text (getBoundsHitLog v) @ c_text (getFeaturesLog v) @ c_text (getConstantBoundsLog v) @ c_text (getVariablesLog v)"

lemma overview_written:
  assumes "v_testOverviewLogFileName v \<noteq> []" "whole_guard env code g v os = (Exited 0 g', v')"
  shows "(v_testOverviewLogFileName v, overview_text v) \<in> set (v_written v')"
proof -
  have fail: "quit env info TR_fail m h \<noteq> Exited 0 h'" for info m h h' using quit_fail_code by fastforce
  have "\<exists>gv. guard_logs env (g\<lparr>tl_alive := False\<rparr>, v) = Ret () gv \<and> v' = snd gv"
    using assms(2) fail unfolding whole_guard_def Let_def by (auto split: if_splits outcome.splits)
  then obtain gv1 gv where *: "writeTestOverviewLog env (g\<lparr>tl_alive := False\<rparr>, v) = Ret () gv1"
    "andThen (writeTestMarkup env gv1) (\<lambda>_ gv. writeTestCase env gv) = Ret () gv" "v' = snd gv" by (auto simp: guard_logs_def andThen_Ret_iff)
  then have "(v_testOverviewLogFileName v, overview_text v) \<in> set (v_written (snd gv1))"
    using assms(1) by (auto simp: writeTestOverviewLog_def Let_def overview_text_def dest!: write_file_written)
  then show ?thesis using later_logs_keep [OF *(2)] *(3) by blast
qed

lemma nothing_written:
  assumes "code \<noteq> 0"
  shows "snd (whole_guard env code g v os) = v"
  using assms by (auto simp: whole_guard_def Let_def split: outcome.split)

section \<open>Quitting\<close>

text \<open>
  The overloads of \<^verbatim>\<open>quitp\<close> hand over a C string. A \<^verbatim>\<open>float\<close> is a double; a \<^verbatim>\<open>long double\<close> is rounded to one: here
  it is any rational number, an infinity or NaN.
\<close>

definition quitp_double :: "double \<Rightarrow> string \<Rightarrow> (testlib, 'a) prog" where
  "quitp_double points message = quitp points (c_text message)"

definition quitp_float :: "double \<Rightarrow> string \<Rightarrow> (testlib, 'a) prog" where
  "quitp_float points message = quitp points (c_text message)"

definition narrow :: "double \<Rightarrow> double" where
  "narrow x = (case x of Fin r \<Rightarrow> to_double r | y \<Rightarrow> y)"

definition quitp_long_double :: "double \<Rightarrow> string \<Rightarrow> (testlib, 'a) prog" where
  "quitp_long_double points message = quitp (narrow points) (c_text message)"

definition quitp_integer :: "int \<Rightarrow> string \<Rightarrow> (testlib, 'a) prog" where
  "quitp_integer points message = quitp_int points (c_text message)"

text \<open>\<^verbatim>\<open>quitf\<close>, on the text that its format gives.\<close>

definition quitf :: "TResult \<Rightarrow> string \<Rightarrow> (testlib, 'a) prog" where
  "quitf result message = quit_free result message"

definition expectedButFound_float :: "TResult \<Rightarrow> double \<Rightarrow> double \<Rightarrow> string \<Rightarrow> (testlib, 'a) prog" where
  "expectedButFound_float result expected found prepend = expectedButFound_double result expected found prepend"

definition expectedButFound_long_double :: "TResult \<Rightarrow> double \<Rightarrow> double \<Rightarrow> string \<Rightarrow> (testlib, 'a) prog" where
  "expectedButFound_long_double result expected found prepend = expectedButFound_double result (narrow expected) (narrow found) prepend"

text \<open>The functions of the standard library that testlib replaces so that they fail.\<close>

definition random_shuffle :: "(testlib, unit) prog" where
  "random_shuffle = quitf TR_fail ''Don't use random_shuffle(), use shuffle() instead''"

definition c_rand :: "(testlib, int) prog" where
  "c_rand = quitf TR_fail ''Don't use rand(), use rnd.next() instead''"

definition c_srand :: "int \<Rightarrow> (testlib, unit) prog" where
  "c_srand seed = quitf TR_fail (''Don't use srand(), you should use 'registerGen(argc, argv, 1);' to initialize generator seed '' @
     ''by hash code of the command line params. The third parameter is randomGeneratorVersion (currently the latest is 1) [ignored seed='' @
     vtos seed @ ''].'')"

text \<open>\<^verbatim>\<open>__testlib_ensuresPreconditions\<close>: the sizes of the types are checked when the program is compiled.\<close>

definition ensuresPreconditions :: "(testlib, unit) prog" where
  "ensuresPreconditions g =
     (if \<not> isNaN NaN then quit_free TR_fail (''Function __testlib_isNaN is not working correctly: possible reason is '' @ [CHR 0x27] @ ''-ffast-math'' @ [CHR 0x27]) g
      else if \<not> isNaN (fneg NaN) then quit_free TR_fail (''Function __testlib_isNaN is not working correctly: possible reason is '' @ [CHR 0x27] @ ''-ffast-math'' @ [CHR 0x27]) g
      else Ret () g)"

text \<open>\<^verbatim>\<open>startTest\<close>: \<open>canWrite\<close> answers whether the standard output can be redirected to a file.\<close>

definition startTest :: "(string \<Rightarrow> bool) \<Rightarrow> int \<Rightarrow> (string, unit) prog" where
  "startTest canWrite test out =
     (let testFileName = vtos test in
      if \<not> canWrite testFileName then testlib_fail (''Unable to write file '' @ [CHR 0x27] @ testFileName @ [CHR 0x27]) out
      else Ret () [])"

definition getTestset :: "testlib \<Rightarrow> string" where "getTestset g = tl_testset g"
definition getGroup :: "testlib \<Rightarrow> string" where "getGroup g = tl_group g"

section \<open>Overloads\<close>

definition toString :: "int \<Rightarrow> string" where
  "toString t = vtos t"

definition join_range :: "string list \<Rightarrow> string" where
  "join_range xs = join xs '' ''"

definition join_collection :: "string list \<Rightarrow> string \<Rightarrow> string" where
  "join_collection collection separator = join collection separator"

definition join_words :: "string list \<Rightarrow> string" where
  "join_words collection = join_collection collection '' ''"

definition println_iterators :: "printable list \<Rightarrow> (string, unit) prog" where
  "println_iterators xs = println_range xs"

definition println_pointers :: "printable list \<Rightarrow> (string, unit) prog" where
  "println_pointers xs = println_range xs"

definition opt_text_index :: "int \<Rightarrow> (testlib_opts, opt_val) prog" where
  "opt_text_index index = opt_index OT_string index"

definition opt_text_index_default :: "int \<Rightarrow> string \<Rightarrow> (testlib_opts, opt_val) prog" where
  "opt_text_index_default index default_value = opt_index_default OT_string index (OV_string default_value)"

definition opt_text_key :: "string \<Rightarrow> (testlib_opts, opt_val) prog" where
  "opt_text_key key = opt_key OT_string key"

definition opt_text_key_default :: "string \<Rightarrow> string \<Rightarrow> (testlib_opts, opt_val) prog" where
  "opt_text_key_default key default_value = opt_key_default OT_string key (OV_string default_value)"

text \<open>\<^verbatim>\<open>registerGen(argc, argv)\<close> warns and takes the old version of the generator; \<^verbatim>\<open>next(format, ...)\<close> is a pattern.\<close>

definition registerGen_0 :: "string list \<Rightarrow> (gen_state, unit) prog" where
  "registerGen_0 argv = registerGen argv 0"

definition next_format :: "string \<Rightarrow> (random_t, string) prog" where
  "next_format ptrn = rnd_string ptrn"

section \<open>Accessors of the validator\<close>

definition testOverviewLogFileName :: "Validator \<Rightarrow> string" where "testOverviewLogFileName v = v_testOverviewLogFileName v"
definition testMarkupFileName :: "Validator \<Rightarrow> string" where "testMarkupFileName v = v_testMarkupFileName v"
definition v_get_testCase :: "Validator \<Rightarrow> int" where "v_get_testCase v = v_testCase v"
definition testCaseFileName :: "Validator \<Rightarrow> string" where "testCaseFileName v = v_testCaseFileName v"
definition setTestset :: "string \<Rightarrow> Validator \<Rightarrow> Validator" where "setTestset x v = v\<lparr>v_testset := x\<rparr>"
definition setGroup :: "string \<Rightarrow> Validator \<Rightarrow> Validator" where "setGroup x v = v\<lparr>v_group := x\<rparr>"
definition setTestOverviewLogFileName :: "string \<Rightarrow> Validator \<Rightarrow> Validator" where
  "setTestOverviewLogFileName x v = v\<lparr>v_testOverviewLogFileName := x\<rparr>"
definition setTestMarkupFileName :: "string \<Rightarrow> Validator \<Rightarrow> Validator" where "setTestMarkupFileName x v = v\<lparr>v_testMarkupFileName := x\<rparr>"
definition v_setTestCase :: "int \<Rightarrow> Validator \<Rightarrow> Validator" where "v_setTestCase n v = v\<lparr>v_testCase := n\<rparr>"
definition setTestCaseFileName :: "string \<Rightarrow> Validator \<Rightarrow> Validator" where "setTestCaseFileName x v = v\<lparr>v_testCaseFileName := x\<rparr>"

lemmas setter_defs = setTestset_def setGroup_def setTestOverviewLogFileName_def setTestMarkupFileName_def v_setTestCase_def setTestCaseFileName_def

section \<open>What the small entry points do\<close>

lemma setters_ok: "validator_ok v \<Longrightarrow> validator_ok (setTestset x v) \<and> validator_ok (setGroup x v) \<and> validator_ok (setTestOverviewLogFileName x v) \<and>
    validator_ok (setTestMarkupFileName x v) \<and> validator_ok (v_setTestCase n v) \<and> validator_ok (setTestCaseFileName x v)"
  by (simp add: setter_defs validator_ok_def)

lemma preconditions_hold: "ensuresPreconditions g = Ret () g"
  by (simp add: ensuresPreconditions_def isNaN_def)

text \<open>A program that calls one of the replaced functions of the standard library fails.\<close>

lemma quitf_fail_ends:
  assumes "tl_alive g" "tl_registered g"
  shows "\<exists>g'. run_main env (andThen (quitf TR_fail msg g) rest) = Exited 3 g'"
proof -
  obtain g' where "quit env (quit_info (QuitReq None TR_fail msg) g) TR_fail msg g = Exited 3 g'" using quit_fail by blast
  then show ?thesis using run_main_quit [of env "QuitReq None TR_fail msg" g 3 g'] assms by (simp add: quitf_def quit_free_def)
qed

lemma replaced_functions_fail:
  assumes "tl_alive g" "tl_registered g"
  shows "\<exists>g'. run_main env (andThen (random_shuffle g) rest) = Exited 3 g'" "\<exists>g'. run_main env (andThen (c_rand g) rest') = Exited 3 g'"
    "\<exists>g'. run_main env (andThen (c_srand seed g) rest) = Exited 3 g'"
  unfolding random_shuffle_def c_rand_def c_srand_def by (intro quitf_fail_ends [OF assms])+

end
