(* ===== verification/AJ_Sandbox.thy ===== *)
theory AJ_Sandbox
  imports TL_Text "HOL-Library.Word" "HOL-Library.Multiset"
begin

text \<open>
  The sandbox of the judge (\<^verbatim>\<open>internal/sandbox\<close>): the byte budget that standard output and standard error
  share, the loop that waits for the end of a task, the classification of how a task ended, and the pool
  of processors. The container runtime is outside: what it answers (exit status, metrics, errors of a
  call) is an argument. A Go \<^verbatim>\<open>error\<close> is its text; \<open>Inl\<close> is a call that returned one.
\<close>

section \<open>Limits and results\<close>

record ResourceLimits =
  CPUTimeMs :: int
  WallTimeMs :: int
  MemoryMB :: int
  OutputBytes :: int

datatype sandbox_verdict = SV_Unknown | SV_OK | SV_TLE | SV_MLE | SV_OLE | SV_RE

record ExecuteResult =
  er_ExitCode :: int
  er_Stdout :: string
  er_Stderr :: string
  er_CPUTimeMs :: int
  er_MemoryMB :: int
  er_Verdict :: sandbox_verdict
  er_ExtraInfo :: string

section \<open>The output limiter\<close>

text \<open>\<open>ol_closed\<close> tells whether the channel \<^verbatim>\<open>ch\<close> is closed, that is, whether \<^verbatim>\<open>signal\<close> was called.\<close>

record outputLimiter =
  ol_limit :: int
  ol_used :: int
  ol_closed :: bool

record limitedWriter =
  lw_buf :: string
  lw_overflowed :: bool

definition newOutputLimiter :: "int \<Rightarrow> outputLimiter" where
  "newOutputLimiter maxBytes = \<lparr>ol_limit = maxBytes, ol_used = 0, ol_closed = False\<rparr>"

definition newLimitedWriter :: limitedWriter where
  "newLimitedWriter = \<lparr>lw_buf = '''', lw_overflowed = False\<rparr>"

definition ol_signal :: "outputLimiter \<Rightarrow> outputLimiter" where
  "ol_signal l = l\<lparr>ol_closed := True\<rparr>"

definition reserve :: "int \<Rightarrow> outputLimiter \<Rightarrow> int \<times> outputLimiter" where
  "reserve requested l =
     (let remaining = ol_limit l - ol_used l in
      if remaining \<le> 0 then (0, l)
      else let granted = min requested remaining in (granted, l\<lparr>ol_used := ol_used l + granted\<rparr>))"

text \<open>
  \<^verbatim>\<open>Write\<close> in two parts: the reservation, which holds the mutex of the limiter, and the rest, which holds
  only the mutex of the writer, so that a reservation of the other writer may come between them.
\<close>

definition write_reserve :: "string \<Rightarrow> limitedWriter \<Rightarrow> outputLimiter \<Rightarrow> int option \<times> outputLimiter" where
  "write_reserve p w l =
     (if lw_overflowed w then (None, l)
      else let (allowed, l) = reserve (int (length p)) l in (Some allowed, l))"

definition write_finish :: "string \<Rightarrow> int option \<Rightarrow> limitedWriter \<Rightarrow> outputLimiter \<Rightarrow> limitedWriter \<times> outputLimiter" where
  "write_finish p granted w l = (case granted of
     None \<Rightarrow> (w, l)
   | Some allowed \<Rightarrow>
       let w = (if allowed > 0 then w\<lparr>lw_buf := lw_buf w @ take (nat allowed) p\<rparr> else w) in
       if allowed < int (length p) then (w\<lparr>lw_overflowed := True\<rparr>, ol_signal l) else (w, l))"

definition lw_Write :: "string \<Rightarrow> limitedWriter \<Rightarrow> outputLimiter \<Rightarrow> limitedWriter \<times> outputLimiter" where
  "lw_Write p w l = (let (granted, l) = write_reserve p w l in write_finish p granted w l)"

section \<open>Metrics\<close>

record cgroupMetrics =
  cpuNanos :: "64 word"
  peakMemBytes :: "64 word"
  oomDetected :: bool
  oomKillDetected :: bool

text \<open>The message of the runtime: CPU usage in microseconds, peak and current memory, the counters of OOM events.\<close>

record cgroup_stats =
  st_CPU :: "64 word option"
  st_Memory :: "(64 word \<times> 64 word) option"
  st_MemoryEvents :: "(64 word \<times> 64 word) option"

definition cpuMillis :: "cgroupMetrics \<Rightarrow> int" where
  "cpuMillis m = uint (cpuNanos m) div 1000000"

definition peakMemMB :: "cgroupMetrics \<Rightarrow> int" where
  "peakMemMB m = uint (peakMemBytes m) div (1024 * 1024)"

definition no_metrics :: cgroupMetrics where
  "no_metrics = \<lparr>cpuNanos = 0, peakMemBytes = 0, oomDetected = False, oomKillDetected = False\<rparr>"

definition parseCgroupMetrics :: "string + cgroup_stats \<Rightarrow> string + cgroupMetrics" where
  "parseCgroupMetrics data = (case data of
     Inl err \<Rightarrow> Inl (''unmarshal cgroup v2 metrics: '' @ err)
   | Inr v2 \<Rightarrow>
       let m = no_metrics;
           m = (case st_CPU v2 of None \<Rightarrow> m | Some usec \<Rightarrow> m\<lparr>cpuNanos := usec * 1000\<rparr>);
           m = (case st_Memory v2 of None \<Rightarrow> m | Some (maxUsage, usage) \<Rightarrow> m\<lparr>peakMemBytes := max maxUsage usage\<rparr>);
           m = (case st_MemoryEvents v2 of None \<Rightarrow> m | Some (oom, kill) \<Rightarrow> m\<lparr>oomDetected := 0 < oom, oomKillDetected := 0 < kill\<rparr>)
       in Inr m)"

text \<open>\<open>None\<close> is a response without data; the inner sum is the result of unmarshalling it.\<close>

definition collectMetrics :: "string + (string + cgroup_stats) option \<Rightarrow> string + cgroupMetrics" where
  "collectMetrics answer = (case answer of
     Inl err \<Rightarrow> Inl (''read task metrics: '' @ err)
   | Inr None \<Rightarrow> Inl ''read task metrics: response contains no data''
   | Inr (Some data) \<Rightarrow> parseCgroupMetrics data)"

section \<open>Waiting for a task\<close>

datatype stopReason = stopNone | stopCPUTime | stopWallTime | stopOutputLimit

definition stopReason_String :: "stopReason \<Rightarrow> string" where
  "stopReason_String r = (case r of
     stopCPUTime \<Rightarrow> ''CPU time limit exceeded'' | stopWallTime \<Rightarrow> ''wall time limit exceeded''
   | stopOutputLimit \<Rightarrow> ''output limit exceeded'' | stopNone \<Rightarrow> ''unknown'')"

text \<open>
  What the channels of the \<^verbatim>\<open>select\<close> deliver: the exit status (\<open>None\<close> if the channel is closed; the sum is
  \<^verbatim>\<open>status.Result()\<close>), a tick with the answer to the request for metrics, the signal of the limiter, the
  deadline, the end of the context.
\<close>

type_synonym metrics_answer = "string + (string + cgroup_stats) option"

datatype select_event =
    Ev_Exit "(string + int) option"
  | Ev_Tick metrics_answer
  | Ev_OutputLimit
  | Ev_Wall
  | Ev_Done string

datatype executionEvent =
    Exited_with "string + int"
  | Stopped_for stopReason "cgroupMetrics option"
  | Event_error string

text \<open>The loop of \<^verbatim>\<open>waitForExecutionEvent\<close> over the events in the order in which it receives them; \<open>None\<close> while it waits.\<close>

fun waitForExecutionEvent :: "int \<Rightarrow> select_event list \<Rightarrow> executionEvent option" where
  "waitForExecutionEvent cpuTimeLimitMs [] = None"
| "waitForExecutionEvent cpuTimeLimitMs (ev # evs) = (case ev of
     Ev_Exit None \<Rightarrow> Some (Event_error ''wait for task exit: exit channel closed without status'')
   | Ev_Exit (Some status) \<Rightarrow> Some (Exited_with status)
   | Ev_Tick answer \<Rightarrow> (case collectMetrics answer of
       Inl err \<Rightarrow> Some (Event_error (''monitor CPU time: '' @ err))
     | Inr m \<Rightarrow> if cpuMillis m \<ge> cpuTimeLimitMs then Some (Stopped_for stopCPUTime (Some m))
                else waitForExecutionEvent cpuTimeLimitMs evs)
   | Ev_OutputLimit \<Rightarrow> Some (Stopped_for stopOutputLimit None)
   | Ev_Wall \<Rightarrow> Some (Stopped_for stopWallTime None)
   | Ev_Done err \<Rightarrow> Some (Event_error (''execution canceled: '' @ err)))"

record executionOutcome =
  eo_exitCode :: int
  eo_reason :: stopReason
  eo_metrics :: cgroupMetrics

text \<open>
  \<^verbatim>\<open>stopTask\<close>: the error of \<^verbatim>\<open>Kill\<close> (\<open>None\<close> if there is none, or the task is not found), then the exit channel
  or the time limit (\<open>Inl\<close>).
\<close>

definition stopTask :: "string option \<Rightarrow> string + (string + int) option \<Rightarrow> string option" where
  "stopTask kill waited = (case kill of
     Some err \<Rightarrow> Some (''kill task: '' @ err)
   | None \<Rightarrow> (case waited of
       Inl err \<Rightarrow> Some (''wait for task exit after kill: '' @ err)
     | Inr None \<Rightarrow> Some ''wait for task exit after kill: exit channel closed without status''
     | Inr (Some (Inl err)) \<Rightarrow> Some (''wait for task exit after kill: '' @ err)
     | Inr (Some (Inr code)) \<Rightarrow> None))"

text \<open>\<^verbatim>\<open>errors.Join\<close> of two errors.\<close>

definition errors_Join :: "string option \<Rightarrow> string option \<Rightarrow> string option" where
  "errors_Join a b = (case a of None \<Rightarrow> b | Some x \<Rightarrow> (case b of None \<Rightarrow> Some x | Some y \<Rightarrow> Some (x @ [CHR 0x0A] @ y)))"

definition waitForTask ::
  "int \<Rightarrow> select_event list \<Rightarrow> metrics_answer \<Rightarrow> string option \<Rightarrow> string + (string + int) option \<Rightarrow> (string + executionOutcome) option"
where
  "waitForTask cpuTimeLimitMs events answer kill waited =
     map_option (\<lambda>event. case event of
       Exited_with status \<Rightarrow> (case status of
         Inl err \<Rightarrow> Inl (''read task exit result: '' @ err)
       | Inr code \<Rightarrow> (case collectMetrics answer of
           Inl err \<Rightarrow> Inl (''collect cgroup metrics: '' @ err)
         | Inr m \<Rightarrow> Inr \<lparr>eo_exitCode = code, eo_reason = stopNone, eo_metrics = m\<rparr>))
     | Stopped_for reason known \<Rightarrow>
         let (err, m) = (case known of Some m \<Rightarrow> (None, m)
               | None \<Rightarrow> (case collectMetrics answer of
                   Inl e \<Rightarrow> (Some (''collect cgroup metrics: '' @ e), no_metrics) | Inr m \<Rightarrow> (None, m)))
         in (case errors_Join err (stopTask kill waited) of
               Some e \<Rightarrow> Inl e
             | None \<Rightarrow> Inr \<lparr>eo_exitCode = 0, eo_reason = reason, eo_metrics = m\<rparr>)
     | Event_error err \<Rightarrow> (case errors_Join (Some err) (stopTask kill waited) of
         Some e \<Rightarrow> Inl e | None \<Rightarrow> Inr \<lparr>eo_exitCode = 0, eo_reason = stopNone, eo_metrics = no_metrics\<rparr>))
     (waitForExecutionEvent cpuTimeLimitMs events)"

section \<open>The verdict on a run\<close>

record executionOutput =
  xo_stdout :: string
  xo_stderr :: string
  xo_overflowed :: bool

definition buildVerdict :: "executionOutcome \<Rightarrow> executionOutput \<Rightarrow> ResourceLimits \<Rightarrow> ExecuteResult" where
  "buildVerdict outcome output limits =
     (let cpuMs = cpuMillis (eo_metrics outcome);
          peak = peakMemMB (eo_metrics outcome);
          res = \<lparr>er_ExitCode = eo_exitCode outcome, er_Stdout = xo_stdout output, er_Stderr = xo_stderr output,
                 er_CPUTimeMs = cpuMs, er_MemoryMB = peak, er_Verdict = SV_Unknown, er_ExtraInfo = ''''\<rparr>
      in if eo_reason outcome = stopOutputLimit \<or> (eo_reason outcome = stopNone \<and> xo_overflowed output)
         then res\<lparr>er_Verdict := SV_OLE, er_ExtraInfo := ''output limit exceeded ('' @ vtos (OutputBytes limits) @ '' bytes max)''\<rparr>
         else if eo_reason outcome = stopCPUTime \<or> eo_reason outcome = stopWallTime
         then res\<lparr>er_Verdict := SV_TLE, er_ExtraInfo := stopReason_String (eo_reason outcome) @ '' (cpu '' @ vtos cpuMs @
                ''ms, cpu limit '' @ vtos (CPUTimeMs limits) @ ''ms, wall limit '' @ vtos (WallTimeMs limits) @ ''ms)''\<rparr>
         else if oomKillDetected (eo_metrics outcome) \<or> (eo_exitCode outcome \<noteq> 0 \<and> oomDetected (eo_metrics outcome))
         then res\<lparr>er_Verdict := SV_MLE, er_ExtraInfo := ''memory limit exceeded (peak '' @ vtos peak @ ''MB, limit '' @
                vtos (MemoryMB limits) @ ''MB)''\<rparr>
         else if cpuMs \<ge> CPUTimeMs limits
         then res\<lparr>er_Verdict := SV_TLE, er_ExtraInfo := ''CPU time exceeded: '' @ vtos cpuMs @ ''ms >= '' @ vtos (CPUTimeMs limits) @ ''ms''\<rparr>
         else if eo_exitCode outcome = 0 then res\<lparr>er_Verdict := SV_OK\<rparr>
         else res\<lparr>er_Verdict := SV_RE, er_ExtraInfo := xo_stderr output\<rparr>)"

text \<open>
  \<^verbatim>\<open>watchExecution\<close>: the errors of \<^verbatim>\<open>Start\<close> and of waiting for the copies of the output, the events, and the two
  writers at the moment when all output is copied. An error of \<^verbatim>\<open>CloseIO\<close> is only logged.
\<close>

definition watchExecution ::
  "string option \<Rightarrow> select_event list \<Rightarrow> metrics_answer \<Rightarrow> string option \<Rightarrow> string + (string + int) option \<Rightarrow>
   string option \<Rightarrow> limitedWriter \<Rightarrow> limitedWriter \<Rightarrow> ResourceLimits \<Rightarrow> (string + ExecuteResult) option"
where
  "watchExecution start events answer kill waited drain stdoutLW stderrLW limits = (case start of
     Some err \<Rightarrow> Some (Inl (''start task: '' @ err))
   | None \<Rightarrow> map_option (\<lambda>outcome. case outcome of
       Inl err \<Rightarrow> Inl err
     | Inr outcome \<Rightarrow> (case drain of
         Some err \<Rightarrow> Inl (''collect task output: '' @ err)
       | None \<Rightarrow> Inr (buildVerdict outcome \<lparr>xo_stdout = lw_buf stdoutLW, xo_stderr = lw_buf stderrLW,
           xo_overflowed = lw_overflowed stdoutLW \<or> lw_overflowed stderrLW\<rparr> limits)))
     (waitForTask (CPUTimeMs limits) events answer kill waited))"

section \<open>The pool of processors\<close>

text \<open>The channel as the queue of its elements; \<open>Inl\<close> is a context that has ended, \<open>None\<close> that the caller waits.\<close>

definition newCPUPoolFromIDs :: "int list \<Rightarrow> string + int list" where
  "newCPUPoolFromIDs cpus = (if length cpus = 0 then Inl ''cpu affinity contains no available CPUs'' else Inr cpus)"

definition cpu_acquire :: "int list \<Rightarrow> (int \<times> int list) option" where
  "cpu_acquire pool = (case pool of [] \<Rightarrow> None | cpuID # rest \<Rightarrow> Some (cpuID, rest))"

definition cpu_release :: "int \<Rightarrow> int list \<Rightarrow> int list" where
  "cpu_release cpuID pool = pool @ [cpuID]"

fun cpuIDs_loop :: "(int \<Rightarrow> bool) \<Rightarrow> int \<Rightarrow> nat \<Rightarrow> int list \<Rightarrow> nat \<Rightarrow> int list option" where
  "cpuIDs_loop isSet cpuID cpuCount cpus 0 = None"
| "cpuIDs_loop isSet cpuID cpuCount cpus (Suc fuel) =
     (if length cpus < cpuCount
      then cpuIDs_loop isSet (cpuID + 1) cpuCount (if isSet cpuID then cpus @ [cpuID] else cpus) fuel
      else Some cpus)"

definition cpuIDsFromAffinity :: "(int \<Rightarrow> bool) \<Rightarrow> int list option" where
  "cpuIDsFromAffinity isSet = cpuIDs_loop isSet 0 (length (filter isSet [0..1023])) [] 1025"

section \<open>Interleaved writers\<close>

text \<open>
  Both streams of a task write at the same time. A state holds the limiter, the two writers (\<open>True\<close> is
  standard output), the write each is in the middle of, and everything that was passed to it so far.
\<close>

record out_state =
  os_lim :: outputLimiter
  os_writer :: "bool \<Rightarrow> limitedWriter"
  os_pending :: "bool \<Rightarrow> (string \<times> int option) option"
  os_written :: "bool \<Rightarrow> string"

definition out_start :: "int \<Rightarrow> out_state" where
  "out_start limit = \<lparr>os_lim = newOutputLimiter limit, os_writer = (\<lambda>_. newLimitedWriter), os_pending = (\<lambda>_. None), os_written = (\<lambda>_. '''')\<rparr>"

inductive out_step :: "out_state \<Rightarrow> out_state \<Rightarrow> bool" where
  start: "os_pending s i = None \<Longrightarrow> write_reserve p (os_writer s i) (os_lim s) = (granted, l) \<Longrightarrow>
    out_step s (s\<lparr>os_lim := l, os_pending := (os_pending s)(i := Some (p, granted)), os_written := (os_written s)(i := os_written s i @ p)\<rparr>)"
| finish: "os_pending s i = Some (p, granted) \<Longrightarrow> write_finish p granted (os_writer s i) (os_lim s) = (w, l) \<Longrightarrow>
    out_step s (s\<lparr>os_lim := l, os_pending := (os_pending s)(i := None), os_writer := (os_writer s)(i := w)\<rparr>)"

inductive out_reachable :: "int \<Rightarrow> out_state \<Rightarrow> bool" for limit where
  init: "out_reachable limit (out_start limit)"
| step: "out_reachable limit s \<Longrightarrow> out_step s t \<Longrightarrow> out_reachable limit t"

inductive_cases out_stepE: "out_step s t"

text \<open>The bytes a writer has reserved: those in its buffer and those of the write it is in.\<close>

definition claimed :: "out_state \<Rightarrow> bool \<Rightarrow> int" where
  "claimed s i = int (length (lw_buf (os_writer s i))) +
     (case os_pending s i of Some (p, Some allowed) \<Rightarrow> allowed | _ \<Rightarrow> 0)"

definition writer_ok :: "outputLimiter \<Rightarrow> limitedWriter \<Rightarrow> (string \<times> int option) option \<Rightarrow> string \<Rightarrow> bool" where
  "writer_ok l w pending written \<longleftrightarrow> (case pending of
     None \<Rightarrow> if lw_overflowed w
             then ol_limit l \<le> ol_used l \<and> (\<exists>lost. lost \<noteq> [] \<and> written = lw_buf w @ lost) else written = lw_buf w
   | Some (p, None) \<Rightarrow> lw_overflowed w \<and> ol_limit l \<le> ol_used l \<and> (\<exists>lost. lost \<noteq> [] \<and> written = lw_buf w @ lost)
   | Some (p, Some allowed) \<Rightarrow> \<not> lw_overflowed w \<and> written = lw_buf w @ p \<and> 0 \<le> allowed \<and> allowed \<le> int (length p) \<and>
       (allowed < int (length p) \<longrightarrow> ol_limit l \<le> ol_used l))"

definition out_ok :: "int \<Rightarrow> out_state \<Rightarrow> bool" where
  "out_ok limit s \<longleftrightarrow> ol_limit (os_lim s) = limit \<and> ol_used (os_lim s) = claimed s True + claimed s False \<and>
     ol_used (os_lim s) \<le> max 0 limit \<and>
     (\<forall>i. writer_ok (os_lim s) (os_writer s i) (os_pending s i) (os_written s i))"

lemma reserve_grant:
  assumes "reserve n l = (allowed, l')" "0 \<le> n"
  shows "0 \<le> allowed" "allowed \<le> n" "ol_limit l' = ol_limit l" "ol_used l' = ol_used l + allowed"
    "ol_used l \<le> max 0 (ol_limit l) \<Longrightarrow> ol_used l' \<le> max 0 (ol_limit l)" "allowed < n \<Longrightarrow> ol_limit l \<le> ol_used l'"
  using assms by (auto simp: reserve_def Let_def split: if_splits)

text \<open>A larger amount used keeps what holds of the other writer.\<close>

lemma writer_ok_mono:
  "writer_ok l w pending written \<Longrightarrow> ol_limit l' = ol_limit l \<Longrightarrow> ol_used l \<le> ol_used l' \<Longrightarrow> writer_ok l' w pending written"
  by (auto simp: writer_ok_def split: option.splits if_splits)

lemma writer_ok_start:
  assumes "writer_ok l w None written" "write_reserve p w l = (granted, l')"
  shows "writer_ok l' w (Some (p, granted)) (written @ p)" "ol_limit l' = ol_limit l"
    "ol_used l' = ol_used l + (case granted of None \<Rightarrow> 0 | Some a \<Rightarrow> a)" "ol_used l \<le> ol_used l'"
    "ol_used l \<le> max 0 (ol_limit l) \<Longrightarrow> ol_used l' \<le> max 0 (ol_limit l)"
proof -
  have "writer_ok l' w (Some (p, granted)) (written @ p) \<and> ol_limit l' = ol_limit l \<and>
    ol_used l' = ol_used l + (case granted of None \<Rightarrow> 0 | Some a \<Rightarrow> a) \<and> ol_used l \<le> ol_used l' \<and>
    (ol_used l \<le> max 0 (ol_limit l) \<longrightarrow> ol_used l' \<le> max 0 (ol_limit l))"
  proof (cases "lw_overflowed w")
    case True
    with assms have "granted = None" "l' = l" by (simp_all add: write_reserve_def)
    moreover obtain lost where "lost \<noteq> []" "written = lw_buf w @ lost" "ol_limit l \<le> ol_used l"
      using assms(1) True by (auto simp: writer_ok_def)
    moreover from this have "lost @ p \<noteq> [] \<and> written @ p = lw_buf w @ lost @ p" by simp
    ultimately show ?thesis using True unfolding writer_ok_def by (simp only: prod.case option.case simp_thms add_0_right) blast
  next
    case False
    then obtain allowed where r: "reserve (int (length p)) l = (allowed, l')" "granted = Some allowed"
      using assms(2) by (auto simp: write_reserve_def split: prod.splits)
    show ?thesis using reserve_grant [OF r(1)] r(2) False assms(1) by (simp add: writer_ok_def)
  qed
  then show "writer_ok l' w (Some (p, granted)) (written @ p)" "ol_limit l' = ol_limit l"
    "ol_used l' = ol_used l + (case granted of None \<Rightarrow> 0 | Some a \<Rightarrow> a)" "ol_used l \<le> ol_used l'"
    "ol_used l \<le> max 0 (ol_limit l) \<Longrightarrow> ol_used l' \<le> max 0 (ol_limit l)" by blast+
qed

lemma writer_ok_finish:
  assumes "writer_ok l w (Some (p, granted)) written" "write_finish p granted w l = (w', l')"
  shows "writer_ok l' w' None written" "ol_limit l' = ol_limit l" "ol_used l' = ol_used l"
    "int (length (lw_buf w')) = int (length (lw_buf w)) + (case granted of None \<Rightarrow> 0 | Some a \<Rightarrow> a)"
proof -
  have "writer_ok l' w' None written \<and> ol_limit l' = ol_limit l \<and> ol_used l' = ol_used l \<and>
    int (length (lw_buf w')) = int (length (lw_buf w)) + (case granted of None \<Rightarrow> 0 | Some a \<Rightarrow> a)"
  proof (cases granted)
    case None
    then show ?thesis using assms by (auto simp: write_finish_def writer_ok_def)
  next
    case (Some a)
    with assms(1) have a: "0 \<le> a" "a \<le> int (length p)" "written = lw_buf w @ p" "\<not> lw_overflowed w"
      "a < int (length p) \<longrightarrow> ol_limit l \<le> ol_used l" by (auto simp: writer_ok_def)
    show ?thesis
    proof (cases "a < int (length p)")
      case True
      with assms(2) Some a(1) have w': "w' = w\<lparr>lw_buf := lw_buf w @ take (nat a) p, lw_overflowed := True\<rparr>" "l' = ol_signal l"
        by (auto simp: write_finish_def Let_def split: if_splits)
      have "\<exists>lost. lost \<noteq> [] \<and> written = lw_buf w' @ lost" using a(1,3) True w'(1) by (intro exI [of _ "drop (nat a) p"]) simp
      moreover have "int (length (lw_buf w')) = int (length (lw_buf w)) + a" using w'(1) a(1) True by simp
      moreover have "lw_overflowed w'" using w'(1) by simp
      ultimately show ?thesis using w'(2) a(5) True Some by (simp add: writer_ok_def ol_signal_def)
    next
      case False
      then show ?thesis using assms(2) Some a by (auto simp: write_finish_def Let_def writer_ok_def split: if_splits)
    qed
  qed
  then show "writer_ok l' w' None written" "ol_limit l' = ol_limit l" "ol_used l' = ol_used l"
    "int (length (lw_buf w')) = int (length (lw_buf w)) + (case granted of None \<Rightarrow> 0 | Some a \<Rightarrow> a)" by blast+
qed

lemma out_ok_step:
  assumes "out_ok limit s" "out_step s t"
  shows "out_ok limit t"
  using assms(2)
proof cases
  case (start i p granted l)
  have w: "writer_ok (os_lim s) (os_writer s i) None (os_written s i)" using assms(1) start(2) by (metis out_ok_def)
  note f = writer_ok_start [OF w start(3)]
  have "claimed t i = claimed s i + (case granted of None \<Rightarrow> 0 | Some a \<Rightarrow> a)" "claimed t (\<not> i) = claimed s (\<not> i)"
    using start by (simp_all add: claimed_def split: option.split)
  then have "claimed t True + claimed t False = claimed s True + claimed s False + (case granted of None \<Rightarrow> 0 | Some a \<Rightarrow> a)"
    by (cases i) simp_all
  moreover have "writer_ok l (os_writer t j) (os_pending t j) (os_written t j)" for j
  proof (cases "j = i")
    case True
    then show ?thesis using start(1) f(1) by simp
  next
    case False
    moreover have "writer_ok (os_lim s) (os_writer s j) (os_pending s j) (os_written s j)" using assms(1) by (simp add: out_ok_def)
    ultimately show ?thesis using writer_ok_mono f(2,4) start(1) by simp
  qed
  moreover have "os_lim t = l" using start(1) by simp
  ultimately show ?thesis using assms(1) f(2,3,5) by (simp add: out_ok_def)
next
  case (finish i p granted w l)
  have "writer_ok (os_lim s) (os_writer s i) (Some (p, granted)) (os_written s i)" using assms(1) finish(2) by (metis out_ok_def)
  note f = writer_ok_finish [OF this finish(3)]
  have "claimed t i = claimed s i" "claimed t (\<not> i) = claimed s (\<not> i)"
    using finish f(4) by (simp_all add: claimed_def split: option.split)
  then have "claimed t True + claimed t False = claimed s True + claimed s False" by (cases i) simp_all
  moreover have "writer_ok l (os_writer t j) (os_pending t j) (os_written t j)" for j
  proof (cases "j = i")
    case True
    then show ?thesis using finish(1) f(1) by simp
  next
    case False
    moreover have "writer_ok (os_lim s) (os_writer s j) (os_pending s j) (os_written s j)" using assms(1) by (simp add: out_ok_def)
    ultimately show ?thesis using writer_ok_mono f(2,3) finish(1) by simp
  qed
  moreover have "os_lim t = l" using finish(1) by simp
  ultimately show ?thesis using assms(1) f(2,3) by (simp add: out_ok_def)
qed

lemma out_reachable_ok: "out_reachable limit s \<Longrightarrow> out_ok limit s"
proof (induction rule: out_reachable.induct)
  case init
  show ?case
    by (simp add: out_ok_def out_start_def newOutputLimiter_def newLimitedWriter_def claimed_def writer_ok_def)
next
  case (step s t)
  then show ?case using out_ok_step by blast
qed

text \<open>What both writers hold once no write is going on.\<close>

definition out_quiet :: "out_state \<Rightarrow> bool" where
  "out_quiet s \<longleftrightarrow> os_pending s True = None \<and> os_pending s False = None"

lemma out_quiet_captures:
  assumes "out_reachable limit s" "out_quiet s"
  shows "length (lw_buf (os_writer s True)) + length (lw_buf (os_writer s False)) \<le> nat limit"
    and "\<exists>lost. os_written s i = lw_buf (os_writer s i) @ lost \<and> (lost = [] \<longleftrightarrow> \<not> lw_overflowed (os_writer s i))"
    and "0 \<le> limit \<Longrightarrow> lw_overflowed (os_writer s True) \<or> lw_overflowed (os_writer s False) \<longleftrightarrow>
      limit < int (length (os_written s True)) + int (length (os_written s False))"
proof -
  have ok: "out_ok limit s" using out_reachable_ok [OF assms(1)] .
  have pend: "os_pending s i = None" for i using assms(2) by (cases i) (simp_all add: out_quiet_def)
  have used: "ol_used (os_lim s) = int (length (lw_buf (os_writer s True))) + int (length (lw_buf (os_writer s False)))"
    "ol_used (os_lim s) \<le> max 0 limit" using ok pend by (simp_all add: out_ok_def claimed_def)
  then show "length (lw_buf (os_writer s True)) + length (lw_buf (os_writer s False)) \<le> nat limit" by linarith
  have w: "if lw_overflowed (os_writer s i) then limit \<le> ol_used (os_lim s) \<and> (\<exists>lost. lost \<noteq> [] \<and> os_written s i = lw_buf (os_writer s i) @ lost)
      else os_written s i = lw_buf (os_writer s i)" for i
    using ok pend by (auto simp: out_ok_def writer_ok_def split: if_splits)
  then show "\<exists>lost. os_written s i = lw_buf (os_writer s i) @ lost \<and> (lost = [] \<longleftrightarrow> \<not> lw_overflowed (os_writer s i))"
    by (metis append_Nil2)
  show "lw_overflowed (os_writer s True) \<or> lw_overflowed (os_writer s False) \<longleftrightarrow>
      limit < int (length (os_written s True)) + int (length (os_written s False))" if "0 \<le> limit"
    using w [of True] w [of False] used that
    by (cases "lw_overflowed (os_writer s True)"; cases "lw_overflowed (os_writer s False)") (auto simp: neq_Nil_conv)
qed

section \<open>What a verdict means\<close>

lemma buildVerdict_known: "er_Verdict (buildVerdict outcome output limits) \<noteq> SV_Unknown"
  by (simp add: buildVerdict_def Let_def)

lemma buildVerdict_OK:
  "er_Verdict (buildVerdict outcome output limits) = SV_OK \<longleftrightarrow>
    eo_reason outcome = stopNone \<and> eo_exitCode outcome = 0 \<and> \<not> xo_overflowed output \<and>
    \<not> oomKillDetected (eo_metrics outcome) \<and> cpuMillis (eo_metrics outcome) < CPUTimeMs limits"
  by (cases "eo_reason outcome") (auto simp: buildVerdict_def Let_def)

lemma buildVerdict_RE:
  "er_Verdict (buildVerdict outcome output limits) = SV_RE \<Longrightarrow>
    eo_reason outcome = stopNone \<and> eo_exitCode outcome \<noteq> 0 \<and> \<not> xo_overflowed output \<and> cpuMillis (eo_metrics outcome) < CPUTimeMs limits"
  by (cases "eo_reason outcome") (auto simp: buildVerdict_def Let_def split: if_splits)

lemma buildVerdict_fields:
  "er_ExitCode (buildVerdict outcome output limits) = eo_exitCode outcome"
  "er_Stdout (buildVerdict outcome output limits) = xo_stdout output"
  "er_Stderr (buildVerdict outcome output limits) = xo_stderr output"
  "er_CPUTimeMs (buildVerdict outcome output limits) = cpuMillis (eo_metrics outcome)"
  by (simp_all add: buildVerdict_def Let_def)

lemma waitForTask_exited:
  assumes "waitForTask limit events answer kill waited = Some (Inr outcome)" "eo_reason outcome = stopNone"
  shows "\<exists>pre post. events = pre @ Ev_Exit (Some (Inr (eo_exitCode outcome))) # post"
  using assms
proof (induction limit events rule: waitForExecutionEvent.induct)
  case (2 limit ev evs)
  show ?case
  proof (cases ev)
    case (Ev_Exit status)
    with "2.prems" have "ev # evs = [] @ Ev_Exit (Some (Inr (eo_exitCode outcome))) # evs"
      by (auto simp: waitForTask_def errors_Join_def split: option.splits sum.splits)
    then show ?thesis by blast
  next
    case (Ev_Tick tick)
    show ?thesis
    proof (cases "collectMetrics tick")
      case (Inl err)
      with "2.prems" Ev_Tick show ?thesis
        by (auto simp: waitForTask_def errors_Join_def split: option.splits)
    next
      case (Inr m)
      with "2.prems" Ev_Tick have small: "\<not> cpuMillis m \<ge> limit"
        by (auto simp: waitForTask_def Let_def split: option.splits if_splits)
      then have "waitForTask limit evs answer kill waited = Some (Inr outcome)"
        using "2.prems"(1) Ev_Tick Inr by (simp add: waitForTask_def)
      with "2.IH" [OF Ev_Tick Inr small] "2.prems"(2) obtain pre post where
        "evs = pre @ Ev_Exit (Some (Inr (eo_exitCode outcome))) # post" by blast
      then have "ev # evs = (ev # pre) @ Ev_Exit (Some (Inr (eo_exitCode outcome))) # post" by simp
      then show ?thesis by blast
    qed
  qed (use "2.prems" in \<open>auto simp: waitForTask_def errors_Join_def Let_def split: option.splits prod.splits sum.splits\<close>)
qed (simp add: waitForTask_def)

section \<open>Processors are not shared\<close>

text \<open>The pool and the processors that running executions hold.\<close>

inductive cpu_reachable :: "int list \<Rightarrow> int list \<Rightarrow> int list \<Rightarrow> bool" for cpus where
  init: "newCPUPoolFromIDs cpus = Inr pool \<Longrightarrow> cpu_reachable cpus pool []"
| acquire: "cpu_reachable cpus pool held \<Longrightarrow> cpu_acquire pool = Some (cpuID, rest) \<Longrightarrow> cpu_reachable cpus rest (cpuID # held)"
| release: "cpu_reachable cpus pool held \<Longrightarrow> cpuID \<in> set held \<Longrightarrow> cpu_reachable cpus (cpu_release cpuID pool) (remove1 cpuID held)"

lemma cpu_pool_partition: "cpu_reachable cpus pool held \<Longrightarrow> mset (pool @ held) = mset cpus"
proof (induction rule: cpu_reachable.induct)
  case (init pool)
  then show ?case by (auto simp: newCPUPoolFromIDs_def split: if_splits)
next
  case (acquire pool held cpuID rest)
  then have "pool = cpuID # rest" by (auto simp: cpu_acquire_def split: list.splits)
  with acquire.IH show ?case by simp
next
  case (release pool held cpuID)
  then show ?case by (auto simp: cpu_release_def)
qed

lemma cpu_pool_exclusive:
  assumes "cpu_reachable cpus pool held" "distinct cpus"
  shows "distinct (pool @ held)" "set pool \<union> set held = set cpus"
    "cpu_acquire pool = None \<longleftrightarrow> set held = set cpus"
proof -
  note m = cpu_pool_partition [OF assms(1)]
  show d: "distinct (pool @ held)" using m assms(2) using mset_eq_imp_distinct_iff by blast
  show u: "set pool \<union> set held = set cpus" using m by (metis mset_eq_setD set_append)
  show "cpu_acquire pool = None \<longleftrightarrow> set held = set cpus"
    using d u by (cases pool) (auto simp: cpu_acquire_def)
qed


section \<open>Waiting ends\<close>

lemma waitForExecutionEvent_ends: "ev \<in> set events \<Longrightarrow> (\<And>a. ev \<noteq> Ev_Tick a) \<Longrightarrow> waitForExecutionEvent limit events \<noteq> None"
  by (induction limit events rule: waitForExecutionEvent.induct) (auto split: select_event.splits option.splits sum.splits)

text \<open>A whole write as two steps.\<close>

lemma out_reachable_write:
  assumes "out_reachable limit s" "os_pending s i = None" "write_reserve p (os_writer s i) (os_lim s) = (granted, l)"
    "write_finish p granted (os_writer s i) l = (w, l')"
  shows "out_reachable limit (s\<lparr>os_lim := l', os_pending := (os_pending s)(i := None), os_writer := (os_writer s)(i := w),
    os_written := (os_written s)(i := os_written s i @ p)\<rparr>)"
proof -
  let ?t = "s\<lparr>os_lim := l, os_pending := (os_pending s)(i := Some (p, granted)), os_written := (os_written s)(i := os_written s i @ p)\<rparr>"
  have "out_reachable limit ?t" using out_reachable.step [OF assms(1) start [OF assms(2,3)]] .
  moreover have "write_finish p granted (os_writer ?t i) (os_lim ?t) = (w, l')" using assms(4) by simp
  ultimately have "out_reachable limit (?t\<lparr>os_lim := l', os_pending := (os_pending ?t)(i := None), os_writer := (os_writer ?t)(i := w)\<rparr>)"
    using out_reachable.step finish [of ?t i p granted w l'] by simp
  then show ?thesis by (cases s) simp
qed

text \<open>A run whose verdict is OK.\<close>

lemma watchExecution_OK:
  assumes "watchExecution started events answer kill waited drain (os_writer s True) (os_writer s False) limits = Some (Inr r)"
    "er_Verdict r = SV_OK" "out_reachable (OutputBytes limits) s" "out_quiet s"
  shows "er_ExitCode r = 0" "er_Stdout r = os_written s True" "er_Stderr r = os_written s False" "er_CPUTimeMs r < CPUTimeMs limits"
    "\<exists>pre post. events = pre @ Ev_Exit (Some (Inr 0)) # post"
proof -
  obtain res where res: "waitForTask (CPUTimeMs limits) events answer kill waited = Some res" "started = None"
    using assms(1) by (cases started) (auto simp: watchExecution_def)
  then obtain outcome where "res = Inr outcome" "drain = None"
    using assms(1) by (cases res; cases drain) (auto simp: watchExecution_def)
  then have o: "waitForTask (CPUTimeMs limits) events answer kill waited = Some (Inr outcome)"
    "r = buildVerdict outcome \<lparr>xo_stdout = lw_buf (os_writer s True), xo_stderr = lw_buf (os_writer s False),
       xo_overflowed = lw_overflowed (os_writer s True) \<or> lw_overflowed (os_writer s False)\<rparr> limits"
    using assms(1) res by (simp_all add: watchExecution_def)
  have ok: "eo_reason outcome = stopNone" "eo_exitCode outcome = 0" "cpuMillis (eo_metrics outcome) < CPUTimeMs limits"
    "\<not> lw_overflowed (os_writer s True)" "\<not> lw_overflowed (os_writer s False)"
    using assms(2) unfolding o(2) buildVerdict_OK by auto
  show "er_ExitCode r = 0" "er_CPUTimeMs r < CPUTimeMs limits" using ok o(2) by (simp_all add: buildVerdict_fields)
  show "er_Stdout r = os_written s True" "er_Stderr r = os_written s False"
    using out_quiet_captures(2) [OF assms(3,4), of True] out_quiet_captures(2) [OF assms(3,4), of False] ok o(2)
    by (auto simp: buildVerdict_fields)
  show "\<exists>pre post. events = pre @ Ev_Exit (Some (Inr 0)) # post" using waitForTask_exited [OF o(1) ok(1)] ok(2) by simp
qed

end
