(* ===== verification/AJ_Paths.thy ===== *)
theory AJ_Paths
  imports TL_Text "HOL-Library.Sublist"
begin

text \<open>
  What the service uses of Go's \<^verbatim>\<open>strings\<close>, \<^verbatim>\<open>unicode\<close>, \<^verbatim>\<open>path/filepath\<close> and \<^verbatim>\<open>io/fs\<close>. A Go string is its bytes. The
  Unicode tables of letters and digits beyond ASCII are an argument.
\<close>

section \<open>Strings\<close>

text \<open>The encodings of the white space characters of Unicode.\<close>

definition go_spaces :: "string list" where
  "go_spaces = [[CHR 0x09], [CHR 0x0A], [CHR 0x0B], [CHR 0x0C], [CHR 0x0D], [CHR 0x20], [CHR 0xC2, CHR 0x85], [CHR 0xC2, CHR 0xA0],
     [CHR 0xE1, CHR 0x9A, CHR 0x80], [CHR 0xE2, CHR 0x80, CHR 0x80], [CHR 0xE2, CHR 0x80, CHR 0x81], [CHR 0xE2, CHR 0x80, CHR 0x82],
     [CHR 0xE2, CHR 0x80, CHR 0x83], [CHR 0xE2, CHR 0x80, CHR 0x84], [CHR 0xE2, CHR 0x80, CHR 0x85], [CHR 0xE2, CHR 0x80, CHR 0x86],
     [CHR 0xE2, CHR 0x80, CHR 0x87], [CHR 0xE2, CHR 0x80, CHR 0x88], [CHR 0xE2, CHR 0x80, CHR 0x89], [CHR 0xE2, CHR 0x80, CHR 0x8A],
     [CHR 0xE2, CHR 0x80, CHR 0xA8], [CHR 0xE2, CHR 0x80, CHR 0xA9], [CHR 0xE2, CHR 0x80, CHR 0xAF], [CHR 0xE2, CHR 0x81, CHR 0x9F],
     [CHR 0xE3, CHR 0x80, CHR 0x80]]"

definition starting_space :: "string \<Rightarrow> string option" where
  "starting_space s = find (\<lambda>sp. prefix sp s) go_spaces"

definition ending_space :: "string \<Rightarrow> string option" where
  "ending_space s = find (\<lambda>sp. suffix sp s) go_spaces"

lemma go_spaces_nonempty: "sp \<in> set go_spaces \<Longrightarrow> 0 < length sp"
  by (auto simp: go_spaces_def)

lemma starting_space_D: "starting_space s = Some sp \<Longrightarrow> 0 < length sp \<and> prefix sp s"
  using go_spaces_nonempty by (auto simp: starting_space_def find_Some_iff)

lemma ending_space_D: "ending_space s = Some sp \<Longrightarrow> 0 < length sp \<and> suffix sp s"
  using go_spaces_nonempty by (auto simp: ending_space_def find_Some_iff)

function trim_start :: "string \<Rightarrow> string" where
  "trim_start s = (case starting_space s of None \<Rightarrow> s | Some sp \<Rightarrow> trim_start (drop (length sp) s))"
  by pat_completeness auto
termination
proof (relation "measure length")
  fix s sp assume "starting_space s = Some sp"
  then have "0 < length sp" "length sp \<le> length s" using starting_space_D prefix_length_le by blast+
  then have "length s - length sp < length s" by linarith
  then show "(drop (length sp) s, s) \<in> measure length" by simp
qed simp

function trim_end :: "string \<Rightarrow> string" where
  "trim_end s = (case ending_space s of None \<Rightarrow> s | Some sp \<Rightarrow> trim_end (take (length s - length sp) s))"
  by pat_completeness auto
termination
proof (relation "measure length")
  fix s sp assume "ending_space s = Some sp"
  then have "0 < length sp" "length sp \<le> length s" using ending_space_D suffix_length_le by blast+
  then have "length s - length sp < length s" by linarith
  then show "(take (length s - length sp) s, s) \<in> measure length" by simp
qed simp

declare trim_start.simps [simp del] trim_end.simps [simp del]

definition TrimSpace :: "string \<Rightarrow> string" where
  "TrimSpace s = trim_end (trim_start s)"

definition HasPrefix :: "string \<Rightarrow> string \<Rightarrow> bool" where
  "HasPrefix s p \<longleftrightarrow> prefix p s"

definition HasSuffix :: "string \<Rightarrow> string \<Rightarrow> bool" where
  "HasSuffix s p \<longleftrightarrow> suffix p s"

definition CutPrefix :: "string \<Rightarrow> string \<Rightarrow> string \<times> bool" where
  "CutPrefix s p = (if prefix p s then (drop (length p) s, True) else (s, False))"

definition ContainsAny :: "string \<Rightarrow> string \<Rightarrow> bool" where
  "ContainsAny s chars \<longleftrightarrow> list_ex (\<lambda>c. c \<in> set chars) s"

fun go_Contains :: "string \<Rightarrow> string \<Rightarrow> bool" where
  "go_Contains [] sub \<longleftrightarrow> sub = []"
| "go_Contains (c # cs) sub \<longleftrightarrow> prefix sub (c # cs) \<or> go_Contains cs sub"

section \<open>Runes\<close>

text \<open>
  Decoding of the next rune, with its width: a byte that starts no valid encoding is the rune U+FFFD of
  width 1. Encodings that are too long, of surrogates or beyond U+10FFFF are not valid.
\<close>

definition cont_byte :: "char \<Rightarrow> bool" where
  "cont_byte c \<longleftrightarrow> 128 \<le> uchar c \<and> uchar c < 192"

definition next_rune :: "string \<Rightarrow> int \<times> nat" where
  "next_rune s = (case s of
     [] \<Rightarrow> (65533, 0)
   | a # t \<Rightarrow>
       let x = uchar a in
       if x < 128 then (x, 1)
       else case t of
         b # u \<Rightarrow>
           if 194 \<le> x \<and> x < 224 \<and> cont_byte b then ((x - 192) * 64 + (uchar b - 128), 2)
           else (case u of
             c # v \<Rightarrow>
               let r = (x - 224) * 4096 + (uchar b - 128) * 64 + (uchar c - 128) in
               if 224 \<le> x \<and> x < 240 \<and> cont_byte b \<and> cont_byte c \<and> 2048 \<le> r \<and> \<not> (55296 \<le> r \<and> r < 57344) then (r, 3)
               else (case v of
                 d # _ \<Rightarrow>
                   let r = (x - 240) * 262144 + (uchar b - 128) * 4096 + (uchar c - 128) * 64 + (uchar d - 128) in
                   if 240 \<le> x \<and> x < 245 \<and> cont_byte b \<and> cont_byte c \<and> cont_byte d \<and> 65536 \<le> r \<and> r \<le> 1114111 then (r, 4)
                   else (65533, 1)
               | [] \<Rightarrow> (65533, 1))
           | [] \<Rightarrow> (65533, 1))
       | [] \<Rightarrow> (65533, 1))"

lemma next_rune_width: "s \<noteq> [] \<Longrightarrow> length s - snd (next_rune s) < length s"
proof -
  assume "s \<noteq> []"
  moreover from this have "0 < snd (next_rune s)" by (auto simp: next_rune_def Let_def split: list.splits)
  ultimately show ?thesis by (simp add: diff_less)
qed

function runes :: "string \<Rightarrow> int list" where
  "runes s = (if s = [] then [] else fst (next_rune s) # runes (drop (snd (next_rune s)) s))"
  by pat_completeness auto
termination
  by (relation "measure length") (auto simp: next_rune_width)

function ValidString :: "string \<Rightarrow> bool" where
  "ValidString s = (if s = [] then True else if next_rune s = (65533, 1) then False else ValidString (drop (snd (next_rune s)) s))"
  by pat_completeness auto
termination
  by (relation "measure length") (auto simp: next_rune_width)

declare runes.simps [simp del] ValidString.simps [simp del]

text \<open>\<^verbatim>\<open>unicode.IsLetter\<close> or \<^verbatim>\<open>unicode.IsDigit\<close>; \<open>uni\<close> answers beyond ASCII.\<close>

definition letter_or_digit :: "(int \<Rightarrow> bool) \<Rightarrow> int \<Rightarrow> bool" where
  "letter_or_digit uni r \<longleftrightarrow>
     (if r < 128 then (65 \<le> r \<and> r \<le> 90) \<or> (97 \<le> r \<and> r \<le> 122) \<or> (48 \<le> r \<and> r \<le> 57) else uni r)"

section \<open>Paths\<close>

definition slash :: char where "slash = CHR ''/''"

text \<open>
  \<^verbatim>\<open>filepath.Clean\<close>: the elements of the path from left to right, without empty ones and \<^verbatim>\<open>.\<close>, each \<^verbatim>\<open>..\<close> taken
  with the element before it unless that is missing, or is \<^verbatim>\<open>..\<close> itself.
\<close>

fun clean_parts :: "bool \<Rightarrow> string list \<Rightarrow> string list \<Rightarrow> string list" where
  "clean_parts rooted [] out = rev out"
| "clean_parts rooted (e # es) out =
     (if e = '''' \<or> e = ''.'' then clean_parts rooted es out
      else if e = ''..'' then
        (if out \<noteq> [] \<and> hd out \<noteq> ''..'' then clean_parts rooted es (tl out)
         else if rooted then clean_parts rooted es out
         else clean_parts rooted es (''..'' # out))
      else clean_parts rooted es (e # out))"

fun split_slash :: "string \<Rightarrow> string list" where
  "split_slash [] = [[]]"
| "split_slash (c # cs) = (if c = slash then [] # split_slash cs else (c # hd (split_slash cs)) # tl (split_slash cs))"

fun join_slash :: "string list \<Rightarrow> string" where
  "join_slash [] = []"
| "join_slash [e] = e"
| "join_slash (e # es) = e @ [slash] @ join_slash es"

definition IsAbs :: "string \<Rightarrow> bool" where
  "IsAbs path \<longleftrightarrow> path \<noteq> [] \<and> hd path = slash"

definition Clean :: "string \<Rightarrow> string" where
  "Clean path =
     (let rooted = IsAbs path; parts = clean_parts rooted (split_slash path) [] in
      if rooted then slash # join_slash parts else if parts = [] then ''.'' else join_slash parts)"

definition IsLocal :: "string \<Rightarrow> bool" where
  "IsLocal path \<longleftrightarrow> \<not> IsAbs path \<and> path \<noteq> [] \<and>
     (let hasDots = list_ex (\<lambda>e. e = ''.'' \<or> e = ''..'') (split_slash path);
          path = (if hasDots then Clean path else path)
      in path \<noteq> ''..'' \<and> \<not> prefix (''..'' @ [slash]) path)"

definition ValidPath :: "string \<Rightarrow> bool" where
  "ValidPath name \<longleftrightarrow> ValidString name \<and>
     (name = ''.'' \<or> list_all (\<lambda>e. e \<noteq> '''' \<and> e \<noteq> ''.'' \<and> e \<noteq> ''..'') (split_slash name))"

subsection \<open>Cleaned local paths stay below their root\<close>

lemma split_slash_ne [simp]: "split_slash s \<noteq> []"
  by (induction s) auto

lemma split_slash_no_slash: "e \<in> set (split_slash s) \<Longrightarrow> slash \<notin> set e"
proof (induction s arbitrary: e)
  case (Cons c s)
  show ?case
  proof (cases "c = slash")
    case False
    obtain h t where s: "split_slash s = h # t" by (cases "split_slash s") auto
    with Cons False show ?thesis by auto
  qed (use Cons in auto)
qed simp

lemma split_slash_plain: "slash \<notin> set e \<Longrightarrow> split_slash e = [e]"
  by (induction e) auto

lemma split_slash_append: "slash \<notin> set e \<Longrightarrow> split_slash (e @ [slash] @ s) = e # split_slash s"
  by (induction e) auto

lemma split_join: "es \<noteq> [] \<Longrightarrow> (\<And>e. e \<in> set es \<Longrightarrow> slash \<notin> set e) \<Longrightarrow> split_slash (join_slash es) = es"
proof (induction es rule: join_slash.induct)
  case (3 e f es)
  then have "split_slash (join_slash (f # es)) = f # es" by simp
  moreover have "slash \<notin> set e" using 3(3) by simp
  ultimately show ?case using split_slash_append by simp
qed (auto intro: split_slash_plain)

text \<open>The elements of a cleaned path: names, behind a number of \<^verbatim>\<open>..\<close> that stand first and only in a relative path.\<close>

definition clean_list :: "bool \<Rightarrow> string list \<Rightarrow> bool" where
  "clean_list rooted es \<longleftrightarrow> (\<exists>n names. es = replicate n ''..'' @ names \<and> (rooted \<longrightarrow> n = 0) \<and>
     list_all (\<lambda>e. e \<noteq> '''' \<and> e \<noteq> ''.'' \<and> e \<noteq> ''..'' \<and> slash \<notin> set e) names)"

lemma clean_list_snoc: "clean_list rooted es \<Longrightarrow> e \<noteq> '''' \<Longrightarrow> e \<noteq> ''.'' \<Longrightarrow> e \<noteq> ''..'' \<Longrightarrow> slash \<notin> set e \<Longrightarrow> clean_list rooted (es @ [e])"
proof -
  assume "clean_list rooted es" and e: "e \<noteq> ''''" "e \<noteq> ''.''" "e \<noteq> ''..''" "slash \<notin> set e"
  then obtain n names where "es = replicate n ''..'' @ names" "rooted \<longrightarrow> n = 0"
    "list_all (\<lambda>e. e \<noteq> '''' \<and> e \<noteq> ''.'' \<and> e \<noteq> ''..'' \<and> slash \<notin> set e) names" by (auto simp: clean_list_def)
  with e show ?thesis unfolding clean_list_def by (intro exI [of _ n] exI [of _ "names @ [e]"]) simp
qed

lemma clean_list_butlast:
  assumes "clean_list rooted (es @ [e])" "e \<noteq> ''..''"
  shows "clean_list rooted es"
proof -
  obtain n names where *: "es @ [e] = replicate n ''..'' @ names" "rooted \<longrightarrow> n = 0"
    "list_all (\<lambda>e. e \<noteq> '''' \<and> e \<noteq> ''.'' \<and> e \<noteq> ''..'' \<and> slash \<notin> set e) names" using assms(1) by (auto simp: clean_list_def)
  have "names \<noteq> []"
  proof
    assume "names = []"
    then have "e \<in> set (replicate n ''..'')" using *(1) by (metis append_Nil2 in_set_conv_decomp)
    then show False using assms(2) by auto
  qed
  then have "es = replicate n ''..'' @ butlast names" using *(1) by (metis butlast_append butlast_snoc)
  with * show ?thesis unfolding clean_list_def
    by (intro exI [of _ n] exI [of _ "butlast names"]) (auto simp: list_all_iff dest: in_set_butlastD)
qed

lemma clean_list_dots:
  assumes "clean_list False es" "es = [] \<or> last es = ''..''"
  shows "clean_list False (es @ [''..''])"
proof -
  obtain n names where *: "es = replicate n ''..'' @ names" "list_all (\<lambda>e. e \<noteq> '''' \<and> e \<noteq> ''.'' \<and> e \<noteq> ''..'' \<and> slash \<notin> set e) names"
    using assms(1) by (auto simp: clean_list_def)
  have "names = []" using assms(2) * by (cases names rule: rev_cases) auto
  with *(1) have "es @ [''..''] = replicate (Suc n) ''..'' @ []" by (simp add: replicate_append_same)
  then show ?thesis unfolding clean_list_def by (intro exI [of _ "Suc n"] exI [of _ "[]"]) simp
qed

lemma clean_parts_clean:
  assumes "clean_list rooted (rev out)" "\<And>e. e \<in> set es \<Longrightarrow> slash \<notin> set e"
  shows "clean_list rooted (clean_parts rooted es out)"
  using assms
proof (induction rooted es out rule: clean_parts.induct)
  case (2 rooted e es out)
  consider "e = '''' \<or> e = ''.''" | "e = ''..''" "out \<noteq> []" "hd out \<noteq> ''..''" | "e = ''..''" "\<not> (out \<noteq> [] \<and> hd out \<noteq> ''..'')" "rooted"
    | "e = ''..''" "\<not> (out \<noteq> [] \<and> hd out \<noteq> ''..'')" "\<not> rooted" | "e \<noteq> ''''" "e \<noteq> ''.''" "e \<noteq> ''..''" by blast
  then show ?case
  proof cases
    case 2
    then have "rev out = rev (tl out) @ [hd out]" by (cases out) simp_all
    then have "clean_list rooted (rev (tl out))" using clean_list_butlast "2.prems"(1) 2(3) by metis
    with "2.IH"(2) "2.prems"(2) 2 show ?thesis by simp
  next
    case 4
    have "rev out = [] \<or> last (rev out) = ''..''" using 4(2) by (simp add: last_rev)
    then have "clean_list rooted (rev (''..'' # out))" using clean_list_dots [of "rev out"] "2.prems"(1) 4(3) by simp
    with "2.IH"(4) "2.prems"(2) 4 have "clean_list rooted (clean_parts rooted es (''..'' # out))" by simp
    moreover have "clean_parts rooted (e # es) out = clean_parts rooted es (''..'' # out)" using 4 by auto
    ultimately show ?thesis by simp
  next
    case 5
    then have "clean_list rooted (rev (e # out))" using clean_list_snoc "2.prems" by simp
    with "2.IH"(5) "2.prems"(2) 5 show ?thesis by simp
  qed (use "2.IH" "2.prems" in auto)
qed simp

lemma Clean_parts: "clean_list (IsAbs path) (clean_parts (IsAbs path) (split_slash path) [])"
proof (rule clean_parts_clean)
  show "clean_list (IsAbs path) (rev [])" unfolding clean_list_def by (intro exI [of _ 0] exI [of _ "[]"]) simp
qed (use split_slash_no_slash in blast)

lemma clean_parts_names:
  "list_all (\<lambda>e. e \<noteq> [] \<and> e \<noteq> ''.'' \<and> e \<noteq> ''..'' \<and> slash \<notin> set e) names \<Longrightarrow> clean_parts rooted names out = rev out @ names"
  by (induction names arbitrary: out) auto

lemma clean_parts_dots:
  "clean_parts False (replicate n ''..'' @ names) (replicate k ''..'') = clean_parts False names (replicate (n + k) ''..'')"
proof (induction n arbitrary: k)
  case (Suc n)
  have "clean_parts False (''..'' # (replicate n ''..'' @ names)) (replicate k ''..'') =
      clean_parts False (replicate n ''..'' @ names) (''..'' # replicate k ''..'')" by (cases k) simp_all
  then show ?case using Suc [of "Suc k"] by simp
qed simp

lemma clean_parts_idem: "clean_list False es \<Longrightarrow> clean_parts False es [] = es"
proof -
  assume "clean_list False es"
  then obtain n names where *: "es = replicate n ''..'' @ names"
    "list_all (\<lambda>e. e \<noteq> [] \<and> e \<noteq> ''.'' \<and> e \<noteq> ''..'' \<and> slash \<notin> set e) names" by (auto simp: clean_list_def)
  then show ?thesis using clean_parts_dots [of n names 0] clean_parts_names [OF *(2), of False "replicate n ''..''"] by simp
qed

lemma clean_list_no_slash: "clean_list rooted es \<Longrightarrow> e \<in> set es \<Longrightarrow> slash \<notin> set e"
proof -
  assume "clean_list rooted es" "e \<in> set es"
  then obtain n names where "e \<in> set (replicate n ''..'' @ names)"
    "list_all (\<lambda>e. e \<noteq> [] \<and> e \<noteq> ''.'' \<and> e \<noteq> ''..'' \<and> slash \<notin> set e) names" unfolding clean_list_def by blast
  moreover have "slash \<notin> set ''..''" by (simp add: slash_def)
  ultimately show ?thesis unfolding list_all_iff set_append by (metis UnE in_set_replicate)
qed

lemma clean_list_hd: "clean_list rooted es \<Longrightarrow> es \<noteq> [] \<Longrightarrow> hd es \<noteq> []"
proof -
  assume "clean_list rooted es" "es \<noteq> []"
  then obtain n names where *: "es = replicate n ''..'' @ names"
    "list_all (\<lambda>e. e \<noteq> [] \<and> e \<noteq> ''.'' \<and> e \<noteq> ''..'' \<and> slash \<notin> set e) names" unfolding clean_list_def by blast
  show ?thesis
  proof (cases n)
    case 0
    with * \<open>es \<noteq> []\<close> show ?thesis by (cases names) simp_all
  next
    case (Suc m)
    with *(1) show ?thesis by simp
  qed
qed

lemma IsAbs_join: "clean_list rooted es \<Longrightarrow> es \<noteq> [] \<Longrightarrow> \<not> IsAbs (join_slash es)"
  using clean_list_hd [of rooted es] clean_list_no_slash [of rooted es "hd es"]
  by (cases es rule: join_slash.cases) (auto simp: IsAbs_def hd_append neq_Nil_conv)

lemma Clean_idem:
  assumes "\<not> IsAbs path" "clean_parts (IsAbs path) (split_slash path) [] \<noteq> []"
  shows "Clean (Clean path) = Clean path"
proof -
  let ?parts = "clean_parts (IsAbs path) (split_slash path) []"
  have c: "clean_list False ?parts" using Clean_parts [of path] assms(1) by simp
  have j: "Clean path = join_slash ?parts" using assms by (simp add: Clean_def Let_def)
  have "split_slash (join_slash ?parts) = ?parts" using split_join [OF assms(2)] clean_list_no_slash [OF c] by blast
  moreover have "clean_parts False ?parts [] = ?parts" using clean_parts_idem [OF c] .
  moreover have "\<not> IsAbs (join_slash ?parts)" using IsAbs_join [OF c assms(2)] .
  ultimately show ?thesis using assms(2) unfolding j by (simp add: Clean_def [of "join_slash ?parts"] Let_def)
qed

text \<open>The elements of a path that stays below its root.\<close>

definition stays_inside :: "string \<Rightarrow> bool" where
  "stays_inside path \<longleftrightarrow> \<not> IsAbs path \<and> list_all (\<lambda>e. e \<noteq> '''' \<and> e \<noteq> ''.'' \<and> e \<noteq> ''..'') (split_slash path)"

lemma IsAbs_split: "IsAbs path \<Longrightarrow> hd (split_slash path) = ''''"
  by (cases path) (auto simp: IsAbs_def)

lemma clean_local_inside:
  assumes "IsLocal (Clean path)" "Clean path \<noteq> ''.''"
  shows "stays_inside (Clean path)"
proof -
  let ?parts = "clean_parts (IsAbs path) (split_slash path) []"
  have "\<not> IsAbs (Clean path)" using assms(1) by (simp add: IsLocal_def)
  then have rel: "\<not> IsAbs path" by (auto simp: Clean_def Let_def IsAbs_def split: if_splits)
  then have ne: "?parts \<noteq> []" "Clean path = join_slash ?parts" using assms(2) by (auto simp: Clean_def Let_def)
  obtain n names where p: "?parts = replicate n ''..'' @ names"
    "list_all (\<lambda>e. e \<noteq> '''' \<and> e \<noteq> ''.'' \<and> e \<noteq> ''..'' \<and> slash \<notin> set e) names" using Clean_parts [of path] by (auto simp: clean_list_def)
  have sp: "split_slash (Clean path) = ?parts" using split_join [OF ne(1)] clean_list_no_slash [OF Clean_parts] ne(2) by simp
  have "n = 0"
  proof (rule ccontr)
    assume "n \<noteq> 0"
    then obtain rest where r: "?parts = ''..'' # rest" using p(1) by (cases n) auto
    then have "Clean path = ''..'' \<or> prefix (''..'' @ [slash]) (Clean path)" using ne(2) by (cases rest) auto
    moreover have "Clean (Clean path) = Clean path" using Clean_idem [OF rel ne(1)] .
    moreover have "list_ex (\<lambda>e. e = ''.'' \<or> e = ''..'') (split_slash (Clean path))" using sp r by simp
    ultimately show False using assms(1) by (simp add: IsLocal_def Let_def)
  qed
  then show ?thesis using sp p \<open>\<not> IsAbs (Clean path)\<close> by (simp add: stays_inside_def list_all_iff)
qed

end
