(* ===== verification/AJ_Execution.thy ===== *)
theory AJ_Execution
  imports AJ_Sandbox AJ_Paths
begin

text \<open>
  The execution layer of the judge (\<^verbatim>\<open>internal/execution\<close>) and the languages (\<^verbatim>\<open>internal/service/language.go\<close>): one
  task in a fresh workspace, compilation with its artifact, runs, and the profiles of the languages. The
  container, the file system of the workspace and the semaphore are outside; the record \<open>outside\<close> holds
  what they answer during one execution.
\<close>

section \<open>Errors and results\<close>

text \<open>An error as a value: \<open>External\<close> is one that came from outside, the others are made by the judge.\<close>

datatype go_error =
    External string
  | Create_workspace string
  | Write_execution_files string string
  | Sandbox_execute string
  | Unknown_sandbox_verdict
  | Stat_artifact string string
  | Read_artifact string string
  | Cleanup_workspace string
  | Joined go_error go_error
  | Checker_setup_failed go_error
  | Unsupported_language string
  | Source_required | Language_required | Time_limit_zero | Memory_limit_zero
  | No_testcases | Too_many_testcases nat
  | Mixed_data nat | Files_together nat | Bad_input_path nat | Bad_expected_path nat
  | Case_error nat go_error
  | Input_needs_external string | Input_unavailable string string | Expected_unavailable string string
  | Blank_checker_source | Checker_twice
  | Bad_checker_path_chars string | Bad_checker_chars string
  | External_path_required | External_path_escapes string | External_not_cpp string
  | Checker_needs_external string | External_checker_unavailable string string | Builtin_checker_unavailable string string

text \<open>\<^verbatim>\<open>model.Verdict\<close>, a string type: its constants, and the empty string as its zero value.\<close>

datatype model_verdict =
    Verdict_zero | VerdictOK | VerdictTLE | VerdictMLE | VerdictOLE | VerdictRE | VerdictWA | VerdictUKE | VerdictCheckerExecutionError

record Artifact =
  a_Name :: string
  a_Data :: string
  a_Mode :: nat

record File =
  f_Name :: string
  f_Content :: string
  f_Mode :: nat

record CompileRequest =
  cq_Files :: "File list"
  cq_ImageRef :: string
  cq_Command :: "string list"
  cq_ArtifactName :: string
  cq_Limits :: ResourceLimits

record CompileOut =
  co_Log :: string
  co_Artifact :: "Artifact option"

record RunRequest =
  rq_Artifact :: Artifact
  rq_Files :: "File list"
  rq_ImageRef :: string
  rq_Command :: "string list"
  rq_Stdin :: "string option"
  rq_Limits :: ResourceLimits

record RunResult =
  rr_Verdict :: model_verdict
  rr_ExitCode :: int
  rr_Stdout :: string
  rr_Stderr :: string
  rr_CPUTimeMs :: int
  rr_MemoryMB :: int
  rr_ExtraInfo :: string

definition WallTimeMultiplier :: int where "WallTimeMultiplier = 3"
definition DefaultRunOutputLimitBytes :: int where "DefaultRunOutputLimitBytes = 16 * 1024 * 1024"
definition DefaultCompileOutputLimitBytes :: int where "DefaultCompileOutputLimitBytes = 1 * 1024 * 1024"
definition maxCompileArtifactBytes :: int where "maxCompileArtifactBytes = 64 * 1024 * 1024"

record task =
  t_files :: "File list"
  t_imageRef :: string
  t_command :: "string list"
  t_mountPath :: string
  t_readOnlyMount :: bool
  t_stdin :: "string option"
  t_limits :: ResourceLimits
  t_enableSeccomp :: bool
  t_artifactName :: string

text \<open>\<^verbatim>\<open>sandbox.ExecuteRequest\<close>; the mounted directory is given by its path in the container and whether it is read-only.\<close>

record ExecuteRequest =
  xr_ImageRef :: string
  xr_Command :: "string list"
  xr_MountDir :: "string \<times> bool"
  xr_Stdin :: "string option"
  xr_Limits :: ResourceLimits
  xr_EnableSeccomp :: bool

text \<open>
  The answers of one execution: errors of the semaphore, of the workspace and of writing a file into it;
  the sandbox on the files of the workspace; kind, size and mode of a file afterwards and its contents;
  the error of the cleanup.
\<close>

record outside =
  o_acquire :: "string option"
  o_mkdir :: "string option"
  o_write :: "string \<Rightarrow> string option"
  o_sandbox :: "File list \<Rightarrow> ExecuteRequest \<Rightarrow> string + ExecuteResult"
  o_stat :: "string \<Rightarrow> string + (bool \<times> int \<times> nat)"
  o_read :: "string \<Rightarrow> string + string"
  o_cleanup :: "string option"

section \<open>One task\<close>

definition sandboxVerdictToModel :: "sandbox_verdict \<Rightarrow> model_verdict" where
  "sandboxVerdictToModel v = (case v of
     SV_OK \<Rightarrow> VerdictOK | SV_TLE \<Rightarrow> VerdictTLE | SV_MLE \<Rightarrow> VerdictMLE | SV_OLE \<Rightarrow> VerdictOLE | SV_RE \<Rightarrow> VerdictRE
   | SV_Unknown \<Rightarrow> VerdictUKE)"

definition sandboxResultToRunResult :: "ExecuteResult \<Rightarrow> RunResult" where
  "sandboxResultToRunResult r = \<lparr>rr_Verdict = sandboxVerdictToModel (er_Verdict r), rr_ExitCode = er_ExitCode r,
     rr_Stdout = er_Stdout r, rr_Stderr = er_Stderr r, rr_CPUTimeMs = er_CPUTimeMs r, rr_MemoryMB = er_MemoryMB r,
     rr_ExtraInfo = er_ExtraInfo r\<rparr>"

text \<open>\<^verbatim>\<open>writeFiles\<close>: the file modes that are 0 become 0644; the first error ends it.\<close>

fun writeFiles :: "outside \<Rightarrow> File list \<Rightarrow> go_error + File list" where
  "writeFiles out [] = Inr []"
| "writeFiles out (f # fs) = (case o_write out (f_Name f) of
     Some err \<Rightarrow> Inl (Write_execution_files (f_Name f) err)
   | None \<Rightarrow> (case writeFiles out fs of
       Inl err \<Rightarrow> Inl err
     | Inr written \<Rightarrow> Inr ((if f_Mode f = 0 then f\<lparr>f_Mode := 420\<rparr> else f) # written)))"

text \<open>The names of artifacts are the fixed ones of the profiles, which \<^verbatim>\<open>%q\<close> prints in quotes as they are.\<close>

definition collectArtifact :: "outside \<Rightarrow> string \<Rightarrow> go_error + CompileOut" where
  "collectArtifact out name = (case o_stat out name of
     Inl err \<Rightarrow> Inl (Stat_artifact name err)
   | Inr (regular, sz, mode) \<Rightarrow>
       if \<not> regular then Inr \<lparr>co_Log = ''compiled artifact \"'' @ name @ ''\" is not a regular file'', co_Artifact = None\<rparr>
       else if sz > maxCompileArtifactBytes
       then Inr \<lparr>co_Log = ''compiled artifact \"'' @ name @ ''\" exceeds size limit ('' @ vtos sz @ '' bytes > '' @
                 vtos maxCompileArtifactBytes @ '' bytes)'', co_Artifact = None\<rparr>
       else (case o_read out name of
         Inl err \<Rightarrow> Inl (Read_artifact name err)
       | Inr data \<Rightarrow> Inr \<lparr>co_Log = '''', co_Artifact = Some \<lparr>a_Name = name, a_Data = data, a_Mode = mode\<rparr>\<rparr>))"

definition no_compile :: CompileOut where
  "no_compile = \<lparr>co_Log = '''', co_Artifact = None\<rparr>"

definition in_workspace :: "outside \<Rightarrow> task \<Rightarrow> go_error + (RunResult \<times> CompileOut)" where
  "in_workspace out t = (case writeFiles out (t_files t) of
     Inl err \<Rightarrow> Inl err
   | Inr files \<Rightarrow>
       (case o_sandbox out files \<lparr>xr_ImageRef = t_imageRef t, xr_Command = t_command t,
           xr_MountDir = (t_mountPath t, t_readOnlyMount t), xr_Stdin = t_stdin t, xr_Limits = t_limits t,
           xr_EnableSeccomp = t_enableSeccomp t\<rparr> of
         Inl err \<Rightarrow> Inl (Sandbox_execute err)
       | Inr r \<Rightarrow>
           if er_Verdict r = SV_Unknown then Inl Unknown_sandbox_verdict
           else let result = sandboxResultToRunResult r in
             if t_artifactName t = '''' \<or> rr_ExitCode result \<noteq> 0 \<or> rr_Verdict result \<noteq> VerdictOK
             then Inr (result, no_compile)
             else (case collectArtifact out (t_artifactName t) of Inl err \<Rightarrow> Inl err | Inr c \<Rightarrow> Inr (result, c))))"

text \<open>The deferred cleanup joins its error to the one of the task, or makes the task fail.\<close>

definition execute :: "outside \<Rightarrow> task \<Rightarrow> go_error + (RunResult \<times> CompileOut)" where
  "execute out t = (case o_acquire out of
     Some err \<Rightarrow> Inl (External err)
   | None \<Rightarrow> (case o_mkdir out of
       Some err \<Rightarrow> Inl (Create_workspace err)
     | None \<Rightarrow> (case (in_workspace out t, o_cleanup out) of
         (r, None) \<Rightarrow> r
       | (Inl err, Some c) \<Rightarrow> Inl (Joined err (Cleanup_workspace c))
       | (Inr r, Some c) \<Rightarrow> Inl (Cleanup_workspace c))))"

definition exec_Compile :: "outside \<Rightarrow> CompileRequest \<Rightarrow> go_error + CompileOut" where
  "exec_Compile out req = (case execute out \<lparr>t_files = cq_Files req, t_imageRef = cq_ImageRef req, t_command = cq_Command req,
       t_mountPath = ''/work'', t_readOnlyMount = False, t_stdin = None, t_limits = cq_Limits req, t_enableSeccomp = False,
       t_artifactName = cq_ArtifactName req\<rparr> of
     Inl err \<Rightarrow> Inl err
   | Inr (result, compile) \<Rightarrow>
       let diagnostics = filter (\<lambda>m. m \<noteq> '''') [rr_Stdout result, rr_Stderr result, co_Log compile];
           diagnostics = (if rr_Verdict result \<in> {VerdictTLE, VerdictMLE, VerdictOLE} then diagnostics @ [rr_ExtraInfo result] else diagnostics);
           log = join diagnostics [CHR 0x0A];
           log = (if rr_Verdict result = VerdictRE \<and> TrimSpace log = '''' then ''compiler exited with code '' @ vtos (rr_ExitCode result) else log)
       in Inr \<lparr>co_Log = log, co_Artifact = co_Artifact compile\<rparr>)"

definition exec_Run :: "outside \<Rightarrow> RunRequest \<Rightarrow> go_error + RunResult" where
  "exec_Run out req =
     (let a = rq_Artifact req; files = \<lparr>f_Name = a_Name a, f_Content = a_Data a, f_Mode = a_Mode a\<rparr> # rq_Files req in
      case execute out \<lparr>t_files = files, t_imageRef = rq_ImageRef req, t_command = rq_Command req, t_mountPath = ''/sandbox'',
          t_readOnlyMount = True, t_stdin = rq_Stdin req, t_limits = rq_Limits req, t_enableSeccomp = True, t_artifactName = ''''\<rparr> of
        Inl err \<Rightarrow> Inl err
      | Inr (result, compile) \<Rightarrow> Inr result)"

section \<open>Languages\<close>

definition imageGCC12 :: string where "imageGCC12 = ''docker.io/library/gcc:12-bookworm''"
definition imageDebian12 :: string where "imageDebian12 = ''docker.io/library/debian:12-slim''"
definition imageJDK21 :: string where "imageJDK21 = ''docker.io/library/eclipse-temurin:21-jdk-jammy''"
definition imageJRE21 :: string where "imageJRE21 = ''docker.io/library/eclipse-temurin:21-jre-jammy''"
definition imagePy311 :: string where "imagePy311 = ''docker.io/library/python:3.11-slim-bookworm''"

record compileConfig =
  cc_ImageRef :: string
  cc_SourceFile :: string
  cc_ArtifactName :: string
  cc_BuildCommand :: "string list"
  cc_TimeoutMs :: int
  cc_MemoryMB :: int

record runConfig =
  rc_ImageRef :: string
  rc_RuntimeCommand :: "string \<Rightarrow> int \<Rightarrow> string list"

record languageProfile =
  lp_Compile :: compileConfig
  lp_Run :: runConfig

definition cProfile :: languageProfile where
  "cProfile = \<lparr>lp_Compile = \<lparr>cc_ImageRef = imageGCC12, cc_SourceFile = ''main.c'', cc_ArtifactName = ''program'',
       cc_BuildCommand = [''gcc'', ''-O2'', ''-pipe'', ''-static'', ''-s'', ''-o'', ''program'', ''main.c'', ''-lm''],
       cc_TimeoutMs = 30000, cc_MemoryMB = 512\<rparr>,
     lp_Run = \<lparr>rc_ImageRef = imageDebian12, rc_RuntimeCommand = (\<lambda>p _. [p])\<rparr>\<rparr>"

definition cppProfile :: languageProfile where
  "cppProfile = \<lparr>lp_Compile = \<lparr>cc_ImageRef = imageGCC12, cc_SourceFile = ''main.cpp'', cc_ArtifactName = ''program'',
       cc_BuildCommand = [''g++'', ''-std=c++20'', ''-O2'', ''-pipe'', ''-static'', ''-s'', ''-o'', ''program'', ''main.cpp'', ''-lm''],
       cc_TimeoutMs = 30000, cc_MemoryMB = 512\<rparr>,
     lp_Run = \<lparr>rc_ImageRef = imageDebian12, rc_RuntimeCommand = (\<lambda>p _. [p])\<rparr>\<rparr>"

definition javaProfile :: languageProfile where
  "javaProfile = \<lparr>lp_Compile = \<lparr>cc_ImageRef = imageJDK21, cc_SourceFile = ''Main.java'', cc_ArtifactName = ''solution.jar'',
       cc_BuildCommand = [''sh'', ''-c'', ''mkdir -p classes && javac -encoding UTF-8 -d classes Main.java && jar --create --file solution.jar --main-class Main -C classes .''],
       cc_TimeoutMs = 30000, cc_MemoryMB = 512\<rparr>,
     lp_Run = \<lparr>rc_ImageRef = imageJRE21, rc_RuntimeCommand = (\<lambda>p memoryMB. let initialHeapMB = min memoryMB 64 in
       [''java'', ''-Xmx'' @ vtos memoryMB @ ''m'', ''-Xms'' @ vtos initialHeapMB @ ''m'', ''-jar'', p])\<rparr>\<rparr>"

definition pythonProfile :: languageProfile where
  "pythonProfile = \<lparr>lp_Compile = \<lparr>cc_ImageRef = imagePy311, cc_SourceFile = ''solution.py'', cc_ArtifactName = ''solution.pyc'',
       cc_BuildCommand = [''sh'', ''-c'', ''python3 -c '' @ [CHR 0x27] @ ''import py_compile; py_compile.compile(\"solution.py\", cfile=\"solution.pyc\", doraise=True)'' @ [CHR 0x27] @ '' || exit 1''],
       cc_TimeoutMs = 10000, cc_MemoryMB = 256\<rparr>,
     lp_Run = \<lparr>rc_ImageRef = imagePy311, rc_RuntimeCommand = (\<lambda>p _. [''python3'', p])\<rparr>\<rparr>"

definition profileForLanguage :: "string \<Rightarrow> go_error + languageProfile" where
  "profileForLanguage lang =
     (if lang = ''C'' then Inr cProfile else if lang = ''C++'' then Inr cppProfile
      else if lang = ''Java'' then Inr javaProfile else if lang = ''Python'' then Inr pythonProfile
      else Inl (Unsupported_language lang))"

definition javaNativeReserveMB :: int where "javaNativeReserveMB = 64"

definition sandboxMemoryLimitMB :: "string \<Rightarrow> int \<Rightarrow> int" where
  "sandboxMemoryLimitMB lang memoryLimitMB =
     (if lang \<noteq> ''Java'' then memoryLimitMB else memoryLimitMB + max javaNativeReserveMB (memoryLimitMB div 4))"

definition normalizeLanguageRunResult :: "string \<Rightarrow> RunResult \<Rightarrow> RunResult" where
  "normalizeLanguageRunResult lang runOut =
     (if lang = ''Java'' \<and> rr_Verdict runOut = VerdictRE \<and> go_Contains (rr_Stderr runOut) ''java.lang.OutOfMemoryError''
      then runOut\<lparr>rr_Verdict := VerdictMLE\<rparr> else runOut)"

definition compile_limits :: "compileConfig \<Rightarrow> ResourceLimits" where
  "compile_limits config = \<lparr>CPUTimeMs = cc_TimeoutMs config, WallTimeMs = cc_TimeoutMs config * WallTimeMultiplier,
     MemoryMB = cc_MemoryMB config, OutputBytes = DefaultCompileOutputLimitBytes\<rparr>"

text \<open>\<^verbatim>\<open>resolvedLanguage.Compile\<close>; the result is \<open>None\<close> when the compilation left no artifact.\<close>

record CompileResult =
  Succeeded :: bool
  Log :: string

definition language_Compile :: "outside \<Rightarrow> languageProfile \<Rightarrow> string \<Rightarrow> go_error + (Artifact option \<times> CompileResult)" where
  "language_Compile out profile sourceCode =
     (let config = lp_Compile profile in
      case exec_Compile out \<lparr>cq_Files = [\<lparr>f_Name = cc_SourceFile config, f_Content = sourceCode, f_Mode = 420\<rparr>],
          cq_ImageRef = cc_ImageRef config, cq_Command = cc_BuildCommand config, cq_ArtifactName = cc_ArtifactName config,
          cq_Limits = compile_limits config\<rparr> of
        Inl err \<Rightarrow> Inl err
      | Inr c \<Rightarrow> Inr (co_Artifact c, \<lparr>Succeeded = (co_Artifact c \<noteq> None), Log = co_Log c\<rparr>))"

definition program_Run :: "outside \<Rightarrow> string \<Rightarrow> runConfig \<Rightarrow> Artifact \<Rightarrow> string \<Rightarrow> int \<Rightarrow> int \<Rightarrow> go_error + RunResult" where
  "program_Run out lang profile artifact input timeLimit memoryLimit =
     (case exec_Run out \<lparr>rq_Artifact = artifact, rq_Files = [], rq_ImageRef = rc_ImageRef profile,
         rq_Command = rc_RuntimeCommand profile (''./'' @ a_Name artifact) memoryLimit, rq_Stdin = Some input,
         rq_Limits = \<lparr>CPUTimeMs = timeLimit, WallTimeMs = timeLimit * WallTimeMultiplier,
           MemoryMB = sandboxMemoryLimitMB lang memoryLimit, OutputBytes = DefaultRunOutputLimitBytes\<rparr>\<rparr> of
       Inl err \<Rightarrow> Inl err
     | Inr runOut \<Rightarrow> Inr (normalizeLanguageRunResult lang runOut))"

end
