(* ===== verification/AJ_Service.thy ===== *)
theory AJ_Service
  imports AJ_Execution
begin

text \<open>
  The judge service (\<^verbatim>\<open>internal/service\<close>): the choice of a checker, its compilation with the cache, the run of
  a checker, and the whole judging of a request. The cache is a library: its \<^verbatim>\<open>Get\<close> and \<^verbatim>\<open>Add\<close> are arguments,
  as are the hash function and the file systems. Every execution has its own answers from outside.
\<close>

section \<open>Requests and results\<close>

record JudgeTestCase =
  jt_InputText :: string
  jt_ExpectedOutput :: string
  jt_InputFile :: string
  jt_ExpectedOutputFile :: string

record JudgeRequest =
  jr_SourceCode :: string
  jr_Checker :: string
  jr_CheckerSourceCode :: string
  jr_Language :: string
  jr_TimeLimit :: "32 word"
  jr_MemoryLimit :: "32 word"
  jr_TestCases :: "JudgeTestCase list"

text \<open>A text of the result, or a literal in front of an error that \<^verbatim>\<open>%v\<close> prints.\<close>

datatype info = Plain string | Formatted string go_error

record JudgeCaseResult =
  jc_Verdict :: model_verdict
  jc_Stdout :: string
  jc_TimeUsed :: int
  jc_MemoryUsed :: int
  jc_ExitCode :: int
  jc_ExtraInfo :: info

datatype JudgeStatus =
    JudgeStatusOK | JudgeStatusCompileError | JudgeStatusSystemError | JudgeStatusCheckerCompileError | JudgeStatusCheckerExecutionError

record JudgeResult =
  jg_Status :: JudgeStatus
  jg_Compile :: "bool \<times> info"
  jg_CheckerCompile :: "CompileResult option"
  jg_Cases :: "JudgeCaseResult list"

section \<open>The choice of a checker\<close>

datatype checkerKind = checkerBuiltin | checkerExternal | checkerInline

record checkerChoice =
  ch_kind :: checkerKind
  ch_value :: string

definition validateCheckerShortName :: "(int \<Rightarrow> bool) \<Rightarrow> string \<Rightarrow> go_error option" where
  "validateCheckerShortName uni name =
     (if ContainsAny name [CHR ''/'', CHR 0x5C, CHR ''.''] then Some (Bad_checker_path_chars name)
      else if list_ex (\<lambda>r. \<not> letter_or_digit uni r \<and> r \<noteq> 95 \<and> r \<noteq> 45) (runes name) then Some (Bad_checker_chars name)
      else None)"

definition validateExternalCheckerPath :: "string \<Rightarrow> go_error + string" where
  "validateExternalCheckerPath checkerPath =
     (if TrimSpace checkerPath = '''' then Inl External_path_required
      else let normalizedPath = Clean checkerPath in
        if normalizedPath = ''.'' then Inl External_path_required
        else if \<not> IsLocal normalizedPath then Inl (External_path_escapes checkerPath)
        else if \<not> HasSuffix normalizedPath ''.cpp'' then Inl (External_not_cpp checkerPath)
        else Inr normalizedPath)"

definition resolveChecker :: "(int \<Rightarrow> bool) \<Rightarrow> string \<Rightarrow> string \<Rightarrow> go_error + checkerChoice" where
  "resolveChecker uni raw inlineSource =
     (let name = TrimSpace raw in
      if inlineSource \<noteq> '''' then
        if TrimSpace inlineSource = '''' then Inl Blank_checker_source
        else if name \<noteq> '''' then Inl Checker_twice
        else Inr \<lparr>ch_kind = checkerInline, ch_value = inlineSource\<rparr>
      else if name = '''' then Inr \<lparr>ch_kind = checkerBuiltin, ch_value = ''default''\<rparr>
      else let (checkerPath, ok) = CutPrefix name ''external:'' in
        if ok then (case validateExternalCheckerPath checkerPath of
            Inl err \<Rightarrow> Inl err
          | Inr normalizedPath \<Rightarrow> Inr \<lparr>ch_kind = checkerExternal, ch_value = normalizedPath\<rparr>)
        else (case validateCheckerShortName uni name of
            Some err \<Rightarrow> Inl err
          | None \<Rightarrow> Inr \<lparr>ch_kind = checkerBuiltin, ch_value = name\<rparr>))"

definition builtinCheckerPath :: "string \<Rightarrow> string" where
  "builtinCheckerPath shortName = ''checkers/'' @ shortName @ ''.cpp''"

text \<open>The file systems: \<open>Inl\<close> is the error of \<^verbatim>\<open>fs.ReadFile\<close>; the external one may be missing.\<close>

type_synonym fs = "string \<Rightarrow> string + string"

definition readSource :: "fs \<Rightarrow> fs option \<Rightarrow> checkerChoice \<Rightarrow> go_error + string" where
  "readSource bundledFS externalFS choice =
     (if ch_kind choice = checkerInline then Inr (ch_value choice)
      else if ch_kind choice = checkerExternal then
        (case externalFS of
           None \<Rightarrow> Inl (Checker_needs_external (ch_value choice))
         | Some efs \<Rightarrow> (case efs (ch_value choice) of
             Inl err \<Rightarrow> Inl (External_checker_unavailable (ch_value choice) err) | Inr source \<Rightarrow> Inr source))
      else (case bundledFS (builtinCheckerPath (ch_value choice)) of
             Inl err \<Rightarrow> Inl (Builtin_checker_unavailable (ch_value choice) err) | Inr source \<Rightarrow> Inr source))"

section \<open>Compilation of a checker\<close>

definition checkerCompileProfile :: compileConfig where
  "checkerCompileProfile = \<lparr>cc_ImageRef = imageGCC12, cc_SourceFile = ''checker.cpp'', cc_ArtifactName = ''checker'',
     cc_BuildCommand = [''g++'', ''-std=c++20'', ''-O2'', ''-pipe'', ''-static'', ''-s'', ''-o'', ''checker'', ''checker.cpp'', ''-lm''],
     cc_TimeoutMs = 30000, cc_MemoryMB = 512\<rparr>"

definition compileUncached :: "string \<Rightarrow> outside \<Rightarrow> string \<Rightarrow> go_error + CompileOut" where
  "compileUncached testlibHeader out source =
     (let profile = checkerCompileProfile in
      case exec_Compile out \<lparr>cq_Files = [\<lparr>f_Name = cc_SourceFile profile, f_Content = source, f_Mode = 420\<rparr>,
            \<lparr>f_Name = ''testlib.h'', f_Content = testlibHeader, f_Mode = 420\<rparr>],
          cq_ImageRef = cc_ImageRef profile, cq_Command = cc_BuildCommand profile, cq_ArtifactName = cc_ArtifactName profile,
          cq_Limits = compile_limits profile\<rparr> of
        Inl err \<Rightarrow> Inl (Checker_setup_failed err)
      | Inr compileOut \<Rightarrow> Inr compileOut)"

text \<open>
  The state of the cache library and its two operations; \<^verbatim>\<open>Get\<close> changes the order of use. The caller that
  leads the flight looks into the cache twice, compiles, and adds a compilation with an artifact; the
  callers that wait for it receive its result.
\<close>

record ('c, 'k) cache_lib =
  cl_get :: "'c \<Rightarrow> 'k \<Rightarrow> CompileOut option \<times> 'c"
  cl_add :: "'c \<Rightarrow> 'k \<Rightarrow> CompileOut \<Rightarrow> 'c"
  cl_sum :: "string \<Rightarrow> 'k"

definition checker_flight :: "('c, 'k) cache_lib \<Rightarrow> string \<Rightarrow> outside \<Rightarrow> string \<Rightarrow> 'c \<Rightarrow> (go_error + CompileOut) \<times> 'c" where
  "checker_flight lib testlibHeader out source cache =
     (let key = cl_sum lib source in
      case cl_get lib cache key of
        (Some compilation, cache) \<Rightarrow> (Inr compilation, cache)
      | (None, cache) \<Rightarrow>
          (case compileUncached testlibHeader out source of
             Inl err \<Rightarrow> (Inl err, cache)
           | Inr compilation \<Rightarrow>
               (Inr compilation, if co_Artifact compilation \<noteq> None then cl_add lib cache key compilation else cache)))"

definition checker_compile :: "('c, 'k) cache_lib \<Rightarrow> string \<Rightarrow> outside \<Rightarrow> string \<Rightarrow> 'c \<Rightarrow> (go_error + CompileOut) \<times> 'c" where
  "checker_compile lib testlibHeader out source cache =
     (case cl_get lib cache (cl_sum lib source) of
        (Some compilation, cache) \<Rightarrow> (Inr compilation, cache)
      | (None, cache) \<Rightarrow> checker_flight lib testlibHeader out source cache)"

definition checker_prepare ::
  "('c, 'k) cache_lib \<Rightarrow> string \<Rightarrow> outside \<Rightarrow> string \<Rightarrow> 'c \<Rightarrow> (go_error + (Artifact option \<times> CompileResult)) \<times> 'c"
where
  "checker_prepare lib testlibHeader out source cache =
     (case checker_compile lib testlibHeader out source cache of
        (Inl err, cache) \<Rightarrow> (Inl err, cache)
      | (Inr c, cache) \<Rightarrow> (Inr (co_Artifact c, \<lparr>Succeeded = (co_Artifact c \<noteq> None), Log = co_Log c\<rparr>), cache))"

section \<open>The run of a checker\<close>

datatype checkerOutcome = checkerFailed | checkerAccepted | checkerRejected

definition checkerRunLimits :: ResourceLimits where
  "checkerRunLimits = \<lparr>CPUTimeMs = 3000, WallTimeMs = 3000 * WallTimeMultiplier, MemoryMB = 256, OutputBytes = DefaultRunOutputLimitBytes\<rparr>"

definition cmp_Or :: "string list \<Rightarrow> string" where
  "cmp_Or ms = (case filter (\<lambda>m. m \<noteq> '''') ms of [] \<Rightarrow> '''' | m # _ \<Rightarrow> m)"

definition checker_command :: "Artifact \<Rightarrow> string list" where
  "checker_command artifact = [''./'' @ a_Name artifact, ''input.txt'', ''output.txt'', ''answer.txt'']"

definition checker_files :: "string \<Rightarrow> string \<Rightarrow> string \<Rightarrow> File list" where
  "checker_files input actualOutput expectedOutput =
     [\<lparr>f_Name = ''input.txt'', f_Content = input, f_Mode = 420\<rparr>, \<lparr>f_Name = ''output.txt'', f_Content = actualOutput, f_Mode = 420\<rparr>,
      \<lparr>f_Name = ''answer.txt'', f_Content = expectedOutput, f_Mode = 420\<rparr>]"

definition checker_Check :: "outside \<Rightarrow> Artifact \<Rightarrow> string \<Rightarrow> string \<Rightarrow> string \<Rightarrow> go_error + (checkerOutcome \<times> string)" where
  "checker_Check out artifact input actualOutput expectedOutput =
     (case exec_Run out \<lparr>rq_Artifact = artifact, rq_Files = checker_files input actualOutput expectedOutput,
         rq_ImageRef = imageDebian12, rq_Command = checker_command artifact, rq_Stdin = None, rq_Limits = checkerRunLimits\<rparr> of
       Inl err \<Rightarrow> Inl err
     | Inr runOut \<Rightarrow>
         let message = cmp_Or [TrimSpace (rr_Stderr runOut), TrimSpace (rr_Stdout runOut), TrimSpace (rr_ExtraInfo runOut)];
             outcome = (if rr_Verdict runOut = VerdictOK \<and> rr_ExitCode runOut = 0 then checkerAccepted
                        else if rr_Verdict runOut = VerdictRE \<and> (rr_ExitCode runOut = 1 \<or> rr_ExitCode runOut = 2) then checkerRejected
                        else checkerFailed)
         in Inr (outcome, message))"

section \<open>Validation of a request\<close>

definition maxTestCases :: nat where "maxTestCases = 64"

definition validateJudgeTestCase :: "nat \<Rightarrow> JudgeTestCase \<Rightarrow> go_error option" where
  "validateJudgeTestCase index tc =
     (let hasInputFile = (jt_InputFile tc \<noteq> ''''); hasExpectedOutputFile = (jt_ExpectedOutputFile tc \<noteq> '''');
          hasText = (jt_InputText tc \<noteq> '''' \<or> jt_ExpectedOutput tc \<noteq> '''')
      in if hasText \<and> (hasInputFile \<or> hasExpectedOutputFile) then Some (Mixed_data index)
         else if hasInputFile \<noteq> hasExpectedOutputFile then Some (Files_together index)
         else if hasInputFile \<and> \<not> ValidPath (jt_InputFile tc) then Some (Bad_input_path index)
         else if hasExpectedOutputFile \<and> \<not> ValidPath (jt_ExpectedOutputFile tc) then Some (Bad_expected_path index)
         else None)"

fun validate_cases :: "nat \<Rightarrow> JudgeTestCase list \<Rightarrow> go_error option" where
  "validate_cases index [] = None"
| "validate_cases index (tc # tcs) = (case validateJudgeTestCase index tc of
     Some err \<Rightarrow> Some err | None \<Rightarrow> validate_cases (index + 1) tcs)"

definition validateJudgeRequest :: "JudgeRequest \<Rightarrow> go_error option" where
  "validateJudgeRequest req =
     (if TrimSpace (jr_SourceCode req) = '''' then Some Source_required
      else if jr_Language req = '''' then Some Language_required
      else if jr_TimeLimit req = 0 then Some Time_limit_zero
      else if jr_MemoryLimit req = 0 then Some Memory_limit_zero
      else if length (jr_TestCases req) = 0 then Some No_testcases
      else if length (jr_TestCases req) > maxTestCases then Some (Too_many_testcases maxTestCases)
      else validate_cases 0 (jr_TestCases req))"

section \<open>Test data\<close>

record caseData =
  cd_input :: string
  cd_expectedOutput :: string

definition materializeCase :: "fs option \<Rightarrow> JudgeTestCase \<Rightarrow> go_error + caseData" where
  "materializeCase externalFS tc =
     (if jt_InputFile tc = '''' then Inr \<lparr>cd_input = jt_InputText tc, cd_expectedOutput = jt_ExpectedOutput tc\<rparr>
      else case externalFS of
        None \<Rightarrow> Inl (Input_needs_external (jt_InputFile tc))
      | Some efs \<Rightarrow> (case efs (jt_InputFile tc) of
          Inl err \<Rightarrow> Inl (Input_unavailable (jt_InputFile tc) err)
        | Inr input \<Rightarrow> (case efs (jt_ExpectedOutputFile tc) of
            Inl err \<Rightarrow> Inl (Expected_unavailable (jt_ExpectedOutputFile tc) err)
          | Inr expectedOutput \<Rightarrow> Inr \<lparr>cd_input = input, cd_expectedOutput = expectedOutput\<rparr>)))"

fun materialize_cases :: "fs option \<Rightarrow> nat \<Rightarrow> JudgeTestCase list \<Rightarrow> go_error + caseData list" where
  "materialize_cases externalFS i [] = Inr []"
| "materialize_cases externalFS i (tc # tcs) = (case materializeCase externalFS tc of
     Inl err \<Rightarrow> Inl (Case_error i err)
   | Inr d \<Rightarrow> (case materialize_cases externalFS (i + 1) tcs of Inl err \<Rightarrow> Inl err | Inr ds \<Rightarrow> Inr (d # ds)))"

section \<open>Test cases\<close>

definition judgeCaseResultFromExecution :: "RunResult \<Rightarrow> model_verdict \<Rightarrow> info \<Rightarrow> JudgeCaseResult" where
  "judgeCaseResultFromExecution runResult verdict extraInfo = \<lparr>jc_Verdict = verdict, jc_Stdout = rr_Stdout runResult,
     jc_TimeUsed = rr_CPUTimeMs runResult, jc_MemoryUsed = rr_MemoryMB runResult, jc_ExitCode = rr_ExitCode runResult,
     jc_ExtraInfo = extraInfo\<rparr>"

text \<open>
  The runner of the cases: the program and the checker as functions of the answers from outside. The
  answers for the run and for the check of a case are separate.
\<close>

record caseRunner =
  cr_program :: "outside \<Rightarrow> string \<Rightarrow> int \<Rightarrow> int \<Rightarrow> go_error + RunResult"
  cr_checker :: "outside \<Rightarrow> string \<Rightarrow> string \<Rightarrow> string \<Rightarrow> go_error + (checkerOutcome \<times> string)"
  cr_userChecker :: bool
  cr_timeLimit :: int
  cr_memLimit :: int

definition runCase :: "caseRunner \<Rightarrow> outside \<times> outside \<Rightarrow> caseData \<Rightarrow> JudgeCaseResult" where
  "runCase r outs tc =
     (case cr_program r (fst outs) (cd_input tc) (cr_timeLimit r) (cr_memLimit r) of
        Inl err \<Rightarrow> \<lparr>jc_Verdict = VerdictUKE, jc_Stdout = '''', jc_TimeUsed = 0, jc_MemoryUsed = 0, jc_ExitCode = 0,
                    jc_ExtraInfo = Formatted ''infrastructure error: '' err\<rparr>
      | Inr runResult \<Rightarrow>
          if rr_Verdict runResult \<noteq> VerdictOK
          then judgeCaseResultFromExecution runResult (rr_Verdict runResult) (Plain (rr_ExtraInfo runResult))
          else (case cr_checker r (snd outs) (cd_input tc) (rr_Stdout runResult) (cd_expectedOutput tc) of
            Inl err \<Rightarrow> judgeCaseResultFromExecution runResult VerdictUKE (Formatted ''checker infrastructure error: '' err)
          | Inr (outcome, message) \<Rightarrow>
              let message = (if message = '''' then
                    (case outcome of checkerRejected \<Rightarrow> ''checker reported wrong answer''
                     | checkerFailed \<Rightarrow> ''checker execution failed'' | checkerAccepted \<Rightarrow> message) else message);
                  verdict = (case outcome of checkerAccepted \<Rightarrow> VerdictOK | checkerRejected \<Rightarrow> VerdictWA
                     | checkerFailed \<Rightarrow> if cr_userChecker r then VerdictCheckerExecutionError else VerdictUKE)
              in judgeCaseResultFromExecution runResult verdict (Plain message)))"

text \<open>
  \<^verbatim>\<open>runAllCases\<close>: the slice of the results and the goroutines that have written theirs. A goroutine touches
  only its own element.
\<close>

record cases_state =
  cs_results :: "JudgeCaseResult list"
  cs_finished :: "nat set"

definition zero_result :: JudgeCaseResult where
  "zero_result = \<lparr>jc_Verdict = Verdict_zero, jc_Stdout = '''', jc_TimeUsed = 0, jc_MemoryUsed = 0, jc_ExitCode = 0, jc_ExtraInfo = Plain ''''\<rparr>"

definition cases_start :: "caseData list \<Rightarrow> cases_state" where
  "cases_start tcs = \<lparr>cs_results = replicate (length tcs) zero_result, cs_finished = {}\<rparr>"

definition goroutine :: "caseRunner \<Rightarrow> (nat \<Rightarrow> outside \<times> outside) \<Rightarrow> caseData list \<Rightarrow> nat \<Rightarrow> cases_state \<Rightarrow> cases_state" where
  "goroutine r outs tcs i s = s\<lparr>cs_results := (cs_results s)[i := runCase r (outs i) (tcs ! i)], cs_finished := insert i (cs_finished s)\<rparr>"

text \<open>The results after the goroutines have run in some order, which \<^verbatim>\<open>wg.Wait\<close> lets be any.\<close>

definition runAllCases :: "nat list \<Rightarrow> caseRunner \<Rightarrow> (nat \<Rightarrow> outside \<times> outside) \<Rightarrow> caseData list \<Rightarrow> JudgeCaseResult list" where
  "runAllCases schedule r outs tcs = cs_results (fold (goroutine r outs tcs) schedule (cases_start tcs))"

fun aggregate_loop :: "JudgeStatus \<Rightarrow> JudgeCaseResult list \<Rightarrow> JudgeStatus" where
  "aggregate_loop status [] = status"
| "aggregate_loop status (c # cs) =
     (if jc_Verdict c = VerdictUKE then JudgeStatusSystemError
      else aggregate_loop (if jc_Verdict c = VerdictCheckerExecutionError then JudgeStatusCheckerExecutionError else status) cs)"

definition aggregateStatus :: "JudgeCaseResult list \<Rightarrow> JudgeStatus" where
  "aggregateStatus cases = aggregate_loop JudgeStatusOK cases"

section \<open>Judging\<close>

definition failedBeforeRun :: "info \<Rightarrow> JudgeResult" where
  "failedBeforeRun reason = \<lparr>jg_Status = JudgeStatusSystemError, jg_Compile = (False, reason), jg_CheckerCompile = None, jg_Cases = []\<rparr>"

text \<open>The engine: the file systems, the testlib header, the cache library and the Unicode tables.\<close>

record ('c, 'k) engine =
  en_bundledFS :: fs
  en_externalFS :: "fs option"
  en_testlibHeader :: string
  en_cache :: "('c, 'k) cache_lib"
  en_unicode :: "int \<Rightarrow> bool"

text \<open>What happens outside during one request: waiting for capacity, the two compilations, the runs and checks, the order of the goroutines.\<close>

record session =
  se_acquire :: "string option"
  se_compile :: outside
  se_checkerCompile :: outside
  se_cases :: "nat \<Rightarrow> outside \<times> outside"
  se_schedule :: "nat list"

record judgePlan =
  jp_sourceCode :: string
  jp_timeLimit :: int
  jp_memoryLimit :: int
  jp_cases :: "caseData list"
  jp_language :: string
  jp_profile :: languageProfile
  jp_checkerSource :: string
  jp_checkerProvidedByRequest :: bool

definition materialize ::
  "('c, 'k) engine \<Rightarrow> JudgeRequest \<Rightarrow> languageProfile \<Rightarrow> checkerChoice \<Rightarrow> go_error + judgePlan"
where
  "materialize en req profile choice = (case readSource (en_bundledFS en) (en_externalFS en) choice of
     Inl err \<Rightarrow> Inl err
   | Inr src \<Rightarrow> (case materialize_cases (en_externalFS en) 0 (jr_TestCases req) of
       Inl err \<Rightarrow> Inl err
     | Inr cases \<Rightarrow> Inr \<lparr>jp_sourceCode = jr_SourceCode req, jp_timeLimit = uint (jr_TimeLimit req), jp_memoryLimit = uint (jr_MemoryLimit req),
         jp_cases = cases, jp_language = jr_Language req, jp_profile = profile, jp_checkerSource = src,
         jp_checkerProvidedByRequest = (ch_kind choice = checkerInline)\<rparr>))"

definition plan_runner :: "judgePlan \<Rightarrow> Artifact \<Rightarrow> Artifact \<Rightarrow> caseRunner" where
  "plan_runner plan program checker = \<lparr>
     cr_program = (\<lambda>out. program_Run out (jp_language plan) (lp_Run (jp_profile plan)) program),
     cr_checker = (\<lambda>out. checker_Check out checker),
     cr_userChecker = jp_checkerProvidedByRequest plan, cr_timeLimit = jp_timeLimit plan, cr_memLimit = jp_memoryLimit plan\<rparr>"

definition executeJudgePlan :: "('c, 'k) engine \<Rightarrow> session \<Rightarrow> judgePlan \<Rightarrow> 'c \<Rightarrow> JudgeResult \<times> 'c" where
  "executeJudgePlan en se plan cache =
     (case language_Compile (se_compile se) (jp_profile plan) (jp_sourceCode plan) of
        Inl err \<Rightarrow> (failedBeforeRun (Formatted ''compile infrastructure error: '' err), cache)
      | Inr (None, compileResult) \<Rightarrow>
          (\<lparr>jg_Status = JudgeStatusCompileError, jg_Compile = (False, Plain (Log compileResult)), jg_CheckerCompile = None, jg_Cases = []\<rparr>, cache)
      | Inr (Some program, compileResult) \<Rightarrow>
          (case checker_prepare (en_cache en) (en_testlibHeader en) (se_checkerCompile se) (jp_checkerSource plan) cache of
             (Inl err, cache) \<Rightarrow>
               (\<lparr>jg_Status = JudgeStatusSystemError, jg_Compile = (True, Plain (Log compileResult)), jg_CheckerCompile = None, jg_Cases = []\<rparr>, cache)
           | (Inr (None, compilation), cache) \<Rightarrow>
               (\<lparr>jg_Status = (if jp_checkerProvidedByRequest plan then JudgeStatusCheckerCompileError else JudgeStatusSystemError),
                 jg_Compile = (True, Plain (Log compileResult)), jg_CheckerCompile = Some compilation, jg_Cases = []\<rparr>, cache)
           | (Inr (Some checker, compilation), cache) \<Rightarrow>
               let caseResults = runAllCases (se_schedule se) (plan_runner plan program checker) (se_cases se) (jp_cases plan) in
               (\<lparr>jg_Status = aggregateStatus caseResults, jg_Compile = (True, Plain (Log compileResult)),
                 jg_CheckerCompile = Some compilation, jg_Cases = caseResults\<rparr>, cache)))"

definition Judge :: "('c, 'k) engine \<Rightarrow> session \<Rightarrow> JudgeRequest \<Rightarrow> 'c \<Rightarrow> (go_error + JudgeResult) \<times> 'c" where
  "Judge en se req cache = (case validateJudgeRequest req of
     Some err \<Rightarrow> (Inl err, cache)
   | None \<Rightarrow> (case profileForLanguage (jr_Language req) of
       Inl err \<Rightarrow> (Inl err, cache)
     | Inr profile \<Rightarrow> (case resolveChecker (en_unicode en) (jr_Checker req) (jr_CheckerSourceCode req) of
         Inl err \<Rightarrow> (Inl err, cache)
       | Inr choice \<Rightarrow> (case se_acquire se of
           Some err \<Rightarrow> (Inr (failedBeforeRun (Plain ''judge request cancelled or timed out while waiting for capacity'')), cache)
         | None \<Rightarrow> (case materialize en req profile choice of
             Inl err \<Rightarrow> (Inl err, cache)
           | Inr plan \<Rightarrow> (case executeJudgePlan en se plan cache of (result, cache) \<Rightarrow> (Inr result, cache)))))))"

section \<open>The order of the goroutines does not matter\<close>

lemma fold_goroutine:
  "cs_results (fold (goroutine r outs tcs) schedule s) =
     map (\<lambda>i. if i \<in> set schedule then runCase r (outs i) (tcs ! i) else cs_results s ! i) [0..<length (cs_results s)]"
proof (induction schedule arbitrary: s)
  case Nil
  show ?case by (simp add: map_nth)
next
  case (Cons j schedule)
  have "length (cs_results (goroutine r outs tcs j s)) = length (cs_results s)" by (simp add: goroutine_def)
  then show ?case unfolding fold.simps comp_def Cons
    by (intro nth_equalityI) (auto simp: goroutine_def nth_list_update)
qed

lemma runAllCases_any_order:
  assumes "set schedule = {..<length tcs}"
  shows "runAllCases schedule r outs tcs = map (\<lambda>i. runCase r (outs i) (tcs ! i)) [0..<length tcs]"
  unfolding runAllCases_def fold_goroutine using assms by (auto simp: cases_start_def)

section \<open>The status of a session\<close>

lemma aggregate_loop_eq:
  "aggregate_loop status cs =
     (if VerdictUKE \<in> jc_Verdict ` set cs then JudgeStatusSystemError
      else if VerdictCheckerExecutionError \<in> jc_Verdict ` set cs then JudgeStatusCheckerExecutionError else status)"
  by (induction cs arbitrary: status) auto

lemma aggregateStatus_eq:
  "aggregateStatus cs =
     (if VerdictUKE \<in> jc_Verdict ` set cs then JudgeStatusSystemError
      else if VerdictCheckerExecutionError \<in> jc_Verdict ` set cs then JudgeStatusCheckerExecutionError else JudgeStatusOK)"
  by (simp add: aggregateStatus_def aggregate_loop_eq)

text \<open>A system checker never makes a session fail for the checker of the request.\<close>

lemma runCase_user_checker: "jc_Verdict (runCase r outs tc) = VerdictCheckerExecutionError \<Longrightarrow>
    (\<forall>out i t m x. cr_program r out i t m = Inr x \<longrightarrow> rr_Verdict x \<noteq> VerdictCheckerExecutionError) \<Longrightarrow> cr_userChecker r"
  by (auto simp: runCase_def judgeCaseResultFromExecution_def Let_def split: sum.splits if_splits checkerOutcome.splits)

section \<open>Paths of checkers and test data\<close>

lemma validateExternalCheckerPath_inside:
  assumes "validateExternalCheckerPath p = Inr q"
  shows "stays_inside q" "suffix ''.cpp'' q"
  using assms clean_local_inside [of p]
  by (auto simp: validateExternalCheckerPath_def Let_def HasSuffix_def split: if_splits)

lemma short_name_plain:
  assumes "validateCheckerShortName uni name = None"
  shows "slash \<notin> set name" "CHR ''.'' \<notin> set name"
  using assms by (auto simp: validateCheckerShortName_def ContainsAny_def slash_def list_ex_iff split: if_splits)

lemma builtin_path_inside:
  assumes "slash \<notin> set name" "CHR ''.'' \<notin> set name"
  shows "stays_inside (builtinCheckerPath name)" "split_slash (builtinCheckerPath name) = [''checkers'', name @ ''.cpp'']"
proof -
  have "slash \<notin> set (name @ ''.cpp'')" "slash \<notin> set ''checkers''" using assms(1) by (auto simp: slash_def)
  then show s: "split_slash (builtinCheckerPath name) = [''checkers'', name @ ''.cpp'']"
    using split_slash_append [of "''checkers''" "name @ ''.cpp''"] split_slash_plain by (simp add: builtinCheckerPath_def slash_def)
  have "name @ ''.cpp'' \<noteq> ''..''" "name @ ''.cpp'' \<noteq> ''.''" by (auto dest: arg_cong [of _ _ length])
  then show "stays_inside (builtinCheckerPath name)" using s by (simp add: stays_inside_def IsAbs_def builtinCheckerPath_def slash_def)
qed

lemma ValidPath_inside: "ValidPath name \<Longrightarrow> name = ''.'' \<or> stays_inside name"
proof -
  assume v: "ValidPath name"
  show ?thesis
  proof (cases "name = ''.''")
    case False
    with v have all: "list_all (\<lambda>e. e \<noteq> '''' \<and> e \<noteq> ''.'' \<and> e \<noteq> ''..'') (split_slash name)" by (simp add: ValidPath_def)
    moreover have "hd (split_slash name) \<in> set (split_slash name)" by simp
    ultimately have "hd (split_slash name) \<noteq> ''''" by (simp only: list_all_iff) blast
    then show ?thesis using IsAbs_split all by (auto simp: stays_inside_def)
  qed simp
qed

lemma validate_cases_None: "validate_cases i tcs = None \<longleftrightarrow> (\<forall>k<length tcs. validateJudgeTestCase (i + k) (tcs ! k) = None)"
proof (induction tcs arbitrary: i)
  case (Cons tc tcs)
  then show ?case by (auto simp: less_Suc_eq_0_disj split: option.split)
qed simp

section \<open>The cache of compiled checkers\<close>

text \<open>What the cache library promises of its contents: a hit is an entry, and entries come from \<^verbatim>\<open>Add\<close> alone.\<close>

definition cache_sound :: "('c, 'k) cache_lib \<Rightarrow> ('c \<Rightarrow> ('k \<times> CompileOut) set) \<Rightarrow> bool" where
  "cache_sound lib contents \<longleftrightarrow>
     (\<forall>c k v c'. cl_get lib c k = (Some v, c') \<longrightarrow> (k, v) \<in> contents c) \<and>
     (\<forall>c k. contents (snd (cl_get lib c k)) \<subseteq> contents c) \<and>
     (\<forall>c k v. contents (cl_add lib c k v) \<subseteq> insert (k, v) (contents c))"

lemma cache_soundD:
  assumes "cache_sound lib contents"
  shows "cl_get lib c k = (Some v, c') \<Longrightarrow> (k, v) \<in> contents c" "cl_get lib c k = (x, c') \<Longrightarrow> contents c' \<subseteq> contents c"
    "contents (cl_add lib c k v) \<subseteq> insert (k, v) (contents c)"
proof -
  show "cl_get lib c k = (Some v, c') \<Longrightarrow> (k, v) \<in> contents c" using assms unfolding cache_sound_def by blast
  have "contents (snd (cl_get lib c k)) \<subseteq> contents c" using assms unfolding cache_sound_def by blast
  then show "cl_get lib c k = (x, c') \<Longrightarrow> contents c' \<subseteq> contents c" by simp
  show "contents (cl_add lib c k v) \<subseteq> insert (k, v) (contents c)" using assms unfolding cache_sound_def by blast
qed

text \<open>The entry is a compilation, with an artifact, of a source with that sum.\<close>

definition compiled_entry :: "('c, 'k) cache_lib \<Rightarrow> string \<Rightarrow> 'k \<times> CompileOut \<Rightarrow> bool" where
  "compiled_entry lib header e \<longleftrightarrow> co_Artifact (snd e) \<noteq> None \<and>
     (\<exists>out source. cl_sum lib source = fst e \<and> compileUncached header out source = Inr (snd e))"

lemma checker_flight_sound:
  assumes "cache_sound lib contents" "\<forall>e\<in>contents cache. compiled_entry lib header e"
    and "checker_flight lib header out source cache = (result, cache')"
  shows "(result = compileUncached header out source \<or> (\<exists>c. result = Inr c \<and> compiled_entry lib header (cl_sum lib source, c))) \<and>
    (\<forall>e\<in>contents cache'. compiled_entry lib header e)"
proof -
  obtain got c1 where g: "cl_get lib cache (cl_sum lib source) = (got, c1)" by fastforce
  have c1: "\<forall>e\<in>contents c1. compiled_entry lib header e" using cache_soundD(2) [OF assms(1) g] assms(2) by blast
  show ?thesis
  proof (cases got)
    case (Some v)
    then have "compiled_entry lib header (cl_sum lib source, v)" using cache_soundD(1) [OF assms(1)] assms(2) g by blast
    with assms(3) g Some c1 show ?thesis by (auto simp: checker_flight_def Let_def)
  next
    case None
    show ?thesis
    proof (cases "compileUncached header out source")
      case (Inl err)
      with assms(3) g None c1 show ?thesis by (auto simp: checker_flight_def Let_def)
    next
      case (Inr c)
      have "\<forall>e\<in>contents (cl_add lib c1 (cl_sum lib source) c). compiled_entry lib header e" if "co_Artifact c \<noteq> None"
      proof
        fix e assume "e \<in> contents (cl_add lib c1 (cl_sum lib source) c)"
        then consider "e = (cl_sum lib source, c)" | "e \<in> contents c1" using cache_soundD(3) [OF assms(1)] by blast
        then show "compiled_entry lib header e" using c1 Inr that by cases (auto simp: compiled_entry_def)
      qed
      then show ?thesis using assms(3) g None Inr c1
        by (cases "co_Artifact c") (auto simp: checker_flight_def Let_def)
    qed
  qed
qed

lemma checker_compile_sound:
  assumes "cache_sound lib contents" "\<forall>e\<in>contents cache. compiled_entry lib header e"
    and "checker_compile lib header out source cache = (result, cache')"
  shows "(result = compileUncached header out source \<or> (\<exists>c. result = Inr c \<and> compiled_entry lib header (cl_sum lib source, c))) \<and>
    (\<forall>e\<in>contents cache'. compiled_entry lib header e)"
proof -
  obtain got c1 where g: "cl_get lib cache (cl_sum lib source) = (got, c1)" by fastforce
  have c1: "\<forall>e\<in>contents c1. compiled_entry lib header e" using cache_soundD(2) [OF assms(1) g] assms(2) by blast
  show ?thesis
  proof (cases got)
    case (Some v)
    then have "compiled_entry lib header (cl_sum lib source, v)" using cache_soundD(1) [OF assms(1)] assms(2) g by blast
    with assms(3) g Some c1 show ?thesis by (auto simp: checker_compile_def)
  next
    case None
    with assms(3) g have "checker_flight lib header out source c1 = (result, cache')" by (simp add: checker_compile_def)
    then show ?thesis by (rule checker_flight_sound [OF assms(1) c1])
  qed
qed

end
