(* ===== verification/AJ_Verdict.thy ===== *)
theory AJ_Verdict
  imports AJ_Service TL_Line_Checkers
begin

text \<open>
  The judge and its checkers together: from the exit code of a checker, as the theories of testlib compute
  it, to the verdict on a test case. The hypothesis on the sandbox, \<open>runs_as\<close>, says that it ran the checker
  to its end and reported its exit code.
\<close>

section \<open>An execution that is not disturbed\<close>

definition undisturbed :: "outside \<Rightarrow> bool" where
  "undisturbed out \<longleftrightarrow> o_acquire out = None \<and> o_mkdir out = None \<and> o_write out = (\<lambda>_. None) \<and> o_cleanup out = None"

text \<open>The files as they are written, with mode 0644 for mode 0.\<close>

definition written :: "File \<Rightarrow> File" where
  "written f = (if f_Mode f = 0 then f\<lparr>f_Mode := 420\<rparr> else f)"

lemma writeFiles_undisturbed: "undisturbed out \<Longrightarrow> writeFiles out fs = Inr (map written fs)"
  by (induction fs) (simp_all add: undisturbed_def written_def)

lemma exec_Run_undisturbed:
  assumes "undisturbed out" "er_Verdict r \<noteq> SV_Unknown"
    and "o_sandbox out (map written (\<lparr>f_Name = a_Name (rq_Artifact req), f_Content = a_Data (rq_Artifact req), f_Mode = a_Mode (rq_Artifact req)\<rparr> # rq_Files req))
      \<lparr>xr_ImageRef = rq_ImageRef req, xr_Command = rq_Command req, xr_MountDir = (''/sandbox'', True), xr_Stdin = rq_Stdin req,
       xr_Limits = rq_Limits req, xr_EnableSeccomp = True\<rparr> = Inr r"
  shows "exec_Run out req = Inr (sandboxResultToRunResult r)"
proof -
  have "o_acquire out = None" "o_mkdir out = None" "o_cleanup out = None" using assms(1) by (simp_all add: undisturbed_def)
  then show ?thesis using assms(2,3)
    by (simp add: exec_Run_def execute_def in_workspace_def writeFiles_undisturbed [OF assms(1)] Let_def)
qed

section \<open>The sandbox runs a checker\<close>

definition file_lookup :: "File list \<Rightarrow> string \<Rightarrow> string option" where
  "file_lookup files = map_of (map (\<lambda>f. (f_Name f, f_Content f)) (rev files))"

text \<open>The process of the checker finds the files of the workspace; \<open>base\<close> holds the rest of its environment.\<close>

definition process_env :: "env \<Rightarrow> File list \<Rightarrow> env" where
  "process_env base files = base\<lparr>env_fs := file_lookup files\<rparr>"

definition runs_as :: "env \<Rightarrow> (env \<Rightarrow> string option list \<Rightarrow> (testlib, int) outcome) \<Rightarrow> outside \<Rightarrow> bool" where
  "runs_as base checker_prog out \<longleftrightarrow>
     (\<forall>files req code. exits (process_env base files) (checker_prog (process_env base files) (map Some (xr_Command req))) code \<longrightarrow>
        (\<exists>r. o_sandbox out files req = Inr r \<and> er_ExitCode r = code \<and> er_Verdict r = (if code = 0 then SV_OK else SV_RE)))"

text \<open>The verdict of the judge on the exit code of a checker.\<close>

definition code_verdict :: "bool \<Rightarrow> int \<Rightarrow> model_verdict" where
  "code_verdict userChecker code =
     (if code = 0 then VerdictOK else if code = 1 \<or> code = 2 then VerdictWA
      else if userChecker then VerdictCheckerExecutionError else VerdictUKE)"

definition check_files :: "Artifact \<Rightarrow> string \<Rightarrow> string \<Rightarrow> string \<Rightarrow> File list" where
  "check_files checker input actual expected =
     map written (\<lparr>f_Name = a_Name checker, f_Content = a_Data checker, f_Mode = a_Mode checker\<rparr> # checker_files input actual expected)"

lemma file_lookup_check:
  assumes "a_Name checker = ''checker''"
  shows "file_lookup (check_files checker input actual expected) ''input.txt'' = Some input"
    "file_lookup (check_files checker input actual expected) ''output.txt'' = Some actual"
    "file_lookup (check_files checker input actual expected) ''answer.txt'' = Some expected"
  using assms by (simp_all add: file_lookup_def check_files_def checker_files_def written_def)

lemma test_files_check:
  assumes "a_Name checker = ''checker''" "length input \<le> 128 * 1024 * 1024" "length actual \<le> 128 * 1024 * 1024" "length expected \<le> 128 * 1024 * 1024"
  shows "test_files (process_env base (check_files checker input actual expected)) [''input.txt'', ''output.txt'', ''answer.txt''] actual expected"
  using assms(2-) file_lookup_check [OF assms(1)] by (simp add: test_files_def process_env_def plain_arg_def)

lemma checker_Check_code:
  assumes "undisturbed out" "runs_as base prog out"
    and "exits (process_env base (check_files checker input actual expected))
      (prog (process_env base (check_files checker input actual expected)) (map Some (checker_command checker))) code"
  shows "\<exists>m. checker_Check out checker input actual expected =
    Inr (if code = 0 then checkerAccepted else if code = 1 \<or> code = 2 then checkerRejected else checkerFailed, m)"
proof -
  let ?req = "\<lparr>rq_Artifact = checker, rq_Files = checker_files input actual expected, rq_ImageRef = imageDebian12,
      rq_Command = checker_command checker, rq_Stdin = None, rq_Limits = checkerRunLimits\<rparr>"
  let ?xr = "\<lparr>xr_ImageRef = imageDebian12, xr_Command = checker_command checker, xr_MountDir = (''/sandbox'', True), xr_Stdin = None,
      xr_Limits = checkerRunLimits, xr_EnableSeccomp = True\<rparr>"
  have "exits (process_env base (check_files checker input actual expected))
      (prog (process_env base (check_files checker input actual expected)) (map Some (xr_Command ?xr))) code"
    using assms(3) by simp
  with assms(2) obtain r where r: "o_sandbox out (check_files checker input actual expected) ?xr = Inr r" "er_ExitCode r = code"
    "er_Verdict r = (if code = 0 then SV_OK else SV_RE)" unfolding runs_as_def by blast
  have "er_Verdict r \<noteq> SV_Unknown" using r(3) by simp
  then have "exec_Run out ?req = Inr (sandboxResultToRunResult r)"
    using exec_Run_undisturbed [OF assms(1), of r ?req] r(1) by (simp add: check_files_def)
  then show ?thesis using r(2,3)
    by (simp add: checker_Check_def Let_def sandboxResultToRunResult_def sandboxVerdictToModel_def)
qed

text \<open>The verdict on a case whose program ran well.\<close>

lemma runCase_code:
  assumes "program_Run (fst outs) (jp_language plan) (lp_Run (jp_profile plan)) program (cd_input tc) (jp_timeLimit plan) (jp_memoryLimit plan) = Inr rr"
    "rr_Verdict rr = VerdictOK" "undisturbed (snd outs)" "runs_as base prog (snd outs)"
    "exits (process_env base (check_files checker (cd_input tc) (rr_Stdout rr) (cd_expectedOutput tc)))
      (prog (process_env base (check_files checker (cd_input tc) (rr_Stdout rr) (cd_expectedOutput tc))) (map Some (checker_command checker))) code"
  shows "jc_Verdict (runCase (plan_runner plan program checker) outs tc) = code_verdict (jp_checkerProvidedByRequest plan) code"
proof -
  obtain m where "checker_Check (snd outs) checker (cd_input tc) (rr_Stdout rr) (cd_expectedOutput tc) =
      Inr (if code = 0 then checkerAccepted else if code = 1 \<or> code = 2 then checkerRejected else checkerFailed, m)"
    using checker_Check_code [OF assms(3-5)] by blast
  with assms(1,2) show ?thesis
    by (auto simp: runCase_def plan_runner_def judgeCaseResultFromExecution_def Let_def code_verdict_def split: prod.splits)
qed

text \<open>When the program did not run well, or not at all, the checker is not asked.\<close>

lemma runCase_program:
  "cr_program r (fst outs) (cd_input tc) (cr_timeLimit r) (cr_memLimit r) = Inr rr \<Longrightarrow> rr_Verdict rr \<noteq> VerdictOK \<Longrightarrow>
    jc_Verdict (runCase r outs tc) = rr_Verdict rr"
  "cr_program r (fst outs) (cd_input tc) (cr_timeLimit r) (cr_memLimit r) = Inl err \<Longrightarrow> jc_Verdict (runCase r outs tc) = VerdictUKE"
  by (simp_all add: runCase_def judgeCaseResultFromExecution_def)

section \<open>Two built-in checkers in the judge\<close>

text \<open>The bound on the rounds of the line loop covers every file the checker opens.\<close>

definition default_prog :: "env \<Rightarrow> string option list \<Rightarrow> (testlib, int) outcome" where
  "default_prog = default_main (Suc (128 * 1024 * 1024))"

lemma default_exits:
  assumes "test_files env names output answer"
  shows "exits env (default_prog env (Some prog # map Some names))
    (if norm_lines (output_codes output) = norm_lines (answer_codes answer) then 0 else 1)"
proof -
  have "length output \<le> 128 * 1024 * 1024" "length answer \<le> 128 * 1024 * 1024" using assms unfolding test_files_def by blast+
  then have l: "length (answer_codes answer) < Suc (128 * 1024 * 1024)" "length (output_codes output) < Suc (128 * 1024 * 1024)"
    by (auto simp: answer_codes_def output_codes_def strip_bom_def)
  show ?thesis unfolding default_prog_def default_main_def
    by (rule checker_main_exits [OF assms], rule default_body_exits [OF _ _ l])
qed

lemma wcmp_exits:
  assumes "test_files env names output answer" "short_tokens (output_codes output)" "short_tokens (answer_codes answer)"
  shows "exits env (wcmp_main env (Some prog # map Some names))
    (if words (output_codes output) = words (answer_codes answer) then 0 else 1)"
  unfolding wcmp_main_def by (rule checker_main_exits [OF assms(1)], rule wcmp_body_exits) (simp_all add: assms)

lemma checker_command_eq:
  "a_Name checker = ''checker'' \<Longrightarrow> map Some (checker_command checker) = Some ''./checker'' # map Some [''input.txt'', ''output.txt'', ''answer.txt'']"
  by (simp add: checker_command_def)

section \<open>A checker in the judge\<close>

text \<open>
  What the judge relies on: the program of the checker ends with a code that depends on the output and the
  answer, for all test files it can read (\<open>fits\<close> restricts them further where a checker needs it).
\<close>

locale judged_checker =
  fixes prog :: "env \<Rightarrow> string option list \<Rightarrow> (testlib, int) outcome"
    and fits :: "string \<Rightarrow> string \<Rightarrow> bool"
    and code :: "string \<Rightarrow> string \<Rightarrow> int"
  assumes prog_exits: "test_files env names output answer \<Longrightarrow> fits output answer \<Longrightarrow>
    exits env (prog env (Some p # map Some names)) (code output answer)"

text \<open>The verdict on a case: the one of the run if it did not end well, and otherwise the one on the code of the checker.\<close>

definition case_verdict :: "(string \<Rightarrow> string \<Rightarrow> int) \<Rightarrow> judgePlan \<Rightarrow> Artifact \<Rightarrow> outside \<Rightarrow> caseData \<Rightarrow> model_verdict" where
  "case_verdict code plan program out tc =
     (case program_Run out (jp_language plan) (lp_Run (jp_profile plan)) program (cd_input tc) (jp_timeLimit plan) (jp_memoryLimit plan) of
        Inl err \<Rightarrow> VerdictUKE
      | Inr rr \<Rightarrow> if rr_Verdict rr \<noteq> VerdictOK then rr_Verdict rr
                  else code_verdict (jp_checkerProvidedByRequest plan) (code (rr_Stdout rr) (cd_expectedOutput tc)))"

text \<open>The files of a case can be read by the checker.\<close>

definition readable_case :: "(string \<Rightarrow> string \<Rightarrow> bool) \<Rightarrow> judgePlan \<Rightarrow> Artifact \<Rightarrow> outside \<Rightarrow> caseData \<Rightarrow> bool" where
  "readable_case fits plan program out tc \<longleftrightarrow>
     length (cd_input tc) \<le> 128 * 1024 * 1024 \<and> length (cd_expectedOutput tc) \<le> 128 * 1024 * 1024 \<and>
     (case program_Run out (jp_language plan) (lp_Run (jp_profile plan)) program (cd_input tc) (jp_timeLimit plan) (jp_memoryLimit plan) of
        Inl err \<Rightarrow> True
      | Inr rr \<Rightarrow> length (rr_Stdout rr) \<le> 128 * 1024 * 1024 \<and> fits (rr_Stdout rr) (cd_expectedOutput tc))"

context judged_checker
begin

lemma runCase_verdict:
  assumes "a_Name checker = ''checker''" "undisturbed (snd outs)" "runs_as base prog (snd outs)"
    "readable_case fits plan program (fst outs) tc"
  shows "jc_Verdict (runCase (plan_runner plan program checker) outs tc) = case_verdict code plan program (fst outs) tc"
proof (cases "program_Run (fst outs) (jp_language plan) (lp_Run (jp_profile plan)) program (cd_input tc) (jp_timeLimit plan) (jp_memoryLimit plan)")
  case (Inl err)
  then show ?thesis using runCase_program(2) [of "plan_runner plan program checker" outs tc err]
    by (simp add: case_verdict_def plan_runner_def)
next
  case (Inr rr)
  show ?thesis
  proof (cases "rr_Verdict rr = VerdictOK")
    case True
    let ?env = "process_env base (check_files checker (cd_input tc) (rr_Stdout rr) (cd_expectedOutput tc))"
    have s: "length (cd_input tc) \<le> 128 * 1024 * 1024" "length (cd_expectedOutput tc) \<le> 128 * 1024 * 1024"
      "length (rr_Stdout rr) \<le> 128 * 1024 * 1024" "fits (rr_Stdout rr) (cd_expectedOutput tc)"
      using assms(4) Inr by (simp_all add: readable_case_def)
    have "exits ?env (prog ?env (map Some (checker_command checker))) (code (rr_Stdout rr) (cd_expectedOutput tc))"
      unfolding checker_command_eq [OF assms(1)] using test_files_check [OF assms(1)] s by (intro prog_exits) simp_all
    from runCase_code [OF Inr True assms(2,3) this] show ?thesis using Inr True by (simp add: case_verdict_def)
  next
    case False
    then show ?thesis using Inr runCase_program(1) [of "plan_runner plan program checker" outs tc rr]
      by (simp add: case_verdict_def plan_runner_def)
  qed
qed

lemma case_verdicts:
  assumes "a_Name checker = ''checker''" "set schedule = {..<length tcs}"
    and "\<And>i. i < length tcs \<Longrightarrow> undisturbed (snd (outs i)) \<and> runs_as base prog (snd (outs i)) \<and>
      readable_case fits plan program (fst (outs i)) (tcs ! i)"
  shows "map jc_Verdict (runAllCases schedule (plan_runner plan program checker) outs tcs) =
    map (\<lambda>i. case_verdict code plan program (fst (outs i)) (tcs ! i)) [0..<length tcs]"
proof -
  have "jc_Verdict (runCase (plan_runner plan program checker) (outs i) (tcs ! i)) = case_verdict code plan program (fst (outs i)) (tcs ! i)"
    if "i < length tcs" for i using runCase_verdict [OF assms(1)] assms(3) [OF that] by blast
  then show ?thesis unfolding runAllCases_any_order [OF assms(2)] by simp
qed

end

interpretation default_judged: judged_checker default_prog "\<lambda>_ _. True"
  "\<lambda>output answer. if norm_lines (output_codes output) = norm_lines (answer_codes answer) then 0 else 1"
  by unfold_locales (rule default_exits)

interpretation wcmp_judged: judged_checker wcmp_main "\<lambda>output answer. short_tokens (output_codes output) \<and> short_tokens (answer_codes answer)"
  "\<lambda>output answer. if words (output_codes output) = words (answer_codes answer) then 0 else 1"
  by unfold_locales (use wcmp_exits in blast)

section \<open>The verdicts of a program\<close>

text \<open>A run of a program never ends with the verdict that stands for a fault of the judge or of a checker.\<close>

lemma program_Run_verdict:
  assumes "program_Run out lang profile artifact input timeLimit memoryLimit = Inr rr"
  shows "rr_Verdict rr \<in> {VerdictOK, VerdictTLE, VerdictMLE, VerdictOLE, VerdictRE}"
proof -
  have *: "rr_Verdict (fst x) \<in> {VerdictOK, VerdictTLE, VerdictMLE, VerdictOLE, VerdictRE}" if "execute out t = Inr x" for t x
  proof -
    have "in_workspace out t = Inr x" using that by (auto simp: execute_def split: option.splits sum.splits)
    then obtain r where "er_Verdict r \<noteq> SV_Unknown" "fst x = sandboxResultToRunResult r"
      by (auto simp: in_workspace_def Let_def split: sum.splits if_splits)
    then show ?thesis by (cases "er_Verdict r") (simp_all add: sandboxResultToRunResult_def sandboxVerdictToModel_def)
  qed
  obtain run where "exec_Run out \<lparr>rq_Artifact = artifact, rq_Files = [], rq_ImageRef = rc_ImageRef profile,
         rq_Command = rc_RuntimeCommand profile (''./'' @ a_Name artifact) memoryLimit, rq_Stdin = Some input,
         rq_Limits = \<lparr>CPUTimeMs = timeLimit, WallTimeMs = timeLimit * WallTimeMultiplier,
           MemoryMB = sandboxMemoryLimitMB lang memoryLimit, OutputBytes = DefaultRunOutputLimitBytes\<rparr>\<rparr> = Inr run"
    "rr = normalizeLanguageRunResult lang run"
    using assms by (auto simp: program_Run_def split: sum.splits)
  moreover from this(1) have "rr_Verdict run \<in> {VerdictOK, VerdictTLE, VerdictMLE, VerdictOLE, VerdictRE}"
    using * by (fastforce simp: exec_Run_def Let_def split: sum.splits)
  ultimately show ?thesis by (auto simp: normalizeLanguageRunResult_def)
qed

end
