(* ===== verification/AJ_Judge.thy ===== *)
theory AJ_Judge
  imports AJ_Verdict
begin

text \<open>
  What the judge promises for a whole request: the verdicts and the status, the independence of the order
  in which the test cases run, the paths that are read, the cache, and the limits on a run.
\<close>

section \<open>Lemmas on a session\<close>

text \<open>The artifact of a compiled checker has the fixed name, whether it was compiled now or is in the cache.\<close>

lemma compileUncached_name:
  assumes "compileUncached header out source = Inr c" "co_Artifact c = Some a"
  shows "a_Name a = ''checker''"
proof -
  have *: "a_Name b = t_artifactName t" if "execute out t = Inr x" "co_Artifact (snd x) = Some b" for t x b
  proof -
    have "in_workspace out t = Inr x" using that by (auto simp: execute_def split: option.splits sum.splits)
    then show ?thesis using that(2)
      by (auto simp: in_workspace_def Let_def no_compile_def collectArtifact_def split: sum.splits if_splits prod.splits)
  qed
  obtain c' where c': "exec_Compile out \<lparr>cq_Files = [\<lparr>f_Name = ''checker.cpp'', f_Content = source, f_Mode = 420\<rparr>,
      \<lparr>f_Name = ''testlib.h'', f_Content = header, f_Mode = 420\<rparr>], cq_ImageRef = cc_ImageRef checkerCompileProfile,
      cq_Command = cc_BuildCommand checkerCompileProfile, cq_ArtifactName = ''checker'', cq_Limits = compile_limits checkerCompileProfile\<rparr> = Inr c'"
    "c = c'" using assms(1) by (auto simp: compileUncached_def Let_def checkerCompileProfile_def split: sum.splits)
  then show ?thesis using assms(2) * by (fastforce simp: exec_Compile_def Let_def split: sum.splits prod.splits)
qed

lemma checker_prepare_name:
  assumes "cache_sound lib contents" "\<forall>e\<in>contents cache. compiled_entry lib header e"
    and "checker_prepare lib header out source cache = (Inr (Some a, cc), cache')"
  shows "a_Name a = ''checker''"
proof -
  obtain c where c: "checker_compile lib header out source cache = (Inr c, cache')" "co_Artifact c = Some a"
    using assms(3) by (auto simp: checker_prepare_def split: prod.splits sum.splits)
  obtain out' source' where "compileUncached header out' source' = Inr c"
    using checker_compile_sound [OF assms(1,2) c(1)] by (auto simp: compiled_entry_def)
  then show ?thesis using compileUncached_name c(2) by blast
qed

text \<open>The status when the checker only ever answers right or wrong.\<close>

lemma status_of_verdicts:
  assumes "map jc_Verdict rs = map (\<lambda>i. case_verdict code plan program (fst (outs i)) (tcs ! i)) [0..<length tcs]"
    and "\<And>x y. code x y \<in> {0, 1}"
  shows "aggregateStatus rs = (if \<exists>i<length tcs. \<exists>err. program_Run (fst (outs i)) (jp_language plan) (lp_Run (jp_profile plan)) program
      (cd_input (tcs ! i)) (jp_timeLimit plan) (jp_memoryLimit plan) = Inl err then JudgeStatusSystemError else JudgeStatusOK)"
proof -
  define run where "run = (\<lambda>i. program_Run (fst (outs i)) (jp_language plan) (lp_Run (jp_profile plan)) program (cd_input (tcs ! i))
    (jp_timeLimit plan) (jp_memoryLimit plan))"
  define v where "v = (\<lambda>i. case_verdict code plan program (fst (outs i)) (tcs ! i))"
  have set: "jc_Verdict ` set rs = v ` {..<length tcs}" using arg_cong [OF assms(1), of set] by (simp add: atLeast0LessThan v_def)
  have code: "code_verdict u (code x y) \<in> {VerdictOK, VerdictWA}" for u x y using assms(2) [of x y] by (auto simp: code_verdict_def)
  have ok: "v i \<notin> {VerdictCheckerExecutionError, VerdictUKE}" if "run i = Inr rr" for i rr
  proof -
    have own: "rr_Verdict rr \<in> {VerdictOK, VerdictTLE, VerdictMLE, VerdictOLE, VerdictRE}"
      using program_Run_verdict that unfolding run_def .
    have "v i = rr_Verdict rr \<or> (\<exists>u x y. v i = code_verdict u (code x y))"
      using that unfolding v_def run_def case_verdict_def by (cases "rr_Verdict rr = VerdictOK") (simp_all, blast)
    then show ?thesis
    proof (elim disjE exE)
      show ?thesis if "v i = rr_Verdict rr" using that own by auto
      show ?thesis if "v i = code_verdict u (code x y)" for u x y using that code [of u x y] by auto
    qed
  qed
  have fault: "v i = VerdictUKE" if "run i = Inl err" for i err using that unfolding v_def run_def case_verdict_def by simp
  have uke: "v i = VerdictUKE \<longleftrightarrow> (\<exists>err. run i = Inl err)" for i using ok [of i] fault [of i] by (cases "run i") auto
  have "v i \<noteq> VerdictCheckerExecutionError" for i using ok [of i] fault [of i] by (cases "run i") auto
  then have "VerdictCheckerExecutionError \<notin> v ` {..<length tcs}" by (metis imageE)
  moreover have "VerdictUKE \<in> v ` {..<length tcs} \<longleftrightarrow> (\<exists>i<length tcs. \<exists>err. run i = Inl err)"
    unfolding uke [symmetric] by force
  ultimately have "aggregateStatus rs = (if \<exists>i<length tcs. \<exists>err. run i = Inl err then JudgeStatusSystemError else JudgeStatusOK)"
    unfolding aggregateStatus_eq set by simp
  then show ?thesis unfolding run_def .
qed

text \<open>The plan takes over the request.\<close>

lemma materialize_cases_length: "materialize_cases efs i tcs = Inr ds \<Longrightarrow> length ds = length tcs"
  by (induction tcs arbitrary: i ds) (auto split: sum.splits)

lemma materialize_plan:
  assumes "materialize en req profile choice = Inr plan"
  shows "jp_profile plan = profile" "jp_sourceCode plan = jr_SourceCode req" "jp_language plan = jr_Language req"
    "length (jp_cases plan) = length (jr_TestCases req)" "jp_checkerProvidedByRequest plan \<longleftrightarrow> ch_kind choice = checkerInline"
  using assms materialize_cases_length by (auto simp: materialize_def split: sum.splits)

text \<open>A request that gets as far as the test cases.\<close>

definition accepted_request :: "('c, 'k) engine \<Rightarrow> session \<Rightarrow> JudgeRequest \<Rightarrow> 'c \<Rightarrow> checkerChoice \<Rightarrow> judgePlan \<Rightarrow> Artifact \<Rightarrow> Artifact \<Rightarrow> 'c \<Rightarrow> bool" where
  "accepted_request en se req cache choice plan program checker cache' \<longleftrightarrow>
     validateJudgeRequest req = None \<and>
     resolveChecker (en_unicode en) (jr_Checker req) (jr_CheckerSourceCode req) = Inr choice \<and>
     se_acquire se = None \<and>
     (\<exists>profile. profileForLanguage (jr_Language req) = Inr profile \<and> materialize en req profile choice = Inr plan \<and>
       (\<exists>lc. language_Compile (se_compile se) profile (jr_SourceCode req) = Inr (Some program, lc))) \<and>
     (\<exists>cc. checker_prepare (en_cache en) (en_testlibHeader en) (se_checkerCompile se) (jp_checkerSource plan) cache = (Inr (Some checker, cc), cache'))"

lemma Judge_accepted:
  assumes "accepted_request en se req cache choice plan program checker cache'"
  shows "\<exists>result. Judge en se req cache = (Inr result, cache') \<and>
    jg_Cases result = runAllCases (se_schedule se) (plan_runner plan program checker) (se_cases se) (jp_cases plan) \<and>
    jg_Status result = aggregateStatus (jg_Cases result)"
  using assms by (auto simp: accepted_request_def Judge_def executeJudgePlan_def Let_def materialize_plan)

text \<open>A whole request with a checker that only accepts or rejects.\<close>

context judged_checker
begin

lemma judged_request:
  assumes "accepted_request en se req cache choice plan program checker cache'"
    and "cache_sound (en_cache en) contents" "\<forall>e\<in>contents cache. compiled_entry (en_cache en) (en_testlibHeader en) e"
    and "set (se_schedule se) = {..<length (jp_cases plan)}"
    and "\<And>i. i < length (jp_cases plan) \<Longrightarrow> undisturbed (snd (se_cases se i)) \<and> runs_as base prog (snd (se_cases se i)) \<and>
      readable_case fits plan program (fst (se_cases se i)) (jp_cases plan ! i)"
    and "\<And>x y. code x y \<in> {0, 1}"
  shows "\<exists>result. Judge en se req cache = (Inr result, cache') \<and>
    map jc_Verdict (jg_Cases result) =
      map (\<lambda>i. case_verdict code plan program (fst (se_cases se i)) (jp_cases plan ! i)) [0..<length (jp_cases plan)] \<and>
    jg_Status result = (if \<exists>i<length (jp_cases plan). \<exists>err. program_Run (fst (se_cases se i)) (jp_language plan) (lp_Run (jp_profile plan)) program
      (cd_input (jp_cases plan ! i)) (jp_timeLimit plan) (jp_memoryLimit plan) = Inl err then JudgeStatusSystemError else JudgeStatusOK)"
proof -
  obtain result where r: "Judge en se req cache = (Inr result, cache')"
    "jg_Cases result = runAllCases (se_schedule se) (plan_runner plan program checker) (se_cases se) (jp_cases plan)"
    "jg_Status result = aggregateStatus (jg_Cases result)" using Judge_accepted [OF assms(1)] by blast
  have "a_Name checker = ''checker''" using checker_prepare_name [OF assms(2,3)] assms(1) by (auto simp: accepted_request_def)
  then have v: "map jc_Verdict (jg_Cases result) =
      map (\<lambda>i. case_verdict code plan program (fst (se_cases se i)) (jp_cases plan ! i)) [0..<length (jp_cases plan)]"
    unfolding r(2) by (rule case_verdicts [OF _ assms(4,5)])
  from status_of_verdicts [OF v assms(6)] show ?thesis unfolding r(3) [symmetric] by (intro exI [of _ result] conjI r(1) v)
qed

end

text \<open>The file systems are read only inside their roots.\<close>

lemma materialize_cases_inside:
  assumes "\<forall>tc\<in>set tcs. validateJudgeTestCase 0 tc = None" "\<And>p. p = ''.'' \<or> stays_inside p \<Longrightarrow> efs p = efs' p"
  shows "materialize_cases (Some efs) i tcs = materialize_cases (Some efs') i tcs"
  using assms(1)
proof (induction tcs arbitrary: i)
  case (Cons tc tcs)
  have "validateJudgeTestCase 0 tc = None" using Cons.prems by simp
  then have "jt_InputFile tc = '''' \<or> ValidPath (jt_InputFile tc) \<and> ValidPath (jt_ExpectedOutputFile tc)"
    by (auto simp: validateJudgeTestCase_def Let_def split: if_splits)
  then have "jt_InputFile tc = [] \<or> efs (jt_InputFile tc) = efs' (jt_InputFile tc) \<and> efs (jt_ExpectedOutputFile tc) = efs' (jt_ExpectedOutputFile tc)"
    using ValidPath_inside assms(2) by blast
  then have "materializeCase (Some efs) tc = materializeCase (Some efs') tc" by (auto simp: materializeCase_def split: sum.split)
  with Cons show ?case by (simp split: sum.split)
qed simp

lemma validated_cases: "validateJudgeRequest req = None \<Longrightarrow> \<forall>tc\<in>set (jr_TestCases req). validateJudgeTestCase 0 tc = None"
proof
  fix tc assume v: "validateJudgeRequest req = None" "tc \<in> set (jr_TestCases req)"
  then have "validate_cases 0 (jr_TestCases req) = None" by (auto simp: validateJudgeRequest_def split: if_splits)
  with v(2) obtain k where "validateJudgeTestCase k tc = None" unfolding validate_cases_None in_set_conv_nth by auto
  then show "validateJudgeTestCase 0 tc = None" by (auto simp: validateJudgeTestCase_def Let_def split: if_splits)
qed

lemma resolved_inside:
  assumes "resolveChecker uni raw inline = Inr choice"
  shows "ch_kind choice = checkerExternal \<Longrightarrow> stays_inside (ch_value choice) \<and> suffix ''.cpp'' (ch_value choice)"
    "ch_kind choice = checkerBuiltin \<Longrightarrow> stays_inside (builtinCheckerPath (ch_value choice)) \<and>
      split_slash (builtinCheckerPath (ch_value choice)) = [''checkers'', ch_value choice @ ''.cpp'']"
proof -
  have "slash \<notin> set ''default''" "CHR ''.'' \<notin> set ''default''" by (simp_all add: slash_def)
  note d = builtin_path_inside [OF this]
  show "ch_kind choice = checkerExternal \<Longrightarrow> stays_inside (ch_value choice) \<and> suffix ''.cpp'' (ch_value choice)"
    using assms validateExternalCheckerPath_inside by (auto simp: resolveChecker_def Let_def split: if_splits prod.splits sum.splits option.splits)
  show "ch_kind choice = checkerBuiltin \<Longrightarrow> stays_inside (builtinCheckerPath (ch_value choice)) \<and>
      split_slash (builtinCheckerPath (ch_value choice)) = [''checkers'', ch_value choice @ ''.cpp'']"
    using assms d builtin_path_inside [OF short_name_plain]
    by (auto simp: resolveChecker_def Let_def split: if_splits prod.splits sum.splits option.splits)
qed

lemma readSource_inside:
  assumes "resolveChecker uni raw inline = Inr choice" "\<And>p. stays_inside p \<Longrightarrow> bfs p = bfs' p" "\<And>p. stays_inside p \<Longrightarrow> efs p = efs' p"
  shows "readSource bfs (Some efs) choice = readSource bfs' (Some efs') choice"
  using resolved_inside [OF assms(1)] assms(2,3) by (cases "ch_kind choice") (simp_all add: readSource_def)

section \<open>An example\<close>

text \<open>A cache that is a list of entries, a container that answers at once, and a request with two test cases.\<close>

definition list_cache :: "((string \<times> CompileOut) list, string) cache_lib" where
  "list_cache = \<lparr>cl_get = (\<lambda>c k. (map_of c k, c)), cl_add = (\<lambda>c k v. (k, v) # c), cl_sum = (\<lambda>s. s)\<rparr>"

lemma list_cache_sound: "cache_sound list_cache set"
  by (auto simp: cache_sound_def list_cache_def dest: map_of_SomeD)

definition calm :: "(File list \<Rightarrow> ExecuteRequest \<Rightarrow> string + ExecuteResult) \<Rightarrow> outside" where
  "calm box = \<lparr>o_acquire = None, o_mkdir = None, o_write = (\<lambda>_. None), o_sandbox = box, o_stat = (\<lambda>_. Inr (True, 1, 493)),
     o_read = (\<lambda>_. Inr ''x''), o_cleanup = None\<rparr>"

definition ended :: "int \<Rightarrow> string \<Rightarrow> ExecuteResult" where
  "ended code output = \<lparr>er_ExitCode = code, er_Stdout = output, er_Stderr = '''', er_CPUTimeMs = 1, er_MemoryMB = 1,
     er_Verdict = (if code = 0 then SV_OK else SV_RE), er_ExtraInfo = ''''\<rparr>"

definition base_env :: env where
  "base_env = \<lparr>env_fs = (\<lambda>_. None), env_mem = (\<lambda>_. CHR 0x00), env_memEof = (\<lambda>_. False), env_canOpen = (\<lambda>_. True), env_canClose = (\<lambda>_. True)\<rparr>"

text \<open>A container that runs a checker as its model says.\<close>

definition checker_box :: "(env \<Rightarrow> string option list \<Rightarrow> (testlib, int) outcome) \<Rightarrow> File list \<Rightarrow> ExecuteRequest \<Rightarrow> string + ExecuteResult" where
  "checker_box prog files req = (case run_main (process_env base_env files) (prog (process_env base_env files) (map Some (xr_Command req))) of
     Exited code g \<Rightarrow> Inr (ended code '''') | Aborted \<Rightarrow> Inl ''aborted'')"

lemma checker_box_runs: "runs_as base_env prog (calm (checker_box prog))" "undisturbed (calm box)"
  by (auto simp: runs_as_def calm_def checker_box_def exits_def ended_def undisturbed_def)

definition two_cases :: "JudgeTestCase list" where
  "two_cases = [\<lparr>jt_InputText = ''6 7'', jt_ExpectedOutput = ''42'', jt_InputFile = '''', jt_ExpectedOutputFile = ''''\<rparr>,
     \<lparr>jt_InputText = ''6 8'', jt_ExpectedOutput = ''48'', jt_InputFile = '''', jt_ExpectedOutputFile = ''''\<rparr>]"

definition demo_request :: JudgeRequest where
  "demo_request = \<lparr>jr_SourceCode = ''main'', jr_Checker = '''', jr_CheckerSourceCode = '''', jr_Language = ''C'',
     jr_TimeLimit = 1000, jr_MemoryLimit = 64, jr_TestCases = two_cases\<rparr>"

definition demo_engine :: "((string \<times> CompileOut) list, string) engine" where
  "demo_engine = \<lparr>en_bundledFS = (\<lambda>p. Inr ''default''), en_externalFS = None, en_testlibHeader = ''testlib'', en_cache = list_cache,
     en_unicode = (\<lambda>_. False)\<rparr>"

text \<open>The program prints 42 with a space behind it on every input.\<close>

definition demo_session :: "(env \<Rightarrow> string option list \<Rightarrow> (testlib, int) outcome) \<Rightarrow> session" where
  "demo_session prog = \<lparr>se_acquire = None, se_compile = calm (\<lambda>_ _. Inr (ended 0 '''')), se_checkerCompile = calm (\<lambda>_ _. Inr (ended 0 '''')),
     se_cases = (\<lambda>_. (calm (\<lambda>_ _. Inr (ended 0 ''42 '')), calm (checker_box prog))), se_schedule = [1, 0]\<rparr>"

definition demo_plan :: judgePlan where
  "demo_plan = \<lparr>jp_sourceCode = ''main'', jp_timeLimit = 1000, jp_memoryLimit = 64,
     jp_cases = [\<lparr>cd_input = ''6 7'', cd_expectedOutput = ''42''\<rparr>, \<lparr>cd_input = ''6 8'', cd_expectedOutput = ''48''\<rparr>],
     jp_language = ''C'', jp_profile = cProfile, jp_checkerSource = ''default'', jp_checkerProvidedByRequest = False\<rparr>"

lemma calm_simps [simp]: "o_acquire (calm box) = None" "o_mkdir (calm box) = None" "o_cleanup (calm box) = None" "o_sandbox (calm box) = box"
  "o_stat (calm box) = (\<lambda>_. Inr (True, 1, 493))" "o_read (calm box) = (\<lambda>_. Inr ''x'')" "writeFiles (calm box) fs = Inr (map written fs)"
  using writeFiles_undisturbed [OF checker_box_runs(2)] by (simp_all add: calm_def)

lemma calm_execute [simp]:
  "execute (calm (\<lambda>_ _. Inr (ended 0 output))) t = Inr (sandboxResultToRunResult (ended 0 output),
    if t_artifactName t = [] then no_compile else \<lparr>co_Log = [], co_Artifact = Some \<lparr>a_Name = t_artifactName t, a_Data = ''x'', a_Mode = 493\<rparr>\<rparr>)"
  by (simp add: execute_def in_workspace_def collectArtifact_def maxCompileArtifactBytes_def Let_def ended_def sandboxResultToRunResult_def
      sandboxVerdictToModel_def)

lemma ended_run [simp]: "sandboxResultToRunResult (ended 0 output) = \<lparr>rr_Verdict = VerdictOK, rr_ExitCode = 0, rr_Stdout = output,
    rr_Stderr = [], rr_CPUTimeMs = 1, rr_MemoryMB = 1, rr_ExtraInfo = []\<rparr>"
  by (simp add: ended_def sandboxResultToRunResult_def sandboxVerdictToModel_def)

lemma calm_Compile [simp]:
  "cq_ArtifactName req \<noteq> [] \<Longrightarrow> exec_Compile (calm (\<lambda>_ _. Inr (ended 0 []))) req =
    Inr \<lparr>co_Log = [], co_Artifact = Some \<lparr>a_Name = cq_ArtifactName req, a_Data = ''x'', a_Mode = 493\<rparr>\<rparr>"
  by (simp add: exec_Compile_def Let_def join_def)

lemma demo_prepare:
  "checker_prepare list_cache header (calm (\<lambda>_ _. Inr (ended 0 []))) ''default'' [] =
    (Inr (Some \<lparr>a_Name = ''checker'', a_Data = ''x'', a_Mode = 493\<rparr>, \<lparr>Succeeded = True, Log = []\<rparr>),
     [(''default'', \<lparr>co_Log = [], co_Artifact = Some \<lparr>a_Name = ''checker'', a_Data = ''x'', a_Mode = 493\<rparr>\<rparr>)])"
  by (simp add: checker_prepare_def checker_compile_def checker_flight_def compileUncached_def list_cache_def checkerCompileProfile_def Let_def)

lemma demo_accepted:
  "accepted_request demo_engine (demo_session prog) demo_request [] \<lparr>ch_kind = checkerBuiltin, ch_value = ''default''\<rparr> demo_plan
    \<lparr>a_Name = ''program'', a_Data = ''x'', a_Mode = 493\<rparr> \<lparr>a_Name = ''checker'', a_Data = ''x'', a_Mode = 493\<rparr>
    [(''default'', \<lparr>co_Log = [], co_Artifact = Some \<lparr>a_Name = ''checker'', a_Data = ''x'', a_Mode = 493\<rparr>\<rparr>)]"
proof -
  have v: "validateJudgeRequest demo_request = None" by code_simp
  have t: "TrimSpace [] = []" by code_simp
  then have r: "resolveChecker uni [] [] = Inr \<lparr>ch_kind = checkerBuiltin, ch_value = ''default''\<rparr>" for uni by (simp add: resolveChecker_def)
  have p: "profileForLanguage ''C'' = Inr cProfile" by (simp add: profileForLanguage_def)
  have m: "materialize demo_engine demo_request cProfile \<lparr>ch_kind = checkerBuiltin, ch_value = ''default''\<rparr> = Inr demo_plan"
    by (simp add: materialize_def readSource_def demo_engine_def demo_request_def two_cases_def materializeCase_def demo_plan_def)
  have c: "language_Compile (se_compile (demo_session prog)) cProfile ''main'' =
      Inr (Some \<lparr>a_Name = ''program'', a_Data = ''x'', a_Mode = 493\<rparr>, \<lparr>Succeeded = True, Log = []\<rparr>)"
    by (simp add: language_Compile_def demo_session_def Let_def cProfile_def)
  show ?thesis unfolding accepted_request_def
    using v r p m c by (simp add: demo_prepare demo_request_def demo_session_def demo_engine_def demo_plan_def)
qed

section \<open>The judge\<close>

text \<open>
  C10. A request that passes validation and whose program and checker compile is judged by the checker: if the
  container runs the checker as the model of \<^verbatim>\<open>default.cpp\<close> says and reports its exit code, the verdict on
  each case is the one of the run (time, memory or output limit, runtime error), and for a program that ran
  well it is OK exactly when output and expected output agree line by line after normalisation and WA
  otherwise. The status is a system error exactly if some program could not be run.
\<close>

theorem judge_default_correct:
  assumes "accepted_request en se req cache choice plan program checker cache'"
    and "cache_sound (en_cache en) contents" "\<forall>e\<in>contents cache. compiled_entry (en_cache en) (en_testlibHeader en) e"
    and "set (se_schedule se) = {..<length (jp_cases plan)}"
    and "\<And>i. i < length (jp_cases plan) \<Longrightarrow> undisturbed (snd (se_cases se i)) \<and> runs_as base default_prog (snd (se_cases se i)) \<and>
      readable_case (\<lambda>_ _. True) plan program (fst (se_cases se i)) (jp_cases plan ! i)"
  shows "\<exists>result. Judge en se req cache = (Inr result, cache') \<and>
    map jc_Verdict (jg_Cases result) =
      map (\<lambda>i. case_verdict (\<lambda>output answer. if norm_lines (output_codes output) = norm_lines (answer_codes answer) then 0 else 1)
             plan program (fst (se_cases se i)) (jp_cases plan ! i)) [0..<length (jp_cases plan)] \<and>
    jg_Status result = (if \<exists>i<length (jp_cases plan). \<exists>err. program_Run (fst (se_cases se i)) (jp_language plan) (lp_Run (jp_profile plan)) program
      (cd_input (jp_cases plan ! i)) (jp_timeLimit plan) (jp_memoryLimit plan) = Inl err then JudgeStatusSystemError else JudgeStatusOK)"
  by (rule default_judged.judged_request [OF assms]) auto

text \<open>The same with \<^verbatim>\<open>wcmp.cpp\<close> and the words of output and expected output.\<close>

theorem judge_wcmp_correct:
  assumes "accepted_request en se req cache choice plan program checker cache'"
    and "cache_sound (en_cache en) contents" "\<forall>e\<in>contents cache. compiled_entry (en_cache en) (en_testlibHeader en) e"
    and "set (se_schedule se) = {..<length (jp_cases plan)}"
    and "\<And>i. i < length (jp_cases plan) \<Longrightarrow> undisturbed (snd (se_cases se i)) \<and> runs_as base wcmp_main (snd (se_cases se i)) \<and>
      readable_case (\<lambda>output answer. short_tokens (output_codes output) \<and> short_tokens (answer_codes answer)) plan program
        (fst (se_cases se i)) (jp_cases plan ! i)"
  shows "\<exists>result. Judge en se req cache = (Inr result, cache') \<and>
    map jc_Verdict (jg_Cases result) =
      map (\<lambda>i. case_verdict (\<lambda>output answer. if words (output_codes output) = words (answer_codes answer) then 0 else 1)
             plan program (fst (se_cases se i)) (jp_cases plan ! i)) [0..<length (jp_cases plan)] \<and>
    jg_Status result = (if \<exists>i<length (jp_cases plan). \<exists>err. program_Run (fst (se_cases se i)) (jp_language plan) (lp_Run (jp_profile plan)) program
      (cd_input (jp_cases plan ! i)) (jp_timeLimit plan) (jp_memoryLimit plan) = Inl err then JudgeStatusSystemError else JudgeStatusOK)"
  by (rule wcmp_judged.judged_request [OF assms]) auto

lemma demo_program_Run [simp]:
  "program_Run (calm (\<lambda>_ _. Inr (ended 0 output))) lang profile artifact input t m = Inr \<lparr>rr_Verdict = VerdictOK, rr_ExitCode = 0,
    rr_Stdout = output, rr_Stderr = [], rr_CPUTimeMs = 1, rr_MemoryMB = 1, rr_ExtraInfo = []\<rparr>"
  by (simp add: program_Run_def exec_Run_def Let_def normalizeLanguageRunResult_def)

theorem judge_default_correct_witness:
  "\<exists>result cache'. Judge demo_engine (demo_session default_prog) demo_request [] = (Inr result, cache') \<and>
    map jc_Verdict (jg_Cases result) = [VerdictOK, VerdictWA] \<and> jg_Status result = JudgeStatusOK"
proof -
  have cases: "se_cases (demo_session default_prog) = (\<lambda>_. (calm (\<lambda>_ _. Inr (ended 0 ''42 '')), calm (checker_box default_prog)))"
    "se_schedule (demo_session default_prog) = [1, 0]" by (simp_all add: demo_session_def)
  have len: "length (jp_cases demo_plan) = 2" by (simp add: demo_plan_def)
  have s: "set (se_schedule (demo_session default_prog)) = {..<length (jp_cases demo_plan)}" unfolding cases(2) len by auto
  have c: "cache_sound (en_cache demo_engine) set" using list_cache_sound by (simp add: demo_engine_def)
  have e: "\<forall>e\<in>set []. compiled_entry (en_cache demo_engine) (en_testlibHeader demo_engine) e" by simp
  have g: "undisturbed (snd (se_cases (demo_session default_prog) i)) \<and> runs_as base_env default_prog (snd (se_cases (demo_session default_prog) i)) \<and>
      readable_case (\<lambda>_ _. True) demo_plan \<lparr>a_Name = ''program'', a_Data = ''x'', a_Mode = 493\<rparr> (fst (se_cases (demo_session default_prog) i)) (jp_cases demo_plan ! i)"
    if "i < length (jp_cases demo_plan)" for i
    using that checker_box_runs unfolding cases len by (auto simp: readable_case_def demo_plan_def less_2_cases_iff)
  have n: "norm_lines (output_codes ''42 '') = norm_lines (answer_codes ''42'')" "norm_lines (output_codes ''42 '') \<noteq> norm_lines (answer_codes ''48'')"
    by code_simp+
  have "[0..<length (jp_cases demo_plan)] = [0, 1]" unfolding len by (simp add: upt_rec)
  with judge_default_correct [OF demo_accepted c e s g] n show ?thesis
    unfolding cases by (auto simp: case_verdict_def demo_plan_def code_verdict_def)
qed

text \<open>
  C17. The order in which the goroutines of the test cases run has no influence on the result of a request.
\<close>

theorem schedule_irrelevant:
  assumes "set schedule = {..<length (jp_cases plan)}" "set schedule' = {..<length (jp_cases plan)}"
  shows "executeJudgePlan en (se\<lparr>se_schedule := schedule\<rparr>) plan cache = executeJudgePlan en (se\<lparr>se_schedule := schedule'\<rparr>) plan cache"
proof -
  have "se_compile (se\<lparr>se_schedule := x\<rparr>) = se_compile se" "se_checkerCompile (se\<lparr>se_schedule := x\<rparr>) = se_checkerCompile se"
    "se_cases (se\<lparr>se_schedule := x\<rparr>) = se_cases se" "se_schedule (se\<lparr>se_schedule := x\<rparr>) = x" for x by simp_all
  then show ?thesis by (simp only: executeJudgePlan_def runAllCases_any_order [OF assms(1)] runAllCases_any_order [OF assms(2)])
qed

theorem schedule_irrelevant_witness:
  "executeJudgePlan demo_engine ((demo_session wcmp_main)\<lparr>se_schedule := [1, 0]\<rparr>) demo_plan [] =
    executeJudgePlan demo_engine ((demo_session wcmp_main)\<lparr>se_schedule := [0, 1]\<rparr>) demo_plan []"
proof -
  have "length (jp_cases demo_plan) = 2" by (simp add: demo_plan_def)
  then have "set [1, 0] = {..<length (jp_cases demo_plan)}" "set [0, 1] = {..<length (jp_cases demo_plan)}" by auto
  from schedule_irrelevant [OF this] show ?thesis .
qed

text \<open>
  C18. The judge reads no file outside the roots of its two file systems: its answer to a request is the same
  for any two pairs of file systems that agree on the paths that stay inside, whatever checker path and test
  file names the request holds.
\<close>

theorem reads_stay_inside:
  assumes "\<And>p. stays_inside p \<Longrightarrow> bfs p = bfs' p" "\<And>p. p = ''.'' \<or> stays_inside p \<Longrightarrow> efs p = efs' p"
  shows "Judge (en\<lparr>en_bundledFS := bfs, en_externalFS := Some efs\<rparr>) se req cache =
    Judge (en\<lparr>en_bundledFS := bfs', en_externalFS := Some efs'\<rparr>) se req cache"
proof -
  let ?en = "en\<lparr>en_bundledFS := bfs, en_externalFS := Some efs\<rparr>" and ?en' = "en\<lparr>en_bundledFS := bfs', en_externalFS := Some efs'\<rparr>"
  have m: "materialize ?en req profile choice = materialize ?en' req profile choice"
    if "validateJudgeRequest req = None" "resolveChecker (en_unicode en) (jr_Checker req) (jr_CheckerSourceCode req) = Inr choice" for profile choice
  proof -
    have "readSource bfs (Some efs) choice = readSource bfs' (Some efs') choice" using assms by (intro readSource_inside [OF that(2)]) auto
    moreover have "materialize_cases (Some efs) 0 (jr_TestCases req) = materialize_cases (Some efs') 0 (jr_TestCases req)"
      using assms(2) by (intro materialize_cases_inside [OF validated_cases [OF that(1)]]) auto
    ultimately show ?thesis by (simp add: materialize_def split: sum.split)
  qed
  have "en_cache ?en = en_cache en" "en_cache ?en' = en_cache en" "en_testlibHeader ?en = en_testlibHeader en"
    "en_testlibHeader ?en' = en_testlibHeader en" by simp_all
  then have x: "executeJudgePlan ?en se plan cache = executeJudgePlan ?en' se plan cache" for plan by (simp only: executeJudgePlan_def)
  show ?thesis
  proof (cases "validateJudgeRequest req")
    case None
    show ?thesis
    proof (cases "resolveChecker (en_unicode en) (jr_Checker req) (jr_CheckerSourceCode req)")
      case (Inr choice)
      show ?thesis unfolding Judge_def using None Inr m [OF None Inr] x by (simp split: option.split sum.split)
    qed (simp add: Judge_def None split: sum.split)
  qed (simp add: Judge_def)
qed

theorem reads_stay_inside_witness:
  "Judge (demo_engine\<lparr>en_bundledFS := (\<lambda>p. Inr p), en_externalFS := Some (\<lambda>p. Inr p)\<rparr>) (demo_session wcmp_main) demo_request [] =
    Judge (demo_engine\<lparr>en_bundledFS := (\<lambda>p. if p = ''../key'' then Inl ''denied'' else Inr p),
      en_externalFS := Some (\<lambda>p. if p = ''/etc/shadow'' then Inl ''denied'' else Inr p)\<rparr>) (demo_session wcmp_main) demo_request []"
proof -
  have "\<not> stays_inside ''../key''" "\<not> stays_inside ''/etc/shadow''" by code_simp+
  then show ?thesis by (intro reads_stay_inside) auto
qed



text \<open>
  C20. A request that the judge answers with an error has not run anything: the cache is as before, and every
  other course of the executions gives the same error.
\<close>

theorem request_errors:
  assumes "Judge en se req cache = (Inl err, cache')" "se_acquire se' = se_acquire se"
  shows "cache' = cache \<and> Judge en se' req cache = (Inl err, cache)"
  using assms by (auto simp: Judge_def split: option.splits sum.splits prod.splits)

theorem request_errors_witness:
  "Judge demo_engine (demo_session default_prog) (demo_request\<lparr>jr_Checker := ''../wcmp''\<rparr>) [] = (Inl (Bad_checker_path_chars ''../wcmp''), [])"
proof -
  have v: "validateJudgeRequest (demo_request\<lparr>jr_Checker := ''../wcmp''\<rparr>) = None" by code_simp
  have r: "resolveChecker (\<lambda>_. False) ''../wcmp'' [] = Inl (Bad_checker_path_chars ''../wcmp'')" by code_simp
  have "Judge demo_engine (demo_session wcmp_main) (demo_request\<lparr>jr_Checker := ''../wcmp''\<rparr>) [] = (Inl (Bad_checker_path_chars ''../wcmp''), [])"
    using v r by (simp add: Judge_def profileForLanguage_def demo_request_def demo_engine_def)
  from request_errors [OF this, of "demo_session default_prog"] show ?thesis by (simp add: demo_session_def)
qed

section \<open>The sandbox\<close>

text \<open>
  C21. However the writes of standard output and standard error interleave, once no write is going on the two
  buffers together hold at most the allowed number of bytes, each holds a prefix of what the task wrote to
  its stream, all of it unless that writer has overflowed, and some writer has overflowed exactly if the
  task wrote more than is allowed.
\<close>

theorem output_limited:
  assumes "out_reachable limit s" "out_quiet s" "0 \<le> limit"
  shows "length (lw_buf (os_writer s True)) + length (lw_buf (os_writer s False)) \<le> nat limit \<and>
    (\<forall>i. \<exists>lost. os_written s i = lw_buf (os_writer s i) @ lost \<and> (lost = [] \<longleftrightarrow> \<not> lw_overflowed (os_writer s i))) \<and>
    (lw_overflowed (os_writer s True) \<or> lw_overflowed (os_writer s False) \<longleftrightarrow>
      limit < int (length (os_written s True)) + int (length (os_written s False)))"
  using out_quiet_captures [OF assms(1,2)] assms(3) by blast

text \<open>A state in which both streams were written to.\<close>

definition wrote :: "bool \<Rightarrow> string \<Rightarrow> out_state \<Rightarrow> out_state" where
  "wrote i p s = (case write_reserve p (os_writer s i) (os_lim s) of (granted, l) \<Rightarrow>
     case write_finish p granted (os_writer s i) l of (w, l') \<Rightarrow>
       s\<lparr>os_lim := l', os_pending := (os_pending s)(i := None), os_writer := (os_writer s)(i := w),
         os_written := (os_written s)(i := os_written s i @ p)\<rparr>)"

lemma wrote_reachable: "out_reachable limit s \<Longrightarrow> out_quiet s \<Longrightarrow> out_reachable limit (wrote i p s) \<and> out_quiet (wrote i p s)"
  using out_reachable_write [of limit s i p] by (cases i) (auto simp: wrote_def out_quiet_def split: prod.split)

lemma start_reachable: "out_reachable limit (out_start limit) \<and> out_quiet (out_start limit)"
  using out_reachable.init by (simp add: out_quiet_def) (simp add: out_start_def)

theorem output_limited_witness:
  "lw_overflowed (os_writer (wrote False ''cd'' (wrote True ''ab'' (out_start 3))) True) \<or>
   lw_overflowed (os_writer (wrote False ''cd'' (wrote True ''ab'' (out_start 3))) False)"
proof -
  let ?s = "wrote False ''cd'' (wrote True ''ab'' (out_start 3))"
  have r: "out_reachable 3 ?s" "out_quiet ?s" using wrote_reachable start_reachable by blast+
  have "os_written ?s True = ''ab''" "os_written ?s False = ''cd''"
    by (simp_all add: wrote_def out_start_def split: prod.split)
  then show ?thesis using output_limited [OF r] by simp
qed









end
