(* ===== verification/AJ_Json.thy ===== *)
theory AJ_Json
  imports AJ_Paths
begin

text \<open>
  What the service uses of Go's \<^verbatim>\<open>encoding/json\<close> and \<^verbatim>\<open>unicode/utf8\<close>: the scanner that finds the end of a
  value and checks its syntax, the decoding of string literals, and the encoder with its escapes. A grammar of
  JSON texts is the specification of the scanner; the encoder writes texts of the grammar.
\<close>

section \<open>Values\<close>

text \<open>A number keeps its digits: its meaning depends on the type it is decoded into.\<close>

datatype json =
    JNull
  | JBool bool
  | JNum string
  | JStr string
  | JArr "json list"
  | JObj "(string \<times> json) list"

definition quote :: char where "quote = CHR 0x22"
definition backslash :: char where "backslash = CHR 0x5C"

section \<open>Strings\<close>

text \<open>\<^verbatim>\<open>utf8.EncodeRune\<close>: surrogates and numbers that are no rune become U+FFFD.\<close>

definition EncodeRune :: "int \<Rightarrow> string" where
  "EncodeRune r0 =
     (let r = (if 0 \<le> r0 \<and> r0 \<le> 1114111 \<and> \<not> (55296 \<le> r0 \<and> r0 < 57344) then r0 else 65533) in
      if r < 128 then [to_char r]
      else if r < 2048 then [to_char (192 + r div 64), to_char (128 + r mod 64)]
      else if r < 65536 then [to_char (224 + r div 4096), to_char (128 + r div 64 mod 64), to_char (128 + r mod 64)]
      else [to_char (240 + r div 262144), to_char (128 + r div 4096 mod 64), to_char (128 + r div 64 mod 64), to_char (128 + r mod 64)])"

definition is_hex :: "char \<Rightarrow> bool" where
  "is_hex c \<longleftrightarrow> 48 \<le> uchar c \<and> uchar c \<le> 57 \<or> 65 \<le> uchar c \<and> uchar c \<le> 70 \<or> 97 \<le> uchar c \<and> uchar c \<le> 102"

definition hex_value :: "char \<Rightarrow> int" where
  "hex_value c = (if uchar c \<le> 57 then uchar c - 48 else if uchar c \<le> 70 then uchar c - 55 else uchar c - 87)"

text \<open>The number of an escape \<^verbatim>\<open>\uXXXX\<close> at the start of the text.\<close>

definition getu4 :: "string \<Rightarrow> int option" where
  "getu4 s = (case s of
     b # u # h1 # h2 # h3 # h4 # _ \<Rightarrow>
       if b = backslash \<and> u = CHR ''u'' \<and> is_hex h1 \<and> is_hex h2 \<and> is_hex h3 \<and> is_hex h4
       then Some (hex_value h1 * 4096 + hex_value h2 * 256 + hex_value h3 * 16 + hex_value h4) else None
   | _ \<Rightarrow> None)"

definition simple_escape :: "char \<Rightarrow> char" where
  "simple_escape e = (if e = CHR ''b'' then CHR 0x08 else if e = CHR ''f'' then CHR 0x0C else if e = CHR ''n'' then CHR 0x0A
     else if e = CHR ''r'' then CHR 0x0D else if e = CHR ''t'' then CHR 0x09 else e)"

text \<open>
  \<^verbatim>\<open>unquote\<close>, on the text between the quotes that the scanner has accepted. Two escapes that form a surrogate
  pair are one rune, other surrogates and bytes that are not UTF-8 become U+FFFD.
\<close>

function unquote :: "string \<Rightarrow> string" where
  "unquote s = (case s of
     [] \<Rightarrow> []
   | c # cs \<Rightarrow>
       if c = backslash then
         (case getu4 s of
            Some r \<Rightarrow>
              (case getu4 (drop 6 s) of
                 Some r1 \<Rightarrow>
                   if 55296 \<le> r \<and> r < 56320 \<and> 56320 \<le> r1 \<and> r1 < 57344
                   then EncodeRune ((r - 55296) * 1024 + (r1 - 56320) + 65536) @ unquote (drop 12 s)
                   else EncodeRune r @ unquote (drop 6 s)
               | None \<Rightarrow> EncodeRune r @ unquote (drop 6 s))
          | None \<Rightarrow> (case cs of [] \<Rightarrow> [] | e # cs' \<Rightarrow> simple_escape e # unquote cs'))
       else if uchar c < 128 then c # unquote cs
       else EncodeRune (fst (next_rune s)) @ unquote (drop (snd (next_rune s)) s))"
  by pat_completeness auto
termination
proof -
  have "Suc (length cs) - snd (next_rune (c # cs)) < Suc (length cs)" for c cs using next_rune_width [of "c # cs"] by simp
  then show ?thesis by (relation "measure length") (auto simp: getu4_def split: list.splits)
qed

declare unquote.simps [simp del]

section \<open>The scanner\<close>

text \<open>A scan ends with a value and the text behind it, at the end of the text, or with a syntax error.\<close>

datatype 'a scanned = Complete 'a string | Incomplete | Broken

definition json_space :: "char \<Rightarrow> bool" where
  "json_space c \<longleftrightarrow> c = CHR 0x20 \<or> c = CHR 0x09 \<or> c = CHR 0x0D \<or> c = CHR 0x0A"

text \<open>Inside a string: in plain text, behind a backslash, and \<open>EscU n\<close> with \<open>n + 1\<close> hexadecimal digits to come.\<close>

datatype string_state = Str | Esc | EscU nat

primrec scan_string :: "string_state \<Rightarrow> string \<Rightarrow> string \<Rightarrow> string scanned" where
  "scan_string st acc [] = Incomplete"
| "scan_string st acc (c # cs) = (case st of
     Str \<Rightarrow>
       if c = quote then Complete (rev acc) cs
       else if c = backslash then scan_string Esc (c # acc) cs
       else if uchar c < 32 then Broken
       else scan_string Str (c # acc) cs
   | Esc \<Rightarrow>
       if c = CHR ''b'' \<or> c = CHR ''f'' \<or> c = CHR ''n'' \<or> c = CHR ''r'' \<or> c = CHR ''t'' \<or> c = backslash \<or> c = CHR ''/'' \<or> c = quote
       then scan_string Str (c # acc) cs
       else if c = CHR ''u'' then scan_string (EscU 3) (c # acc) cs
       else Broken
   | EscU n \<Rightarrow>
       if is_hex c then scan_string (case n of 0 \<Rightarrow> Str | Suc m \<Rightarrow> EscU m) (c # acc) cs else Broken)"

text \<open>Inside a number.\<close>

datatype number_state = Neg | Zero | Digits | Dot | Fraction | Exponent | ExponentSign | ExponentDigits

definition number_ends :: "number_state \<Rightarrow> bool" where
  "number_ends st \<longleftrightarrow> st \<in> {Zero, Digits, Fraction, ExponentDigits}"

definition number_next :: "number_state \<Rightarrow> char \<Rightarrow> number_state option" where
  "number_next st c = (case st of
     Neg \<Rightarrow> if c = CHR ''0'' then Some Zero else if is_digit c then Some Digits else None
   | Zero \<Rightarrow> if c = CHR ''.'' then Some Dot else if c = CHR ''e'' \<or> c = CHR ''E'' then Some Exponent else None
   | Digits \<Rightarrow> if is_digit c then Some Digits else if c = CHR ''.'' then Some Dot
       else if c = CHR ''e'' \<or> c = CHR ''E'' then Some Exponent else None
   | Dot \<Rightarrow> if is_digit c then Some Fraction else None
   | Fraction \<Rightarrow> if is_digit c then Some Fraction else if c = CHR ''e'' \<or> c = CHR ''E'' then Some Exponent else None
   | Exponent \<Rightarrow> if c = CHR ''+'' \<or> c = CHR ''-'' then Some ExponentSign else if is_digit c then Some ExponentDigits else None
   | ExponentSign \<Rightarrow> if is_digit c then Some ExponentDigits else None
   | ExponentDigits \<Rightarrow> if is_digit c then Some ExponentDigits else None)"

primrec scan_number :: "number_state \<Rightarrow> string \<Rightarrow> string \<Rightarrow> string scanned" where
  "scan_number st acc [] = (if number_ends st then Complete (rev acc) [] else Incomplete)"
| "scan_number st acc (c # cs) = (case number_next st c of
     Some st' \<Rightarrow> scan_number st' (c # acc) cs
   | None \<Rightarrow> if number_ends st then Complete (rev acc) (c # cs) else Broken)"

fun scan_literal :: "string \<Rightarrow> string \<Rightarrow> unit scanned" where
  "scan_literal [] cs = Complete () cs"
| "scan_literal (e # es) [] = Incomplete"
| "scan_literal (e # es) (c # cs) = (if c = e then scan_literal es cs else Broken)"

text \<open>A scan never lengthens the text.\<close>

lemma scan_string_shorter: "scan_string st acc cs = Complete x rest \<Longrightarrow> length rest < length cs"
  by (induction cs arbitrary: st acc) (force split: string_state.splits if_splits)+

lemma scan_number_shorter: "scan_number st acc cs = Complete x rest \<Longrightarrow> length rest \<le> length cs"
  by (induction cs arbitrary: st acc) (force split: option.splits if_splits)+

lemma scan_literal_shorter: "scan_literal es cs = Complete x rest \<Longrightarrow> length rest \<le> length cs"
  by (induction es cs rule: scan_literal.induct) (force split: if_splits)+

text \<open>
  The stack of the values that are open, innermost first: an array with its elements in reverse, an object
  with its members in reverse, and an object that waits for the value of a key.
\<close>

datatype frame =
    InArray "json list"
  | InObject "(string \<times> json) list"
  | InMember "(string \<times> json) list" string

datatype scan_mode =
    BeginValue
  | BeginValueOrEmpty
  | BeginString
  | BeginStringOrEmpty
  | AfterKey string
  | EndValue json

definition maxNestingDepth :: nat where "maxNestingDepth = 10000"

definition begins_value :: "scan_mode \<Rightarrow> bool" where
  "begins_value m \<longleftrightarrow> m = BeginValue \<or> m = BeginValueOrEmpty"

definition begins_string :: "scan_mode \<Rightarrow> bool" where
  "begins_string m \<longleftrightarrow> m = BeginString \<or> m = BeginStringOrEmpty"

text \<open>One scalar at the start of the text.\<close>

definition scan_scalar :: "string \<Rightarrow> json scanned" where
  "scan_scalar s = (case s of
     [] \<Rightarrow> Incomplete
   | c # cs \<Rightarrow>
       let number = (\<lambda>st. case scan_number st [c] cs of Complete t rest \<Rightarrow> Complete (JNum t) rest | Incomplete \<Rightarrow> Incomplete | Broken \<Rightarrow> Broken);
           literal = (\<lambda>t v. case scan_literal t cs of Complete _ rest \<Rightarrow> Complete v rest | Incomplete \<Rightarrow> Incomplete | Broken \<Rightarrow> Broken)
       in
       if c = quote then
         (case scan_string Str [] cs of Complete t rest \<Rightarrow> Complete (JStr (unquote t)) rest | Incomplete \<Rightarrow> Incomplete | Broken \<Rightarrow> Broken)
       else if c = CHR ''-'' then number Neg
       else if c = CHR ''0'' then number Zero
       else if is_digit c then number Digits
       else if c = CHR ''t'' then literal ''rue'' (JBool True)
       else if c = CHR ''f'' then literal ''alse'' (JBool False)
       else if c = CHR ''n'' then literal ''ull'' JNull
       else Broken)"

lemma scan_scalar_shorter: "scan_scalar cs = Complete x rest \<Longrightarrow> length rest < length cs"
  using scan_string_shorter scan_number_shorter scan_literal_shorter
  by (cases cs) (auto simp: scan_scalar_def Let_def less_Suc_eq_le less_imp_le split: if_splits scanned.splits)

text \<open>The next step of the scanner on a text that does not start with white space.\<close>

datatype scan_step = Go scan_mode "frame list" string | Stop "json scanned"

definition scan_char :: "scan_mode \<Rightarrow> frame list \<Rightarrow> char \<Rightarrow> string \<Rightarrow> scan_step" where
  "scan_char m stack c cs =
     (case m of
        AfterKey k \<Rightarrow>
          (case stack of
             InObject ms # st \<Rightarrow> if c = CHR '':'' then Go BeginValue (InMember ms k # st) cs else Stop Broken
           | _ \<Rightarrow> Stop Broken)
      | EndValue j \<Rightarrow>
          (case stack of
             InArray js # st \<Rightarrow>
               if c = CHR '','' then Go BeginValue (InArray (j # js) # st) cs
               else if c = CHR '']'' then Go (EndValue (JArr (rev (j # js)))) st cs
               else Stop Broken
           | InMember ms k # st \<Rightarrow>
               if c = CHR '','' then Go BeginString (InObject ((k, j) # ms) # st) cs
               else if c = CHR ''}'' then Go (EndValue (JObj (rev ((k, j) # ms)))) st cs
               else Stop Broken
           | _ \<Rightarrow> Stop Broken)
      | _ \<Rightarrow>
          if begins_string m then
            if m = BeginStringOrEmpty \<and> c = CHR ''}'' then Go (EndValue (JObj [])) (tl stack) cs
            else if c = quote then
              (case scan_string Str [] cs of
                 Complete k rest \<Rightarrow> Go (AfterKey (unquote k)) stack rest
               | Incomplete \<Rightarrow> Stop Incomplete
               | Broken \<Rightarrow> Stop Broken)
            else Stop Broken
          else
            if m = BeginValueOrEmpty \<and> c = CHR '']'' then Go (EndValue (JArr [])) (tl stack) cs
            else if c = CHR ''['' then
              if length stack < maxNestingDepth then Go BeginValueOrEmpty (InArray [] # stack) cs else Stop Broken
            else if c = CHR ''{'' then
              if length stack < maxNestingDepth then Go BeginStringOrEmpty (InObject [] # stack) cs else Stop Broken
            else (case scan_scalar (c # cs) of
                Complete j rest \<Rightarrow> Go (EndValue j) stack rest
              | Incomplete \<Rightarrow> Stop Incomplete
              | Broken \<Rightarrow> Stop Broken))"

lemma scan_char_shorter: "scan_char m stack c cs = Go m' stack' rest \<Longrightarrow> length rest < Suc (length cs)"
  using scan_string_shorter scan_scalar_shorter [of "c # cs"]
  by (auto simp: scan_char_def less_Suc_eq_le less_imp_le split: scan_mode.splits frame.splits list.splits if_splits scanned.splits)

function scan_json :: "scan_mode \<Rightarrow> frame list \<Rightarrow> string \<Rightarrow> json scanned" where
  "scan_json m stack s =
     (case (m, stack) of
        (EndValue j, []) \<Rightarrow> Complete j s
      | _ \<Rightarrow> (case s of
          [] \<Rightarrow> Incomplete
        | c # cs \<Rightarrow>
            if json_space c then scan_json m stack cs
            else (case scan_char m stack c cs of Go m' stack' rest \<Rightarrow> scan_json m' stack' rest | Stop r \<Rightarrow> r)))"
  by pat_completeness auto
termination
  by (relation "measure (\<lambda>(m, stack, s). length s)") (auto dest: scan_char_shorter)

declare scan_json.simps [simp del]

section \<open>The grammar of JSON texts\<close>

definition spaces :: "string \<Rightarrow> bool" where
  "spaces w \<longleftrightarrow> list_all json_space w"

text \<open>The text between the quotes of a string literal.\<close>

inductive raw_text :: "string \<Rightarrow> bool" where
  raw_empty: "raw_text []"
| raw_plain: "raw_text w \<Longrightarrow> c \<noteq> quote \<Longrightarrow> c \<noteq> backslash \<Longrightarrow> 32 \<le> uchar c \<Longrightarrow> raw_text (c # w)"
| raw_escape: "raw_text w \<Longrightarrow> e \<in> set ''bfnrt/'' \<or> e = backslash \<or> e = quote \<Longrightarrow> raw_text (backslash # e # w)"
| raw_hex: "raw_text w \<Longrightarrow> is_hex h1 \<Longrightarrow> is_hex h2 \<Longrightarrow> is_hex h3 \<Longrightarrow> is_hex h4 \<Longrightarrow>
    raw_text (backslash # CHR ''u'' # h1 # h2 # h3 # h4 # w)"

definition digits_text :: "string \<Rightarrow> bool" where
  "digits_text ds \<longleftrightarrow> ds \<noteq> [] \<and> list_all is_digit ds"

text \<open>A number: the whole part has no redundant zero, then perhaps a fraction and an exponent.\<close>

inductive number_text :: "string \<Rightarrow> bool" where
  "sg \<in> {[], ''-''} \<Longrightarrow> canonical_nat ip \<Longrightarrow> fp = [] \<or> (\<exists>ds. fp = CHR ''.'' # ds \<and> digits_text ds) \<Longrightarrow>
   ep = [] \<or> (\<exists>e es ds. ep = e # es @ ds \<and> e \<in> set ''eE'' \<and> es \<in> {[], ''+'', ''-''} \<and> digits_text ds) \<Longrightarrow>
   number_text (sg @ ip @ fp @ ep)"

inductive json_text :: "json \<Rightarrow> string \<Rightarrow> bool"
  and elements_text :: "json list \<Rightarrow> string \<Rightarrow> bool"
  and members_text :: "(string \<times> json) list \<Rightarrow> string \<Rightarrow> bool"
where
  "json_text JNull ''null''"
| "json_text (JBool True) ''true''"
| "json_text (JBool False) ''false''"
| "number_text t \<Longrightarrow> json_text (JNum t) t"
| "raw_text raw \<Longrightarrow> json_text (JStr (unquote raw)) (quote # raw @ [quote])"
| "spaces a \<Longrightarrow> json_text (JArr []) (''['' @ a @ '']'')"
| "elements_text js w \<Longrightarrow> json_text (JArr js) (''['' @ w @ '']'')"
| "spaces a \<Longrightarrow> json_text (JObj []) (''{'' @ a @ ''}'')"
| "members_text ms w \<Longrightarrow> json_text (JObj ms) (''{'' @ w @ ''}'')"
| "spaces a \<Longrightarrow> json_text j w \<Longrightarrow> spaces b \<Longrightarrow> elements_text [j] (a @ w @ b)"
| "spaces a \<Longrightarrow> json_text j w \<Longrightarrow> spaces b \<Longrightarrow> elements_text js v \<Longrightarrow> elements_text (j # js) (a @ w @ b @ '','' @ v)"
| "spaces a \<Longrightarrow> raw_text raw \<Longrightarrow> spaces b \<Longrightarrow> spaces c \<Longrightarrow> json_text j w \<Longrightarrow> spaces d \<Longrightarrow>
   members_text [(unquote raw, j)] (a @ quote # raw @ quote # b @ '':'' @ c @ w @ d)"
| "spaces a \<Longrightarrow> raw_text raw \<Longrightarrow> spaces b \<Longrightarrow> spaces c \<Longrightarrow> json_text j w \<Longrightarrow> spaces d \<Longrightarrow> members_text ms v \<Longrightarrow>
   members_text ((unquote raw, j) # ms) (a @ quote # raw @ quote # b @ '':'' @ c @ w @ d @ '','' @ v)"

text \<open>How deep arrays and objects are nested in a value.\<close>

fun json_depth :: "json \<Rightarrow> nat" where
  "json_depth (JArr js) = Suc (foldr max (map json_depth js) 0)"
| "json_depth (JObj ms) = Suc (foldr max (map (\<lambda>(k, j). json_depth j) ms) 0)"
| "json_depth _ = 0"

section \<open>The scanner reads the texts of the grammar\<close>

lemma scan_raw: "raw_text raw \<Longrightarrow> scan_string Str acc (raw @ quote # rest) = Complete (rev acc @ raw) rest"
proof (induction raw arbitrary: acc rule: raw_text.induct)
  case (raw_escape w e)
  then have "e = CHR ''b'' \<or> e = CHR ''f'' \<or> e = CHR ''n'' \<or> e = CHR ''r'' \<or> e = CHR ''t'' \<or> e = backslash \<or> e = CHR ''/'' \<or> e = quote" by auto
  with raw_escape.IH show ?case by (simp add: quote_def backslash_def)
qed (simp_all add: quote_def backslash_def numeral_3_eq_3)

definition number_stop :: "string \<Rightarrow> bool" where
  "number_stop rest \<longleftrightarrow> (case rest of [] \<Rightarrow> True | c # _ \<Rightarrow> \<not> is_digit c \<and> c \<notin> set ''.eE'')"

text \<open>Digits keep the scanner of numbers in its state.\<close>

lemma scan_digits:
  assumes "\<And>c. is_digit c \<Longrightarrow> number_next st c = Some st" "list_all is_digit ds"
  shows "scan_number st acc (ds @ s) = scan_number st (rev ds @ acc) s"
  using assms(2) by (induction ds arbitrary: acc) (simp_all add: assms(1))

lemma scan_digits_from:
  assumes "\<And>c. is_digit c \<Longrightarrow> number_next st c = Some st'" "\<And>c. is_digit c \<Longrightarrow> number_next st' c = Some st'" "digits_text ds"
  shows "scan_number st acc (ds @ s) = scan_number st' (rev ds @ acc) s"
proof -
  obtain c cs where "ds = c # cs" "is_digit c" "list_all is_digit cs" using assms(3) by (cases ds) (auto simp: digits_text_def)
  then show ?thesis using scan_digits [OF assms(2), of cs "c # acc" s] assms(1) by simp
qed

lemma not_digit_chars: "\<not> is_digit (CHR ''+'')" "\<not> is_digit (CHR ''-'')" "\<not> is_digit (CHR ''.'')" "\<not> is_digit (CHR ''e'')" "\<not> is_digit (CHR ''E'')" "\<not> is_digit quote"
  by code_simp+

lemma number_next_simps:
  "is_digit c \<Longrightarrow> number_next Exponent c = Some ExponentDigits" "is_digit c \<Longrightarrow> number_next ExponentDigits c = Some ExponentDigits"
  "is_digit c \<Longrightarrow> number_next ExponentSign c = Some ExponentDigits" "is_digit c \<Longrightarrow> number_next Digits c = Some Digits"
  "is_digit c \<Longrightarrow> number_next Dot c = Some Fraction" "is_digit c \<Longrightarrow> number_next Fraction c = Some Fraction"
  "number_next Exponent (CHR ''+'') = Some ExponentSign" "number_next Exponent (CHR ''-'') = Some ExponentSign"
  using not_digit_chars by (auto simp: number_next_def)

lemma number_next_exponent: "st \<in> {Zero, Digits, Fraction} \<Longrightarrow> e = CHR ''e'' \<or> e = CHR ''E'' \<Longrightarrow> number_next st e = Some Exponent"
  using not_digit_chars by (elim insertE disjE emptyE) (simp_all add: number_next_def)

lemma number_next_stop: "number_ends st \<Longrightarrow> number_stop rest \<Longrightarrow> scan_number st acc rest = Complete (rev acc) rest"
  by (cases rest; cases st) (simp_all add: number_stop_def number_ends_def number_next_def)

lemma scan_exponent_part:
  assumes "ep = [] \<or> (\<exists>e es ds. ep = e # es @ ds \<and> e \<in> set ''eE'' \<and> es \<in> {[], ''+'', ''-''} \<and> digits_text ds)" "number_stop rest"
    and "st \<in> {Zero, Digits, Fraction}"
  shows "scan_number st acc (ep @ rest) = Complete (rev acc @ ep) rest"
  using assms(1)
proof (elim disjE exE conjE)
  have "number_ends st" using assms(3) by (auto simp: number_ends_def)
  then show ?thesis if "ep = []" using number_next_stop [OF _ assms(2)] that by simp
  fix e es ds assume e: "ep = e # es @ ds" "e \<in> set ''eE''" "es \<in> {[], ''+'', ''-''}" "digits_text ds"
  have s: "scan_number ExponentDigits a rest = Complete (rev a) rest" for a
    using number_next_stop [OF _ assms(2)] by (simp add: number_ends_def)
  have d1: "scan_number Exponent a (ds @ rest) = Complete (rev a @ ds) rest" for a
    using scan_digits_from [OF number_next_simps(1,2) e(4)] by (simp add: s)
  have d2: "scan_number ExponentSign a (ds @ rest) = Complete (rev a @ ds) rest" for a
    using scan_digits_from [OF number_next_simps(3,2) e(4)] by (simp add: s)
  have "scan_number Exponent a (es @ ds @ rest) = Complete (rev a @ es @ ds) rest" for a
    using e(3) by (elim insertE emptyE) (simp_all add: d1 d2 number_next_simps)
  moreover have "number_next st e = Some Exponent" using number_next_exponent [OF assms(3)] e(2) by simp
  ultimately show ?thesis by (simp add: e(1))
qed

lemma scan_fraction_part:
  assumes "fp = [] \<or> (\<exists>ds. fp = CHR ''.'' # ds \<and> digits_text ds)"
    and "ep = [] \<or> (\<exists>e es ds. ep = e # es @ ds \<and> e \<in> set ''eE'' \<and> es \<in> {[], ''+'', ''-''} \<and> digits_text ds)" "number_stop rest"
    and "st \<in> {Zero, Digits}"
  shows "scan_number st acc (fp @ ep @ rest) = Complete (rev acc @ fp @ ep) rest"
  using assms(1)
proof (elim disjE exE conjE)
  have "st \<in> {Zero, Digits, Fraction}" using assms(4) by auto
  then show ?thesis if "fp = []" using scan_exponent_part [OF assms(2,3)] that by simp
  fix ds assume f: "fp = CHR ''.'' # ds" "digits_text ds"
  have "number_next st (CHR ''.'') = Some Dot" using assms(4) not_digit_chars by (elim insertE emptyE) (simp_all add: number_next_def)
  moreover have "scan_number Dot a (ds @ ep @ rest) = Complete (rev a @ ds @ ep) rest" for a
    using scan_digits_from [OF number_next_simps(5,6) f(2)] scan_exponent_part [OF assms(2,3), of Fraction] by simp
  ultimately show ?thesis by (simp add: f(1))
qed

lemma is_digit_zero: "is_digit (CHR ''0'')" by code_simp

lemma scan_whole_part:
  assumes "canonical_nat ip" "\<And>st acc. st \<in> {Zero, Digits} \<Longrightarrow> scan_number st acc v = Complete (rev acc @ w) rest"
  shows "scan_number Neg acc (ip @ v) = Complete (rev acc @ ip @ w) rest" "scan_scalar (ip @ v) = Complete (JNum (ip @ w)) rest"
proof -
  obtain c cs where ip: "ip = c # cs" "is_digit c" "list_all is_digit cs" "c = CHR ''0'' \<longrightarrow> cs = []"
    using assms(1) by (cases ip) (auto simp: canonical_nat_def)
  define st where "st = (if c = CHR ''0'' then Zero else Digits)"
  have st: "st \<in> {Zero, Digits}" by (simp add: st_def)
  have s: "scan_number st acc (cs @ v) = Complete (rev acc @ cs @ w) rest" for acc
  proof (cases "c = CHR ''0''")
    case True
    then show ?thesis using ip(4) assms(2) [OF st] by simp
  next
    case False
    then show ?thesis using scan_digits [OF number_next_simps(4) ip(3)] assms(2) by (simp add: st_def)
  qed
  have "number_next Neg c = Some st" using ip(2) by (simp add: number_next_def st_def)
  then show "scan_number Neg acc (ip @ v) = Complete (rev acc @ ip @ w) rest" by (simp add: ip(1) s)
  have "c \<noteq> quote" "c \<noteq> CHR ''-''" using ip(2) not_digit_chars by metis+
  then show "scan_scalar (ip @ v) = Complete (JNum (ip @ w)) rest"
    using s [of "[c]"] ip(1,2) unfolding st_def by (cases "c = CHR ''0''") (simp_all add: scan_scalar_def)
qed

lemma scan_number_text:
  assumes "number_text t" "number_stop rest"
  shows "scan_scalar (t @ rest) = Complete (JNum t) rest"
  using assms(1)
proof cases
  case (1 sg ip fp ep)
  note part = scan_fraction_part [OF 1(4,5) assms(2)]
  have w: "scan_number Neg [CHR ''-''] (ip @ fp @ ep @ rest) = Complete (''-'' @ ip @ fp @ ep) rest"
    "scan_scalar (ip @ fp @ ep @ rest) = Complete (JNum (ip @ fp @ ep)) rest"
    using scan_whole_part [OF 1(3) part] by simp_all
  have "scan_scalar (CHR ''-'' # v) = (case scan_number Neg [CHR ''-''] v of Complete t rest \<Rightarrow> Complete (JNum t) rest | Incomplete \<Rightarrow> Incomplete | Broken \<Rightarrow> Broken)" for v
    by (simp add: scan_scalar_def quote_def)
  with w show ?thesis using 1(2) unfolding 1(1) by (elim insertE emptyE) simp_all
qed

section \<open>Steps of the scanner\<close>

lemma scan_spaces: "spaces a \<Longrightarrow> (\<And>j. m = EndValue j \<Longrightarrow> stack \<noteq> []) \<Longrightarrow> scan_json m stack (a @ s) = scan_json m stack s"
  by (induction a) (auto simp: spaces_def scan_json.simps [of m stack "_ # _"] split: scan_mode.split list.split)

lemma scan_step:
  assumes "\<not> json_space c" "\<And>j. m = EndValue j \<Longrightarrow> stack \<noteq> []" "scan_char m stack c cs = Go m' stack' rest"
  shows "scan_json m stack (c # cs) = scan_json m' stack' rest"
  using assms by (auto simp: scan_json.simps [of m stack] split: scan_mode.split list.split)

lemma scan_done: "scan_json (EndValue j) [] s = Complete j s"
  by (simp add: scan_json.simps)

lemma scalar_start: "scan_scalar (c # cs) = Complete j rest \<Longrightarrow> \<not> json_space c \<and> c \<noteq> CHR ''['' \<and> c \<noteq> CHR ''{'' \<and> c \<noteq> CHR '']''"
proof -
  have "\<not> is_digit (CHR 0x20)" "\<not> is_digit (CHR 0x09)" "\<not> is_digit (CHR 0x0D)" "\<not> is_digit (CHR 0x0A)" "\<not> is_digit (CHR ''['')"
    "\<not> is_digit (CHR ''{'')" "\<not> is_digit (CHR '']'')" by code_simp+
  then have "scan_scalar (c # cs) = Broken" if "json_space c \<or> c = CHR ''['' \<or> c = CHR ''{'' \<or> c = CHR '']''"
    using that unfolding json_space_def by (elim disjE) (simp_all add: scan_scalar_def quote_def)
  then show "scan_scalar (c # cs) = Complete j rest \<Longrightarrow> ?thesis" by auto
qed

lemma scan_scalar_step:
  assumes "scan_scalar s = Complete j rest" "begins_value m"
  shows "scan_json m stack s = scan_json (EndValue j) stack rest"
proof -
  obtain c cs where s: "s = c # cs" using assms(1) by (cases s) (auto simp: scan_scalar_def)
  note c = scalar_start [OF assms(1) [unfolded s]]
  have "scan_char m stack c cs = Go (EndValue j) stack rest"
    using assms c unfolding s begins_value_def by (elim disjE) (simp_all add: scan_char_def begins_string_def)
  then show ?thesis using scan_step [of c m stack cs] c assms(2) unfolding s by (auto simp: begins_value_def)
qed

lemma literal_texts:
  "scan_scalar (''null'' @ rest) = Complete JNull rest" "scan_scalar (''true'' @ rest) = Complete (JBool True) rest"
  "scan_scalar (''false'' @ rest) = Complete (JBool False) rest"
proof -
  have "\<not> is_digit (CHR ''n'')" "\<not> is_digit (CHR ''t'')" "\<not> is_digit (CHR ''f'')" by code_simp+
  then show "scan_scalar (''null'' @ rest) = Complete JNull rest" "scan_scalar (''true'' @ rest) = Complete (JBool True) rest"
    "scan_scalar (''false'' @ rest) = Complete (JBool False) rest" by (simp_all add: scan_scalar_def quote_def)
qed

lemma string_text: "raw_text raw \<Longrightarrow> scan_scalar ((quote # raw @ [quote]) @ rest) = Complete (JStr (unquote raw)) rest"
  by (simp add: scan_scalar_def scan_raw)

lemma punctuation: "\<not> json_space (CHR ''['')" "\<not> json_space (CHR '']'')" "\<not> json_space (CHR ''{'')" "\<not> json_space (CHR ''}'')"
  "\<not> json_space (CHR '','')" "\<not> json_space (CHR '':'')" "\<not> json_space quote"
  by (simp_all add: json_space_def quote_def)

text \<open>The steps at the punctuation of arrays and objects.\<close>

lemma open_steps:
  assumes "begins_value m" "length stack < maxNestingDepth"
  shows "scan_json m stack (CHR ''['' # s) = scan_json BeginValueOrEmpty (InArray [] # stack) s"
    "scan_json m stack (CHR ''{'' # s) = scan_json BeginStringOrEmpty (InObject [] # stack) s"
proof -
  have "scan_char m stack (CHR ''['') s = Go BeginValueOrEmpty (InArray [] # stack) s"
    "scan_char m stack (CHR ''{'') s = Go BeginStringOrEmpty (InObject [] # stack) s"
    using assms unfolding begins_value_def by (elim disjE; simp add: scan_char_def begins_string_def)+
  moreover have "\<And>j. m = EndValue j \<Longrightarrow> stack \<noteq> []" using assms(1) by (auto simp: begins_value_def)
  ultimately show "scan_json m stack (CHR ''['' # s) = scan_json BeginValueOrEmpty (InArray [] # stack) s"
    "scan_json m stack (CHR ''{'' # s) = scan_json BeginStringOrEmpty (InObject [] # stack) s"
    by (intro scan_step punctuation; simp)+
qed

lemma inner_steps:
  "scan_json BeginValueOrEmpty (InArray [] # st) (CHR '']'' # s) = scan_json (EndValue (JArr [])) st s"
  "scan_json BeginStringOrEmpty (InObject [] # st) (CHR ''}'' # s) = scan_json (EndValue (JObj [])) st s"
  "scan_json (EndValue j) (InArray js # st) (CHR '','' # s) = scan_json BeginValue (InArray (j # js) # st) s"
  "scan_json (EndValue j) (InArray js # st) (CHR '']'' # s) = scan_json (EndValue (JArr (rev (j # js)))) st s"
  "scan_json (EndValue j) (InMember ms k # st) (CHR '','' # s) = scan_json BeginString (InObject ((k, j) # ms) # st) s"
  "scan_json (EndValue j) (InMember ms k # st) (CHR ''}'' # s) = scan_json (EndValue (JObj (rev ((k, j) # ms)))) st s"
  "scan_json (AfterKey k) (InObject ms # st) (CHR '':'' # s) = scan_json BeginValue (InMember ms k # st) s"
  by (intro scan_step punctuation; simp add: scan_char_def begins_string_def)+

lemma key_step:
  assumes "begins_string m" "raw_text raw"
  shows "scan_json m stack (quote # raw @ quote # s) = scan_json (AfterKey (unquote raw)) stack s"
proof (intro scan_step punctuation)
  show "scan_char m stack quote (raw @ quote # s) = Go (AfterKey (unquote raw)) stack s"
    using assms unfolding begins_string_def by (elim disjE) (simp_all add: scan_char_def begins_string_def scan_raw, simp add: quote_def)
qed (use assms(1) in \<open>simp add: begins_string_def\<close>)

lemma stop_at: "number_stop (CHR '','' # s)" "number_stop (CHR '']'' # s)" "number_stop (CHR ''}'' # s)"
proof -
  have "\<not> is_digit (CHR '','')" "\<not> is_digit (CHR '']'')" "\<not> is_digit (CHR ''}'')" by code_simp+
  then show "number_stop (CHR '','' # s)" "number_stop (CHR '']'' # s)" "number_stop (CHR ''}'' # s)" by (simp_all add: number_stop_def)
qed

lemma stop_spaces: "spaces b \<Longrightarrow> number_stop s \<Longrightarrow> number_stop (b @ s)"
proof (cases b)
  case (Cons c cs)
  have "\<not> is_digit (CHR 0x20)" "\<not> is_digit (CHR 0x09)" "\<not> is_digit (CHR 0x0D)" "\<not> is_digit (CHR 0x0A)" by code_simp+
  then show "spaces b \<Longrightarrow> number_stop (b @ s)" using Cons by (auto simp: spaces_def json_space_def number_stop_def)
qed simp

text \<open>Behind the last element of an array or object, or in front of the next one.\<close>

lemma value_then:
  assumes IH: "\<And>m stack rest. begins_value m \<Longrightarrow> length stack + json_depth j \<le> maxNestingDepth \<Longrightarrow> number_stop rest \<Longrightarrow>
      scan_json m stack (w @ rest) = scan_json (EndValue j) stack rest"
    and "spaces a" "spaces b" "begins_value m" "length stack + json_depth j \<le> maxNestingDepth" "number_stop rest" "stack \<noteq> []"
  shows "scan_json m stack (a @ w @ b @ rest) = scan_json (EndValue j) stack rest"
proof -
  have "scan_json m stack (a @ w @ b @ rest) = scan_json m stack (w @ b @ rest)"
    using assms(2,4) by (intro scan_spaces) (auto simp: begins_value_def)
  also have "\<dots> = scan_json (EndValue j) stack (b @ rest)" using assms(4,5) stop_spaces [OF assms(3,6)] by (rule IH)
  also have "\<dots> = scan_json (EndValue j) stack rest" using assms(3,7) by (intro scan_spaces)
  finally show ?thesis .
qed

lemma member_then:
  assumes IH: "\<And>m stack rest. begins_value m \<Longrightarrow> length stack + json_depth j \<le> maxNestingDepth \<Longrightarrow> number_stop rest \<Longrightarrow>
      scan_json m stack (w @ rest) = scan_json (EndValue j) stack rest"
    and "spaces a" "raw_text raw" "spaces b" "spaces c" "spaces d" "begins_string m" "Suc (length st) + json_depth j \<le> maxNestingDepth" "number_stop rest"
  shows "scan_json m (InObject ps # st) (a @ quote # raw @ quote # b @ '':'' @ c @ w @ d @ rest) =
    scan_json (EndValue j) (InMember ps (unquote raw) # st) rest"
proof -
  have "scan_json m (InObject ps # st) (a @ quote # raw @ quote # b @ '':'' @ c @ w @ d @ rest) =
      scan_json m (InObject ps # st) (quote # raw @ quote # b @ '':'' @ c @ w @ d @ rest)"
    using assms(2,7) by (intro scan_spaces) (auto simp: begins_string_def)
  also have "\<dots> = scan_json (AfterKey (unquote raw)) (InObject ps # st) (b @ '':'' @ c @ w @ d @ rest)" using assms(7,3) by (rule key_step)
  also have "\<dots> = scan_json (AfterKey (unquote raw)) (InObject ps # st) ('':'' @ c @ w @ d @ rest)" using assms(4) by (intro scan_spaces) simp_all
  also have "\<dots> = scan_json BeginValue (InMember ps (unquote raw) # st) (c @ w @ d @ rest)" using inner_steps(7) by simp
  also have "\<dots> = scan_json (EndValue j) (InMember ps (unquote raw) # st) rest"
    using assms(8) by (intro value_then [OF IH assms(5,6)] assms(9)) (simp_all add: begins_value_def)
  finally show ?thesis .
qed

theorem scan_text:
  shows "json_text j w \<Longrightarrow> begins_value m \<Longrightarrow> length stack + json_depth j \<le> maxNestingDepth \<Longrightarrow> number_stop rest \<Longrightarrow>
      scan_json m stack (w @ rest) = scan_json (EndValue j) stack rest"
    and "elements_text js w \<Longrightarrow> begins_value m \<Longrightarrow> length st + Suc (foldr max (map json_depth js) 0) \<le> maxNestingDepth \<Longrightarrow>
      scan_json m (InArray ps # st) (w @ CHR '']'' # rest) = scan_json (EndValue (JArr (rev ps @ js))) st rest"
    and "members_text ms w \<Longrightarrow> begins_string m \<Longrightarrow> length st + Suc (foldr max (map (\<lambda>(k, j). json_depth j) ms) 0) \<le> maxNestingDepth \<Longrightarrow>
      scan_json m (InObject qs # st) (w @ CHR ''}'' # rest) = scan_json (EndValue (JObj (rev qs @ ms))) st rest"
proof (induction arbitrary: m stack rest and m st ps rest and m st qs rest rule: json_text_elements_text_members_text.inducts)
  case 1
  then show ?case by (intro scan_scalar_step literal_texts)
next
  case 2
  then show ?case by (intro scan_scalar_step literal_texts)
next
  case 3
  then show ?case by (intro scan_scalar_step literal_texts)
next
  case (4 t)
  then show ?case by (intro scan_scalar_step scan_number_text)
next
  case (5 raw)
  then show ?case by (intro scan_scalar_step string_text)
next
  case (6 a)
  then show ?case using scan_spaces [of a BeginValueOrEmpty "InArray [] # stack"] by (simp add: open_steps inner_steps)
next
  case (7 js w)
  then show ?case using "7.IH" [of BeginValueOrEmpty stack "[]" rest] by (simp add: open_steps begins_value_def)
next
  case (8 a)
  then show ?case using scan_spaces [of a BeginStringOrEmpty "InObject [] # stack"] by (simp add: open_steps inner_steps)
next
  case (9 ms w)
  then show ?case using "9.IH" [of BeginStringOrEmpty stack "[]" rest] by (simp add: open_steps begins_string_def)
next
  case (10 a j w b)
  then show ?case using value_then [OF "10.IH" "10.hyps"(1,3), of m "InArray ps # st" "CHR '']'' # rest"] by (simp add: inner_steps stop_at)
next
  case (11 a j w b js v)
  have "scan_json m (InArray ps # st) (a @ w @ b @ CHR '','' # v @ CHR '']'' # rest) =
      scan_json (EndValue j) (InArray ps # st) (CHR '','' # v @ CHR '']'' # rest)"
    using 11 by (intro value_then [OF "11.IH"(1)]) (simp_all add: stop_at)
  also have "\<dots> = scan_json (EndValue (JArr (rev (j # ps) @ js))) st rest"
    unfolding inner_steps using 11 by (intro "11.IH"(2)) (simp_all add: begins_value_def)
  finally show ?case by simp
next
  case (12 a raw b c j w d)
  have "scan_json m (InObject qs # st) (a @ quote # raw @ quote # b @ '':'' @ c @ w @ d @ CHR ''}'' # rest) =
      scan_json (EndValue j) (InMember qs (unquote raw) # st) (CHR ''}'' # rest)"
    using 12 by (intro member_then [OF "12.IH"]) (simp_all add: stop_at)
  then show ?case by (simp add: inner_steps)
next
  case (13 a raw b c j w d ms v)
  have "scan_json m (InObject qs # st) (a @ quote # raw @ quote # b @ '':'' @ c @ w @ d @ CHR '','' # v @ CHR ''}'' # rest) =
      scan_json (EndValue j) (InMember qs (unquote raw) # st) (CHR '','' # v @ CHR ''}'' # rest)"
    using 13 by (intro member_then [OF "13.IH"(1)]) (simp_all add: stop_at)
  also have "\<dots> = scan_json (EndValue (JObj (rev ((unquote raw, j) # qs) @ ms))) st rest"
    unfolding inner_steps using 13 by (intro "13.IH"(2)) (simp_all add: begins_string_def)
  finally show ?case by simp
qed

section \<open>The encoder\<close>

definition hex_digit :: "int \<Rightarrow> char" where
  "hex_digit n = to_char (if n < 10 then 48 + n else 87 + n)"

text \<open>\<^verbatim>\<open>appendString\<close> with the escapes for HTML: an ASCII character, then whole texts.\<close>

definition escape_byte :: "char \<Rightarrow> string" where
  "escape_byte c =
     (if c = quote \<or> c = backslash then [backslash, c]
      else if c = CHR 0x08 then [backslash, CHR ''b'']
      else if c = CHR 0x0C then [backslash, CHR ''f'']
      else if c = CHR 0x0A then [backslash, CHR ''n'']
      else if c = CHR 0x0D then [backslash, CHR ''r'']
      else if c = CHR 0x09 then [backslash, CHR ''t'']
      else if uchar c < 32 \<or> c = CHR ''<'' \<or> c = CHR ''>'' \<or> c = CHR ''&''
      then [backslash, CHR ''u'', CHR ''0'', CHR ''0'', hex_digit (uchar c div 16), hex_digit (uchar c mod 16)]
      else [c])"

function escape :: "string \<Rightarrow> string" where
  "escape s = (case s of
     [] \<Rightarrow> []
   | c # cs \<Rightarrow>
       if uchar c < 128 then escape_byte c @ escape cs
       else (let r = fst (next_rune s); n = snd (next_rune s) in
         (if r = 65533 \<and> n = 1 then backslash # ''ufffd''
          else if r = 8232 \<or> r = 8233 then backslash # ''u202'' @ [hex_digit (r mod 16)]
          else take n s) @ escape (drop n s)))"
  by pat_completeness auto
termination
proof -
  have "Suc (length cs) - snd (next_rune (c # cs)) < Suc (length cs)" for c cs using next_rune_width [of "c # cs"] by simp
  then show ?thesis by (relation "measure length") auto
qed

declare escape.simps [simp del]

definition quoted :: "string \<Rightarrow> string" where
  "quoted s = quote # escape s @ [quote]"

fun commas :: "string list \<Rightarrow> string" where
  "commas [] = []"
| "commas [w] = w"
| "commas (w # ws) = w @ '','' @ commas ws"

fun json_print :: "json \<Rightarrow> string" where
  "json_print JNull = ''null''"
| "json_print (JBool b) = (if b then ''true'' else ''false'')"
| "json_print (JNum t) = t"
| "json_print (JStr s) = quoted s"
| "json_print (JArr js) = ''['' @ commas (map json_print js) @ '']''"
| "json_print (JObj ms) = ''{'' @ commas (map (\<lambda>(k, j). quoted k @ '':'' @ json_print j) ms) @ ''}''"

section \<open>Runes and their encodings\<close>

text \<open>The text with every byte that is not UTF-8 replaced.\<close>

definition utf8_text :: "string \<Rightarrow> string" where
  "utf8_text s = concat (map EncodeRune (runes s))"

text \<open>A rune that was decoded is encoded as it was written, and read again with whatever follows.\<close>

definition whole_rune :: "string \<Rightarrow> int \<Rightarrow> nat \<Rightarrow> bool" where
  "whole_rune s r n \<longleftrightarrow> n \<le> length s \<and> EncodeRune r = take n s \<and> (\<forall>t. next_rune (take n s @ t) = (r, n))"

lemma cont_byte_bounds: "cont_byte b \<Longrightarrow> 0 \<le> uchar b - 128 \<and> uchar b - 128 < 64"
  by (simp add: cont_byte_def)

lemma low_bits: "0 \<le> y \<Longrightarrow> y < k \<Longrightarrow> (x * k + y) div k = x \<and> (x * k + y) mod k = (y :: int)"
  by (simp add: div_add1_eq)

lemma whole_two:
  assumes "194 \<le> uchar a" "uchar a < 224" "cont_byte b"
  shows "whole_rune (a # b # u) ((uchar a - 192) * 64 + (uchar b - 128)) 2"
proof -
  define y where y: "y = uchar b - 128"
  define r where r: "r = (uchar a - 192) * 64 + y"
  have yb: "0 \<le> y" "y < 64" using cont_byte_bounds [OF assms(3)] by (simp_all add: y)
  define x where x: "x = uchar a - 192"
  have "2 \<le> x" "x \<le> 31" "r = x * 64 + y" using assms(1,2) by (simp_all add: x r)
  then have "128 \<le> r" "r < 2048" using yb by linarith+
  moreover have "r div 64 = uchar a - 192" "r mod 64 = y" by (simp_all only: r low_bits [OF yb])
  ultimately have "EncodeRune r = [a, b]" using y by (simp add: EncodeRune_def)
  moreover have "next_rune (a # b # t) = (r, 2)" for t using assms by (simp add: next_rune_def r y)
  ultimately show ?thesis unfolding y [symmetric] r [symmetric] whole_rune_def by (simp add: numeral_2_eq_2)
qed

lemma whole_three:
  assumes "224 \<le> uchar a" "uchar a < 240" "cont_byte b" "cont_byte c" "r = (uchar a - 224) * 4096 + (uchar b - 128) * 64 + (uchar c - 128)"
    and "2048 \<le> r" "\<not> (55296 \<le> r \<and> r < 57344)"
  shows "whole_rune (a # b # c # u) r 3"
proof -
  define x y z where d: "x = uchar a - 224" "y = uchar b - 128" "z = uchar c - 128"
  have y: "0 \<le> y" "y < 64" and z: "0 \<le> z" "z < 64" using cont_byte_bounds [OF assms(3)] cont_byte_bounds [OF assms(4)] by (simp_all add: d)
  have r: "r = x * 4096 + y * 64 + z" using assms(5) by (simp add: d)
  have "x < 16" "0 \<le> x" using assms(1,2) by (simp_all add: d)
  then have le: "r < 65536" "0 \<le> r" using y z r by linarith+
  have "r = (x * 64 + y) * 64 + z" using r by simp
  then have q: "r div 64 = x * 64 + y" "r mod 64 = z" by (simp_all only: low_bits [OF z])
  have "r div 4096 = r div 64 div 64" by (simp add: zdiv_zmult2_eq [symmetric])
  then have p: "r div 4096 = x" "r div 64 mod 64 = y" by (simp_all only: q low_bits [OF y])
  have "uchar a = 224 + x" "uchar b = 128 + y" "uchar c = 128 + z" by (simp_all add: d)
  then have t: "to_char (224 + x) = a" "to_char (128 + y) = b" "to_char (128 + z) = c" by (metis to_char_uchar)+
  have "EncodeRune r = [to_char (224 + r div 4096), to_char (128 + r div 64 mod 64), to_char (128 + r mod 64)]"
    using le assms(6,7) by (simp add: EncodeRune_def)
  then have "EncodeRune r = [a, b, c]" by (simp only: p q(2) t)
  moreover have "next_rune (a # b # c # t) = (r, 3)" for t using assms by (simp add: next_rune_def)
  ultimately show ?thesis by (simp add: whole_rune_def numeral_3_eq_3)
qed

lemma whole_four:
  assumes "240 \<le> uchar a" "uchar a < 245" "cont_byte b" "cont_byte c" "cont_byte d"
    and "r = (uchar a - 240) * 262144 + (uchar b - 128) * 4096 + (uchar c - 128) * 64 + (uchar d - 128)" "65536 \<le> r" "r \<le> 1114111"
  shows "whole_rune (a # b # c # d # u) r 4"
proof -
  define x y z w where d: "x = uchar a - 240" "y = uchar b - 128" "z = uchar c - 128" "w = uchar d - 128"
  have y: "0 \<le> y" "y < 64" and z: "0 \<le> z" "z < 64" and w: "0 \<le> w" "w < 64"
    using cont_byte_bounds [OF assms(3)] cont_byte_bounds [OF assms(4)] cont_byte_bounds [OF assms(5)] by (simp_all add: d)
  have r: "r = ((x * 64 + y) * 64 + z) * 64 + w" using assms(6) by (simp add: d)
  then have q: "r div 64 = (x * 64 + y) * 64 + z" "r mod 64 = w" by (simp_all only: low_bits [OF w])
  have "r div 4096 = r div 64 div 64" by (simp add: zdiv_zmult2_eq [symmetric])
  then have p: "r div 4096 = x * 64 + y" "r div 64 mod 64 = z" by (simp_all only: q low_bits [OF z])
  have "r div 262144 = r div 4096 div 64" by (simp add: zdiv_zmult2_eq [symmetric])
  then have o: "r div 262144 = x" "r div 4096 mod 64 = y" by (simp_all only: p low_bits [OF y])
  have "uchar a = 240 + x" "uchar b = 128 + y" "uchar c = 128 + z" "uchar d = 128 + w" by (simp_all add: d)
  then have t: "to_char (240 + x) = a" "to_char (128 + y) = b" "to_char (128 + z) = c" "to_char (128 + w) = d" by (metis to_char_uchar)+
  have "EncodeRune r = [to_char (240 + r div 262144), to_char (128 + r div 4096 mod 64), to_char (128 + r div 64 mod 64), to_char (128 + r mod 64)]"
    using assms(7,8) by (simp add: EncodeRune_def)
  then have "EncodeRune r = [a, b, c, d]" by (simp only: o p(2) q(2) t)
  moreover have "next_rune (a # b # c # d # t) = (r, 4)" for t using assms by (simp add: next_rune_def)
  ultimately show ?thesis by (simp add: whole_rune_def eval_nat_numeral)
qed

lemma next_rune_whole:
  assumes "s \<noteq> []" "next_rune s \<noteq> (65533, 1)"
  shows "whole_rune s (fst (next_rune s)) (snd (next_rune s))"
proof -
  obtain a t where s: "s = a # t" using assms(1) by (cases s) auto
  show ?thesis
  proof (cases "uchar a < 128")
    case True
    then show ?thesis using uchar_range(1) [of a] by (simp add: s whole_rune_def next_rune_def EncodeRune_def)
  next
    case False
    then show ?thesis using assms(2) whole_two whole_three whole_four unfolding s
      by (auto simp: next_rune_def Let_def split: list.splits if_splits)
  qed
qed

section \<open>Strings survive the encoder\<close>

lemma hex_digit_facts: "0 \<le> n \<Longrightarrow> n < 16 \<Longrightarrow> is_hex (hex_digit n) \<and> hex_value (hex_digit n) = n"
  by (simp add: is_hex_def hex_value_def hex_digit_def uchar_to_char)

lemma hex_letters: "is_hex (CHR ''0'')" "is_hex (CHR ''2'')" "is_hex (CHR ''f'')" "is_hex (CHR ''d'')"
  "hex_value (CHR ''0'') = 0" "hex_value (CHR ''2'') = 2" "hex_value (CHR ''f'') = 15" "hex_value (CHR ''d'') = 13"
  by code_simp+

lemma unquote_hex:
  assumes "is_hex h1" "is_hex h2" "is_hex h3" "is_hex h4" "r = hex_value h1 * 4096 + hex_value h2 * 256 + hex_value h3 * 16 + hex_value h4"
    and "\<not> (55296 \<le> r \<and> r < 56320)"
  shows "unquote (backslash # CHR ''u'' # h1 # h2 # h3 # h4 # w) = EncodeRune r @ unquote w"
proof -
  have "getu4 (backslash # CHR ''u'' # h1 # h2 # h3 # h4 # w) = Some r" using assms(1-5) by (simp add: getu4_def)
  then show ?thesis using assms(6) by (auto simp: unquote.simps [of "backslash # _"] split: option.split)
qed

lemma unquote_escape: "e \<noteq> CHR ''u'' \<Longrightarrow> unquote (backslash # e # w) = simple_escape e # unquote w"
proof -
  assume "e \<noteq> CHR ''u''"
  then have "getu4 (backslash # e # w) = None" by (auto simp: getu4_def split: list.split)
  then show ?thesis by (simp add: unquote.simps [of "backslash # _"])
qed

lemma unquote_plain: "c \<noteq> backslash \<Longrightarrow> uchar c < 128 \<Longrightarrow> unquote (c # w) = c # unquote w"
  by (simp add: unquote.simps [of "c # _"])

lemma encode_ascii: "uchar c < 128 \<Longrightarrow> EncodeRune (uchar c) = [c]"
  using uchar_range(1) [of c] by (simp add: EncodeRune_def)

text \<open>A piece of escaped text that stands for one rune.\<close>

definition rune_piece :: "string \<Rightarrow> int \<Rightarrow> bool" where
  "rune_piece p r \<longleftrightarrow> (\<forall>w. raw_text w \<longrightarrow> raw_text (p @ w)) \<and> (\<forall>w. unquote (p @ w) = EncodeRune r @ unquote w)"

lemma hex_piece:
  assumes "is_hex h1" "is_hex h2" "is_hex h3" "is_hex h4" "r = hex_value h1 * 4096 + hex_value h2 * 256 + hex_value h3 * 16 + hex_value h4"
    and "\<not> (55296 \<le> r \<and> r < 56320)"
  shows "rune_piece [backslash, CHR ''u'', h1, h2, h3, h4] r"
  using assms raw_hex unquote_hex [OF assms] by (simp add: rune_piece_def)

lemma piece_if: "(b \<Longrightarrow> rune_piece p r) \<Longrightarrow> (\<not> b \<Longrightarrow> rune_piece q r) \<Longrightarrow> rune_piece (if b then p else q) r"
  by simp

lemma escape_byte_piece: "uchar c < 128 \<Longrightarrow> rune_piece (escape_byte c) (uchar c)"
proof -
  assume c: "uchar c < 128"
  have simple: "rune_piece [backslash, e] (uchar c)" if "e \<in> set ''bfnrt/'' \<or> e = backslash \<or> e = quote" "simple_escape e = c" for e
  proof -
    have "e \<noteq> CHR ''u''" using that(1) by (auto simp: backslash_def quote_def)
    then show ?thesis using that raw_escape [OF _ that(1)] unquote_escape encode_ascii [OF c] by (simp add: rune_piece_def)
  qed
  have q: "simple_escape quote = quote" "simple_escape backslash = backslash" by (simp_all add: simple_escape_def quote_def backslash_def)
  have h: "0 \<le> uchar c div 16" "uchar c div 16 < 16" "0 \<le> uchar c mod 16" "uchar c mod 16 < 16" using uchar_range(1) [of c] c by auto
  have hex: "rune_piece [backslash, CHR ''u'', CHR ''0'', CHR ''0'', hex_digit (uchar c div 16), hex_digit (uchar c mod 16)] (uchar c)"
    using hex_digit_facts [OF h(1,2)] hex_digit_facts [OF h(3,4)] hex_letters c by (intro hex_piece) simp_all
  have plain: "rune_piece [c] (uchar c)" if "c \<noteq> quote" "c \<noteq> backslash" "\<not> uchar c < 32"
    using that c raw_plain unquote_plain encode_ascii by (simp add: rune_piece_def)
  have ctrl: "rune_piece [backslash, e] (uchar c)" if "e \<in> set ''bfnrt''" "simple_escape e = c" for e using that by (intro simple) auto
  have names: "simple_escape (CHR ''b'') = CHR 0x08" "simple_escape (CHR ''f'') = CHR 0x0C" "simple_escape (CHR ''n'') = CHR 0x0A"
    "simple_escape (CHR ''r'') = CHR 0x0D" "simple_escape (CHR ''t'') = CHR 0x09" by (simp_all add: simple_escape_def)
  show ?thesis unfolding escape_byte_def
  proof (intro piece_if)
    show "rune_piece [backslash, c] (uchar c)" if "c = quote \<or> c = backslash" using simple [of c] q that by auto
    show "rune_piece [backslash, CHR ''b''] (uchar c)" if "c = CHR 0x08" using that by (intro ctrl) (simp_all add: names)
    show "rune_piece [backslash, CHR ''f''] (uchar c)" if "c = CHR 0x0C" using that by (intro ctrl) (simp_all add: names)
    show "rune_piece [backslash, CHR ''n''] (uchar c)" if "c = CHR 0x0A" using that by (intro ctrl) (simp_all add: names)
    show "rune_piece [backslash, CHR ''r''] (uchar c)" if "c = CHR 0x0D" using that by (intro ctrl) (simp_all add: names)
    show "rune_piece [backslash, CHR ''t''] (uchar c)" if "c = CHR 0x09" using that by (intro ctrl) (simp_all add: names)
  qed (use hex plain in blast)+
qed

lemma whole_piece:
  assumes "whole_rune s r n" "n \<noteq> 0" "\<not> uchar (hd s) < 128" "\<forall>c\<in>set (take n s). 128 \<le> uchar c"
  shows "rune_piece (take n s) r"
proof -
  have raw: "raw_text (p @ w)" if "raw_text w" "\<forall>c\<in>set p. 128 \<le> uchar c" for p w
    using that(2)
  proof (induction p)
    case (Cons c p)
    moreover have "uchar quote < 128" "uchar backslash < 128" by code_simp+
    ultimately show ?case using raw_plain [of "p @ w" c] by fastforce
  qed (simp add: that(1))
  have "unquote (take n s @ w) = EncodeRune r @ unquote w" for w
  proof -
    have rn: "next_rune (take n s @ w) = (r, n)" "n \<le> length s" using assms(1) by (simp_all add: whole_rune_def)
    obtain c cs where s: "s = c # cs" using rn(2) assms(2) by (cases s) auto
    obtain m where n: "n = Suc m" using assms(2) by (cases n) auto
    have "uchar backslash < 128" by code_simp
    then have "c \<noteq> backslash" using assms(3) s by auto
    then have "unquote (take n s @ w) = EncodeRune (fst (next_rune (take n s @ w))) @ unquote (drop (snd (next_rune (take n s @ w))) (take n s @ w))"
      using assms(3) unfolding s n by (subst unquote.simps) simp
    then show ?thesis using rn by simp
  qed
  then show ?thesis using raw assms(4) by (simp add: rune_piece_def)
qed

lemma next_rune_high: "s \<noteq> [] \<Longrightarrow> \<not> uchar (hd s) < 128 \<Longrightarrow> \<forall>c\<in>set (take (snd (next_rune s)) s). 128 \<le> uchar c"
  by (cases s) (auto simp: next_rune_def Let_def cont_byte_def split: list.splits if_splits)

text \<open>The escaped form of a text is a sequence of pieces, one for each rune.\<close>

lemma escape_step:
  assumes "s \<noteq> []"
  shows "\<exists>p. escape s = p @ escape (drop (snd (next_rune s)) s) \<and> rune_piece p (fst (next_rune s))"
proof -
  obtain c cs where s: "s = c # cs" using assms by (cases s) auto
  show ?thesis
  proof (cases "uchar c < 128")
    case True
    then have "next_rune s = (uchar c, 1)" by (simp add: s next_rune_def)
    then show ?thesis using True escape_byte_piece [OF True] by (intro exI [of _ "escape_byte c"]) (simp add: s escape.simps [of "c # cs"])
  next
    case False
    let ?r = "fst (next_rune s)" and ?n = "snd (next_rune s)"
    let ?p = "if ?r = 65533 \<and> ?n = 1 then backslash # ''ufffd'' else if ?r = 8232 \<or> ?r = 8233 then backslash # ''u202'' @ [hex_digit (?r mod 16)] else take ?n s"
    have e: "escape s = ?p @ escape (drop ?n s)" using False unfolding s by (subst escape.simps) (simp add: Let_def)
    have "rune_piece ?p ?r"
    proof (intro piece_if)
      show "rune_piece (backslash # ''ufffd'') ?r" if "?r = 65533 \<and> ?n = 1" using that hex_letters by (intro hex_piece) simp_all
      show "rune_piece (backslash # ''u202'' @ [hex_digit (?r mod 16)]) ?r" if "?r = 8232 \<or> ?r = 8233"
      proof -
        have "0 \<le> ?r mod 16" "?r mod 16 < 16" by simp_all
        then have "rune_piece [backslash, CHR ''u'', CHR ''2'', CHR ''0'', CHR ''2'', hex_digit (?r mod 16)] ?r"
          using hex_digit_facts [of "?r mod 16"] hex_letters that by (intro hex_piece) auto
        then show ?thesis by simp
      qed
      show "rune_piece (take ?n s) ?r" if "\<not> (?r = 65533 \<and> ?n = 1)"
      proof (rule whole_piece)
        have "next_rune s \<noteq> (65533, 1)" using that by auto
        then show "whole_rune s ?r ?n" using next_rune_whole assms by blast
        show "?n \<noteq> 0" using next_rune_width [OF assms] by (intro notI) simp
        show "\<not> uchar (hd s) < 128" using False s by simp
        then show "\<forall>c\<in>set (take ?n s). 128 \<le> uchar c" using next_rune_high assms by blast
      qed
    qed
    with e show ?thesis by blast
  qed
qed

theorem escape_roundtrip: "raw_text (escape s) \<and> unquote (escape s) = utf8_text s"
proof (induction s rule: runes.induct)
  case (1 s)
  show ?case
  proof (cases "s = []")
    case True
    then show ?thesis using raw_empty by (simp add: escape.simps unquote.simps utf8_text_def runes.simps)
  next
    case False
    obtain p where p: "escape s = p @ escape (drop (snd (next_rune s)) s)" "rune_piece p (fst (next_rune s))" using escape_step [OF False] by blast
    have "utf8_text s = EncodeRune (fst (next_rune s)) @ utf8_text (drop (snd (next_rune s)) s)"
      using False by (simp add: utf8_text_def runes.simps [of s])
    then show ?thesis using 1 [OF False] p by (simp add: rune_piece_def)
  qed
qed

lemma utf8_text_valid: "ValidString s \<Longrightarrow> utf8_text s = s"
proof (induction s rule: ValidString.induct)
  case (1 s)
  show ?case
  proof (cases "s = []")
    case False
    with 1(2) have v: "next_rune s \<noteq> (65533, 1)" "ValidString (drop (snd (next_rune s)) s)" by (auto simp: ValidString.simps [of s] split: if_splits)
    have "EncodeRune (fst (next_rune s)) = take (snd (next_rune s)) s" using next_rune_whole [OF False v(1)] by (simp add: whole_rune_def)
    then show ?thesis using False 1(1) [OF False v] by (simp add: utf8_text_def runes.simps [of s])
  qed (simp add: utf8_text_def runes.simps)
qed

section \<open>Printed values are read back\<close>

text \<open>A value with the texts as the encoder writes them.\<close>

fun json_utf8 :: "json \<Rightarrow> json" where
  "json_utf8 (JStr s) = JStr (utf8_text s)"
| "json_utf8 (JArr js) = JArr (map json_utf8 js)"
| "json_utf8 (JObj ms) = JObj (map (\<lambda>(k, j). (utf8_text k, json_utf8 j)) ms)"
| "json_utf8 j = j"

fun numbers_ok :: "json \<Rightarrow> bool" where
  "numbers_ok (JNum t) \<longleftrightarrow> number_text t"
| "numbers_ok (JArr js) \<longleftrightarrow> (\<forall>j\<in>set js. numbers_ok j)"
| "numbers_ok (JObj ms) \<longleftrightarrow> (\<forall>(k, j)\<in>set ms. numbers_ok j)"
| "numbers_ok j \<longleftrightarrow> True"

lemma number_text_vtos: "number_text (vtos n)"
proof (cases "0 \<le> n")
  case True
  then show ?thesis using number_text.intros [of "[]" "vtos n" "[]" "[]"] vtos_canonical by simp
next
  case False
  then show ?thesis using number_text.intros [of "''-''" "vtos (- n)" "[]" "[]"] vtos_canonical [of "- n"] by (simp add: vtos_neg)
qed

lemma quoted_text: "json_text (JStr (utf8_text s)) (quoted s)"
  using json_text_elements_text_members_text.intros(5) [of "escape s"] escape_roundtrip [of s] by (simp add: quoted_def)

lemma spaces_Nil: "spaces []" by (simp add: spaces_def)

lemma commas_elements:
  assumes "js \<noteq> []" "\<And>j. j \<in> set js \<Longrightarrow> json_text (f j) (g j)"
  shows "elements_text (map f js) (commas (map g js))"
  using assms
proof (induction js rule: list_nonempty_induct)
  case (single j)
  then show ?case using json_text_elements_text_members_text.intros(10) [OF spaces_Nil _ spaces_Nil] by simp
next
  case (cons j js)
  have "elements_text (f j # map f js) (g j @ '','' @ commas (map g js))"
    using json_text_elements_text_members_text.intros(11) [OF spaces_Nil _ spaces_Nil] cons by simp
  then show ?case using cons(1) by (cases js) simp_all
qed

lemma commas_members:
  assumes "ms \<noteq> []" "\<And>k j. (k, j) \<in> set ms \<Longrightarrow> json_text (f j) (g j)"
  shows "members_text (map (\<lambda>(k, j). (utf8_text k, f j)) ms) (commas (map (\<lambda>(k, j). quoted k @ '':'' @ g j) ms))"
  using assms
proof (induction ms rule: list_nonempty_induct)
  case (single m)
  obtain k j where m: "m = (k, j)" by fastforce
  show ?case using json_text_elements_text_members_text.intros(12) [OF spaces_Nil _ spaces_Nil spaces_Nil _ spaces_Nil, of "escape k" "f j" "g j"]
      single escape_roundtrip [of k] by (simp add: m quoted_def)
next
  case (cons m ms)
  obtain k j where m: "m = (k, j)" by fastforce
  have "json_text (f j) (g j)" using cons(3) [of k j] by (simp add: m)
  moreover have "members_text (map (\<lambda>(k, j). (utf8_text k, f j)) ms) (commas (map (\<lambda>(k, j). quoted k @ '':'' @ g j) ms))"
    using cons(3) by (intro cons(2)) (meson list.set_intros(2))
  ultimately have "members_text ((utf8_text k, f j) # map (\<lambda>(k, j). (utf8_text k, f j)) ms)
      (quoted k @ '':'' @ g j @ '','' @ commas (map (\<lambda>(k, j). quoted k @ '':'' @ g j) ms))"
    using json_text_elements_text_members_text.intros(13) [OF spaces_Nil _ spaces_Nil spaces_Nil _ spaces_Nil, of "escape k" "f j" "g j"]
      escape_roundtrip [of k] by (simp add: quoted_def)
  then show ?case using cons(1) by (cases ms) (simp_all add: m)
qed

lemma print_text: "numbers_ok j \<Longrightarrow> json_text (json_utf8 j) (json_print j)"
proof (induction j rule: json_print.induct)
  case (5 js)
  show ?case
  proof (cases "js = []")
    case True
    then show ?thesis using json_text_elements_text_members_text.intros(6) [OF spaces_Nil] by simp
  next
    case False
    then show ?thesis using json_text_elements_text_members_text.intros(7) [OF commas_elements [OF False]] 5 by simp
  qed
next
  case (6 ms)
  have IH: "json_text (json_utf8 j) (json_print j)" if "(k, j) \<in> set ms" for k j using 6 that by fastforce
  show ?case
  proof (cases "ms = []")
    case True
    then show ?thesis using json_text_elements_text_members_text.intros(8) [OF spaces_Nil] by simp
  next
    case False
    then show ?thesis using json_text_elements_text_members_text.intros(9) [OF commas_members [OF False IH]] by simp
  qed
qed (auto intro: json_text_elements_text_members_text.intros(1-4) simp: quoted_text)

lemma json_depth_utf8 [simp]: "json_depth (json_utf8 j) = json_depth j"
proof (induction j rule: json_utf8.induct)
  case (2 js)
  then have "map json_depth (map json_utf8 js) = map json_depth js" by simp
  then show ?case by (simp only: json_utf8.simps json_depth.simps)
next
  case (3 ms)
  have "map (\<lambda>(k, j). json_depth j) (map (\<lambda>(k, j). (utf8_text k, json_utf8 j)) ms) = map (\<lambda>(k, j). json_depth j) ms" using 3 by fastforce
  then show ?case by (simp only: json_utf8.simps json_depth.simps)
qed simp_all

theorem scan_print:
  assumes "numbers_ok j" "json_depth j \<le> maxNestingDepth" "spaces a" "number_stop rest"
  shows "scan_json BeginValue [] (a @ json_print j @ rest) = Complete (json_utf8 j) rest"
proof -
  have "scan_json BeginValue [] (a @ json_print j @ rest) = scan_json BeginValue [] (json_print j @ rest)" using assms(3) by (intro scan_spaces) simp_all
  also have "\<dots> = scan_json (EndValue (json_utf8 j)) [] rest"
    using scan_text(1) [OF print_text [OF assms(1)], of BeginValue "[]" rest] assms(2,4) by (simp add: begins_value_def)
  finally show ?thesis by (simp add: scan_done)
qed

section \<open>The scanner accepts nothing else\<close>

lemma scan_string_sound: "scan_string Str acc cs = Complete x rest \<Longrightarrow> \<exists>raw. x = rev acc @ raw \<and> cs = raw @ quote # rest \<and> raw_text raw"
proof (induction cs arbitrary: acc rule: length_induct)
  case (1 cs)
  obtain c cs' where cs: "cs = c # cs'" using 1(2) by (cases cs) auto
  have step: "\<exists>raw. x = rev acc @ raw \<and> cs = raw @ quote # rest \<and> raw_text raw"
    if p: "cs = p @ t" "p \<noteq> []" "scan_string Str (rev p @ acc) t = Complete x rest" "\<And>w. raw_text w \<Longrightarrow> raw_text (p @ w)" for p t
  proof -
    have "length t < length cs" using p(1,2) by simp
    with 1(1) p(3) obtain raw where "x = rev (rev p @ acc) @ raw" "t = raw @ quote # rest" "raw_text raw" by blast
    then show ?thesis using p(1,4) by (intro exI [of _ "p @ raw"]) simp
  qed
  consider "c = quote" | "c \<noteq> quote" "c = backslash" | "c \<noteq> quote" "c \<noteq> backslash" "\<not> uchar c < 32"
    using 1(2) by (auto simp: cs split: if_splits)
  then show ?case
  proof cases
    case 1
    then show ?thesis using \<open>scan_string Str acc cs = _\<close> raw_empty by (intro exI [of _ "[]"]) (simp add: cs)
  next
    case 3
    then show ?thesis using \<open>scan_string Str acc cs = _\<close> raw_plain by (intro step [of "[c]" cs']) (simp_all add: cs)
  next
    case 2
    have esc: "scan_string Esc (backslash # acc) cs' = Complete x rest" using 2 \<open>scan_string Str acc cs = _\<close> by (simp add: cs)
    then obtain e t where e: "cs' = e # t" by (cases cs') auto
    define simple where "simple \<longleftrightarrow> e = CHR ''b'' \<or> e = CHR ''f'' \<or> e = CHR ''n'' \<or> e = CHR ''r'' \<or> e = CHR ''t'' \<or> e = backslash \<or> e = CHR ''/'' \<or> e = quote"
    show ?thesis
    proof (cases simple)
      case True
      have "e \<in> set ''bfnrt/'' \<or> e = backslash \<or> e = quote" using True unfolding simple_def by (elim disjE) simp_all
      moreover have "scan_string Str (e # backslash # acc) t = Complete x rest" using esc True unfolding e simple_def by simp
      ultimately show ?thesis using raw_escape 2 by (intro step [of "[backslash, e]" t]) (simp_all add: cs e)
    next
      case False
      then have "e = CHR ''u''" "scan_string (EscU 3) (e # backslash # acc) t = Complete x rest"
        using esc unfolding e simple_def by (simp_all split: if_splits)
      moreover obtain h1 h2 h3 h4 t' where h: "t = h1 # h2 # h3 # h4 # t'" "is_hex h1" "is_hex h2" "is_hex h3" "is_hex h4"
        "scan_string Str (h4 # h3 # h2 # h1 # e # backslash # acc) t' = Complete x rest"
      proof -
        have u: "scan_string (EscU (Suc (Suc (Suc 0)))) (e # backslash # acc) t = Complete x rest" using calculation(2) by (simp add: numeral_3_eq_3)
        obtain h1 t1 where t1: "t = h1 # t1" "is_hex h1" "scan_string (EscU (Suc (Suc 0))) (h1 # e # backslash # acc) t1 = Complete x rest"
          using u by (cases t) (auto split: if_splits)
        obtain h2 t2 where t2: "t1 = h2 # t2" "is_hex h2" "scan_string (EscU (Suc 0)) (h2 # h1 # e # backslash # acc) t2 = Complete x rest"
          using t1(3) by (cases t1) (auto split: if_splits)
        obtain h3 t3 where t3: "t2 = h3 # t3" "is_hex h3" "scan_string (EscU 0) (h3 # h2 # h1 # e # backslash # acc) t3 = Complete x rest"
          using t2(3) by (cases t2) (auto split: if_splits)
        obtain h4 t4 where "t3 = h4 # t4" "is_hex h4" "scan_string Str (h4 # h3 # h2 # h1 # e # backslash # acc) t4 = Complete x rest"
          using t3(3) by (cases t3) (auto split: if_splits)
        with t1 t2 t3 show thesis using that by simp
      qed
      ultimately show ?thesis using raw_hex 2 by (intro step [of "[backslash, CHR ''u'', h1, h2, h3, h4]" t']) (simp_all add: cs e)
    qed
  qed
qed

text \<open>What may follow in a number, for each state of the scanner.\<close>

definition exponent_part :: "string \<Rightarrow> bool" where
  "exponent_part ep \<longleftrightarrow> ep = [] \<or> (\<exists>e es ds. ep = e # es @ ds \<and> e \<in> set ''eE'' \<and> es \<in> {[], ''+'', ''-''} \<and> digits_text ds)"

definition fraction_part :: "string \<Rightarrow> bool" where
  "fraction_part fp \<longleftrightarrow> fp = [] \<or> (\<exists>ds. fp = CHR ''.'' # ds \<and> digits_text ds)"

definition number_tail :: "number_state \<Rightarrow> string \<Rightarrow> bool" where
  "number_tail st d = (case st of
     Neg \<Rightarrow> \<exists>ip fp ep. d = ip @ fp @ ep \<and> canonical_nat ip \<and> fraction_part fp \<and> exponent_part ep
   | Zero \<Rightarrow> \<exists>fp ep. d = fp @ ep \<and> fraction_part fp \<and> exponent_part ep
   | Digits \<Rightarrow> \<exists>ds fp ep. d = ds @ fp @ ep \<and> list_all is_digit ds \<and> fraction_part fp \<and> exponent_part ep
   | Dot \<Rightarrow> \<exists>ds ep. d = ds @ ep \<and> digits_text ds \<and> exponent_part ep
   | Fraction \<Rightarrow> \<exists>ds ep. d = ds @ ep \<and> list_all is_digit ds \<and> exponent_part ep
   | Exponent \<Rightarrow> \<exists>es ds. d = es @ ds \<and> es \<in> {[], ''+'', ''-''} \<and> digits_text ds
   | ExponentSign \<Rightarrow> digits_text d
   | ExponentDigits \<Rightarrow> list_all is_digit d)"

lemma digits_text_Cons: "is_digit c \<Longrightarrow> list_all is_digit d \<Longrightarrow> digits_text (c # d)"
  by (simp add: digits_text_def)

lemma exponent_Cons: "c = CHR ''e'' \<or> c = CHR ''E'' \<Longrightarrow> number_tail Exponent d \<Longrightarrow> exponent_part (c # d)"
proof -
  assume c: "c = CHR ''e'' \<or> c = CHR ''E''" and "number_tail Exponent d"
  then obtain es ds where "d = es @ ds" "es \<in> {[], ''+'', ''-''}" "digits_text ds" by (auto simp: number_tail_def)
  then show ?thesis using c unfolding exponent_part_def by (intro disjI2 exI [of _ c] exI [of _ es] exI [of _ ds]) auto
qed

lemma fraction_Cons: "number_tail Dot d \<Longrightarrow> \<exists>fp ep. CHR ''.'' # d = fp @ ep \<and> fraction_part fp \<and> exponent_part ep"
proof -
  assume "number_tail Dot d"
  then obtain ds ep where "d = ds @ ep" "digits_text ds" "exponent_part ep" by (auto simp: number_tail_def)
  then show ?thesis by (intro exI [of _ "CHR ''.'' # ds"] exI [of _ ep]) (simp add: fraction_part_def)
qed

lemma number_tail_end: "number_ends st \<Longrightarrow> number_tail st []"
  by (cases st) (auto simp: number_ends_def number_tail_def fraction_part_def exponent_part_def)

lemma zero_tail: "number_tail Zero d \<longleftrightarrow> (\<exists>fp ep. d = fp @ ep \<and> fraction_part fp \<and> exponent_part ep)"
  by (simp add: number_tail_def)

lemma digits_tail: "number_tail Zero d \<Longrightarrow> number_tail Digits d"
  unfolding zero_tail by (elim exE conjE, unfold number_tail_def number_state.case) (rule exI [of _ "[]"], auto)

lemma number_tail_Zero_exponent: "c = CHR ''e'' \<or> c = CHR ''E'' \<Longrightarrow> number_tail Exponent d \<Longrightarrow> number_tail Zero (c # d)"
  unfolding zero_tail using exponent_Cons by (intro exI [of _ "[]"] exI [of _ "c # d"]) (simp add: fraction_part_def)

lemma number_tail_step:
  assumes "number_next st c = Some st'" "number_tail st' d"
  shows "number_tail st (c # d)"
proof (cases st)
  case Neg
  show ?thesis
  proof (cases "c = CHR ''0''")
    case True
    then have "number_tail Zero d" using assms Neg by (simp add: number_next_def)
    then obtain fp ep where "d = fp @ ep" "fraction_part fp" "exponent_part ep" unfolding zero_tail by blast
    moreover have "canonical_nat ''0''" using vtos_canonical [of 0] by (simp add: vtos_def)
    ultimately show ?thesis using True unfolding Neg number_tail_def number_state.case by (intro exI [of _ "''0''"] exI [of _ fp] exI [of _ ep]) simp
  next
    case False
    then have c: "is_digit c" "number_tail Digits d" using assms Neg by (auto simp: number_next_def split: if_splits)
    then obtain ds fp ep where "d = ds @ fp @ ep" "list_all is_digit ds" "fraction_part fp" "exponent_part ep" by (auto simp: number_tail_def)
    then show ?thesis using c False unfolding Neg number_tail_def number_state.case
      by (intro exI [of _ "c # ds"] exI [of _ fp] exI [of _ ep]) (simp add: canonical_nat_def)
  qed
next
  case Zero
  then show ?thesis using assms number_tail_Zero_exponent fraction_Cons unfolding zero_tail [symmetric]
    by (auto simp: number_next_def zero_tail [symmetric] split: if_splits)
next
  case Digits
  consider "is_digit c" "st' = Digits" | "c = CHR ''.''" "st' = Dot" | "c = CHR ''e'' \<or> c = CHR ''E''" "st' = Exponent"
    using assms(1) unfolding Digits by (auto simp: number_next_def split: if_splits)
  then show ?thesis
  proof cases
    case 1
    then obtain ds fp ep where "d = ds @ fp @ ep" "list_all is_digit ds" "fraction_part fp" "exponent_part ep" using assms(2) by (auto simp: number_tail_def)
    then show ?thesis using 1 unfolding Digits number_tail_def number_state.case by (intro exI [of _ "c # ds"] exI [of _ fp] exI [of _ ep]) simp
  next
    case 2
    then show ?thesis using assms(2) fraction_Cons unfolding Digits by (intro digits_tail) (simp add: zero_tail)
  next
    case 3
    then show ?thesis using assms(2) number_tail_Zero_exponent unfolding Digits by (intro digits_tail) simp
  qed
next
  case Dot
  then have c: "is_digit c" "number_tail Fraction d" using assms by (auto simp: number_next_def split: if_splits)
  then obtain ds ep where "d = ds @ ep" "list_all is_digit ds" "exponent_part ep" by (auto simp: number_tail_def)
  then show ?thesis using c(1) unfolding Dot number_tail_def number_state.case by (intro exI [of _ "c # ds"] exI [of _ ep]) (simp add: digits_text_def)
next
  case Fraction
  show ?thesis
  proof (cases "is_digit c")
    case True
    then have "number_tail Fraction d" using assms Fraction by (simp add: number_next_def)
    then obtain ds ep where "d = ds @ ep" "list_all is_digit ds" "exponent_part ep" by (auto simp: number_tail_def)
    then show ?thesis using True unfolding Fraction number_tail_def number_state.case by (intro exI [of _ "c # ds"] exI [of _ ep]) simp
  next
    case False
    then have "c = CHR ''e'' \<or> c = CHR ''E''" "st' = Exponent" using assms Fraction by (auto simp: number_next_def split: if_splits)
    then show ?thesis using assms(2) exponent_Cons unfolding Fraction number_tail_def [of Fraction] number_state.case
      by (intro exI [of _ "[]"] exI [of _ "c # d"]) simp
  qed
next
  case Exponent
  show ?thesis
  proof (cases "c = CHR ''+'' \<or> c = CHR ''-''")
    case True
    then have "digits_text d" using assms Exponent by (simp add: number_next_def number_tail_def)
    then show ?thesis using True unfolding Exponent number_tail_def number_state.case by (intro exI [of _ "[c]"] exI [of _ d]) auto
  next
    case False
    then have "is_digit c" "list_all is_digit d" using assms Exponent by (auto simp: number_next_def number_tail_def split: if_splits)
    then show ?thesis unfolding Exponent number_tail_def number_state.case by (intro exI [of _ "[]"] exI [of _ "c # d"]) (simp add: digits_text_def)
  qed
qed (use assms in \<open>auto simp: number_next_def number_tail_def digits_text_def split: if_splits\<close>)

lemma scan_number_sound: "scan_number st acc cs = Complete x rest \<Longrightarrow> \<exists>d. x = rev acc @ d \<and> cs = d @ rest \<and> number_tail st d"
proof (induction cs arbitrary: st acc)
  case Nil
  then show ?case using number_tail_end by (auto split: if_splits)
next
  case (Cons c cs)
  show ?case
  proof (cases "number_next st c")
    case None
    then show ?thesis using Cons.prems number_tail_end by (auto split: if_splits)
  next
    case (Some st')
    then obtain d where "x = rev (c # acc) @ d" "cs = d @ rest" "number_tail st' d" using Cons by fastforce
    then show ?thesis using number_tail_step [OF Some] by (intro exI [of _ "c # d"]) simp
  qed
qed

lemma scan_literal_sound: "scan_literal es cs = Complete x rest \<Longrightarrow> cs = es @ rest"
  by (induction es cs rule: scan_literal.induct) (auto split: if_splits)

lemma number_text_start:
  assumes "number_tail st d" "st = (if c = CHR ''-'' then Neg else if c = CHR ''0'' then Zero else Digits)" "c = CHR ''-'' \<or> is_digit c"
  shows "number_text (c # d)"
proof (cases "c = CHR ''-''")
  case True
  then obtain ip fp ep where "d = ip @ fp @ ep" "canonical_nat ip" "fraction_part fp" "exponent_part ep" using assms(1,2) by (auto simp: number_tail_def)
  then show ?thesis using number_text.intros [of "''-''" ip fp ep] True unfolding fraction_part_def exponent_part_def by simp
next
  case False
  then have "number_tail Neg (c # d)" using assms by (intro number_tail_step [of Neg c st]) (auto simp: number_next_def)
  then obtain ip fp ep where "c # d = ip @ fp @ ep" "canonical_nat ip" "fraction_part fp" "exponent_part ep" by (auto simp: number_tail_def)
  then show ?thesis using number_text.intros [of "[]" ip fp ep] unfolding fraction_part_def exponent_part_def by simp
qed

lemma scan_scalar_number:
  assumes "c = CHR ''-'' \<or> is_digit c"
  shows "scan_scalar (c # cs) = (case scan_number (if c = CHR ''-'' then Neg else if c = CHR ''0'' then Zero else Digits) [c] cs of
    Complete t rest \<Rightarrow> Complete (JNum t) rest | Incomplete \<Rightarrow> Incomplete | Broken \<Rightarrow> Broken)"
proof -
  have "c \<noteq> quote" using assms not_digit_chars(6) by (auto simp: quote_def)
  then show ?thesis using assms by (cases "c = CHR ''-''"; cases "c = CHR ''0''") (simp_all add: scan_scalar_def)
qed

lemma scan_scalar_literal:
  assumes "c \<noteq> quote" "\<not> (c = CHR ''-'' \<or> is_digit c)" "scan_scalar (c # cs) = Complete j rest"
  shows "\<exists>es. scan_literal es cs = Complete () rest \<and> json_text j (c # es)"
proof -
  have "c \<noteq> CHR ''0''" using assms(2) is_digit_zero by auto
  with assms have *: "(if c = CHR ''t'' then case scan_literal ''rue'' cs of Complete _ rest \<Rightarrow> Complete (JBool True) rest | Incomplete \<Rightarrow> Incomplete | Broken \<Rightarrow> Broken
      else if c = CHR ''f'' then case scan_literal ''alse'' cs of Complete _ rest \<Rightarrow> Complete (JBool False) rest | Incomplete \<Rightarrow> Incomplete | Broken \<Rightarrow> Broken
      else if c = CHR ''n'' then case scan_literal ''ull'' cs of Complete _ rest \<Rightarrow> Complete JNull rest | Incomplete \<Rightarrow> Incomplete | Broken \<Rightarrow> Broken
      else Broken) = Complete j rest" unfolding scan_scalar_def list.case Let_def by simp
  have lit: "scan_literal es cs = Complete () rest \<and> j = v"
    if "(case scan_literal es cs of Complete _ rest \<Rightarrow> Complete v rest | Incomplete \<Rightarrow> Incomplete | Broken \<Rightarrow> Broken) = Complete j rest" for es v
    using that by (cases "scan_literal es cs") auto
  note texts = json_text_elements_text_members_text.intros(1-3)
  consider "c = CHR ''t''" | "c \<noteq> CHR ''t''" "c = CHR ''f''" | "c \<noteq> CHR ''t''" "c \<noteq> CHR ''f''" "c = CHR ''n''"
    using * by (cases "c = CHR ''t''"; cases "c = CHR ''f''"; cases "c = CHR ''n''") simp_all
  then show ?thesis
  proof cases
    case 1
    then show ?thesis using * lit [of "JBool True" "''rue''"] texts(2) by (intro exI [of _ "''rue''"]) simp
  next
    case 2
    then show ?thesis using * lit [of "JBool False" "''alse''"] texts(3) by (intro exI [of _ "''alse''"]) simp
  next
    case 3
    then show ?thesis using * lit [of JNull "''ull''"] texts(1) by (intro exI [of _ "''ull''"]) simp
  qed
qed

lemma scan_scalar_sound:
  assumes "scan_scalar s = Complete j rest"
  shows "\<exists>w. s = w @ rest \<and> json_text j w"
proof -
  obtain c cs where s: "s = c # cs" using assms by (cases s) (auto simp: scan_scalar_def)
  have num: ?thesis if n: "scan_number st [c] cs = Complete t rest" "j = JNum t" "c = CHR ''-'' \<or> is_digit c"
    "st = (if c = CHR ''-'' then Neg else if c = CHR ''0'' then Zero else Digits)" for t st
  proof -
    obtain d where "t = c # d" "cs = d @ rest" "number_tail st d" using scan_number_sound [OF n(1)] by auto
    then show ?thesis using number_text_start [of st d c] n(2,3,4) json_text_elements_text_members_text.intros(4) by (auto simp: s)
  qed
  have lit: ?thesis if "scan_literal es cs = Complete u rest" "json_text j (c # es)" for es u
    using scan_literal_sound [OF that(1)] that(2) by (auto simp: s)
  have str: ?thesis if "scan_string Str [] cs = Complete t rest" "j = JStr (unquote t)" "c = quote" for t
    using scan_string_sound [OF that(1)] that(2,3) json_text_elements_text_members_text.intros(5) by (auto simp: s)
  consider "c = quote" | "c = CHR ''-'' \<or> is_digit c" | "c \<noteq> quote" "\<not> (c = CHR ''-'' \<or> is_digit c)" by blast
  then show ?thesis
  proof cases
    case 1
    then show ?thesis using assms str unfolding s by (auto simp: scan_scalar_def split: scanned.splits)
  next
    case 2
    obtain t where "scan_number (if c = CHR ''-'' then Neg else if c = CHR ''0'' then Zero else Digits) [c] cs = Complete t rest" "j = JNum t"
      using assms unfolding s scan_scalar_number [OF 2]
      by (cases "scan_number (if c = CHR ''-'' then Neg else if c = CHR ''0'' then Zero else Digits) [c] cs") simp_all
    then show ?thesis using num [OF _ _ 2 refl] by blast
  next
    case 3
    then show ?thesis using scan_scalar_literal assms lit unfolding s by blast
  qed
qed

text \<open>Elements and members that are added behind the others.\<close>

lemma elements_snoc:
  assumes "elements_text js v" "spaces a" "json_text j w" "spaces b"
  shows "elements_text (js @ [j]) (v @ '','' @ a @ w @ b)"
proof -
  note rules = json_text_elements_text_members_text.intros
  have "(json_text x y \<longrightarrow> True) \<and> (elements_text js v \<longrightarrow> elements_text (js @ [j]) (v @ '','' @ a @ w @ b)) \<and> (members_text p q \<longrightarrow> True)" for x y p q
  proof (induction rule: json_text_elements_text_members_text.induct)
    case (10 a' j' w' b')
    then show ?case using rules(11) [OF 10(1-3) rules(10) [OF assms(2-4)]] by simp
  next
    case (11 a' j' w' b' js v)
    then show ?case using rules(11) [OF 11(1-3) 11(6)] by simp
  qed simp_all
  then show ?thesis using assms(1) by blast
qed

lemma members_snoc:
  assumes "members_text ms v" "spaces a" "raw_text raw" "spaces b" "spaces c" "json_text j w" "spaces d"
  shows "members_text (ms @ [(unquote raw, j)]) (v @ '','' @ a @ quote # raw @ quote # b @ '':'' @ c @ w @ d)"
proof -
  note rules = json_text_elements_text_members_text.intros
  have "(json_text x y \<longrightarrow> True) \<and> (elements_text p q \<longrightarrow> True) \<and>
      (members_text ms v \<longrightarrow> members_text (ms @ [(unquote raw, j)]) (v @ '','' @ a @ quote # raw @ quote # b @ '':'' @ c @ w @ d))" for x y p q
  proof (induction rule: json_text_elements_text_members_text.induct)
    case (12 a' raw' b' c' j' w' d')
    then show ?case using rules(13) [OF 12(1-6) rules(12) [OF assms(2-7)]] by simp
  next
    case (13 a' raw' b' c' j' w' d' ms v)
    then show ?case using rules(13) [OF 13(1-6,9)] by simp
  qed simp_all
  then show ?thesis using assms(1) by blast
qed

text \<open>The text in front of the next element or member, and a value that may start with this stack.\<close>

inductive before_element :: "json list \<Rightarrow> string \<Rightarrow> bool" where
  "before_element [] []"
| "elements_text (rev js) w \<Longrightarrow> before_element js (w @ '','')"

inductive before_member :: "(string \<times> json) list \<Rightarrow> string \<Rightarrow> bool" where
  "before_member [] []"
| "members_text (rev ms) w \<Longrightarrow> before_member ms (w @ '','')"

definition value_starts :: "frame list \<Rightarrow> bool" where
  "value_starts stack \<longleftrightarrow> (case stack of InObject _ # _ \<Rightarrow> False | _ \<Rightarrow> True)"

inductive stack_text :: "frame list \<Rightarrow> string \<Rightarrow> bool" where
  top: "spaces a \<Longrightarrow> stack_text [] a"
| array: "stack_text st u \<Longrightarrow> value_starts st \<Longrightarrow> before_element js v \<Longrightarrow> spaces a \<Longrightarrow> stack_text (InArray js # st) (u @ ''['' @ v @ a)"
| object: "stack_text st u \<Longrightarrow> value_starts st \<Longrightarrow> before_member ms v \<Longrightarrow> spaces a \<Longrightarrow> stack_text (InObject ms # st) (u @ ''{'' @ v @ a)"
| member: "stack_text (InObject ms # st) u \<Longrightarrow> raw_text raw \<Longrightarrow> spaces b \<Longrightarrow> spaces c \<Longrightarrow>
    stack_text (InMember ms (unquote raw) # st) (u @ quote # raw @ quote # b @ '':'' @ c)"

inductive_cases array_E: "stack_text (InArray js # st) u"
inductive_cases object_E: "stack_text (InObject ms # st) u"
inductive_cases member_E: "stack_text (InMember ms k # st) u"

text \<open>The texts after which the scanner is in a mode with a stack.\<close>

definition reaches :: "scan_mode \<Rightarrow> frame list \<Rightarrow> string \<Rightarrow> bool" where
  "reaches m stack u = (case m of
     BeginValue \<Rightarrow> stack_text stack u \<and> value_starts stack
   | BeginValueOrEmpty \<Rightarrow> (\<exists>st v a. stack = InArray [] # st \<and> stack_text st v \<and> value_starts st \<and> spaces a \<and> u = v @ ''['' @ a)
   | BeginString \<Rightarrow> stack_text stack u \<and> (\<exists>ms st. stack = InObject ms # st)
   | BeginStringOrEmpty \<Rightarrow> (\<exists>st v a. stack = InObject [] # st \<and> stack_text st v \<and> value_starts st \<and> spaces a \<and> u = v @ ''{'' @ a)
   | AfterKey k \<Rightarrow> (\<exists>ms st v raw b. stack = InObject ms # st \<and> stack_text stack v \<and> raw_text raw \<and> k = unquote raw \<and> spaces b \<and>
       u = v @ quote # raw @ quote # b)
   | EndValue j \<Rightarrow> value_starts stack \<and> (\<exists>v w b. stack_text stack v \<and> json_text j w \<and> spaces b \<and> (stack = [] \<longrightarrow> b = []) \<and> u = v @ w @ b))"

lemma spaces_snoc: "spaces a \<Longrightarrow> json_space c \<Longrightarrow> spaces (a @ [c])"
  by (simp add: spaces_def)

lemma stack_text_space: "stack_text stack u \<Longrightarrow> json_space c \<Longrightarrow> stack_text stack (u @ [c])"
proof (induction rule: stack_text.cases)
  case (top a)
  then show ?case using stack_text.top [OF spaces_snoc] by simp
next
  case (array st u js v a)
  then show ?case using stack_text.array [OF _ _ _ spaces_snoc, of st u js v a c] by simp
next
  case (object st u ms v a)
  then show ?case using stack_text.object [OF _ _ _ spaces_snoc, of st u ms v a c] by simp
next
  case (member ms st u raw b c')
  then show ?case using stack_text.member [OF _ _ _ spaces_snoc, of ms st u raw b c' c] by simp
qed

lemma reaches_space:
  assumes "reaches m stack u" "json_space c" "\<And>j. m = EndValue j \<Longrightarrow> stack \<noteq> []"
  shows "reaches m stack (u @ [c])"
proof (cases m)
  case BeginValueOrEmpty
  then obtain st v a where *: "stack = InArray [] # st" "stack_text st v" "value_starts st" "spaces a" "u = v @ ''['' @ a" using assms(1) by (auto simp: reaches_def)
  then show ?thesis unfolding BeginValueOrEmpty reaches_def scan_mode.case using spaces_snoc [OF *(4) assms(2)]
    by (intro exI [of _ st] exI [of _ v] exI [of _ "a @ [c]"]) simp
next
  case BeginStringOrEmpty
  then obtain st v a where *: "stack = InObject [] # st" "stack_text st v" "value_starts st" "spaces a" "u = v @ ''{'' @ a" using assms(1) by (auto simp: reaches_def)
  then show ?thesis unfolding BeginStringOrEmpty reaches_def scan_mode.case using spaces_snoc [OF *(4) assms(2)]
    by (intro exI [of _ st] exI [of _ v] exI [of _ "a @ [c]"]) simp
next
  case (AfterKey k)
  then obtain ms st v raw b where *: "stack = InObject ms # st" "stack_text stack v" "raw_text raw" "k = unquote raw" "spaces b" "u = v @ quote # raw @ quote # b"
    using assms(1) by (auto simp: reaches_def)
  then show ?thesis unfolding AfterKey reaches_def scan_mode.case using spaces_snoc [OF *(5) assms(2)]
    by (intro exI [of _ ms] exI [of _ st] exI [of _ v] exI [of _ raw] exI [of _ "b @ [c]"]) simp
next
  case (EndValue j)
  then obtain v w b where *: "value_starts stack" "stack_text stack v" "json_text j w" "spaces b" "u = v @ w @ b" using assms(1) by (auto simp: reaches_def)
  then show ?thesis unfolding EndValue reaches_def scan_mode.case using spaces_snoc [OF *(4) assms(2)] assms(3) [OF EndValue]
    by (intro conjI exI [of _ v] exI [of _ w] exI [of _ "b @ [c]"]) simp_all
qed (use assms stack_text_space in \<open>simp_all add: reaches_def\<close>)

lemma reaches_end: "stack_text stack v \<Longrightarrow> value_starts stack \<Longrightarrow> json_text j w \<Longrightarrow> reaches (EndValue j) stack (v @ w)"
  unfolding reaches_def scan_mode.case by (intro conjI exI [of _ v] exI [of _ w] exI [of _ "[]"]) (simp_all add: spaces_Nil)

text \<open>The elements of an array with one more, and the members of an object.\<close>

lemma one_more_element:
  assumes "before_element js v" "spaces a" "json_text j w" "spaces b"
  shows "elements_text (rev (j # js)) (v @ a @ w @ b)"
  using assms(1)
proof cases
  case 1
  then show ?thesis using json_text_elements_text_members_text.intros(10) [OF assms(2-4)] by simp
next
  case (2 w')
  then show ?thesis using elements_snoc [OF _ assms(2-4)] by simp
qed

lemma one_more_member:
  assumes "before_member ms v" "spaces a" "raw_text raw" "spaces b" "spaces c" "json_text j w" "spaces d"
  shows "members_text (rev ((unquote raw, j) # ms)) (v @ a @ quote # raw @ quote # b @ '':'' @ c @ w @ d)"
  using assms(1)
proof cases
  case 1
  then show ?thesis using json_text_elements_text_members_text.intros(12) [OF assms(2-7)] by simp
next
  case (2 w')
  then show ?thesis using members_snoc [OF _ assms(2-7)] by simp
qed

lemma step_value:
  assumes "stack_text stack u" "value_starts stack" "begins_value m" "scan_char m stack c cs = Go m' stack' rest" "m = BeginValueOrEmpty \<Longrightarrow> c \<noteq> CHR '']''"
  shows "\<exists>p. c # cs = p @ rest \<and> reaches m' stack' (u @ p)"
proof -
  have go: "(if c = CHR ''['' then if length stack < maxNestingDepth then Go BeginValueOrEmpty (InArray [] # stack) cs else Stop Broken
      else if c = CHR ''{'' then if length stack < maxNestingDepth then Go BeginStringOrEmpty (InObject [] # stack) cs else Stop Broken
      else (case scan_scalar (c # cs) of Complete j rest \<Rightarrow> Go (EndValue j) stack rest | Incomplete \<Rightarrow> Stop Incomplete | Broken \<Rightarrow> Stop Broken)) =
    Go m' stack' rest"
    using assms(3-5) unfolding begins_value_def by (elim disjE) (simp_all add: scan_char_def begins_string_def)
  consider "c = CHR ''[''" | "c = CHR ''{''" | "c \<noteq> CHR ''[''" "c \<noteq> CHR ''{''" by blast
  then show ?thesis
  proof cases
    case 1
    then have "m' = BeginValueOrEmpty" "stack' = InArray [] # stack" "rest = cs" using go by (simp_all split: if_splits)
    then show ?thesis using 1 assms(1,2) spaces_Nil by (intro exI [of _ "[c]"]) (auto simp: reaches_def)
  next
    case 2
    then have "m' = BeginStringOrEmpty" "stack' = InObject [] # stack" "rest = cs" using go by (simp_all split: if_splits)
    then show ?thesis using 2 assms(1,2) spaces_Nil by (intro exI [of _ "[c]"]) (auto simp: reaches_def)
  next
    case 3
    then obtain j where "scan_scalar (c # cs) = Complete j rest" "m' = EndValue j" "stack' = stack"
      using go by (cases "scan_scalar (c # cs)") simp_all
    then show ?thesis using scan_scalar_sound reaches_end [OF assms(1,2)] by blast
  qed
qed

lemma step_key:
  assumes "stack_text stack u" "stack = InObject ms # st" "begins_string m" "scan_char m stack c cs = Go m' stack' rest" "m = BeginStringOrEmpty \<Longrightarrow> c \<noteq> CHR ''}''"
  shows "\<exists>p. c # cs = p @ rest \<and> reaches m' stack' (u @ p)"
proof -
  have go: "(if c = quote then (case scan_string Str [] cs of
        Complete k rest \<Rightarrow> Go (AfterKey (unquote k)) stack rest | Incomplete \<Rightarrow> Stop Incomplete | Broken \<Rightarrow> Stop Broken)
      else Stop Broken) = Go m' stack' rest"
    using assms(3-5) unfolding begins_string_def by (elim disjE) (simp_all add: scan_char_def begins_string_def)
  then obtain k where k: "c = quote" "scan_string Str [] cs = Complete k rest" "m' = AfterKey (unquote k)" "stack' = stack"
    by (cases "scan_string Str [] cs") (simp_all split: if_splits)
  moreover obtain "cs = k @ quote # rest" "raw_text k" using scan_string_sound [OF k(2)] by auto
  ultimately show ?thesis using assms(1,2) spaces_Nil by (intro exI [of _ "quote # k @ [quote]"]) (auto simp: reaches_def)
qed

lemma step_element:
  assumes "reaches (EndValue j) (InArray js # st) u" "scan_char (EndValue j) (InArray js # st) c cs = Go m' stack' rest"
  shows "\<exists>p. c # cs = p @ rest \<and> reaches m' stack' (u @ p)"
proof -
  obtain v w b where u: "stack_text (InArray js # st) v" "json_text j w" "spaces b" "u = v @ w @ b" using assms(1) by (auto simp: reaches_def)
  from u(1) obtain v0 v1 a where v: "stack_text st v0" "value_starts st" "before_element js v1" "spaces a" "v = v0 @ ''['' @ v1 @ a" by (elim array_E) simp
  note more = one_more_element [OF v(3,4) u(2,3)]
  consider "c = CHR '',''" "m' = BeginValue" "stack' = InArray (j # js) # st" "rest = cs" | "c = CHR '']''" "m' = EndValue (JArr (rev (j # js)))" "stack' = st" "rest = cs"
    using assms(2) by (auto simp: scan_char_def split: if_splits)
  then show ?thesis
  proof cases
    case 1
    have "stack_text stack' (u @ '','')"
      using stack_text.array [OF v(1,2) before_element.intros(2) [OF more] spaces_Nil] 1(3) by (simp add: u(4) v(5))
    then show ?thesis using 1 by (intro exI [of _ "'',''"]) (simp add: reaches_def value_starts_def)
  next
    case 2
    have "json_text (JArr (rev (j # js))) (''['' @ (v1 @ a @ w @ b) @ '']'')" by (rule json_text_elements_text_members_text.intros(7) [OF more])
    from reaches_end [OF v(1,2) this] show ?thesis using 2 by (intro exI [of _ "'']''"]) (simp add: u(4) v(5))
  qed
qed

lemma step_member:
  assumes "reaches (EndValue j) (InMember ms k # st) u" "scan_char (EndValue j) (InMember ms k # st) c cs = Go m' stack' rest"
  shows "\<exists>p. c # cs = p @ rest \<and> reaches m' stack' (u @ p)"
proof -
  obtain v w b where u: "stack_text (InMember ms k # st) v" "json_text j w" "spaces b" "u = v @ w @ b" using assms(1) by (auto simp: reaches_def)
  from u(1) obtain v0 raw b0 c0 where m: "stack_text (InObject ms # st) v0" "raw_text raw" "k = unquote raw" "spaces b0" "spaces c0"
    "v = v0 @ quote # raw @ quote # b0 @ '':'' @ c0" by (elim member_E) simp
  from m(1) obtain v1 v2 a where v: "stack_text st v1" "value_starts st" "before_member ms v2" "spaces a" "v0 = v1 @ ''{'' @ v2 @ a" by (elim object_E) simp
  note more = one_more_member [OF v(3,4) m(2,4,5) u(2,3)]
  consider "c = CHR '',''" "m' = BeginString" "stack' = InObject ((k, j) # ms) # st" "rest = cs"
    | "c = CHR ''}''" "m' = EndValue (JObj (rev ((k, j) # ms)))" "stack' = st" "rest = cs"
    using assms(2) by (auto simp: scan_char_def split: if_splits)
  then show ?thesis
  proof cases
    case 1
    have "stack_text stack' (u @ '','')"
      using stack_text.object [OF v(1,2) before_member.intros(2) [OF more] spaces_Nil] 1(3) by (simp add: u(4) m(3,6) v(5))
    then show ?thesis using 1 by (intro exI [of _ "'',''"]) (simp add: reaches_def)
  next
    case 2
    have "json_text (JObj (rev ((k, j) # ms))) (''{'' @ (v2 @ a @ quote # raw @ quote # b0 @ '':'' @ c0 @ w @ b) @ ''}'')"
      unfolding m(3) by (rule json_text_elements_text_members_text.intros(9) [OF more])
    from reaches_end [OF v(1,2) this] show ?thesis using 2 by (intro exI [of _ "''}''"]) (simp add: u(4) m(6) v(5))
  qed
qed

lemma step_reaches:
  assumes "reaches m stack u" "scan_char m stack c cs = Go m' stack' rest"
  shows "\<exists>p. c # cs = p @ rest \<and> reaches m' stack' (u @ p)"
proof (cases m)
  case BeginValue
  then show ?thesis using assms step_value [of stack u m c cs m' stack' rest] by (simp add: reaches_def begins_value_def)
next
  case BeginString
  then show ?thesis using assms step_key [of stack u _ _ m c cs m' stack' rest] by (auto simp: reaches_def begins_string_def)
next
  case BeginValueOrEmpty
  then obtain st v a where r: "stack = InArray [] # st" "stack_text st v" "value_starts st" "spaces a" "u = v @ ''['' @ a" using assms(1) by (auto simp: reaches_def)
  show ?thesis
  proof (cases "c = CHR '']''")
    case True
    then have "m' = EndValue (JArr [])" "stack' = st" "rest = cs" using assms(2) BeginValueOrEmpty r(1) by (simp_all add: scan_char_def begins_string_def)
    then show ?thesis using True reaches_end [OF r(2,3) json_text_elements_text_members_text.intros(6) [OF r(4)]] by (intro exI [of _ "[c]"]) (simp add: r(5))
  next
    case False
    have "stack_text stack u" using stack_text.array [OF r(2,3) before_element.intros(1) r(4)] by (simp add: r(1,5))
    then show ?thesis using step_value [OF _ _ _ assms(2)] False by (simp add: r(1) value_starts_def begins_value_def BeginValueOrEmpty)
  qed
next
  case BeginStringOrEmpty
  then obtain st v a where r: "stack = InObject [] # st" "stack_text st v" "value_starts st" "spaces a" "u = v @ ''{'' @ a" using assms(1) by (auto simp: reaches_def)
  show ?thesis
  proof (cases "c = CHR ''}''")
    case True
    then have "m' = EndValue (JObj [])" "stack' = st" "rest = cs" using assms(2) BeginStringOrEmpty r(1) by (simp_all add: scan_char_def begins_string_def)
    then show ?thesis using True reaches_end [OF r(2,3) json_text_elements_text_members_text.intros(8) [OF r(4)]] by (intro exI [of _ "[c]"]) (simp add: r(5))
  next
    case False
    have "stack_text stack u" using stack_text.object [OF r(2,3) before_member.intros(1) r(4)] by (simp add: r(1,5))
    then show ?thesis using step_key [OF _ r(1) _ assms(2)] False by (simp add: begins_string_def BeginStringOrEmpty)
  qed
next
  case (AfterKey k)
  then obtain ms st v raw b where r: "stack = InObject ms # st" "stack_text stack v" "raw_text raw" "k = unquote raw" "spaces b" "u = v @ quote # raw @ quote # b"
    using assms(1) by (auto simp: reaches_def)
  then have "c = CHR '':''" "m' = BeginValue" "stack' = InMember ms k # st" "rest = cs" using assms(2) AfterKey by (simp_all add: scan_char_def split: if_splits)
  then show ?thesis using stack_text.member [OF r(2) [unfolded r(1)] r(3,5) spaces_Nil] r(4,6)
    by (intro exI [of _ "[c]"]) (simp add: reaches_def value_starts_def)
next
  case (EndValue j)
  show ?thesis
  proof (cases stack)
    case Nil
    then show ?thesis using assms(2) EndValue by (simp add: scan_char_def)
  next
    case (Cons f st)
    then show ?thesis using assms step_element [of j _ st u c cs] step_member [of j _ _ st u c cs] unfolding EndValue
      by (cases f) (auto simp: scan_char_def)
  qed
qed

lemma scan_char_stop: "scan_char m stack c cs = Stop r \<Longrightarrow> r = Incomplete \<or> r = Broken"
  by (auto simp: scan_char_def split: scan_mode.splits frame.splits list.splits if_splits scanned.splits)

theorem scan_sound:
  "scan_json m stack s = Complete j rest \<Longrightarrow> reaches m stack u \<Longrightarrow> \<exists>a w. u @ s = a @ w @ rest \<and> spaces a \<and> json_text j w"
proof (induction "length s" arbitrary: m stack s u rule: less_induct)
  case less
  show ?case
  proof (cases "\<exists>j'. m = EndValue j' \<and> stack = []")
    case True
    then obtain j' where m: "m = EndValue j'" "stack = []" by blast
    then have "j' = j" "rest = s" using less.prems(1) by (simp_all add: scan_done)
    moreover obtain v w where "stack_text [] v" "json_text j' w" "u = v @ w" using less.prems(2) by (auto simp: reaches_def m)
    moreover from this have "spaces v" by (auto elim: stack_text.cases)
    ultimately show ?thesis by auto
  next
    case False
    have unfold: "scan_json m stack s = (case s of [] \<Rightarrow> Incomplete | c # cs \<Rightarrow> if json_space c then scan_json m stack cs
        else (case scan_char m stack c cs of Go m' stack' rest \<Rightarrow> scan_json m' stack' rest | Stop r \<Rightarrow> r))"
      using False by (subst scan_json.simps) (auto split: scan_mode.split list.split)
    then obtain c cs where s: "s = c # cs" using less.prems(1) by (cases s) auto
    show ?thesis
    proof (cases "json_space c")
      case True
      then have "scan_json m stack cs = Complete j rest" using less.prems(1) unfolding unfold by (simp add: s)
      moreover have "reaches m stack (u @ [c])" using reaches_space [OF less.prems(2) True] False by blast
      ultimately show ?thesis using less.hyps [of cs m stack "u @ [c]"] by (simp add: s)
    next
      case nsp: False
      show ?thesis
      proof (cases "scan_char m stack c cs")
        case (Go m' stack' t)
        then have *: "scan_json m' stack' t = Complete j rest" using less.prems(1) nsp unfolding unfold by (simp add: s)
        obtain p where p: "c # cs = p @ t" "reaches m' stack' (u @ p)" using step_reaches [OF less.prems(2) Go] by blast
        have "length t < length s" using scan_char_shorter [OF Go] by (simp add: s)
        from less.hyps [OF this * p(2)] show ?thesis unfolding s p(1) by simp
      next
        case (Stop r)
        then show ?thesis using scan_char_stop [OF Stop] less.prems(1) nsp unfolding unfold by (auto simp: s)
      qed
    qed
  qed
qed

corollary scan_value_sound: "scan_json BeginValue [] s = Complete j rest \<Longrightarrow> \<exists>a w. s = a @ w @ rest \<and> spaces a \<and> json_text j w"
  using scan_sound [of BeginValue "[]" s j rest "[]"] stack_text.top [OF spaces_Nil] by (simp add: reaches_def value_starts_def)

lemma scan_only_spaces: "spaces s \<Longrightarrow> scan_json BeginValue [] s = Incomplete"
  using scan_spaces [of s BeginValue "[]" "[]"] by (simp add: scan_json.simps)

text \<open>A value whose texts are all UTF-8 is printed as it is.\<close>

fun json_valid :: "json \<Rightarrow> bool" where
  "json_valid (JStr s) \<longleftrightarrow> ValidString s"
| "json_valid (JArr js) \<longleftrightarrow> (\<forall>j\<in>set js. json_valid j)"
| "json_valid (JObj ms) \<longleftrightarrow> (\<forall>(k, j)\<in>set ms. ValidString k \<and> json_valid j)"
| "json_valid j \<longleftrightarrow> True"

lemma json_utf8_valid: "json_valid j \<Longrightarrow> json_utf8 j = j"
proof (induction j rule: json_utf8.induct)
  case (3 ms)
  have "(utf8_text k, json_utf8 j) = (k, j)" if "(k, j) \<in> set ms" for k j using 3 that utf8_text_valid by fastforce
  then have "map (\<lambda>(k, j). (utf8_text k, json_utf8 j)) ms = map (\<lambda>m. m) ms" by (intro map_cong) auto
  then show ?case by simp
qed (auto simp: utf8_text_valid intro: map_idI)

end
