(* ===== verification/AJ_Transport.thy ===== *)
theory AJ_Transport
  imports AJ_Judge AJ_Json
begin

text \<open>
  The HTTP transport (\<^verbatim>\<open>internal/transport/httptransport\<close>) and the start of the server (\<^verbatim>\<open>cmd/server\<close>,
  \<^verbatim>\<open>internal/resource\<close>): the decoding of a request by \<^verbatim>\<open>encoding/json\<close>, the handler, the logging, \<^verbatim>\<open>Server.Run\<close>,
  and the settings. The network, the operating system, and the texts of error messages are arguments.
\<close>

section \<open>Decoding of a request\<close>

text \<open>The errors of the decoder: the end of the body, a failed read, wrong syntax, a value of a wrong type, an unknown field.\<close>

datatype json_error = JE_EOF | JE_unexpected_EOF | JE_read string | JE_syntax | JE_type | JE_unknown_field string

text \<open>
  \<^verbatim>\<open>null\<close> leaves a field as it is; any other value must have the type of the field. A later field of the same
  name overwrites an earlier one.
\<close>

definition decode_string :: "json \<Rightarrow> string \<Rightarrow> json_error + string" where
  "decode_string j old = (case j of JNull \<Rightarrow> Inr old | JStr s \<Rightarrow> Inr s | _ \<Rightarrow> Inl JE_type)"

definition ParseUint32 :: "string \<Rightarrow> 32 word option" where
  "ParseUint32 t = (if t \<noteq> [] \<and> list_all is_digit t \<and> digits_val t < 2 ^ 32 then Some (word_of_int (digits_val t)) else None)"

definition decode_uint32 :: "json \<Rightarrow> 32 word \<Rightarrow> json_error + 32 word" where
  "decode_uint32 j old = (case j of
     JNull \<Rightarrow> Inr old
   | JNum t \<Rightarrow> (case ParseUint32 t of Some n \<Rightarrow> Inr n | None \<Rightarrow> Inl JE_type)
   | _ \<Rightarrow> Inl JE_type)"

text \<open>
  The field of a key: the one of that name, or else one that differs only in case. Beyond ASCII only the
  long s and the Kelvin sign fold to ASCII letters.
\<close>

definition fold_rune :: "int \<Rightarrow> int" where
  "fold_rune r = (if 97 \<le> r \<and> r \<le> 122 then r - 32 else if r = 383 then 83 else if r = 8490 then 75 else r)"

definition find_field :: "string list \<Rightarrow> string \<Rightarrow> string option" where
  "find_field names k = (if k \<in> set names then Some k else find (\<lambda>n. map fold_rune (runes n) = map fold_rune (runes k)) names)"

fun decode_members :: "(string \<Rightarrow> json \<Rightarrow> 'a \<Rightarrow> json_error + 'a) \<Rightarrow> (string \<times> json) list \<Rightarrow> 'a \<Rightarrow> json_error + 'a" where
  "decode_members set_field [] a = Inr a"
| "decode_members set_field ((k, j) # ms) a = (case set_field k j a of Inl e \<Rightarrow> Inl e | Inr a \<Rightarrow> decode_members set_field ms a)"

definition decode_struct :: "(string \<Rightarrow> json \<Rightarrow> 'a \<Rightarrow> json_error + 'a) \<Rightarrow> json \<Rightarrow> 'a \<Rightarrow> json_error + 'a" where
  "decode_struct set_field j a = (case j of JNull \<Rightarrow> Inr a | JObj ms \<Rightarrow> decode_members set_field ms a | _ \<Rightarrow> Inl JE_type)"

definition case_fields :: "string list" where
  "case_fields = [''inputText'', ''expectedOutputText'', ''inputFile'', ''expectedOutputFile'']"

definition set_case_field :: "string \<Rightarrow> json \<Rightarrow> JudgeTestCase \<Rightarrow> json_error + JudgeTestCase" where
  "set_case_field k j tc = (case find_field case_fields k of
     None \<Rightarrow> Inl (JE_unknown_field k)
   | Some f \<Rightarrow>
       if f = ''inputText'' then map_sum id (\<lambda>s. tc\<lparr>jt_InputText := s\<rparr>) (decode_string j (jt_InputText tc))
       else if f = ''expectedOutputText'' then map_sum id (\<lambda>s. tc\<lparr>jt_ExpectedOutput := s\<rparr>) (decode_string j (jt_ExpectedOutput tc))
       else if f = ''inputFile'' then map_sum id (\<lambda>s. tc\<lparr>jt_InputFile := s\<rparr>) (decode_string j (jt_InputFile tc))
       else map_sum id (\<lambda>s. tc\<lparr>jt_ExpectedOutputFile := s\<rparr>) (decode_string j (jt_ExpectedOutputFile tc)))"

definition zero_case :: JudgeTestCase where
  "zero_case = \<lparr>jt_InputText = '''', jt_ExpectedOutput = '''', jt_InputFile = '''', jt_ExpectedOutputFile = ''''\<rparr>"

text \<open>
  An array is decoded into the elements that the memory of the slice holds, whatever is there: a second
  array for the same field starts from the elements of the first. New memory holds zero values.
\<close>

fun decode_elements :: "JudgeTestCase list \<Rightarrow> json list \<Rightarrow> json_error + JudgeTestCase list" where
  "decode_elements memory [] = Inr []"
| "decode_elements memory (j # js) =
     (case decode_struct set_case_field j (case memory of [] \<Rightarrow> zero_case | tc # _ \<Rightarrow> tc) of
        Inl e \<Rightarrow> Inl e
      | Inr tc \<Rightarrow> (case decode_elements (tl memory) js of Inl e \<Rightarrow> Inl e | Inr tcs \<Rightarrow> Inr (tc # tcs)))"

definition decode_slice :: "json \<Rightarrow> JudgeTestCase list \<Rightarrow> json_error + (JudgeTestCase list \<times> JudgeTestCase list)" where
  "decode_slice j memory = (case j of
     JNull \<Rightarrow> Inr ([], [])
   | JArr [] \<Rightarrow> Inr ([], [])
   | JArr js \<Rightarrow> (case decode_elements memory js of
       Inl e \<Rightarrow> Inl e
     | Inr tcs \<Rightarrow> Inr (tcs, tcs @ drop (length tcs) memory))
   | _ \<Rightarrow> Inl JE_type)"

definition request_fields :: "string list" where
  "request_fields = [''sourceCode'', ''checker'', ''checkerSourceCode'', ''language'', ''timeLimit'', ''memoryLimit'', ''testcases'']"

text \<open>The request together with the memory of its slice of test cases.\<close>

definition set_request_field :: "string \<Rightarrow> json \<Rightarrow> JudgeRequest \<times> JudgeTestCase list \<Rightarrow> json_error + (JudgeRequest \<times> JudgeTestCase list)" where
  "set_request_field k j rm = (case rm of (req, memory) \<Rightarrow> (case find_field request_fields k of
     None \<Rightarrow> Inl (JE_unknown_field k)
   | Some f \<Rightarrow>
       if f = ''sourceCode'' then map_sum id (\<lambda>s. (req\<lparr>jr_SourceCode := s\<rparr>, memory)) (decode_string j (jr_SourceCode req))
       else if f = ''checker'' then map_sum id (\<lambda>s. (req\<lparr>jr_Checker := s\<rparr>, memory)) (decode_string j (jr_Checker req))
       else if f = ''checkerSourceCode'' then map_sum id (\<lambda>s. (req\<lparr>jr_CheckerSourceCode := s\<rparr>, memory)) (decode_string j (jr_CheckerSourceCode req))
       else if f = ''language'' then map_sum id (\<lambda>s. (req\<lparr>jr_Language := s\<rparr>, memory)) (decode_string j (jr_Language req))
       else if f = ''timeLimit'' then map_sum id (\<lambda>n. (req\<lparr>jr_TimeLimit := n\<rparr>, memory)) (decode_uint32 j (jr_TimeLimit req))
       else if f = ''memoryLimit'' then map_sum id (\<lambda>n. (req\<lparr>jr_MemoryLimit := n\<rparr>, memory)) (decode_uint32 j (jr_MemoryLimit req))
       else map_sum id (\<lambda>(tcs, memory). (req\<lparr>jr_TestCases := tcs\<rparr>, memory)) (decode_slice j memory)))"

definition zero_request :: JudgeRequest where
  "zero_request = \<lparr>jr_SourceCode = '''', jr_Checker = '''', jr_CheckerSourceCode = '''', jr_Language = '''',
     jr_TimeLimit = 0, jr_MemoryLimit = 0, jr_TestCases = []\<rparr>"

definition decode_request :: "json \<Rightarrow> json_error + JudgeRequest" where
  "decode_request j = map_sum id fst (decode_struct set_request_field j (zero_request, []))"

section \<open>The body of a request\<close>

text \<open>The bytes that arrive, and the error with which reading ends unless it is the end of the body.\<close>

record body =
  bd_bytes :: string
  bd_error :: "string option"


definition MaxBytesReader :: "nat \<Rightarrow> body \<Rightarrow> body" where
  "MaxBytesReader n b = (if length (bd_bytes b) \<le> n then b else \<lparr>bd_bytes = take n (bd_bytes b), bd_error = Some ''http: request body too large''\<rparr>)"

text \<open>
  \<^verbatim>\<open>Decoder.readValue\<close>: the next value. The end of a value that is not an array or an object shows only at the
  byte behind it or at the end of the body.
\<close>

definition scalar :: "json \<Rightarrow> bool" where
  "scalar j \<longleftrightarrow> (case j of JArr _ \<Rightarrow> False | JObj _ \<Rightarrow> False | _ \<Rightarrow> True)"

definition readValue :: "body \<Rightarrow> json_error + (json \<times> body)" where
  "readValue b = (case scan_json BeginValue [] (bd_bytes b) of
     Complete j rest \<Rightarrow>
       (case bd_error b of
          Some e \<Rightarrow> if scalar j \<and> rest = [] then Inl (JE_read e) else Inr (j, b\<lparr>bd_bytes := rest\<rparr>)
        | None \<Rightarrow> Inr (j, b\<lparr>bd_bytes := rest\<rparr>))
   | Broken \<Rightarrow> Inl JE_syntax
   | Incomplete \<Rightarrow>
       (case bd_error b of
          Some e \<Rightarrow> Inl (JE_read e)
        | None \<Rightarrow> if list_all json_space (bd_bytes b) then Inl JE_EOF else Inl JE_unexpected_EOF))"

section \<open>Responses\<close>

text \<open>
  The response writer as the middleware wraps it: what was sent (the first status counts), and the status
  that the wrapper remembers.
\<close>

record responseWriter =
  rw_ContentType :: string
  rw_sent :: "int option"
  rw_Body :: string
  rw_statusCode :: int

definition WriteHeader :: "int \<Rightarrow> responseWriter \<Rightarrow> responseWriter" where
  "WriteHeader code w = w\<lparr>rw_statusCode := code, rw_sent := (case rw_sent w of None \<Rightarrow> Some code | Some c \<Rightarrow> Some c)\<rparr>"

definition writeJSON :: "int \<Rightarrow> json \<Rightarrow> responseWriter \<Rightarrow> responseWriter" where
  "writeJSON status data w = (let w = WriteHeader status (w\<lparr>rw_ContentType := ''application/json''\<rparr>) in
     w\<lparr>rw_Body := rw_Body w @ json_print data @ [CHR 0x0A]\<rparr>)"

definition errorResponse :: "string \<Rightarrow> json" where
  "errorResponse details = JObj ([(''error'', JStr ''Bad Request''), (''code'', JStr ''INVALID_REQUEST'')] @
     (if details = [] then [] else [(''details'', JStr details)]))"

definition writeInvalidRequest :: "string \<Rightarrow> responseWriter \<Rightarrow> responseWriter" where
  "writeInvalidRequest details = writeJSON 400 (errorResponse details)"

text \<open>The texts of errors, which the code only prints.\<close>

record error_texts =
  tx_json :: "json_error \<Rightarrow> string"
  tx_error :: "go_error \<Rightarrow> string"

definition info_text :: "error_texts \<Rightarrow> info \<Rightarrow> string" where
  "info_text tx i = (case i of Plain s \<Rightarrow> s | Formatted s err \<Rightarrow> s @ tx_error tx err)"

definition verdict_text :: "model_verdict \<Rightarrow> string" where
  "verdict_text v = (case v of Verdict_zero \<Rightarrow> '''' | VerdictOK \<Rightarrow> ''OK'' | VerdictTLE \<Rightarrow> ''TimeLimitExceeded'' | VerdictMLE \<Rightarrow> ''MemoryLimitExceeded''
     | VerdictOLE \<Rightarrow> ''OutputLimitExceeded'' | VerdictRE \<Rightarrow> ''RuntimeError'' | VerdictWA \<Rightarrow> ''WrongAnswer'' | VerdictUKE \<Rightarrow> ''UnknownError''
     | VerdictCheckerExecutionError \<Rightarrow> ''CheckerExecutionError'')"

definition status_text :: "JudgeStatus \<Rightarrow> string" where
  "status_text s = (case s of JudgeStatusOK \<Rightarrow> ''OK'' | JudgeStatusCompileError \<Rightarrow> ''CompileError'' | JudgeStatusSystemError \<Rightarrow> ''SystemError''
     | JudgeStatusCheckerCompileError \<Rightarrow> ''CheckerCompileError'' | JudgeStatusCheckerExecutionError \<Rightarrow> ''CheckerExecutionError'')"

definition compile_json :: "bool \<Rightarrow> string \<Rightarrow> json" where
  "compile_json succeeded output = JObj [(''succeeded'', JBool succeeded), (''log'', JStr output)]"

definition case_json :: "error_texts \<Rightarrow> JudgeCaseResult \<Rightarrow> json" where
  "case_json tx r = JObj [(''verdict'', JStr (verdict_text (jc_Verdict r))), (''stdout'', JStr (jc_Stdout r)),
     (''timeUsed'', JNum (vtos (jc_TimeUsed r))), (''memoryUsed'', JNum (vtos (jc_MemoryUsed r))),
     (''exitCode'', JNum (vtos (jc_ExitCode r))), (''extraInfo'', JStr (info_text tx (jc_ExtraInfo r)))]"

definition result_json :: "error_texts \<Rightarrow> JudgeResult \<Rightarrow> json" where
  "result_json tx r = JObj ([(''status'', JStr (status_text (jg_Status r))),
       (''compile'', compile_json (fst (jg_Compile r)) (info_text tx (snd (jg_Compile r))))] @
     (case jg_CheckerCompile r of None \<Rightarrow> [] | Some c \<Rightarrow> [(''checkerCompile'', compile_json (Succeeded c) (Log c))]) @
     [(''cases'', JArr (map (case_json tx) (jg_Cases r)))])"

section \<open>The handler\<close>

text \<open>\<^verbatim>\<open>handleExecute\<close>, with the judge of one session behind it.\<close>

definition handleExecute ::
  "error_texts \<Rightarrow> nat \<Rightarrow> ('c, 'k) engine \<Rightarrow> session \<Rightarrow> body \<Rightarrow> responseWriter \<Rightarrow> 'c \<Rightarrow> responseWriter \<times> 'c"
where
  "handleExecute tx maxBodyBytes en se b w cache = (case readValue (MaxBytesReader maxBodyBytes b) of
     Inl err \<Rightarrow> (writeInvalidRequest (tx_json tx err) w, cache)
   | Inr (j, b) \<Rightarrow> (case decode_request j of
       Inl err \<Rightarrow> (writeInvalidRequest (tx_json tx err) w, cache)
     | Inr req \<Rightarrow>
         if readValue b \<noteq> Inl JE_EOF then (writeInvalidRequest ''request body must contain exactly one JSON object'' w, cache)
         else (case Judge en se req cache of
             (Inl err, cache) \<Rightarrow> (writeInvalidRequest (tx_error tx err) w, cache)
           | (Inr result, cache) \<Rightarrow> (writeJSON 200 (result_json tx result) w, cache))))"


definition new_writer :: responseWriter where
  "new_writer = \<lparr>rw_ContentType = '''', rw_sent = None, rw_Body = '''', rw_statusCode = 200\<rparr>"



text \<open>
  \<^verbatim>\<open>Server.Run\<close>, on the sequence of what happens: \<^verbatim>\<open>ListenAndServe\<close> returns (with \<open>None\<close> for \<^verbatim>\<open>ErrServerClosed\<close>), the
  context ends, \<^verbatim>\<open>Shutdown\<close> returns. It has returned with an error or none once the result is \<open>Some\<close>.
\<close>

datatype run_event = ServeDone "string option" | ContextDone | ShutdownDone "string option"

datatype run_phase = Selecting | Stopping "string option option" | Stopped "string option" | Returned "string option"

definition serve_error :: "string option \<Rightarrow> string option" where
  "serve_error err = map_option (\<lambda>e. ''server error: '' @ e) err"

definition shutdown_error :: "string option \<Rightarrow> string option" where
  "shutdown_error err = map_option (\<lambda>e. ''server shutdown failed: '' @ e) err"

definition run_step :: "run_phase \<Rightarrow> run_event \<Rightarrow> run_phase" where
  "run_step p e = (case p of
     Selecting \<Rightarrow> (case e of ServeDone err \<Rightarrow> Stopping (Some err) | ContextDone \<Rightarrow> Stopping None | ShutdownDone _ \<Rightarrow> Selecting)
   | Stopping serve \<Rightarrow> (case e of
       ServeDone err \<Rightarrow> Stopping (Some err)
     | ContextDone \<Rightarrow> Stopping serve
     | ShutdownDone err \<Rightarrow> (case serve of Some serveErr \<Rightarrow> Returned (errors_Join (serve_error serveErr) (shutdown_error err)) | None \<Rightarrow> Stopped err))
   | Stopped shutdownErr \<Rightarrow> (case e of ServeDone err \<Rightarrow> Returned (errors_Join (serve_error err) (shutdown_error shutdownErr)) | _ \<Rightarrow> Stopped shutdownErr)
   | Returned r \<Rightarrow> Returned r)"

definition server_Run :: "run_event list \<Rightarrow> string option option" where
  "server_Run events = (case fold (\<lambda>e p. run_step p e) events Selecting of Returned r \<Rightarrow> Some r | _ \<Rightarrow> None)"

section \<open>What the decoder accepts\<close>

text \<open>Only values with few levels are decoded without an error.\<close>

lemma foldr_max_le: "foldr max ns 0 \<le> (n::nat) \<longleftrightarrow> (\<forall>x\<in>set ns. x \<le> n)"
  by (induction ns) auto

lemma decode_scalar_depth:
  "decode_string j old = Inr s \<Longrightarrow> json_depth j = 0" "decode_uint32 j n = Inr x \<Longrightarrow> json_depth j = 0"
  by (auto simp: decode_string_def decode_uint32_def split: json.splits option.splits)

lemma map_sum_Inr: "map_sum id f x = Inr y \<longleftrightarrow> (\<exists>z. x = Inr z \<and> y = f z)"
  by (cases x) auto

lemma decode_members_depth:
  assumes "\<And>k j a a'. set_field k j a = Inr a' \<Longrightarrow> json_depth j \<le> n" "decode_members set_field ms a = Inr a'" "(k, j) \<in> set ms"
  shows "json_depth j \<le> n"
  using assms(2,3) by (induction ms arbitrary: a) (auto split: sum.splits intro: assms(1))

lemma decode_struct_depth:
  assumes "\<And>k j a a'. set_field k j a = Inr a' \<Longrightarrow> json_depth j \<le> n" "decode_struct set_field j a = Inr a'"
  shows "json_depth j \<le> Suc n"
proof (cases j)
  case (JObj ms)
  then have "decode_members set_field ms a = Inr a'" using assms(2) by (simp add: decode_struct_def)
  then have "\<forall>(k, j)\<in>set ms. json_depth j \<le> n" using decode_members_depth [where set_field = set_field] assms(1) by blast
  then show ?thesis unfolding JObj by (auto simp: foldr_max_le)
qed (use assms(2) in \<open>auto simp: decode_struct_def\<close>)

lemma set_case_field_depth: "set_case_field k j tc = Inr tc' \<Longrightarrow> json_depth j \<le> 0"
  by (auto simp: set_case_field_def map_sum_Inr dest: decode_scalar_depth split: option.splits if_splits)

lemma decode_elements_depth: "decode_elements memory js = Inr tcs \<Longrightarrow> j \<in> set js \<Longrightarrow> json_depth j \<le> 1"
proof (induction memory js arbitrary: tcs rule: decode_elements.induct)
  case (2 memory j' js)
  obtain tc where "decode_struct set_case_field j' (case memory of [] \<Rightarrow> zero_case | tc # _ \<Rightarrow> tc) = Inr tc"
    using 2(2) by (auto split: sum.splits)
  then have "json_depth j' \<le> Suc 0" using decode_struct_depth [of set_case_field 0] set_case_field_depth by blast
  then show ?case using 2 by (auto split: sum.splits)
qed simp

lemma decode_slice_depth: "decode_slice j memory = Inr x \<Longrightarrow> json_depth j \<le> 2"
proof (cases j)
  case (JArr js)
  then show "decode_slice j memory = Inr x \<Longrightarrow> ?thesis"
    using decode_elements_depth [of memory js] by (cases js) (auto simp: decode_slice_def foldr_max_le split: sum.splits)
qed (auto simp: decode_slice_def)

lemma set_request_field_depth: "set_request_field k j rm = Inr rm' \<Longrightarrow> json_depth j \<le> 2"
  by (auto simp: set_request_field_def map_sum_Inr dest: decode_scalar_depth decode_slice_depth split: option.splits if_splits prod.splits)

lemma decode_request_depth: "decode_request j = Inr req \<Longrightarrow> json_depth j \<le> maxNestingDepth"
proof -
  assume "decode_request j = Inr req"
  then obtain rm where "decode_struct set_request_field j (zero_request, []) = Inr rm" by (auto simp: decode_request_def map_sum_Inr)
  then have "json_depth j \<le> Suc 2" using decode_struct_depth [of set_request_field 2] set_request_field_depth by blast
  then show ?thesis by (simp add: maxNestingDepth_def)
qed

section \<open>What the handler judges\<close>

text \<open>
  A body that holds a request: not longer than allowed, read to its end, one JSON text with nothing but white
  space around it, which decodes to the request.
\<close>

definition holds_request :: "nat \<Rightarrow> body \<Rightarrow> JudgeRequest \<Rightarrow> bool" where
  "holds_request n b req \<longleftrightarrow> bd_error b = None \<and> length (bd_bytes b) \<le> n \<and>
     (\<exists>before w behind j. bd_bytes b = before @ w @ behind \<and> spaces before \<and> spaces behind \<and> json_text j w \<and> decode_request j = Inr req)"

lemma readValue_EOF: "readValue b = Inl JE_EOF \<longleftrightarrow> bd_error b = None \<and> spaces (bd_bytes b)"
proof -
  have "bd_error b = None \<and> spaces (bd_bytes b)" if "readValue b = Inl JE_EOF"
    using that by (auto simp: readValue_def spaces_def split: scanned.splits option.splits if_splits)
  moreover have "readValue b = Inl JE_EOF" if "bd_error b = None \<and> spaces (bd_bytes b)"
    using that scan_only_spaces [of "bd_bytes b"] by (simp add: readValue_def spaces_def)
  ultimately show ?thesis by blast
qed

lemma number_stop_spaces: "spaces s \<Longrightarrow> number_stop s"
  using stop_spaces [of s "[]"] by (simp add: number_stop_def)

lemma readValue_text:
  assumes "bd_error b = None" "bd_bytes b = before @ w @ behind" "spaces before" "spaces behind" "json_text j w" "json_depth j \<le> maxNestingDepth"
  shows "readValue b = Inr (j, b\<lparr>bd_bytes := behind\<rparr>)"
proof -
  have "scan_json BeginValue [] (bd_bytes b) = scan_json BeginValue [] (w @ behind)" unfolding assms(2) using assms(3) by (intro scan_spaces) simp_all
  also have "\<dots> = scan_json (EndValue j) [] behind"
    using scan_text(1) [OF assms(5), of BeginValue "[]"] assms(6) number_stop_spaces [OF assms(4)] by (simp add: begins_value_def)
  finally show ?thesis using assms(1) by (simp add: readValue_def scan_done)
qed

lemma handleExecute_judges:
  assumes "holds_request n b req"
  shows "handleExecute tx n en se b w cache = (case Judge en se req cache of
     (Inl err, cache) \<Rightarrow> (writeInvalidRequest (tx_error tx err) w, cache)
   | (Inr result, cache) \<Rightarrow> (writeJSON 200 (result_json tx result) w, cache))"
proof -
  obtain before v behind j where b: "bd_error b = None" "length (bd_bytes b) \<le> n" "bd_bytes b = before @ v @ behind" "spaces before" "spaces behind"
    "json_text j v" "decode_request j = Inr req" using assms by (auto simp: holds_request_def)
  have "MaxBytesReader n b = b" using b(2) by (simp add: MaxBytesReader_def)
  moreover have "readValue b = Inr (j, b\<lparr>bd_bytes := behind\<rparr>)" using b(1,3-6) decode_request_depth [OF b(7)] by (rule readValue_text)
  moreover have "readValue (b\<lparr>bd_bytes := behind\<rparr>) = Inl JE_EOF" using b(1,5) by (simp add: readValue_EOF)
  ultimately show ?thesis using b(7) by (simp add: handleExecute_def)
qed

lemma handleExecute_rejects:
  assumes "\<nexists>req. holds_request n b req"
  shows "\<exists>details. handleExecute tx n en se b w cache = (writeInvalidRequest details w, cache)"
proof (cases "readValue (MaxBytesReader n b)")
  case (Inr jb)
  obtain j b' where jb: "jb = (j, b')" by fastforce
  have "readValue b' \<noteq> Inl JE_EOF" if "decode_request j = Inr req" for req
  proof
    assume "readValue b' = Inl JE_EOF"
    then have e: "bd_error b' = None" "spaces (bd_bytes b')" by (simp_all add: readValue_EOF)
    let ?m = "MaxBytesReader n b"
    have m: "scan_json BeginValue [] (bd_bytes ?m) = Complete j (bd_bytes b')" "bd_error ?m = bd_error b'"
      using Inr unfolding jb by (auto simp: readValue_def split: scanned.splits option.splits if_splits)
    then have "length (bd_bytes b) \<le> n" "?m = b" using e(1) by (auto simp: MaxBytesReader_def split: if_splits)
    moreover obtain before v where "bd_bytes ?m = before @ v @ bd_bytes b'" "spaces before" "json_text j v" using scan_value_sound [OF m(1)] by blast
    ultimately have "holds_request n b req" using e m(2) that unfolding holds_request_def by auto
    then show False using assms by blast
  qed
  then show ?thesis using Inr unfolding jb by (cases "decode_request j") (auto simp: handleExecute_def)
qed (auto simp: handleExecute_def)

section \<open>Requests as JSON\<close>

text \<open>How \<^verbatim>\<open>json.Marshal\<close> writes a request, by the tags of \<^verbatim>\<open>model.JudgeRequest\<close>.\<close>

definition unless_empty :: "string \<Rightarrow> string \<Rightarrow> (string \<times> json) list" where
  "unless_empty k s = (if s = [] then [] else [(k, JStr s)])"

definition test_case_json :: "JudgeTestCase \<Rightarrow> json" where
  "test_case_json tc = JObj ([(''inputText'', JStr (jt_InputText tc)), (''expectedOutputText'', JStr (jt_ExpectedOutput tc))] @
     unless_empty ''inputFile'' (jt_InputFile tc) @ unless_empty ''expectedOutputFile'' (jt_ExpectedOutputFile tc))"

definition request_json :: "JudgeRequest \<Rightarrow> json" where
  "request_json req = JObj ([(''sourceCode'', JStr (jr_SourceCode req))] @ unless_empty ''checker'' (jr_Checker req) @
     unless_empty ''checkerSourceCode'' (jr_CheckerSourceCode req) @
     [(''language'', JStr (jr_Language req)), (''timeLimit'', JNum (vtos (uint (jr_TimeLimit req)))),
      (''memoryLimit'', JNum (vtos (uint (jr_MemoryLimit req)))), (''testcases'', JArr (map test_case_json (jr_TestCases req)))])"

lemma find_exact: "k \<in> set names \<Longrightarrow> find_field names k = Some k"
  by (simp add: find_field_def)

lemma set_case_field_simps:
  "set_case_field ''inputText'' (JStr s) tc = Inr (tc\<lparr>jt_InputText := s\<rparr>)"
  "set_case_field ''expectedOutputText'' (JStr s) tc = Inr (tc\<lparr>jt_ExpectedOutput := s\<rparr>)"
  "set_case_field ''inputFile'' (JStr s) tc = Inr (tc\<lparr>jt_InputFile := s\<rparr>)"
  "set_case_field ''expectedOutputFile'' (JStr s) tc = Inr (tc\<lparr>jt_ExpectedOutputFile := s\<rparr>)"
  by (simp_all add: set_case_field_def find_exact case_fields_def decode_string_def)

lemma decode_test_case: "decode_struct set_case_field (test_case_json tc) zero_case = Inr tc"
  by (simp add: decode_struct_def test_case_json_def unless_empty_def set_case_field_simps zero_case_def)

lemma decode_test_cases: "decode_elements [] (map test_case_json tcs) = Inr tcs"
  by (induction tcs) (simp_all add: decode_test_case)

lemma ParseUint32_vtos: "ParseUint32 (vtos (uint (n :: 32 word))) = Some n"
proof -
  have "uint n < 2 ^ 32" using uint_lt2p [of n] by simp
  then show ?thesis using vtos_digits [of "uint n"] vtos_nonempty [of "uint n"] digits_val_vtos [of "uint n"] by (simp add: ParseUint32_def)
qed

lemma set_request_field_simps:
  "set_request_field ''sourceCode'' (JStr s) (req, m) = Inr (req\<lparr>jr_SourceCode := s\<rparr>, m)"
  "set_request_field ''checker'' (JStr s) (req, m) = Inr (req\<lparr>jr_Checker := s\<rparr>, m)"
  "set_request_field ''checkerSourceCode'' (JStr s) (req, m) = Inr (req\<lparr>jr_CheckerSourceCode := s\<rparr>, m)"
  "set_request_field ''language'' (JStr s) (req, m) = Inr (req\<lparr>jr_Language := s\<rparr>, m)"
  "set_request_field ''timeLimit'' (JNum (vtos (uint t))) (req, m) = Inr (req\<lparr>jr_TimeLimit := t\<rparr>, m)"
  "set_request_field ''memoryLimit'' (JNum (vtos (uint t))) (req, m) = Inr (req\<lparr>jr_MemoryLimit := t\<rparr>, m)"
  "set_request_field ''testcases'' (JArr (map test_case_json tcs)) (req, []) = Inr (req\<lparr>jr_TestCases := tcs\<rparr>, tcs)"
  by (simp_all add: set_request_field_def find_exact request_fields_def decode_string_def decode_uint32_def ParseUint32_vtos)
    (cases tcs; simp add: decode_slice_def decode_test_cases decode_test_case)

theorem decode_request_json: "decode_request (request_json req) = Inr req"
  by (simp add: decode_request_def decode_struct_def request_json_def unless_empty_def set_request_field_simps zero_request_def)

definition valid_case :: "JudgeTestCase \<Rightarrow> bool" where
  "valid_case tc \<longleftrightarrow> ValidString (jt_InputText tc) \<and> ValidString (jt_ExpectedOutput tc) \<and> ValidString (jt_InputFile tc) \<and> ValidString (jt_ExpectedOutputFile tc)"

definition valid_request :: "JudgeRequest \<Rightarrow> bool" where
  "valid_request req \<longleftrightarrow> ValidString (jr_SourceCode req) \<and> ValidString (jr_Checker req) \<and> ValidString (jr_CheckerSourceCode req) \<and>
     ValidString (jr_Language req) \<and> list_all valid_case (jr_TestCases req)"

lemma valid_names: "ValidString ''inputText''" "ValidString ''expectedOutputText''" "ValidString ''inputFile''" "ValidString ''expectedOutputFile''"
  "ValidString ''sourceCode''" "ValidString ''checker''" "ValidString ''checkerSourceCode''" "ValidString ''language''" "ValidString ''timeLimit''"
  "ValidString ''memoryLimit''" "ValidString ''testcases''"
  by code_simp+

lemma request_json_facts: "valid_request req \<Longrightarrow> json_valid (request_json req)" "numbers_ok (request_json req)"
  by (auto simp: request_json_def test_case_json_def unless_empty_def valid_request_def valid_case_def list_all_iff valid_names number_text_vtos)

text \<open>The texts around a printed value are still numbers as the encoder writes them.\<close>

lemma holds_printed_request:
  assumes "valid_request req" "spaces before" "spaces behind" "length (before @ json_print (request_json req) @ behind) \<le> n"
  shows "holds_request n \<lparr>bd_bytes = before @ json_print (request_json req) @ behind, bd_error = None\<rparr> req"
proof -
  have "json_text (request_json req) (json_print (request_json req))"
    using print_text [OF request_json_facts(2), of req] json_utf8_valid [OF request_json_facts(1) [OF assms(1)]] by simp
  then show ?thesis using assms(2-4) decode_request_json [of req] unfolding holds_request_def by auto
qed

lemma holds_request_scan: "holds_request n b req \<Longrightarrow> \<exists>j rest. scan_json BeginValue [] (bd_bytes b) = Complete j rest \<and> decode_request j = Inr req"
proof -
  assume "holds_request n b req"
  then obtain before v behind j where b: "bd_error b = None" "bd_bytes b = before @ v @ behind" "spaces before" "spaces behind" "json_text j v" "decode_request j = Inr req"
    by (auto simp: holds_request_def)
  have "readValue b = Inr (j, b\<lparr>bd_bytes := behind\<rparr>)" using b(1-5) decode_request_depth [OF b(6)] by (rule readValue_text)
  then show ?thesis using b(1,6) by (auto simp: readValue_def split: scanned.splits if_splits)
qed




section \<open>The server\<close>

text \<open>Once the server has returned, \<^verbatim>\<open>ListenAndServe\<close> and \<^verbatim>\<open>Shutdown\<close> have both returned, and every error of theirs is reported.\<close>

definition run_inv :: "run_event list \<Rightarrow> run_phase \<Rightarrow> bool" where
  "run_inv events p = (case p of
     Selecting \<Rightarrow> \<forall>e\<in>set events. \<exists>x. e = ShutdownDone x
   | Stopping None \<Rightarrow> \<forall>x. ServeDone x \<notin> set events
   | Stopping (Some serveErr) \<Rightarrow> ServeDone serveErr \<in> set events
   | Stopped shutdownErr \<Rightarrow> ShutdownDone shutdownErr \<in> set events
   | Returned r \<Rightarrow> \<exists>x y. ServeDone x \<in> set events \<and> ShutdownDone y \<in> set events \<and> r = errors_Join (serve_error x) (shutdown_error y))"

lemma run_step_inv: "run_inv events p \<Longrightarrow> run_inv (events @ [e]) (run_step p e)"
  by (auto simp: run_inv_def run_step_def split: run_phase.splits run_event.splits option.splits)

lemma run_fold_inv: "run_inv past p \<Longrightarrow> run_inv (past @ events) (fold (\<lambda>e p. run_step p e) events p)"
proof (induction events arbitrary: past p)
  case (Cons e events)
  then show ?case using Cons.IH [OF run_step_inv [OF Cons.prems, of e]] by simp
qed simp

theorem server_Run_waits:
  assumes "server_Run events = Some r"
  shows "\<exists>x y. ServeDone x \<in> set events \<and> ShutdownDone y \<in> set events \<and> r = errors_Join (serve_error x) (shutdown_error y)"
  using assms run_fold_inv [of "[]" Selecting events] by (auto simp: server_Run_def run_inv_def split: run_phase.splits)

theorem server_Run_returns: "server_Run [ContextDone, ServeDone x, ShutdownDone y] = Some (errors_Join (serve_error x) (shutdown_error y))"
  "server_Run [ContextDone, ShutdownDone y, ServeDone x] = Some (errors_Join (serve_error x) (shutdown_error y))"
  "server_Run [ServeDone x, ShutdownDone y] = Some (errors_Join (serve_error x) (shutdown_error y))"
  by (simp_all add: server_Run_def run_step_def)

section \<open>The promises of the transport\<close>

text \<open>
  C11. The handler judges exactly the bodies that hold a request: at most the allowed number of bytes, read to
  the end, and exactly one JSON text (by the grammar) with only the known fields and values of their types.
  Then the answer is the result of the judge, or its error as status 400. On any other body the answer is
  status 400, nothing is judged and the cache of checkers is unchanged.
\<close>

theorem http_judges_exactly:
  "(holds_request n b req \<longrightarrow> handleExecute tx n en se b w cache = (case Judge en se req cache of
      (Inl err, cache) \<Rightarrow> (writeInvalidRequest (tx_error tx err) w, cache)
    | (Inr result, cache) \<Rightarrow> (writeJSON 200 (result_json tx result) w, cache))) \<and>
   ((\<nexists>req. holds_request n b req) \<longrightarrow> (\<exists>details. handleExecute tx n en se b w cache = (writeInvalidRequest details w, cache)))"
  by (intro conjI impI handleExecute_judges handleExecute_rejects)

definition demo_texts :: error_texts where
  "demo_texts = \<lparr>tx_json = (\<lambda>e. ''invalid JSON''), tx_error = (\<lambda>e. ''invalid request'')\<rparr>"

definition demo_body :: "string \<Rightarrow> body" where
  "demo_body s = \<lparr>bd_bytes = s, bd_error = None\<rparr>"

lemma demo_request_valid: "valid_request demo_request"
  by (simp add: valid_request_def valid_case_def demo_request_def two_cases_def) code_simp

lemma demo_request_short: "length (json_print (request_json demo_request)) \<le> 500"
  by code_simp

theorem http_judges_exactly_witness:
  "handleExecute demo_texts 500 demo_engine (demo_session default_prog) (demo_body (json_print (request_json demo_request))) new_writer [] =
     (case Judge demo_engine (demo_session default_prog) demo_request [] of
        (Inl err, cache) \<Rightarrow> (writeInvalidRequest (tx_error demo_texts err) new_writer, cache)
      | (Inr result, cache) \<Rightarrow> (writeJSON 200 (result_json demo_texts result) new_writer, cache)) \<and>
   (\<exists>details. handleExecute demo_texts 500 demo_engine (demo_session default_prog) (demo_body ''[]'') new_writer [] =
     (writeInvalidRequest details new_writer, []))"
proof -
  have "holds_request 500 (demo_body (json_print (request_json demo_request))) demo_request"
    using holds_printed_request [OF demo_request_valid spaces_Nil spaces_Nil, of 500] demo_request_short by (simp add: demo_body_def)
  moreover have "\<not> holds_request 500 (demo_body ''[]'') req" for req
  proof
    assume "holds_request 500 (demo_body ''[]'') req"
    then obtain j rest where "scan_json BeginValue [] ''[]'' = Complete j rest" "decode_request j = Inr req" using holds_request_scan by (fastforce simp: demo_body_def)
    moreover have "scan_json BeginValue [] ''[]'' = Complete (JArr []) []" by code_simp
    ultimately show False by (auto simp: decode_request_def decode_struct_def)
  qed
  ultimately show ?thesis using http_judges_exactly [of 500 "demo_body (json_print (request_json demo_request))" demo_request demo_texts demo_engine "demo_session default_prog" new_writer "[]"]
      http_judges_exactly [of 500 "demo_body ''[]''" demo_request demo_texts demo_engine "demo_session default_prog" new_writer "[]"] by blast
qed



end
