(* ===== verification/AJ_Server.thy ===== *)
theory AJ_Server
  imports AJ_Transport
begin

text \<open>
  The start of the server: the settings from the environment (\<^verbatim>\<open>cmd/server/main.go\<close>), the external files
  (\<^verbatim>\<open>internal/resource\<close>), and the construction of the judge, in which any part can fail. The answers of
  the operating system and the container runtime are a record.
\<close>

section \<open>Settings\<close>

definition go_env :: "(string \<Rightarrow> string option) \<Rightarrow> string \<Rightarrow> string \<Rightarrow> string" where
  "go_env vars key fallback = (case vars key of None \<Rightarrow> fallback | Some v \<Rightarrow> TrimSpace v)"

text \<open>\<^verbatim>\<open>strconv.Atoi\<close>: a sign or none, digits, and a value of 64 bits.\<close>

definition Atoi :: "string \<Rightarrow> int option" where
  "Atoi s = (let ds = (case s of c # cs \<Rightarrow> if c = CHR ''+'' \<or> c = CHR ''-'' then cs else s | [] \<Rightarrow> s);
       n = (if s \<noteq> [] \<and> hd s = CHR ''-'' then - digits_val ds else digits_val ds) in
     if ds \<noteq> [] \<and> list_all is_digit ds \<and> LLONG_MIN \<le> n \<and> n \<le> LLONG_MAX then Some n else None)"

datatype settings_error = Empty_listen_addr | Not_an_integer string string | Bad_log_level string

definition go_envInt :: "(string \<Rightarrow> string option) \<Rightarrow> string \<Rightarrow> int \<Rightarrow> settings_error + int" where
  "go_envInt vars key fallback = (case vars key of
     None \<Rightarrow> Inr fallback
   | Some v \<Rightarrow> (case Atoi (TrimSpace v) of Some n \<Rightarrow> Inr n | None \<Rightarrow> Inl (Not_an_integer key v)))"

text \<open>
  \<^verbatim>\<open>Level.UnmarshalText\<close>: a name in any case, perhaps with an offset. Beyond ASCII only the dotless i has an
  upper case that occurs in a name. Adding the offset wraps.
\<close>

definition upper_rune :: "int \<Rightarrow> int" where
  "upper_rune r = (if 97 \<le> r \<and> r \<le> 122 then r - 32 else if r = 305 then 73 else if r = 383 then 83 else r)"

definition level_names :: "(string \<times> int) list" where
  "level_names = [(''DEBUG'', -4), (''INFO'', 0), (''WARN'', 4), (''ERROR'', 8)]"

definition parse_level :: "string \<Rightarrow> int option" where
  "parse_level s =
     (let name = takeWhile (\<lambda>c. c \<noteq> CHR ''+'' \<and> c \<noteq> CHR ''-'') s; rest = dropWhile (\<lambda>c. c \<noteq> CHR ''+'' \<and> c \<noteq> CHR ''-'') s in
      case (if rest = [] then Some 0 else Atoi rest) of
        None \<Rightarrow> None
      | Some offset \<Rightarrow> (case find (\<lambda>(n, l). map uchar n = map upper_rune (runes name)) level_names of
          None \<Rightarrow> None
        | Some (n, l) \<Rightarrow> Some (sint (word_of_int (l + offset) :: 64 word))))"

record settings =
  st_listenAddr :: string
  st_containerdSocket :: string
  st_maxConcurrentContainers :: int
  st_maxConcurrentJudges :: int
  st_externalDataDir :: string
  st_logLevel :: int

definition loadSettings :: "(string \<Rightarrow> string option) \<Rightarrow> settings_error + settings" where
  "loadSettings vars =
     (let addr = go_env vars ''HTTP_LISTEN_ADDR'' '':8080'' in
      if addr = [] then Inl Empty_listen_addr
      else case go_envInt vars ''MAX_CONCURRENT_CONTAINERS'' 8 of
        Inl err \<Rightarrow> Inl err
      | Inr containers \<Rightarrow> (case go_envInt vars ''MAX_CONCURRENT_JUDGES'' 4 of
          Inl err \<Rightarrow> Inl err
        | Inr judges \<Rightarrow>
            let logLevel = go_env vars ''LOG_LEVEL'' ''info'' in
            (case parse_level logLevel of
               None \<Rightarrow> Inl (Bad_log_level logLevel)
             | Some level \<Rightarrow> Inr \<lparr>st_listenAddr = addr,
                 st_containerdSocket = go_env vars ''CONTAINERD_SOCKET'' ''/run/containerd/containerd.sock'',
                 st_maxConcurrentContainers = containers, st_maxConcurrentJudges = judges,
                 st_externalDataDir = go_env vars ''EXTERNAL_DATA_DIR'' '''', st_logLevel = level\<rparr>)))"

section \<open>The parts of the judge\<close>

text \<open>
  What the host answers: the set of processors, the files bundled with the program (their contents, and
  whether a name is a regular file), whether a path is a directory, how a file opens below a root (with the
  result of its \<^verbatim>\<open>Stat\<close>), and the checks of control groups and containerd.
\<close>

record host =
  ho_affinity :: "string + (int \<Rightarrow> bool)"
  ho_bundled :: fs
  ho_bundledRegular :: "string \<Rightarrow> string + bool"
  ho_isDir :: "string \<Rightarrow> string + bool"
  ho_openInRoot :: "string \<Rightarrow> string \<Rightarrow> string + (string + bool) \<times> (string + string)"
  ho_cgroupV2 :: bool
  ho_containerd :: "string \<Rightarrow> string option"

datatype init_error =
    Socket_required | Namespace_required | Affinity_failed string | No_processors string
  | Mount_not_absolute string | Mount_not_accessible string | Mount_not_directory string
  | Executions_not_positive int | Judges_not_positive int
  | Cgroup_v2_required | Containerd_unavailable string
  | Header_unavailable string | Default_checker_unavailable string | Default_checker_not_regular

definition newCPUPool :: "host \<Rightarrow> init_error + int list" where
  "newCPUPool h = (case ho_affinity h of
     Inl err \<Rightarrow> Inl (Affinity_failed err)
   | Inr isSet \<Rightarrow> (case cpuIDsFromAffinity isSet of
       None \<Rightarrow> Inl (Affinity_failed '''')
     | Some cpus \<Rightarrow> (case newCPUPoolFromIDs cpus of Inl err \<Rightarrow> Inl (No_processors err) | Inr pool \<Rightarrow> Inr pool)))"

text \<open>\<^verbatim>\<open>sandbox.New\<close> and \<^verbatim>\<open>CheckEnvironment\<close>.\<close>

record sandbox =
  sb_socketPath :: string
  sb_cpus :: "int list"

definition sandbox_New :: "host \<Rightarrow> string \<Rightarrow> string \<Rightarrow> init_error + sandbox" where
  "sandbox_New h socketPath namespace =
     (if TrimSpace socketPath = [] then Inl Socket_required
      else if TrimSpace namespace = [] then Inl Namespace_required
      else map_sum id (\<lambda>cpus. \<lparr>sb_socketPath = socketPath, sb_cpus = cpus\<rparr>) (newCPUPool h))"

definition CheckEnvironment :: "host \<Rightarrow> sandbox \<Rightarrow> init_error option" where
  "CheckEnvironment h sb = (if \<not> ho_cgroupV2 h then Some Cgroup_v2_required
     else map_option Containerd_unavailable (ho_containerd h (sb_socketPath sb)))"

text \<open>\<^verbatim>\<open>resource.NewExternal\<close>, and the file system it makes: a name is opened below the mount point and must be a regular file.\<close>

definition NewExternal :: "host \<Rightarrow> string \<Rightarrow> init_error option" where
  "NewExternal h mountPoint =
     (if \<not> IsAbs mountPoint then Some (Mount_not_absolute mountPoint)
      else case ho_isDir h mountPoint of
        Inl err \<Rightarrow> Some (Mount_not_accessible err)
      | Inr dir \<Rightarrow> if dir then None else Some (Mount_not_directory mountPoint))"

definition external_Open :: "host \<Rightarrow> string \<Rightarrow> fs" where
  "external_Open h mountPoint relPath =
     (if \<not> ValidPath relPath then Inl ''invalid argument''
      else case ho_openInRoot h mountPoint relPath of
        Inl err \<Rightarrow> Inl err
      | Inr (Inl err, content) \<Rightarrow> Inl err
      | Inr (Inr regular, content) \<Rightarrow> if regular then content else Inl ''external resource must be a regular file'')"

text \<open>\<^verbatim>\<open>newChecker\<close>: the header of testlib and the default checker must be bundled.\<close>

definition newChecker :: "host \<Rightarrow> init_error + string" where
  "newChecker h = (case ho_bundled h ''testlib.h'' of
     Inl err \<Rightarrow> Inl (Header_unavailable err)
   | Inr testlibHeader \<Rightarrow> (case ho_bundledRegular h (builtinCheckerPath ''default'') of
       Inl err \<Rightarrow> Inl (Default_checker_unavailable err)
     | Inr regular \<Rightarrow> if regular then Inr testlibHeader else Inl Default_checker_not_regular))"

text \<open>\<^verbatim>\<open>initializeServer\<close>: the sandbox and the engine of a server that starts; the capacities of the two semaphores are those of the settings.\<close>

record ('c, 'k) server =
  sv_addr :: string
  sv_sandbox :: sandbox
  sv_executions :: int
  sv_judges :: int
  sv_engine :: "('c, 'k) engine"

definition initializeServer :: "('c, 'k) cache_lib \<Rightarrow> (int \<Rightarrow> bool) \<Rightarrow> host \<Rightarrow> settings \<Rightarrow> init_error + ('c, 'k) server" where
  "initializeServer lib uni h cfg = (case sandbox_New h (st_containerdSocket cfg) ''afterglow-sandbox'' of
     Inl err \<Rightarrow> Inl err
   | Inr sb \<Rightarrow>
       (case (if st_externalDataDir cfg = [] then None else NewExternal h (st_externalDataDir cfg)) of
          Some err \<Rightarrow> Inl err
        | None \<Rightarrow>
            let externalFS = (if st_externalDataDir cfg = [] then None else Some (external_Open h (st_externalDataDir cfg))) in
            if st_maxConcurrentContainers cfg \<le> 0 then Inl (Executions_not_positive (st_maxConcurrentContainers cfg))
            else (case CheckEnvironment h sb of
                Some err \<Rightarrow> Inl err
              | None \<Rightarrow>
                  if st_maxConcurrentJudges cfg \<le> 0 then Inl (Judges_not_positive (st_maxConcurrentJudges cfg))
                  else (case newChecker h of
                      Inl err \<Rightarrow> Inl err
                    | Inr testlibHeader \<Rightarrow> Inr \<lparr>sv_addr = st_listenAddr cfg, sv_sandbox = sb,
                        sv_executions = st_maxConcurrentContainers cfg, sv_judges = st_maxConcurrentJudges cfg,
                        sv_engine = \<lparr>en_bundledFS = ho_bundled h, en_externalFS = externalFS, en_testlibHeader = testlibHeader,
                          en_cache = lib, en_unicode = uni\<rparr>\<rparr>))))"

text \<open>\<^verbatim>\<open>main\<close>: the exit code, or \<open>None\<close> while the server runs.\<close>

definition server_main :: "('c, 'k) cache_lib \<Rightarrow> (int \<Rightarrow> bool) \<Rightarrow> host \<Rightarrow> (string \<Rightarrow> string option) \<Rightarrow> run_event list \<Rightarrow> int option" where
  "server_main lib uni h vars events = (case loadSettings vars of
     Inl err \<Rightarrow> Some 1
   | Inr cfg \<Rightarrow> (case initializeServer lib uni h cfg of
       Inl err \<Rightarrow> Some 1
     | Inr sv \<Rightarrow> (case server_Run events of
         None \<Rightarrow> None
       | Some serverErr \<Rightarrow> if serverErr \<noteq> None then Some 1 else Some 0)))"

section \<open>The processors of the host\<close>

text \<open>The loop over the processors ends, with all of them.\<close>

lemma cpuIDs_loop_all:
  assumes "0 \<le> k" "k \<le> 1024" "fuel = nat (1025 - k)"
  shows "cpuIDs_loop isSet k (length (filter isSet [0..1023])) (filter isSet [0..k - 1]) fuel = Some (filter isSet [0..1023])"
  using assms
proof (induction fuel arbitrary: k)
  case (Suc fuel)
  have split: "[0..1023] = [0..k - 1] @ [k..1023]" using Suc.prems(1,2) upto_split1 [of 0 k 1023] by (cases "k = 1024") (simp_all add: upto_split1)
  show ?case
  proof (cases "length (filter isSet [0..k - 1]) < length (filter isSet [0..1023])")
    case True
    then have "k < 1024" using Suc.prems(2) by (cases "k = 1024") simp_all
    moreover have "filter isSet [0..k] = (if isSet k then filter isSet [0..k - 1] @ [k] else filter isSet [0..k - 1])"
      using Suc.prems(1) upto_rec2 [of 0 k] by simp
    moreover have "fuel = nat (1025 - (k + 1))" using Suc.prems(3) by simp
    then have "cpuIDs_loop isSet (k + 1) (length (filter isSet [0..1023])) (filter isSet [0..k + 1 - 1]) fuel = Some (filter isSet [0..1023])"
      using Suc.prems(1) \<open>k < 1024\<close> by (intro Suc.IH) simp_all
    ultimately show ?thesis using True by simp
  next
    case False
    then have "filter isSet [k..1023] = []" unfolding split by simp
    then have "filter isSet [0..1023] = filter isSet [0..k - 1]" unfolding split by simp
    then show ?thesis by simp
  qed
qed simp

theorem cpuIDsFromAffinity_all: "cpuIDsFromAffinity isSet = Some (filter isSet [0..1023])"
  using cpuIDs_loop_all [of 0 1025 isSet] by (simp add: cpuIDsFromAffinity_def)

section \<open>A server that starts\<close>

text \<open>
  A server starts only with positive capacities, a processor to run on, the header of testlib and, if it has
  external files, a mount point that is an absolute path of a directory; only local paths of regular files are read there.
\<close>

theorem server_starts:
  assumes "initializeServer lib uni h cfg = Inr sv"
  shows "0 < sv_executions sv \<and> 0 < sv_judges sv \<and>
    (\<exists>isSet. ho_affinity h = Inr isSet \<and> sb_cpus (sv_sandbox sv) = filter isSet [0..1023] \<and> sb_cpus (sv_sandbox sv) \<noteq> []) \<and>
    ho_bundled h ''testlib.h'' = Inr (en_testlibHeader (sv_engine sv)) \<and>
    (\<forall>efs p content. en_externalFS (sv_engine sv) = Some efs \<longrightarrow> efs p = Inr content \<longrightarrow>
      IsAbs (st_externalDataDir cfg) \<and> ho_isDir h (st_externalDataDir cfg) = Inr True \<and> ValidPath p)"
proof -
  obtain sb where sb: "sandbox_New h (st_containerdSocket cfg) ''afterglow-sandbox'' = Inr sb"
    using assms by (auto simp: initializeServer_def split: sum.splits)
  obtain cpus where c: "newCPUPool h = Inr cpus" "sb_cpus sb = cpus" using sb by (auto simp: sandbox_New_def map_sum_Inr split: if_splits)
  then obtain isSet where "ho_affinity h = Inr isSet" "cpus = filter isSet [0..1023]" "cpus \<noteq> []"
    by (auto simp: newCPUPool_def cpuIDsFromAffinity_all newCPUPoolFromIDs_def split: sum.splits if_splits)
  moreover have "sv_sandbox sv = sb" "0 < sv_executions sv" "0 < sv_judges sv" "newChecker h = Inr (en_testlibHeader (sv_engine sv))"
    "en_externalFS (sv_engine sv) = (if st_externalDataDir cfg = [] then None else Some (external_Open h (st_externalDataDir cfg)))"
    "st_externalDataDir cfg = [] \<or> NewExternal h (st_externalDataDir cfg) = None"
    using assms sb by (auto simp: initializeServer_def Let_def split: sum.splits option.splits if_splits)
  moreover from this have "ho_bundled h ''testlib.h'' = Inr (en_testlibHeader (sv_engine sv))" by (auto simp: newChecker_def split: sum.splits if_splits)
  ultimately show ?thesis using c(2) by (auto simp: NewExternal_def external_Open_def split: sum.splits if_splits)
qed

text \<open>The program ends with code 0 only after it served, and both serving and the shutdown ended without an error.\<close>

theorem clean_exit:
  assumes "server_main lib uni h vars events = Some 0"
  shows "\<exists>cfg sv. loadSettings vars = Inr cfg \<and> initializeServer lib uni h cfg = Inr sv \<and> ServeDone None \<in> set events \<and> ShutdownDone None \<in> set events"
proof -
  obtain cfg sv where "loadSettings vars = Inr cfg" "initializeServer lib uni h cfg = Inr sv" and r: "server_Run events = Some None"
    using assms by (auto simp: server_main_def split: sum.splits option.splits if_splits)
  moreover obtain x y where "ServeDone x \<in> set events" "ShutdownDone y \<in> set events" "errors_Join (serve_error x) (shutdown_error y) = None"
    using server_Run_waits [OF r] by metis
  moreover from this(3) have "x = None" "y = None" by (auto simp: errors_Join_def serve_error_def shutdown_error_def split: option.splits)
  ultimately show ?thesis by blast
qed

text \<open>Without variables in the environment the defaults are taken.\<close>

theorem default_settings: "loadSettings (\<lambda>_. None) = Inr \<lparr>st_listenAddr = '':8080'', st_containerdSocket = ''/run/containerd/containerd.sock'',
    st_maxConcurrentContainers = 8, st_maxConcurrentJudges = 4, st_externalDataDir = '''', st_logLevel = 0\<rparr>"
  by code_simp

end
