(* ===== verification/Spec2Isabelle.thy ===== *)
theory Spec2Isabelle
  imports TL_Line_Checkers TL_Hcmp TL_Bounded TL_Opts TL_Scorer TL_Print TL_Reals TL_Random_Reals TL_Program AJ_Server
begin

text \<open>
  A verification library for the judge engine: the C++ header \<^verbatim>\<open>src/support/testlib.h\<close>, the checker
  programs under \<^verbatim>\<open>src/support/checkers\<close>, and the Go service that compiles and runs them. The judge runs a
  checker as \<^verbatim>\<open>checker input output answer\<close> after a contestant's program; the exit code of the
  checker is the verdict (0 accepted, 1 wrong answer, 2 presentation error, 3 failure of the judging
  system). The library models the header and the checkers as functions and proves what the exit codes
  mean.

  \<^bold>\<open>The parts and how they interact.\<close>
  A checker calls \<^verbatim>\<open>registerTestlibCmd\<close>, which opens three global streams \<^verbatim>\<open>inf\<close>, \<^verbatim>\<open>ouf\<close>, \<^verbatim>\<open>ans\<close> of \<^verbatim>\<open>class
  InStream\<close>. A stream owns an \<^verbatim>\<open>InputStreamReader\<close> (over a string, over \<^verbatim>\<open>FILE*\<close> with \<^verbatim>\<open>getc\<close>, or over
  \<^verbatim>\<open>FILE*\<close> with a buffer) and offers methods for characters, words, integers and lines. A method that
  fails, and the checker itself, end the process by \<^verbatim>\<open>InStream::quit\<close>, which may redirect itself to a
  failure, checks that the output is used up and writes the report. A global guard catches a \<^verbatim>\<open>main\<close>
  that returns without a verdict.

  \<^bold>\<open>How the model represents the program.\<close>
  An operation on a state is a function from the state to an \<open>outcome\<close>: \<open>Ret\<close> a value and the new
  state, \<open>Quit\<close> a request to quit (on which stream, result, message) with the state at that moment,
  or \<open>Crash\<close> for undefined behaviour. \<open>andThen\<close> is the sequence of two statements. Characters are
  bytes; \<open>schar\<close> and \<open>uchar\<close> are their values as signed and unsigned \<^verbatim>\<open>char\<close>. Integers are
  mathematical integers with every check against the limits of their C++ type written out. Files and
  the report file are part of an environment record. Loops are recursive functions with a measure; the
  loops of the line checkers carry a bound \<open>fuel\<close> on their rounds, whose end is \<open>Crash\<close>, and their
  theorems hold for every bound above the length of the file.

  \<^bold>\<open>The theories.\<close>
  \<^item> \<open>TL_Prelude\<close>: limits of the integer types, bytes, results, outcomes.
  \<^item> \<open>TL_Text\<close>: the helpers on texts and numbers (\<^verbatim>\<open>vtos\<close>, \<^verbatim>\<open>trim\<close>, \<^verbatim>\<open>split\<close>, \<^verbatim>\<open>join\<close>, \<^verbatim>\<open>tokenize\<close>,
    \<^verbatim>\<open>compress\<close>, messages). Lemmas: \<^verbatim>\<open>vtos\<close> prints exactly the canonical decimal texts and can be read
    back, \<^verbatim>\<open>join\<close> undoes \<^verbatim>\<open>split\<close>, \<^verbatim>\<open>trim\<close> removes the blanks at both ends.
  \<^item> \<open>TL_Readers\<close>: the three readers. The locale \<open>char_source\<close> states their contract over the codes
    a reader still holds; \<open>char_source2\<close> and \<open>char_peek\<close> add what holds for two characters of
    look-ahead. All three readers, and the sum type of them, are interpretations. The last section
    states where the \<^verbatim>\<open>FILE\<close> reader differs.
  \<^item> \<open>TL_InStream\<close>: \<^verbatim>\<open>class InStream\<close> as a record and its methods, in the order of the header.
  \<^item> \<open>TL_Stream_Spec\<close>, \<open>TL_Integers\<close>, \<open>TL_Lines\<close>: what the methods compute in terms of the codes
    the stream holds (\<open>holds k v s\<close>): tokens, integers of three types (one locale with three
    interpretations), lines.
  \<^item> \<open>TL_Quit\<close>, \<open>TL_Verdict\<close>: the globals as a record, \<^verbatim>\<open>InStream::quit\<close> as a function whose calls of
    itself end by a weight, the exit codes and the finalize guard.
  \<^item> \<open>TL_Register\<close>: \<^verbatim>\<open>registerTestlibCmd\<close> and its variants, \<^verbatim>\<open>setName\<close>, byte-order marks.
  \<^item> \<open>TL_Judging\<close>: the state of a registered checker between two reads and the exit codes of the
    quits it can make from there.
  \<^item> \<open>TL_Checkers\<close>, \<open>TL_Token_Checkers\<close>: \<^verbatim>\<open>wcmp\<close>, \<^verbatim>\<open>ncmp\<close>, \<^verbatim>\<open>yesno\<close>, \<^verbatim>\<open>nyesno\<close>; the loop over pairs of
    tokens is the locale \<open>pair_loop\<close> with three interpretations.
  \<^item> \<open>TL_Line_Checkers\<close>: \<^verbatim>\<open>fcmp\<close>, \<^verbatim>\<open>lcmp\<close>, \<^verbatim>\<open>default\<close>; the first two interpret \<open>line_loop\<close>.
  \<^item> \<open>TL_Pattern\<close>, \<open>TL_Hcmp\<close>: the constructor and the matcher of \<^verbatim>\<open>class pattern\<close>, the regular
    language of a pattern, and the checker \<^verbatim>\<open>hcmp\<close> that uses it.
  \<^item> \<open>TL_Validator\<close>: \<^verbatim>\<open>class Validator\<close> as a record, with the tables of bounds, variables and features,
    the log, markup and test case files, and \<^verbatim>\<open>registerValidation\<close>. The reachable validators are an
    inductive predicate with an invariant; the markup can be read back.
  \<^item> \<open>TL_Bounded\<close>: the reading methods with a pattern, with a range and for sequences (\<^verbatim>\<open>readMany\<close>), on a
    stream together with the validator. The locale \<open>element_method\<close> states what one element promises and
    proves what the sequence returns; the locale of the integer methods is a sublocale of it, so the
    sequences of all three integer types are instances.
  \<^item> \<open>TL_Period\<close>, \<open>TL_Random\<close>: \<^verbatim>\<open>class random_t\<close> with the seed as a 64-bit word, \<^verbatim>\<open>shuffle\<close> and \<^verbatim>\<open>pattern::next\<close>.
    The linear congruential generator has full period, so the unbounded rejection loops of \<^verbatim>\<open>next\<close> end;
    the locale \<open>number_source\<close> is the contract of \<^verbatim>\<open>next\<close> and \<^verbatim>\<open>wnext\<close>, on which ranges and choices rest.
  \<^item> \<open>TL_Opts\<close>: the options on the command line of a generator and \<^verbatim>\<open>registerGen\<close>; integers with an exponent,
    computed twice, once as a rounded \<^verbatim>\<open>long double\<close>. Options read back, and the check for unused options
    passes once all of them were read.
  \<^item> \<open>TL_Scorer\<close>: \<^verbatim>\<open>struct TestResult\<close>, its serialisation, and the guard that runs a scorer over its input. The
    escaping and the splitting are inverse up to carriage returns.
  \<^item> \<open>TL_Print\<close>: the overloads of \<^verbatim>\<open>println\<close>, all equal to one loop, and \<^verbatim>\<open>expectedButFound\<close>.

  \<^item> \<open>TL_Double\<close>: binary64 numbers as rationals with rounding to nearest, ties to even, and \<^verbatim>\<open>doubleCompare\<close>. The
    locale \<open>tolerance\<close> bounds what its rounding errors can change for any tolerance up to 1/2.
  \<^item> \<open>TL_Reals\<close>: the parsers of doubles with the grammar they accept, \<^verbatim>\<open>readReal\<close>, and the checkers \<^verbatim>\<open>rcmp4\<close>,
    \<^verbatim>\<open>rcmp6\<close>, \<^verbatim>\<open>rcmp9\<close>, on three interpretations of \<open>tolerance\<close>.
  \<^item> \<open>TL_Real_Ranges\<close>: the reads of doubles with a range, in the plain and in the strict notation, with their notes
    to the validator and their messages; the printing of doubles; \<^verbatim>\<open>quitp\<close> and \<^verbatim>\<open>expectedButFound\<close> for doubles. The
    strict notation is an inductive predicate that the parser is proved to decide.
  \<^item> \<open>TL_Random_Reals\<close>: \<^verbatim>\<open>next\<close> and \<^verbatim>\<open>wnext\<close> for doubles, with the bounds that survive the rounding.
  \<^item> \<open>TL_Points\<close>: the points of a scorer as doubles, printed with three decimals and read back.
  \<^item> \<open>TL_Program\<close>: the whole finalize guard (verdict, unused options, logs of the validator), and the small entry
    points: overloads, accessors, the functions that testlib replaces so that they fail.

  \<^bold>\<open>The judge.\<close>
  The Go service under \<^verbatim>\<open>src/internal\<close> receives a request, compiles the program and the checker in containers,
  runs the program on every test case and the checker on its output. What lies outside (the container
  runtime, the file system, the cache library, the order of goroutines) is a parameter: a record of the
  answers of one execution, or a sequence of events. Errors are values of a sum type, and texts that the
  code only formats for people are kept as constructors.
  \<^item> \<open>AJ_Paths\<close>: what the service uses of the standard library: \<^verbatim>\<open>strings.TrimSpace\<close>, UTF-8, \<^verbatim>\<open>filepath.Clean\<close>,
    \<^verbatim>\<open>filepath.IsLocal\<close>, \<^verbatim>\<open>fs.ValidPath\<close>. A cleaned local path stays inside its root.
  \<^item> \<open>AJ_Sandbox\<close>: the output limiter with two writers that interleave (a step relation with an invariant), the
    metrics, the loop that waits for a task, the verdict on a run, the pool of processors.
  \<^item> \<open>AJ_Execution\<close>: \<^verbatim>\<open>executor.execute\<close>, \<^verbatim>\<open>Compile\<close>, \<^verbatim>\<open>Run\<close>, and the profiles of the languages.
  \<^item> \<open>AJ_Service\<close>: the choice of a checker, its compilation and its cache, the validation of a request, the test
    cases in any order, \<^verbatim>\<open>JudgeEngine.Judge\<close>.
  \<^item> \<open>AJ_Verdict\<close>: the exit code of a checker becomes the verdict on a case; the locale \<open>judged_checker\<close> is what
    the judge relies on, with \<^verbatim>\<open>default\<close> and \<^verbatim>\<open>wcmp\<close> as interpretations.
  \<^item> \<open>AJ_Judge\<close>: what the judge promises for a whole request, and the promises of the sandbox.
  \<^item> \<open>AJ_Json\<close>: what the transport uses of \<^verbatim>\<open>encoding/json\<close>: the scanner with its stack, as a function on the bytes; string
    literals with escapes and UTF-8; the encoder. The scanner is proved to read exactly the texts of a grammar
    of JSON (up to the limit on the depth), and the encoder to write texts of it that read back.
  \<^item> \<open>AJ_Transport\<close>: the decoding of a request with the rules for unknown, repeated and missing fields, the HTTP handler,
    the log, and \<^verbatim>\<open>Server.Run\<close> on sequences of events.
  \<^item> \<open>AJ_Server\<close>: settings from the environment, the construction of the judge, the exit code of the program.

  \<^bold>\<open>What the properties show.\<close>
  They are about whole programs or span theories: what each checker accepts (C1 to C9), what a request to
  the judge results in when a checker is run by it (C10), which HTTP requests are judged and what the client
  reads (C11, C12), what an exit code means (C13 to C16), that the judge does not depend on the order of test
  cases, stays inside its directories, keeps its cache correct and does nothing on an invalid request (C17 to
  C20), the output limit, the verdict OK, the end of waiting and the processors in the sandbox (C21 to C24),
  what the parsers of numbers accept (C25, C34), that the buffered reader implements the sequence of bytes of a
  file (C27), registration (C28), patterns (C29 to C31), reads with ranges and the validator (C32, C33, C35),
  points of a checker, results of tests for a scorer and options of a generator (C36, C38, C39), and random
  values (C26, C37, C40). Further theorems without a number
  show what the reads of tokens, integers, sequences and lines return, where the readers differ, the errors of the reads, that
  \<^verbatim>\<open>perm\<close> permutes, round trips of printing, markup and test case files.

  \<^bold>\<open>Not modelled.\<close>
  The sign of a zero double is not kept: no comparison depends on it. \<^verbatim>\<open>std::pow\<close> in \<^verbatim>\<open>wnext\<close> with a large \<^verbatim>\<open>type\<close>, and
  the estimate of \<^verbatim>\<open>distinct\<close>, are parameters; of \<^verbatim>\<open>sscanf\<close> in a scorer only the
  reading of decimal numbers is assumed.
  Of the service, the calls that create containers and pull images and the OCI specification; the network below
  the HTTP handler and the answers of the multiplexer to other routes are parameters.
\<close>

section \<open>A concrete test\<close>

text \<open>An environment with one test on disk, for the instances below.\<close>

definition demo_env :: "string \<Rightarrow> string \<Rightarrow> env" where
  "demo_env output answer = \<lparr>env_fs = (\<lambda>n. if n = ''in'' then Some '''' else if n = ''out'' then Some output
       else if n = ''ans'' then Some answer else None),
     env_mem = (\<lambda>_. CHR 0x00), env_memEof = (\<lambda>_. False), env_canOpen = (\<lambda>_. True), env_canClose = (\<lambda>_. True)\<rparr>"

abbreviation demo_argv :: "string option list" where
  "demo_argv \<equiv> [Some ''checker'', Some ''in'', Some ''out'', Some ''ans'']"

lemma demo_files:
  "length output \<le> 128 * 1024 * 1024 \<Longrightarrow> length answer \<le> 128 * 1024 * 1024 \<Longrightarrow>
    test_files (demo_env output answer) [''in'', ''out'', ''ans''] output answer"
  by (simp add: test_files_def demo_env_def plain_arg_def)

lemma short_demo:
  "length output \<le> 32 * 1024 * 1024 \<Longrightarrow> short_tokens (output_codes output)"
  "length answer \<le> 32 * 1024 * 1024 \<Longrightarrow> short_tokens (answer_codes answer)"
  by (rule short_tokens_small, auto simp: output_codes_def answer_codes_def strip_bom_def)+

section \<open>Checkers\<close>

text \<open>
  C1. The token checker accepts exactly the outputs with the same sequence of words as the answer:
  on a readable test with tokens of at most 32 MB it exits with code 0 if the words agree and with
  code 1, wrong answer, if they do not.
\<close>

theorem wcmp_correct:
  assumes "test_files env names output answer"
    and "short_tokens (output_codes output)" "short_tokens (answer_codes answer)"
  shows "exits env (wcmp_main env (Some prog # map Some names))
    (if words (output_codes output) = words (answer_codes answer) then 0 else 1)"
  unfolding wcmp_main_def
  by (rule checker_main_exits [OF assms(1)], rule wcmp_body_exits) (simp_all add: assms)

theorem wcmp_correct_witness:
  "exits (demo_env ''1  2'' ''1 2'') (wcmp_main (demo_env ''1  2'' ''1 2'') demo_argv) 0"
proof -
  have "words (output_codes ''1  2'') = words (answer_codes ''1 2'')" by code_simp
  with wcmp_correct [OF demo_files, of "''1  2''" "''1 2''" "''checker''"] show ?thesis
    by (simp add: short_demo)
qed

text \<open>
  C2. The checker for sequences of 64-bit integers exits with the code of \<open>ncmp_verdict\<close> on a
  readable test (3 if an integer of the answer is not a canonical 64-bit integer and 2 if one of the
  output is not, whichever comes first in the order of the reads, 1 for the first pair that differs
  or for different lengths); the code is 0 exactly when both files hold the same sequence of canonical
  64-bit integers.
\<close>

theorem ncmp_correct:
  assumes "test_files env names output answer"
  shows "exits env (ncmp_main env (Some prog # map Some names))
      (ncmp_verdict (words (answer_codes answer)) (words (output_codes output))) \<and>
    (ncmp_verdict (words (answer_codes answer)) (words (output_codes output)) = 0 \<longleftrightarrow>
      words (answer_codes answer) = words (output_codes output) \<and> list_all int64_word (words (answer_codes answer)))"
  unfolding ncmp_main_def ncmp_verdict_0
  by (intro conjI checker_main_exits [OF assms] ncmp_body_exits) simp_all

theorem ncmp_correct_witness:
  "exits (demo_env ''7 08'' ''7 8'') (ncmp_main (demo_env ''7 08'' ''7 8'') demo_argv) 2"
proof -
  have "ncmp_verdict (words (answer_codes ''7 8'')) (words (output_codes ''7 08'')) = 2" by code_simp
  with ncmp_correct [OF demo_files, of "''7 08''" "''7 8''" "''checker''"] show ?thesis by simp
qed

text \<open>
  C3. The checker for one YES or NO compares the first words without regard to case: 3 for a missing
  or wrong word of the answer, 2 for one of the output, 1 when they differ, 0 when they agree and
  the output holds nothing else, 2 when it does.
\<close>

theorem yesno_correct:
  assumes "test_files env names output answer"
    and "short_tokens (output_codes output)" "short_tokens (answer_codes answer)"
  shows "exits env (yesno_main env (Some prog # map Some names))
    (yesno_verdict (words (answer_codes answer)) (words (output_codes output)))"
  unfolding yesno_main_def
  by (rule checker_main_exits [OF assms(1)], rule yesno_body_exits) (simp_all add: assms)

theorem yesno_correct_witness:
  "exits (demo_env ''yes'' ''Yes'') (yesno_main (demo_env ''yes'' ''Yes'') demo_argv) 0"
proof -
  have "yesno_verdict (words (answer_codes ''Yes'')) (words (output_codes ''yes'')) = 0" by code_simp
  with yesno_correct [OF demo_files, of "''yes''" "''Yes''" "''checker''"] show ?thesis
    by (simp add: short_demo)
qed

text \<open>
  C4. The checker for a sequence of YES and NO accepts exactly the outputs that agree with the answer
  word by word without regard to case, all words being YES or NO.
\<close>

theorem nyesno_correct:
  assumes "test_files env names output answer"
    and "short_tokens (output_codes output)" "short_tokens (answer_codes answer)"
  shows "exits env (nyesno_main env (Some prog # map Some names))
      (nyesno_verdict (words (answer_codes answer)) (words (output_codes output))) \<and>
    (nyesno_verdict (words (answer_codes answer)) (words (output_codes output)) = 0 \<longleftrightarrow>
      list_all yesno_word (words (answer_codes answer)) \<and>
      map upperCase (words (answer_codes answer)) = map upperCase (words (output_codes output)))"
  unfolding nyesno_main_def nyesno_verdict_0
  by (intro conjI checker_main_exits [OF assms(1)] nyesno_body_exits) (simp_all add: assms)

theorem nyesno_correct_witness:
  "exits (demo_env ''NO yes'' ''no no'') (nyesno_main (demo_env ''NO yes'' ''no no'') demo_argv) 1"
proof -
  have "nyesno_verdict (words (answer_codes ''no no'')) (words (output_codes ''NO yes'')) = 1" by code_simp
  with nyesno_correct [OF demo_files, of "''NO yes''" "''no no''" "''checker''"] show ?thesis
    by (simp add: short_demo)
qed

text \<open>
  C5. The checker for huge integers compares canonical decimal texts of any length: 3 when the answer
  is not one canonical integer, 2 when the output does not start with one, 1 when they differ, 0 when
  they are equal and nothing else follows in the output.
\<close>

theorem hcmp_correct:
  assumes "test_files env names output answer"
    and "short_tokens (output_codes output)" "short_tokens (answer_codes answer)"
  shows "exits env (hcmp_main env (Some prog # map Some names))
    (hcmp_verdict (words (answer_codes answer)) (words (output_codes output)))"
  unfolding hcmp_main_def pnum_compiled outcome.case
  by (rule checker_main_exits [OF assms(1)], rule hcmp_body_exits) (simp_all add: assms)

theorem hcmp_correct_witness:
  "exits (demo_env ''-0'' ''0'') (hcmp_main (demo_env ''-0'' ''0'') demo_argv) 2"
proof -
  have "hcmp_verdict (words (answer_codes ''0'')) (words (output_codes ''-0'')) = 2" by code_simp
  with hcmp_correct [OF demo_files, of "''-0''" "''0''" "''checker''"] show ?thesis
    by (simp add: short_demo)
qed

text \<open>
  C6. The line checker returns the verdict of comparing the lines of the answer one by one with the
  lines of the output, for any bound on the rounds of its loop above the length of the answer: the
  loop ends. White space after the last compared line is accepted, anything else is a presentation
  error.
\<close>

theorem fcmp_correct:
  assumes "test_files env names output answer" "length (answer_codes answer) < fuel"
  shows "exits env (fcmp_main fuel env (Some prog # map Some names))
    (line_verdict (=) (text_lines (answer_codes answer)) (output_codes output))"
  unfolding fcmp_main_def
  by (rule checker_main_exits [OF assms(1)]) (simp add: fcmp_body_def fcmp.loop_exits assms(2))

theorem fcmp_correct_witness:
  "exits (demo_env [CHR ''a'', CHR 0x0A, CHR ''b''] ''a'')
     (fcmp_main 5 (demo_env [CHR ''a'', CHR 0x0A, CHR ''b''] ''a'') demo_argv) 2"
proof -
  have "line_verdict (=) (text_lines (answer_codes ''a'')) (output_codes [CHR ''a'', CHR 0x0A, CHR ''b'']) = 2"
    "length (answer_codes ''a'') < 5" by code_simp+
  with fcmp_correct [OF demo_files, of "[CHR ''a'', CHR 0x0A, CHR ''b'']" "''a''" 5 "''checker''"] show ?thesis by simp
qed

text \<open>
  C7. The checker for tokens in lines does the same with lines compared as sequences of words.
\<close>

theorem lcmp_correct:
  assumes "test_files env names output answer" "length (answer_codes answer) < fuel"
  shows "exits env (lcmp_main fuel env (Some prog # map Some names))
    (line_verdict (\<lambda>j p. stream_words j = stream_words p) (text_lines (answer_codes answer)) (output_codes output))"
  unfolding lcmp_main_def compareWords_def [abs_def, symmetric]
  by (rule checker_main_exits [OF assms(1)]) (simp add: lcmp_body_def lcmp.loop_exits assms(2))

theorem lcmp_correct_witness:
  "exits (demo_env ''1   2 '' ''1 2'') (lcmp_main 5 (demo_env ''1   2 '' ''1 2'') demo_argv) 0"
proof -
  have "line_verdict (\<lambda>j p. stream_words j = stream_words p) (text_lines (answer_codes ''1 2'')) (output_codes ''1   2 '') = 0"
    "length (answer_codes ''1 2'') < 5" by code_simp+
  with lcmp_correct [OF demo_files, of "''1   2 ''" "''1 2''" 5 "''checker''"] show ?thesis by simp
qed



text \<open>
  The default checker is named for ignoring line endings, yet it rejects an output whose last
  line ends with CR and not LF: the reader of the library turns that CR into the byte 0xFF, which is
  no white space.
\<close>

theorem default_last_CR:
  "exits (demo_env [CHR ''4'', CHR ''2'', CHR 0x0D] ''42'')
     (default_main 9 (demo_env [CHR ''4'', CHR ''2'', CHR 0x0D] ''42'') demo_argv) 1"
proof -
  have "norm_lines (output_codes [CHR ''4'', CHR ''2'', CHR 0x0D]) \<noteq> norm_lines (answer_codes ''42'')"
    "length (answer_codes ''42'') < 9" "length (output_codes [CHR ''4'', CHR ''2'', CHR 0x0D]) < 9" by code_simp+
  then have "exits (demo_env [CHR ''4'', CHR ''2'', CHR 0x0D] ''42'')
      (checker_main ''NOIP default checker: ignore trailing spaces and line endings'' (default_body 9)
        (demo_env [CHR ''4'', CHR ''2'', CHR 0x0D] ''42'') (Some ''checker'' # map Some [''in'', ''out'', ''ans''])) 1"
    by (intro checker_main_exits [OF demo_files])
       (use default_body_exits [of _ _ "output_codes [CHR ''4'', CHR ''2'', CHR 0x0D]" "answer_codes ''42''" _ 9] in auto)
  then show ?thesis by (simp add: default_main_def)
qed

text \<open>
  C9. The checkers \<^verbatim>\<open>rcmp4\<close>, \<^verbatim>\<open>rcmp6\<close> and \<^verbatim>\<open>rcmp9\<close> on files of numbers whose doubles are \<open>es\<close> in the answer and
  \<open>rs\<close> in the output: they accept when there are as many numbers and each is within the tolerance of
  its partner, absolutely or relatively; and whenever they accept, that is so within the tolerance and
  \<open>3 / 10 ^ 15\<close>, for every rounding of the comparison.
\<close>

theorem rcmp_correct:
  assumes "test_files env names output answer"
    and "short_tokens (output_codes output)" "short_tokens (answer_codes answer)"
    and "list_all2 reads_as (words (answer_codes answer)) es" "list_all2 reads_as (words (output_codes output)) rs"
    and "(checker, eps) \<in> set rcmp_checkers"
  shows "\<exists>code. exits env (checker env (Some prog # map Some names)) code \<and>
    (agree eps es rs \<longrightarrow> code = 0) \<and> (code = 0 \<longrightarrow> agree (eps + 3 / 10 ^ 15) es rs)"
proof -
  consider "checker = rcmp4_main" "eps = 1 / 10 ^ 4" | "checker = rcmp6_main" "eps = 1 / 10 ^ 6" | "checker = rcmp9_main" "eps = 1 / 10 ^ 9"
    using assms(6) by (auto simp: rcmp_checkers_def)
  then show ?thesis
    by cases (simp_all only: rcmp4_main_def rcmp6_main_def rcmp9_main_def Let_def
      eps4.body_verdict [OF assms(1-5)] eps6.body_verdict [OF assms(1-5)] eps9.body_verdict [OF assms(1-5)])
qed

theorem rcmp_correct_witness:
  "exits (demo_env ''1.50001 20'' ''1.5 2e1'') (rcmp4_main (demo_env ''1.50001 20'' ''1.5 2e1'') demo_argv) 0"
proof -
  have w: "words (answer_codes ''1.5 2e1'') = [''1.5'', ''2e1'']" "words (output_codes ''1.50001 20'') = [''1.50001'', ''20'']"
    by code_simp+
  have "scan_lf ''1.5'' = Some (3 / 2, [])" "scan_lf ''2e1'' = Some (20, [])" "scan_lf ''1.50001'' = Some (150001 / 100000, [])"
    "scan_lf ''20'' = Some (20, [])" by code_simp+
  then have f: "float_notation ''1.5'' (3 / 2)" "float_notation ''2e1'' 20" "float_notation ''1.50001'' (150001 / 100000)"
    "float_notation ''20'' 20" by (simp_all only: scan_lf_iff)
  have ra: "reads_as ''1.5'' (round_rat (3 / 2))" "reads_as ''2e1'' (round_rat 20)" "reads_as ''1.50001'' (round_rat (150001 / 100000))"
    "reads_as ''20'' (round_rat 20)" by (rule reads_as_round; use f in simp)+
  have "\<bar>round_rat (150001 / 100000) - round_rat (3 / 2)\<bar> \<le> 1 / 10 ^ 4"
    using round_err_small [of "150001 / 100000"] round_err_small [of "3 / 2"] by (simp add: abs_le_iff)
  also have "\<dots> \<le> 1 / 10 ^ 4 * max 1 \<bar>round_rat (3 / 2)\<bar>" by simp
  finally have "agree (1 / 10 ^ 4) [round_rat (3 / 2), round_rat 20] [round_rat (150001 / 100000), round_rat 20]"
    by (simp add: agree_def)
  moreover have "(rcmp4_main, 1 / 10 ^ 4) \<in> set rcmp_checkers" by (simp add: rcmp_checkers_def)
  ultimately show ?thesis
    using rcmp_correct [OF demo_files short_demo, of "''1.50001 20''" "''1.5 2e1''" "[round_rat (3 / 2), round_rat 20]"
        "[round_rat (150001 / 100000), round_rat 20]" rcmp4_main "1 / 10 ^ 4" "''checker''"] w ra by auto
qed

section \<open>Verdicts\<close>

text \<open>A stream over a text in memory, and the state of a registered checker with it as its output.\<close>

definition demo_stream :: "string \<Rightarrow> instream" where
  "demo_stream content = InStream_based 4 InStream_new content"

definition demo_state :: "string \<Rightarrow> testlib" where
  "demo_state output = testlib_init\<lparr>tl_mode := TM_checker, tl_registered := True,
     tl_ouf := (demo_stream output)\<lparr>is_mode := M_output\<rparr>\<rparr>"

lemma demo_holds: "holds (stream_core (demo_stream content)) (map schar content) (demo_stream content)"
  by (simp add: demo_stream_def InStream_based_def holds_def is_good_def is_view_def is_room_def sr_view_def sr_new_def)

lemma demo_sel [simp]:
  "\<not> is_strict (demo_stream content)" "is_maxTokenLength (demo_stream content) = 32 * 1024 * 1024"
  by (simp_all add: demo_stream_def InStream_based_def InStream_new_def)

lemma demo_start [simp]: "token_start (stream_core (demo_stream content)) v = dropWhile isBlanks v"
  by (simp add: token_start_def)




text \<open>
  A failure of the judging system is never turned into a verdict on the contestant: quit with the
  result \<^verbatim>\<open>_fail\<close> ends the process with code 3, whatever happens to the report file.
\<close>

theorem failure_exits_3: "\<exists>g'. quit env info TR_fail msg g = Exited 3 g'"
  by (rule quit_fail)

text \<open>
  C14. An error in the input or the answer file is blamed on the test and not on the contestant: any
  quit on a stream that is not the output ends the process with code 3.
\<close>

theorem blame_not_contestant:
  assumes "si_mode info \<noteq> M_output"
  shows "\<exists>g'. quit env info result msg g = Exited 3 g'"
  by (rule quit_not_output [OF assms])

theorem blame_not_contestant_witness:
  "\<exists>g'. quit (demo_env '''' '''') (stream_info_of (demo_stream '''')) TR_wa ''bad'' testlib_init = Exited 3 g'"
  by (rule blame_not_contestant) (simp add: stream_info_of_def demo_stream_def InStream_based_def InStream_new_def)

text \<open>
  C15. A checker that returns from \<^verbatim>\<open>main\<close> without a verdict is a failure: the finalize guard ends the
  process with code 3, whatever value \<^verbatim>\<open>main\<close> returned.
\<close>

theorem missing_verdict_fails:
  assumes "tl_alive g" "tl_mode g = TM_checker" "tl_quitCount g = 0"
  shows "\<exists>g'. run_main env (Ret code g) = Exited 3 g'"
  by (rule run_main_no_quit [OF assms])

theorem missing_verdict_fails_witness: "\<exists>g'. run_main (demo_env '''' '''') (Ret 0 (demo_state '''')) = Exited 3 g'"
  by (rule missing_verdict_fails) (simp_all add: demo_state_def testlib_init_def)



section \<open>Reading integers and words\<close>

text \<open>
  C25. The parser of 64-bit integers accepts exactly the texts that \<^verbatim>\<open>vtos\<close> prints for a value of the
  type, and returns that value: no plus sign, no leading zeroes, no minus zero, no overflow.
\<close>

theorem stringToLongLong_iff:
  "stringToLongLong b s = Ret n s' \<longleftrightarrow> b = vtos n \<and> LLONG_MIN \<le> n \<and> n \<le> LLONG_MAX \<and> s' = s"
proof
  assume r: "stringToLongLong b s = Ret n s'"
  then obtain m where m: "b = vtos m" "LLONG_MIN \<le> m" "m \<le> LLONG_MAX"
    using stringToLongLong_rejects [of b s] by (auto simp: in_quit_def)
  then show "b = vtos n \<and> LLONG_MIN \<le> n \<and> n \<le> LLONG_MAX \<and> s' = s" using r stringToLongLong_accepts [of m s] by simp
qed (simp add: stringToLongLong_accepts)



text \<open>
  \<^verbatim>\<open>readInteger\<close>, \<^verbatim>\<open>readLong\<close> and \<^verbatim>\<open>readUnsignedLong\<close> return the value of their type whose canonical text is
  the next token and leave the stream behind the token.
\<close>

theorem read_integers_correct:
  assumes "holds k v s" "map to_char (takeWhile nonblank (token_start k v)) = vtos n" "length (vtos n) \<le> is_maxTokenLength k"
  shows "(INT_MIN \<le> n \<and> n \<le> INT_MAX \<longrightarrow> (\<exists>s'. readInteger s = Ret n s' \<and> holds k (dropWhile nonblank (token_start k v)) s')) \<and>
    (LLONG_MIN \<le> n \<and> n \<le> LLONG_MAX \<longrightarrow> (\<exists>s'. readLong s = Ret n s' \<and> holds k (dropWhile nonblank (token_start k v)) s')) \<and>
    (0 \<le> n \<and> n \<le> ULLONG_MAX \<longrightarrow> (\<exists>s'. readUnsignedLong s = Ret n s' \<and> holds k (dropWhile nonblank (token_start k v)) s'))"
  using int32.read_ok [OF assms(1,2) _ _ assms(3)] int64.read_ok [OF assms(1,2) _ _ assms(3)]
    uint64.read_ok [OF assms(1,2) _ _ assms(3)] by blast

theorem read_integers_correct_witness:
  "\<exists>s'. readUnsignedLong (demo_stream ''18446744073709551615'') = Ret 18446744073709551615 s'"
proof -
  have "map to_char (takeWhile nonblank (dropWhile isBlanks (map schar ''18446744073709551615''))) = vtos 18446744073709551615" "length (vtos 18446744073709551615) = 20" by code_simp+
  with read_integers_correct [OF demo_holds, of "''18446744073709551615''" "18446744073709551615"] show ?thesis
    by (auto simp: ULLONG_MAX_def)
qed

text \<open>
  A token that is not the canonical text of a 32-bit integer is a presentation error on the stream
  that was read, and so is the end of the stream.
\<close>

theorem readInteger_rejects:
  assumes "holds k v s" "\<not> is_strict k"
    and "next_token v = [] \<or> (token_start k v \<noteq> [] \<and>
      (\<nexists>n. map to_char (takeWhile nonblank (token_start k v)) = vtos n \<and> INT_MIN \<le> n \<and> n \<le> INT_MAX \<and>
        length (vtos n) \<le> is_maxTokenLength k))"
  shows "\<exists>result msg s'. readInteger s = in_quit result msg s' \<and> result \<in> {TR_pe, TR_unexpected_eof}"
  using assms int32.read_end [OF assms(1,2)] int32.read_bad [OF assms(1)] by blast

theorem readInteger_rejects_witness:
  "\<exists>result msg s'. readInteger (demo_stream ''  '') = in_quit result msg s' \<and> result \<in> {TR_pe, TR_unexpected_eof}"
proof -
  have "next_token (map schar ''  '') = []" by code_simp
  then show ?thesis by (intro readInteger_rejects [OF demo_holds]) simp_all
qed

text \<open>
  \<^verbatim>\<open>readWordTo\<close> returns the characters up to the next white space or the end of the stream, after
  the white space before them has been skipped in non-strict mode, if there are not more than the
  limit; a longer token is a presentation error.
\<close>

theorem readWordTo_correct:
  assumes "holds k v s" "token_start k v = c # cs" "\<not> isBlanks c"
  shows "if length (takeWhile nonblank (token_start k v)) \<le> is_maxTokenLength k
    then \<exists>s'. readWordTo s = Ret (map to_char (takeWhile nonblank (token_start k v))) s' \<and>
      holds k (dropWhile nonblank (token_start k v)) s'
    else \<exists>msg s'. readWordTo s = in_quit TR_pe msg s' \<and> stream_core s' = k"
  using readWordTo_token [OF assms] readWordTo_long [OF assms] by simp

theorem readWordTo_correct_witness: "\<exists>s'. readWordTo (demo_stream '' ab c'') = Ret ''ab'' s'"
proof -
  have "dropWhile isBlanks (map schar '' ab c'') = schar CHR ''a'' # map schar ''b c''"
    "\<not> isBlanks (schar CHR ''a'')" "map to_char (takeWhile nonblank (schar CHR ''a'' # map schar ''b c'')) = ''ab''"
    "length (takeWhile nonblank (schar CHR ''a'' # map schar ''b c'')) = 2" by code_simp+
  with readWordTo_correct [OF demo_holds, of "'' ab c''"] show ?thesis by (auto split: if_splits)
qed

section \<open>Readers\<close>

text \<open>The codes that \<open>n\<close> calls of a reader's \<^verbatim>\<open>nextChar\<close> return.\<close>

primrec read_codes :: "('r, int) prog \<Rightarrow> nat \<Rightarrow> ('r, int list) prog" where
  "read_codes nextC 0 r = Ret [] r"
| "read_codes nextC (Suc n) r = andThen (nextC r) (\<lambda>c r. andThen (read_codes nextC n r) (\<lambda>cs r. Ret (c # cs) r))"

context char_source
begin

lemma read_codes_view:
  "good r \<Longrightarrow> \<exists>r'. read_codes nextC n r = Ret (take n (view r) @ replicate (n - length (view r)) EOFC) r' \<and> good r' \<and>
    view r' = drop n (view r)"
proof (induction n arbitrary: r)
  case (Suc n)
  show ?case
  proof (cases "view r")
    case Nil
    then obtain r1 where "nextC r = Ret EOFC r1" "good r1" "view r1 = []" using next_end [OF Suc.prems] by blast
    then show ?thesis using Suc.IH [of r1] Nil by auto
  next
    case (Cons c cs)
    then obtain r1 where "nextC r = Ret c r1" "good r1" "view r1 = cs" using next_char [OF Suc.prems] by blast
    then show ?thesis using Suc.IH [of r1] Cons by auto
  qed
qed simp

end

text \<open>
  C27. The buffered file reader delivers the bytes of the file in order and then the end-of-file code,
  across every refill of its buffer, whatever the buffer held before.
\<close>

theorem buffered_reads_file:
  "\<exists>r'. read_codes br_nextChar n (br_new mem memEof (open_file content) name)
     = Ret (map schar (take n content) @ replicate (n - length content) EOFC) r'"
  using br.read_codes_view [where r = "br_new mem memEof (open_file content) name" and n = n, OF br_new_facts(1)]
  by (auto simp: br_new_facts(2) take_map)

text \<open>
  The three readers deliver the same characters for a text without the byte 0xFF: the string
  reader, the reader over \<^verbatim>\<open>getc\<close> and the buffered reader agree on every prefix.
\<close>

theorem readers_agree:
  assumes "CHR 0xFF \<notin> set content" "n \<le> length content"
  shows "\<exists>cs1 cs2 cs3 r1 r2 r3. read_codes sr_nextChar n (sr_new content) = Ret cs1 r1 \<and>
    read_codes fr_nextChar n (fr_new (open_file content) name) = Ret cs2 r2 \<and>
    read_codes br_nextChar n (br_new mem memEof (open_file content) name) = Ret cs3 r3 \<and>
    map to_char cs1 = take n content \<and> map to_char cs2 = take n content \<and> map to_char cs3 = take n content"
proof -
  have v: "sr_view (sr_new content) = map schar content" "fr_view (fr_new (open_file content) name) = map uchar content"
    and g: "fr_good (fr_new (open_file content) name)"
    using assms(1) by (simp_all add: sr_view_def sr_new_def fr_view_def fr_new_def open_file_def fr_good_def)
  from sr.read_codes_view [where r = "sr_new content" and n = n] fr.read_codes_view [OF g, where n = n]
    br.read_codes_view [where r = "br_new mem memEof (open_file content) name" and n = n, OF br_new_facts(1)]
  show ?thesis using assms(2) by (auto simp: v br_new_facts(2) take_map comp_def)
qed

theorem readers_agree_witness:
  "\<exists>cs r. read_codes fr_nextChar 2 (fr_new (open_file ''ab'') ''f'') = Ret cs r \<and> map to_char cs = ''ab''"
  using readers_agree [of "''ab''" 2 "''f''" "\<lambda>_. CHR 0x00" "\<lambda>_. False"] by auto

text \<open>
  A character that was just read can be put back, on every kind of reader: the reader then holds
  what it held before.
\<close>

theorem next_unread_round_trip:
  assumes "rd_good r" "rd_view r = c # cs" "0 < rd_room r"
  shows "\<exists>r' r''. rd_nextChar r = Ret c r' \<and> rd_view r' = cs \<and> rd_unreadChar c r' = Ret () r'' \<and> rd_good r'' \<and>
    rd_view r'' = c # cs \<and> rd_room r \<le> rd_room r''"
  using rd.next_char [OF assms(1,2)] assms(3) by blast

theorem next_unread_round_trip_witness:
  "\<exists>r' r''. rd_nextChar (StringReader (sr_new ''ab'')) = Ret (schar CHR ''a'') r' \<and>
     rd_unreadChar (schar CHR ''a'') r' = Ret () r'' \<and> rd_view r'' = map schar ''ab''"
  using next_unread_round_trip [of "StringReader (sr_new ''ab'')" "schar CHR ''a''" "map schar ''b''"]
  by (auto simp: sr_view_def sr_new_def)

text \<open>
  The reader over \<^verbatim>\<open>getc\<close> takes the byte 0xFF for the end of the file and the buffered reader does
  not, on the same file.
\<close>

theorem end_of_file_at_0xFF:
  "(\<exists>r'. fr_eof (fr_new (open_file (CHR 0xFF # rest)) name) = Ret True r' \<and> fr_view r' = map uchar rest) \<and>
   (\<exists>r'. br_eof (br_new mem memEof (open_file (CHR 0xFF # rest)) name) = Ret False r')"
  using fr_eof_at_0xFF br_eof_at_0xFF by blast

section \<open>Lines, byte-order marks and the command line\<close>

text \<open>
  On a text whose CRs all stand before an LF, the non-strict \<^verbatim>\<open>readStringTo\<close> returns the text before
  the next end of line, LF or CR LF, and leaves the stream behind it.
\<close>

theorem readStringTo_correct:
  assumes "holds k v s" "\<not> is_strict k" "crlf_text v"
  shows "\<exists>s'. readStringTo s = Ret (map to_char (takeWhile (\<lambda>c. \<not> eol_code c) v)) s' \<and>
    holds k (case dropWhile (\<lambda>c. c \<noteq> LF) v of [] \<Rightarrow> [] | _ # r \<Rightarrow> r) s'"
  using readStringTo_spec [OF assms(1,2)] unfolding line_codes_crlf [OF assms(3)] after_line_crlf [OF assms(3)] .

theorem readStringTo_correct_witness:
  "\<exists>s'. readStringTo (demo_stream [CHR ''a'', CHR 0x0D, CHR 0x0A, CHR ''b'']) = Ret ''a'' s'"
proof -
  have "crlf_text (map schar [CHR ''a'', CHR 0x0D, CHR 0x0A, CHR ''b''])"
    "map to_char (takeWhile (\<lambda>c. \<not> eol_code c) (map schar [CHR ''a'', CHR 0x0D, CHR 0x0A, CHR ''b''])) = ''a''" by code_simp+
  with readStringTo_correct [OF demo_holds, of "[CHR ''a'', CHR 0x0D, CHR 0x0A, CHR ''b'']"] show ?thesis
    by (auto simp only: stream_core_sel demo_sel simp_thms)
qed

text \<open>
  \<^verbatim>\<open>skipBom\<close> removes a byte-order mark at the start of a stream and changes nothing on any other
  stream, a stream that starts with a part of the mark included.
\<close>

theorem skipBom_correct:
  assumes "buffered k v n s" "4 \<le> n"
  shows "\<exists>s'. skipBom s = Ret () s' \<and> holds k (if take 3 v = bom_codes then drop 3 v else v) s'"
  using skipBom_spec [OF assms] unfolding strip_bom_def .

theorem skipBom_correct_witness:
  "\<exists>s s'. init_name (\<lambda>_. CHR 0x00) (\<lambda>_. False) (\<lambda>_. Some [CHR 0xEF, CHR 0xBB, CHR ''x'']) ''f'' M_output InStream_new = Ret () s \<and>
     skipBom s = Ret () s' \<and> is_view s' = map schar [CHR 0xEF, CHR 0xBB, CHR ''x'']"
proof -
  let ?c = "[CHR 0xEF, CHR 0xBB, CHR ''x'']"
  obtain s where s: "init_name (\<lambda>_. CHR 0x00) (\<lambda>_. False) (\<lambda>_. Some ?c) ''f'' M_output InStream_new = Ret () s"
    "buffered (opened_core ''f'' M_output) (map schar ?c) MAX_UNREAD_COUNT s"
    using init_name_spec [of "\<lambda>_. Some ?c" "''f''" ?c "\<lambda>_. CHR 0x00" "\<lambda>_. False" M_output] by auto
  have "take 3 (map schar ?c) \<noteq> bom_codes" by code_simp
  with skipBom_correct [OF s(2)] s(1) show ?thesis by (auto simp: MAX_UNREAD_COUNT_def BUFFER_SIZE_def holds_def)
qed



text \<open>
  \<^verbatim>\<open>registerTestlib\<close>, the variant with a list of arguments, is unusable: with a correct number of
  file names it runs into undefined behaviour, because it builds a string from the null pointer it
  passes as the name of the program.
\<close>

theorem registerTestlib_crashes:
  assumes "\<forall>a\<in>set args. plain_arg a"
  shows "registerTestlib env args g = (if length args < 3 \<or> length args > 5 then quit_free TR_fail usage_message g else Crash)"
  by (rule registerTestlib_unusable [OF assms])

theorem registerTestlib_crashes_witness: "registerTestlib (demo_env ''1'' ''2'') [''in'', ''out'', ''ans''] testlib_init = Crash"
  using registerTestlib_crashes [of "[''in'', ''out'', ''ans'']" "demo_env ''1'' ''2''" testlib_init] by (simp add: plain_arg_def)

section \<open>Texts and patterns\<close>

text \<open>
  The printed form of an integer is canonical and reads back as that integer, and every canonical
  decimal text is the printed form of the value it denotes.
\<close>

theorem vtos_round_trip: "int_val (vtos n) = n \<and> canonical_int (vtos n) \<and> (canonical_int b \<longrightarrow> vtos (int_val b) = b)"
  by (simp add: int_val_vtos canonical_int_vtos vtos_int_val)

theorem vtos_round_trip_witness: "canonical_int ''-120'' \<and> vtos (int_val ''-120'') = ''-120''"
  using vtos_round_trip [of 0 "''-120''"] by (auto simp: canonical_int_def canonical_nat_def is_digit_def schar_def)

text \<open>
  C30. Every pattern that the constructor builds is well-formed, and a string that it matches is a
  word of its regular language.
\<close>

theorem pattern_matches_sound:
  assumes "pattern_new src g = Ret p g'"
  shows "wf_pattern p \<and> (pattern_matches p w \<longrightarrow> in_lang p w)"
  using pattern_new_wf [OF assms] pattern_matches_in_lang by blast

theorem pattern_matches_sound_witness: "wf_pattern pnum_pattern \<and> in_lang pnum_pattern ''-12''"
proof -
  have c: "pattern_new ''0|-?[1-9][0-9]*'' () = Ret pnum_pattern ()" using pnum_compiled by (simp add: pnum_def)
  have "pattern_matches pnum_pattern ''-12''" by code_simp
  then show ?thesis using pattern_matches_sound [OF c] by simp
qed

text \<open>
  C31. The greedy matcher finds every word of the language when no block of characters that may be cut
  short is followed by one of its own characters.
\<close>

theorem pattern_matches_complete:
  assumes "pattern_new src g = Ret p g'" "deterministic p"
  shows "pattern_matches p w \<longleftrightarrow> in_lang p w"
  using pattern_new_wf [OF assms(1)] assms(2) by (rule pattern_matches_iff)

theorem pattern_matches_complete_witness: "\<not> in_lang pnum_pattern ''012''"
proof -
  have c: "pattern_new ''0|-?[1-9][0-9]*'' () = Ret pnum_pattern ()" using pnum_compiled by (simp add: pnum_def)
  have "\<not> pattern_matches pnum_pattern ''012''" by code_simp
  then show ?thesis using pattern_matches_complete [OF c pnum_deterministic(2)] by simp
qed

section \<open>Validators\<close>



text \<open>
  A strict \<^verbatim>\<open>readInts\<close> reads back a sequence of integers of the range printed with single spaces
  between them: it returns the sequence, leaves the stream behind it and the iteration counter as it
  was, and the validator has recorded that the minimum (maximum) was hit exactly when an element of
  the sequence is the minimum (maximum), or it was recorded before, or the name asks to ignore it.
\<close>

theorem readInts_in_correct:
  assumes "holds k (spaced (map int_text xs) @ r) s" "is_strict k" "r = [] \<or> isBlanks (hd r)" "is_readManyIteration k = NO_INDEX"
    and "list_all (\<lambda>n. INT_MIN \<le> n \<and> n \<le> INT_MAX \<and> minv \<le> n \<and> n \<le> maxv \<and> length (vtos n) \<le> is_maxTokenLength k) xs"
    and "xs \<noteq> []" "length xs \<le> 100000000" "indexBase + int (length xs) \<le> INT_MAX"
    and "name \<noteq> ''''" "isVariableNameBoundsAnalyzable name" "length (v_boundsHit V) + 1 < VALIDATOR_MAX_VARIABLE_COUNT"
  shows "\<exists>s' V'. readInts_in (int (length xs)) minv maxv name indexBase (s, V) = Ret xs (s', V') \<and> holds k r s' \<and>
    (minHit (hits V' name) \<longleftrightarrow> minHit (hits V name) \<or> minv \<in> set xs \<or> ignoreMinBound name) \<and>
    (maxHit (hits V' name) \<longleftrightarrow> maxHit (hits V name) \<or> maxv \<in> set xs \<or> ignoreMaxBound name)"
proof -
  have "is_strict s" using holds_strict [OF assms(1)] assms(2) by simp
  then have nv: "note_variable name (s, V) = (s, addVariable name V)" using assms(9) by (simp add: note_variable_def)
  have tbl: "v_boundsHit (addVariable name V) = v_boundsHit V" by (simp add: addVariable_def)
  obtain s' where s': "readMany ''readInts'' (readInt_in minv maxv name) True (int (length xs)) indexBase (s, addVariable name V)
      = Ret xs (s', fold (tell_bounds name minv maxv) xs (addVariable name V))" "holds k r s'"
    unfolding readInt_in_def readInt_def
    using int32.bounded.many_spec [OF assms(1,2,5,3,8,7,4), of "''readInts''" "''Integer''" toHumanReadableString_signed name "addVariable name V"]
    by blast
  moreover note fold_tell_bounds_hits [OF assms(9,10) _ assms(6), of "addVariable name V" minv maxv]
  ultimately show ?thesis using assms(11) unfolding readInts_in_def nv by (auto simp: tbl)
qed

definition demo_strict :: "string \<Rightarrow> instream" where
  "demo_strict content = (demo_stream content)\<lparr>is_strict := True\<rparr>"

theorem readInts_in_correct_witness:
  "\<exists>s' V'. readInts_in 2 1 10 ''a'' 1 (demo_strict ''7 10'', Validator_new) = Ret [7, 10] (s', V') \<and>
     maxHit (hits V' ''a'') \<and> \<not> minHit (hits V' ''a'')"
proof -
  let ?k = "stream_core (demo_strict ''7 10'')"
  have codes: "spaced (map int_text [7, 10]) @ [] = map schar ''7 10''" by code_simp
  have h: "holds ?k (spaced (map int_text [7, 10]) @ []) (demo_strict ''7 10'')"
    unfolding codes using demo_holds [of "''7 10''"]
    by (auto simp: demo_strict_def holds_def is_good_def is_view_def is_room_def stream_core_def)
  have k: "is_strict ?k" "is_readManyIteration ?k = NO_INDEX" "is_maxTokenLength ?k = 32 * 1024 * 1024"
    by (simp_all add: demo_strict_def demo_stream_def InStream_based_def)
  have c: "length (vtos 7) = 1" "length (vtos 10) = 2" "isVariableNameBoundsAnalyzable ''a''" "hits Validator_new ''a'' = no_hit"
    "\<not> ignoreMinBound ''a''" by code_simp+
  from readInts_in_correct [OF h k(1) _ k(2), of 1 10 1 "''a''" Validator_new] show ?thesis
    using c k(3) by (auto simp: INT_MIN_def INT_MAX_def VALIDATOR_MAX_VARIABLE_COUNT_def Validator_new_def no_hit_def)
qed



text \<open>
  The markup of a test loses nothing: a reader of the markup gets back the bytes that were read
  and the marks of the test cases.
\<close>

theorem markup_round_trip:
  assumes "list_all read_code cs"
  shows "unmarkup (markup_loop cs) = cs"
  by (rule unmarkup_markup [OF assms])

theorem markup_round_trip_witness: "unmarkup (markup_loop [257, 33, 92, 10]) = [257, 33, 92, 10]"
  by (rule markup_round_trip) code_simp

text \<open>
  \<^verbatim>\<open>writeTestCase\<close> writes the bytes of the test case with the wanted number, the last one if there
  are several, to the file that was named.
\<close>

theorem writeTestCase_correct:
  assumes "inf_getReadChars g = Ret (marked_test pre segs @ ends) g'" "byte_codes pre" "ends = [] \<or> ends = [- 1]"
    and "list_all (\<lambda>(k, cs). 0 < k \<and> byte_codes cs) segs" "map_of (rev segs) (v_testCase v) = Some cs" "cs \<noteq> []"
    and "0 < v_testCase v" "v_testCaseFileName v = ''stdout''"
  shows "writeTestCase env (g, v) = Ret () (g', v\<lparr>v_written := v_written v @ [(''stdout'', c_text (map to_char cs))]\<rparr>)"
proof -
  have "marked_test pre segs @ ends \<noteq> []" using assms(5) by (cases segs) (auto simp: marked_test_def)
  then show ?thesis
    using assms(1,5-8) test_case_loop_marked [OF assms(2,4,3), of "v_testCase v"]
    by (simp add: writeTestCase_def on_testlib_def write_file_def Let_def)
qed

definition demo_validator :: "testlib" where
  "demo_validator = testlib_init\<lparr>tl_mode := TM_validator, tl_inf := InStream_new\<lparr>is_stdfile := True,
     is_reader := Some (FileReader ((fr_new (open_file '''') ''stdin'')\<lparr>fr_readChars := rev [257, 97, 258, 98, - 1]\<rparr>))\<rparr>\<rparr>"

theorem writeTestCase_correct_witness:
  "\<exists>g' v'. writeTestCase (demo_env '''' '''') (demo_validator, Validator_new\<lparr>v_testCase := 2, v_testCaseFileName := ''stdout''\<rparr>)
     = Ret () (g', v') \<and> v_written v' = [(''stdout'', ''b'')]"
proof -
  have "marked_test [] [(1, [97]), (2, [98])] @ [- 1] = [257, 97, 258, 98, - 1]" by code_simp
  then have "\<exists>g'. inf_getReadChars demo_validator = Ret (marked_test [] [(1, [97]), (2, [98])] @ [- 1]) g'"
    by (simp add: inf_getReadChars_def demo_validator_def testlib_init_def InStream_new_def on_inf_def on_reader_def
        fr_getReadChars_def fr_new_def)
  then obtain g' where g': "inf_getReadChars demo_validator = Ret (marked_test [] [(1, [97]), (2, [98])] @ [- 1]) g'" by blast
  have "c_text (map to_char [98]) = ''b''" by code_simp
  with writeTestCase_correct [OF g', of "Validator_new\<lparr>v_testCase := 2, v_testCaseFileName := ''stdout''\<rparr>" "[98]" "demo_env '''' ''''"]
  show ?thesis by (simp add: Validator_new_def)
qed

section \<open>Generators\<close>

definition demo_random :: random_t where
  "demo_random = random_t_new 1"

text \<open>
  C40. From every state, and although its loop draws again without a bound until the number is small
  enough, \<^verbatim>\<open>random_t::next\<close> returns for every positive argument of \<^verbatim>\<open>int\<close> and of \<^verbatim>\<open>long long\<close>, with a number
  from 0 below the argument.
\<close>

theorem next_returns:
  assumes "0 < n"
  shows "(n \<le> INT_MAX \<longrightarrow> (\<exists>v r'. next_int n r = Ret v r' \<and> 0 \<le> v \<and> v < n)) \<and>
    (n \<le> LLONG_MAX \<longrightarrow> (\<exists>v r'. next_long n r = Ret v r' \<and> 0 \<le> v \<and> v < n))"
  using next_int_ok [OF assms] next_long_ok [OF assms] by blast

theorem next_returns_witness:
  "\<exists>v r'. next_long 6000000000000000000 demo_random = Ret v r' \<and> 0 \<le> v \<and> v < 6000000000000000000"
  using next_returns [of 6000000000000000000 demo_random] by (simp add: LLONG_MAX_def)

text \<open>
  \<^verbatim>\<open>perm(size, first)\<close> returns the numbers from \<^verbatim>\<open>first\<close> to \<^verbatim>\<open>first + size - 1\<close>, each once, in some
  order.
\<close>

theorem perm_correct:
  assumes "0 \<le> sz" "sz \<le> t_max T" "first + sz \<le> t_max E"
  shows "\<exists>p r'. perm T E sz first r = Ret p r' \<and> mset p = mset [first..first + sz - 1]"
  by (rule perm_ok [OF assms])

theorem perm_correct_witness:
  "\<exists>p r'. perm T_int T_long 5 3 demo_random = Ret p r' \<and> mset p = mset [3, 4, 5, 6, 7]"
proof -
  have "[3..7 :: int] = [3, 4, 5, 6, 7]" by code_simp
  then show ?thesis using perm_correct [of 5 T_int 3 T_long demo_random] by (simp add: t_max_def limit_defs)
qed









text \<open>
  C38. The results that the judge writes, one to a line, are the results that a scorer computes the points
  from, apart from carriage returns: points that are NaN or have three decimals are read back exactly, by
  every \<^verbatim>\<open>sscanf\<close> that reads decimal numbers. The guard of the scorer reads every line and prints the points.
\<close>

theorem scorer_correct:
  assumes "holds k (result_codes (format_f 3) trs) (tl_inf g)" "\<not> is_strict k" "length trs < fuel" "tl_mode g = TM_scorer"
    and "\<forall>tr\<in>set trs. fits_result tr \<and> three_decimals (tr_points tr)" "decimal_scan scan"
  shows "\<exists>g'. scorer_guard scan points_text fuel scorer g = Ret (points_text (scorer (map without_CR trs)) @ [CHR 0x0A]) g'"
proof (rule scorer_guard_reads [OF assms(1-3) _ assms(4)])
  show "good_results (format_f 3) scan trs" using assms(5) three_decimals_read_back [OF assms(6)] by (simp add: good_results_def)
qed

definition demo_result :: "double TestResult" where
  "demo_result = \<lparr>tr_testIndex = 1, tr_testset = ''a;b'', tr_group = [], tr_verdict = WRONG_ANSWER, tr_points = Some (to_double (25 / 10)),
     tr_timeConsumed = 15, tr_memoryConsumed = 1000000, tr_input = [CHR 0x0A], tr_output = ''x'', tr_answer = ''y'',
     tr_exitCode = 1, tr_checkerComment = ''c''\<rparr>"

definition demo_scan :: "string \<Rightarrow> double option option" where
  "demo_scan s = (case scan_lf s of None \<Rightarrow> None | Some (x, _) \<Rightarrow> Some (Some (to_double x)))"

theorem scorer_correct_witness:
  "\<exists>g g'. tl_mode g = TM_scorer \<and> scorer_guard demo_scan points_text 2 (\<lambda>trs. tr_points (hd trs)) g =
     Ret (points_text (Some (to_double (25 / 10))) @ [CHR 0x0A]) g'"
proof -
  let ?text = "serializeTestResult (format_f 3) demo_result @ [CHR 0x0A]"
  let ?g = "testlib_init\<lparr>tl_mode := TM_scorer, tl_inf := demo_stream ?text\<rparr>"
  have "schar (CHR 0x0A) = LF" by (simp add: LF_def schar_def)
  then have h: "holds (stream_core (tl_inf ?g)) (result_codes (format_f 3) [demo_result]) (tl_inf ?g)"
    using demo_holds [of ?text] by (simp add: result_codes_def)
  have "fits_result demo_result" by (simp add: fits_result_def demo_result_def limit_defs)
  moreover have "three_decimals (tr_points demo_result)" by (simp add: three_decimals_def demo_result_def) (rule exI [of _ 2500], simp)
  moreover have "decimal_scan demo_scan" by (simp add: decimal_scan_def demo_scan_def scan_lf_iff [symmetric])
  ultimately have "\<exists>g'. scorer_guard demo_scan points_text 2 (\<lambda>trs. tr_points (hd trs)) ?g =
      Ret (points_text (tr_points (hd (map without_CR [demo_result]))) @ [CHR 0x0A]) g'"
    by (intro scorer_correct [OF h]) simp_all
  moreover have "tl_mode ?g = TM_scorer" by simp
  moreover have "tr_points (hd (map without_CR [demo_result])) = Some (to_double (25 / 10))" by (simp add: without_CR_def demo_result_def)
  ultimately show ?thesis by metis
qed

section \<open>Real numbers with ranges\<close>

text \<open>
  C35. \<^verbatim>\<open>readStrictReal\<close> accepts a word exactly if it is written in the strict notation (a minus sign or none,
  no redundant zero in front, digits behind the point within the given limits, no minus in front of a
  number that is not negative, at most 1000 characters, a number that counts as finite). It then returns the
  nearest double if that lies in the range, telling the validator which bounds it hits, and is a wrong
  answer otherwise; any other word is a presentation error.
\<close>

theorem readStrictReal_correct:
  assumes "holds k v s" "token_start k v = c # cs" "\<not> isBlanks c" "length (takeWhile nonblank (token_start k v)) \<le> is_maxTokenLength k"
    and "0 \<le> lo" "lo \<le> hi" "minv \<noteq> NaN" "maxv \<noteq> NaN" "w = map to_char (takeWhile nonblank (token_start k v))"
  shows "\<exists>s'. holds k (dropWhile nonblank (token_start k v)) s' \<and>
    (\<forall>d. strict_double lo hi w d \<longrightarrow> readStrictReal minv maxv lo hi name (s, V) =
      (if fle minv d \<and> fle d maxv then Ret d (note_real_bounds name minv maxv d (s', V))
       else on_stream (in_quit TR_wa (range_text ''Strict double'' (is_readManyIteration s') name (vtos_double d) (vtos_double minv) (vtos_double maxv)))
         (s', V))) \<and>
    ((\<nexists>d. strict_double lo hi w d) \<longrightarrow> (\<exists>m. readStrictReal minv maxv lo hi name (s, V) = on_stream (in_quit TR_pe m) (s', V)))"
proof -
  have "d \<noteq> NaN" if "strict_double lo hi w d" for d using that to_double_not_NaN unfolding strict_double_def by metis
  then have range: "in_real_range ''Strict double'' minv maxv name d (s', V) =
      (if fle minv d \<and> fle d maxv then Ret d (note_real_bounds name minv maxv d (s', V))
       else on_stream (in_quit TR_wa (range_text ''Strict double'' (is_readManyIteration s') name (vtos_double d) (vtos_double minv) (vtos_double maxv)))
         (s', V))" if "strict_double lo hi w d" for d s'
    using in_real_range_eq [OF _ assms(7,8)] that by simp
  show ?thesis using readStrictReal_spec [OF assms(1-6,9), of minv maxv name V] unfolding range [symmetric] by (simp only: range cong: imp_cong)
qed

theorem readStrictReal_correct_witness:
  "\<exists>m sv. readStrictReal (Fin 0) (Fin 10) 1 3 ''x'' (demo_stream ''1.'', Validator_new) = on_stream (in_quit TR_pe m) sv"
proof -
  let ?v = "map schar ''1.''"
  have c: "dropWhile isBlanks ?v = schar CHR ''1'' # [schar CHR ''.'']" "\<not> isBlanks (schar CHR ''1'')"
    "takeWhile nonblank (dropWhile isBlanks ?v) = ?v" "map to_char ?v = ''1.''" by code_simp+
  have "\<not> strict_notation 1 3 ''1.'' x" for x
  proof
    assume "strict_notation 1 3 ''1.'' x"
    then show False
    proof cases
      case (strict ip fp neg)
      have "is_digit (''1.'' ! (length ''1.'' - 1))" using strict_text_ends(3) [OF strict(4), of neg] strict(3) unfolding strict(1) [symmetric] by blast
      then show False by simp
    qed
  qed
  then have "\<nexists>d. strict_double 1 3 ''1.'' d" by (auto simp: strict_double_def)
  with readStrictReal_correct [OF demo_holds, of "''1.''" "schar CHR ''1''" "[schar CHR ''.'']" 1 3 "Fin 0" "Fin 10" "''1.''" "''x''" Validator_new] c
  show ?thesis by auto
qed



text \<open>
  C37. The random doubles lie in their ranges: \<^verbatim>\<open>next(n)\<close> returns a number in \<open>[0, n)\<close>, whatever the rounding of the
  product does; \<^verbatim>\<open>wnext(n, type)\<close> one in \<open>[0, n]\<close>; \<^verbatim>\<open>next(from, to)\<close> one in \<open>[from, to]\<close>. The interval of the
  last is closed: there are states and doubles for which it returns \<^verbatim>\<open>to\<close> itself.
\<close>

theorem random_reals_in_range:
  "(pos_double b \<longrightarrow> (\<exists>v r'. next_real_n (Fin b) r = Ret (Fin v) r' \<and> 0 \<le> v \<and> v < b)) \<and>
   (pos_double b \<and> INT_MIN < type \<and> \<bar>type\<bar> < INT_MAX \<and> unit_pow pow \<longrightarrow>
     (\<exists>v r'. wnext_real pow (Fin b) type r = Ret (Fin v) r' \<and> 0 \<le> v \<and> v \<le> b)) \<and>
   (finite_double c \<and> finite_double d \<and> c < d \<and> round_rat (d - c) < 2 ^ 1024 \<longrightarrow>
     (\<exists>v r'. next_real_range (Fin c) (Fin d) r = Ret (Fin v) r' \<and> c \<le> v \<and> v \<le> d)) \<and>
   (\<exists>c d r r'. c < d \<and> next_real_range (Fin c) (Fin d) r = Ret (Fin d) r')"
proof (intro conjI impI)
  show "\<exists>v r'. next_real_n (Fin b) r = Ret (Fin v) r' \<and> 0 \<le> v \<and> v < b" if "pos_double b" using next_real_n_ok [OF that] by blast
  show "\<exists>v r'. wnext_real pow (Fin b) type r = Ret (Fin v) r' \<and> 0 \<le> v \<and> v \<le> b"
    if "pos_double b \<and> INT_MIN < type \<and> \<bar>type\<bar> < INT_MAX \<and> unit_pow pow" using wnext_real_ok that by blast
  show "\<exists>v r'. next_real_range (Fin c) (Fin d) r = Ret (Fin v) r' \<and> c \<le> v \<and> v \<le> d"
    if "finite_double c \<and> finite_double d \<and> c < d \<and> round_rat (d - c) < 2 ^ 1024" using next_real_range_ok that by blast
  define r0 where "r0 = (random_t_new 1)\<lparr>rt_seed := 8000\<rparr>"
  obtain n where n: "n < 2 ^ 53" "next_real r0 = Ret (Fin (of_int n / 2 ^ 53)) (draw_next (draw_next r0))"
    "n = 2 ^ 27 * (lcg_state (draw_next r0) div 2 ^ 22) + lcg_state (draw_next (draw_next r0)) div 2 ^ 21" using next_real_draw [of r0] by blast
  have "lcg_state r0 = 8000" by (simp add: r0_def lcg_state_def)
  then have "2 ^ 25 < lcg_state (draw_next r0) div 2 ^ 22" by (simp add: lcg_step_def lcg_a_def lcg_c_def)
  moreover have "0 \<le> lcg_state (draw_next (draw_next r0)) div 2 ^ 21" using state_bits(1) [of "draw_next (draw_next r0)" 21] by simp
  ultimately have "2 ^ 52 < n" unfolding n(3) by simp
  from upper_end_reached [OF this n(1,2)] show "\<exists>c d r r'. c < d \<and> next_real_range (Fin c) (Fin d) r = Ret (Fin d) r'"
    by (intro exI [of _ "2 ^ 53"] exI [of _ "2 ^ 53 + 2"] exI [of _ r0] exI) simp_all
qed

theorem random_reals_in_range_witness:
  "(\<exists>v r'. next_real_n (Fin 10) (random_t_new 1) = Ret (Fin v) r' \<and> 0 \<le> v \<and> v < 10) \<and>
   (\<exists>v r'. wnext_real (\<lambda>x y. x) (Fin 10) 100 (random_t_new 1) = Ret (Fin v) r' \<and> 0 \<le> v \<and> v \<le> 10) \<and>
   (\<exists>v r'. next_real_range (Fin 3) (Fin 10) (random_t_new 1) = Ret (Fin v) r' \<and> 3 \<le> v \<and> v \<le> 10)"
proof -
  have "pos_double 10" using representable_dyadic [of 10 0] by (simp add: pos_double_def)
  moreover have "unit_pow (\<lambda>x y. x)" by (auto simp: unit_pow_def)
  moreover have "finite_double 3" "finite_double 10" "round_rat (10 - 3) < 2 ^ 1024"
    using representable_dyadic [of 3 0] representable_dyadic [of 10 0] representable_dyadic [of 7 0] by (simp_all add: finite_double_def representable_def)
  moreover have "INT_MIN < 100" "\<bar>100\<bar> < INT_MAX" by (simp_all add: limit_defs)
  ultimately show ?thesis using random_reals_in_range [of 10 "random_t_new 1" 100 "\<lambda>x y. x" 3 10] by simp
qed

end
